(* ===== verification/Dmcs_Prelude.thy ===== *)
theory Dmcs_Prelude
  imports Main "HOL-Library.Word"
begin

text \<open>
  Shared vocabulary of the development: the result type of operations that may abort or throw, the
  reading of \<open>std::size_t\<close> as natural numbers below \<open>2 ^ 64\<close>, checked vector access,
  and the list lemmas that several components use.
\<close>

section \<open>Collections of rewrite rules\<close>

named_theorems res_simps \<open>unfolding of the result type's combinators\<close>
named_theorems bs_simps \<open>reading the bits of vectors and belief states\<close>

section \<open>Results\<close>

text \<open>
  \<open>Assertion_Failed\<close> is a failing \<open>assert\<close> of the source, \<open>Undefined_Behaviour\<close> an access that
  C++ leaves undefined (a vector read out of range, a dereference of a null pointer),
  \<open>Belief_Unknown\<close> the exception \<open>BeliefUnknownException\<close> with its address, and
  \<open>Runtime_Error\<close> a thrown \<open>std::runtime_error\<close>. \<open>Blocked\<close> is a receive that waits for a message
  which never comes, and \<open>Out_Of_Fuel\<close> a loop that has not ended after the number of rounds that
  the model was given.
\<close>

datatype dmcs_error =
    Assertion_Failed
  | Undefined_Behaviour
  | Belief_Unknown "32 word"
  | Runtime_Error string
  | Blocked
  | Out_Of_Fuel

type_synonym 'a res = "dmcs_error + 'a"

definition bind_res :: "'a res \<Rightarrow> ('a \<Rightarrow> 'b res) \<Rightarrow> 'b res" where
  "bind_res m f = (case m of Inl e \<Rightarrow> Inl e | Inr x \<Rightarrow> f x)"

definition assertion :: "bool \<Rightarrow> 'a res \<Rightarrow> 'a res" where
  "assertion c k = (if c then k else Inl Assertion_Failed)"

definition vec_at :: "'a list \<Rightarrow> nat \<Rightarrow> 'a res" where
  "vec_at xs i = (if i < length xs then Inr (xs ! i) else Inl Undefined_Behaviour)"

definition is_ok :: "'a res \<Rightarrow> bool" where
  "is_ok m = (case m of Inl e \<Rightarrow> False | Inr x \<Rightarrow> True)"

lemma bind_res_simps [simp, res_simps]:
  "bind_res (Inl e) f = Inl e"
  "bind_res (Inr x) f = f x"
  by (simp_all add: bind_res_def)

lemma bind_res_eq_Inr:
  "bind_res m f = Inr y \<longleftrightarrow> (\<exists>x. m = Inr x \<and> f x = Inr y)"
  by (cases m) auto

lemma bind_res_cong [fundef_cong]:
  "m = m' \<Longrightarrow> (\<And>x. m' = Inr x \<Longrightarrow> f x = f' x) \<Longrightarrow> bind_res m f = bind_res m' f'"
  by (cases m') auto

lemma bind_res_assoc:
  "bind_res (bind_res m f) g = bind_res m (\<lambda>x. bind_res (f x) g)"
  by (cases m) auto

lemma assertion_simps [simp, res_simps]:
  "assertion True k = k"
  "assertion False k = Inl Assertion_Failed"
  by (simp_all add: assertion_def)

lemma assertion_eq_Inr: "assertion c k = Inr y \<longleftrightarrow> c \<and> k = Inr y"
  by (simp add: assertion_def)

lemma assertion_cong [fundef_cong]:
  "c = c' \<Longrightarrow> (c' \<Longrightarrow> k = k') \<Longrightarrow> assertion c k = assertion c' k'"
  by (simp add: assertion_def)

lemma vec_at_ok [simp]: "i < length xs \<Longrightarrow> vec_at xs i = Inr (xs ! i)"
  by (simp add: vec_at_def)

lemma vec_at_eq_Inr: "vec_at xs i = Inr y \<longleftrightarrow> i < length xs \<and> xs ! i = y"
  by (simp add: vec_at_def)

lemma is_ok_simps [simp]: "is_ok (Inr x)" "\<not> is_ok (Inl e)"
  by (simp_all add: is_ok_def)

lemma is_ok_iff: "is_ok m \<longleftrightarrow> (\<exists>x. m = Inr x)"
  by (cases m) auto

section \<open>Machine words read as natural numbers\<close>

text \<open>
  A \<open>std::size_t\<close> is a natural number below \<open>SIZE_T\<close>; addition, subtraction and multiplication
  wrap around. Plain \<open>nat\<close> arithmetic is used only where the source's value is a position or a
  length that the surrounding guards keep in range.
\<close>

definition SIZE_T :: nat where
  "SIZE_T = 2 ^ 64"

definition sz_add :: "nat \<Rightarrow> nat \<Rightarrow> nat" where
  "sz_add a b = (a + b) mod SIZE_T"

definition sz_sub :: "nat \<Rightarrow> nat \<Rightarrow> nat" where
  "sz_sub a b = (a + (SIZE_T - b mod SIZE_T)) mod SIZE_T"

definition sz_mul :: "nat \<Rightarrow> nat \<Rightarrow> nat" where
  "sz_mul a b = (a * b) mod SIZE_T"

lemma SIZE_T_pos [simp]: "0 < SIZE_T" "1 < SIZE_T" "SIZE_T \<noteq> 0"
  by (simp_all add: SIZE_T_def)

lemma sz_add_small: "a + b < SIZE_T \<Longrightarrow> sz_add a b = a + b"
  by (simp add: sz_add_def)

lemma sz_mul_small: "a * b < SIZE_T \<Longrightarrow> sz_mul a b = a * b"
  by (simp add: sz_mul_def)

lemma sz_sub_small:
  assumes "b \<le> a" and "a < SIZE_T"
  shows "sz_sub a b = a - b"
proof -
  from assms have "a + (SIZE_T - b mod SIZE_T) = (a - b) + SIZE_T" by simp
  then have "sz_sub a b = (a - b) mod SIZE_T" by (simp only: sz_sub_def mod_add_self2)
  with assms show ?thesis by simp
qed

section \<open>Lists\<close>

lemma filter_upt_split:
  assumes "i \<le> j" and "j < n" and "P j" and "\<And>k. i \<le> k \<Longrightarrow> k < j \<Longrightarrow> \<not> P k"
  shows "filter P [i..<n] = j # filter P [Suc j..<n]"
proof -
  from assms have "[i..<n] = [i..<j] @ j # [Suc j..<n]"
    by (metis less_or_eq_imp_le upt_add_eq_append le_add_diff_inverse upt_conv_Cons)
  moreover from assms(4) have "filter P [i..<j] = []"
    by (simp add: filter_empty_conv)
  ultimately show ?thesis using assms(3) by simp
qed

lemma filter_upt_empty:
  assumes "\<And>k. i \<le> k \<Longrightarrow> k < n \<Longrightarrow> \<not> P k"
  shows "filter P [i..<n] = []"
  using assms by (simp add: filter_empty_conv)

text \<open>The models with numbers \<open>k1\<close> to \<open>k2\<close> (counted from 1) of an enumeration.\<close>

definition model_range :: "nat \<Rightarrow> nat \<Rightarrow> 'a list \<Rightarrow> 'a list" where
  "model_range k1 k2 xs = take (k2 + 1 - k1) (drop (k1 - 1) xs)"

lemma length_model_range: "length (model_range k1 k2 xs) = min (k2 + 1 - k1) (length xs - (k1 - 1))"
  by (simp add: model_range_def)

lemma model_range_append_before:
  assumes "0 < k1" and "length xs < k1"
  shows "model_range k1 k2 (xs @ ys) = model_range (k1 - length xs) (k2 - length xs) ys"
proof -
  from assms have "k1 - 1 - length xs = k1 - length xs - 1" by simp
  moreover from assms have "k2 + 1 - k1 = (k2 - length xs) + 1 - (k1 - length xs) \<or> k2 < k1"
    by auto
  ultimately show ?thesis using assms by (auto simp: model_range_def)
qed

text \<open>What a request for the models \<open>k1\<close> to \<open>k2\<close> means; 0 to 0 asks for all of them.\<close>

definition requested :: "nat \<Rightarrow> nat \<Rightarrow> 'a list \<Rightarrow> 'a list" where
  "requested k1 k2 xs = (if k1 = 0 \<and> k2 = 0 then xs else model_range k1 k2 xs)"

definition good_request :: "nat \<Rightarrow> nat \<Rightarrow> bool" where
  "good_request k1 k2 \<longleftrightarrow> k1 = 0 \<and> k2 = 0 \<or> 0 < k1 \<and> k1 \<le> k2 \<and> k2 < SIZE_T"

text \<open>
  What is left of a request once \<open>len\<close> models have been passed, and whether it is satisfied.
\<close>

definition next_request :: "nat \<Rightarrow> nat \<Rightarrow> nat \<Rightarrow> nat \<times> nat" where
  "next_request k1 k2 len =
     (if k1 = 0 \<and> k2 = 0 \<or> k2 \<le> len then (k1, k2) else (if len < k1 then k1 - len else 1, k2 - len))"

definition satisfied_by :: "nat \<Rightarrow> nat \<Rightarrow> nat \<Rightarrow> bool" where
  "satisfied_by k1 k2 len \<longleftrightarrow> \<not> (k1 = 0 \<and> k2 = 0) \<and> k2 \<le> len"

lemma next_request_good:
  "good_request k1 k2 \<Longrightarrow> next_request k1 k2 len = (a, b) \<Longrightarrow> good_request a b"
  by (auto simp: good_request_def next_request_def split: if_splits)

lemma requested_append:
  assumes "good_request k1 k2" and "next_request k1 k2 (length xs) = (a, b)"
  shows "requested k1 k2 (xs @ ys) =
    requested k1 k2 xs @ (if satisfied_by k1 k2 (length xs) then [] else requested a b ys)"
proof (cases "k1 = 0 \<and> k2 = 0")
  case False
  with assms(1) have k: "0 < k1" "k1 \<le> k2" by (auto simp: good_request_def)
  show ?thesis
  proof (cases "length xs < k1")
    case True
    with assms(2) k have "a = k1 - length xs" "b = k2 - length xs" by (simp_all add: next_request_def)
    with True k False show ?thesis
      by (simp add: requested_def satisfied_by_def model_range_append_before) (simp add: model_range_def)
  next
    case len: False
    then show ?thesis
    proof (cases "k2 \<le> length xs")
      case True
      with k False len show ?thesis by (simp add: requested_def satisfied_by_def model_range_def)
    next
      case False
      then have ab: "a = 1" "b = k2 - length xs" using assms(2) k len by (simp_all add: next_request_def)
      have "k2 + 1 - k1 - (length xs - (k1 - 1)) = k2 - length xs" using False k len by simp
      with False k len ab show ?thesis by (simp add: requested_def satisfied_by_def model_range_def)
    qed
  qed
qed (use assms in \<open>simp_all add: requested_def satisfied_by_def next_request_def\<close>)

lemma next_request_add:
  assumes "good_request k1 k2" and "\<not> satisfied_by k1 k2 l" and "next_request k1 k2 l = (a, b)"
  shows "satisfied_by a b m = satisfied_by k1 k2 (l + m) \<and>
    (\<not> satisfied_by k1 k2 (l + m) \<longrightarrow> next_request a b m = next_request k1 k2 (l + m))"
  using assms by (auto simp: good_request_def satisfied_by_def next_request_def split: if_splits)

lemma requested_map: "requested k1 k2 (map f xs) = map f (requested k1 k2 xs)"
  by (simp add: requested_def model_range_def take_map drop_map)

text \<open>The first element as a pointer that is null when there is none.\<close>

definition head_of :: "'a list \<Rightarrow> 'a option" where
  "head_of xs = (case xs of [] \<Rightarrow> None | x # _ \<Rightarrow> Some x)"

lemma head_of_simps [simp]: "head_of [] = None" "head_of (x # xs) = Some x"
  by (simp_all add: head_of_def)

end
