(* ===== verification/Bit_Vector.thy ===== *)
theory Bit_Vector
  imports Dmcs_Prelude
begin

text \<open>
  The interface of the bit vector class \<open>bm::bvector<>\<close> (\<open>bm3.7.0/src/bm.h\<close>) that the belief
  states are built on: a vector of a fixed size, bit access, the bitwise operators, the comparison
  by the lowest differing bit, and the scanning functions \<open>get_first\<close> and \<open>get_next\<close>, which
  return 0 when there is no further bit. The vector is the list of its bits; the compressed block
  representation of the class is not modelled.
\<close>

type_synonym bvector = "bool list"

section \<open>Operations\<close>

definition bvector_new :: "nat \<Rightarrow> bvector" where
  "bvector_new n = replicate n False"

definition bv_size :: "bvector \<Rightarrow> nat" where
  "bv_size v = length v"

text \<open>Bits beyond the size are in no block and read as 0.\<close>

definition get_bit :: "bvector \<Rightarrow> nat \<Rightarrow> bool" where
  "get_bit v n = (if n < length v then v ! n else False)"

definition set_bit :: "bvector \<Rightarrow> nat \<Rightarrow> bool \<Rightarrow> bvector" where
  "set_bit v n val = v[n := val]"

definition set_all :: "bvector \<Rightarrow> bvector" where
  "set_all v = replicate (length v) True"

definition bv_clear :: "bvector \<Rightarrow> bvector" where
  "bv_clear v = replicate (length v) False"

definition bv_count :: "bvector \<Rightarrow> nat" where
  "bv_count v = length (filter id v)"

definition bv_resize :: "bvector \<Rightarrow> nat \<Rightarrow> bvector" where
  "bv_resize v n = take n v @ replicate (n - length v) False"

definition bit_or :: "bvector \<Rightarrow> bvector \<Rightarrow> bvector" where
  "bit_or v w = map (\<lambda>i. get_bit v i \<or> get_bit w i) [0..<max (length v) (length w)]"

definition bit_and :: "bvector \<Rightarrow> bvector \<Rightarrow> bvector" where
  "bit_and v w = map (\<lambda>i. get_bit v i \<and> get_bit w i) [0..<max (length v) (length w)]"

definition bv_invert :: "bvector \<Rightarrow> bvector" where
  "bv_invert v = map Not v"

text \<open>
  \<open>compare\<close>: the lowest bit in which the vectors differ decides, and the vector that has it set
  is the greater one; a missing tail counts as zeros.
\<close>

fun bv_compare :: "bvector \<Rightarrow> bvector \<Rightarrow> int" where
  "bv_compare [] [] = 0"
| "bv_compare [] (y # ys) = (if y then -1 else bv_compare [] ys)"
| "bv_compare (x # xs) [] = (if x then 1 else bv_compare xs [])"
| "bv_compare (x # xs) (y # ys) =
     (if x = y then bv_compare xs ys else if x then 1 else -1)"

definition bv_eq :: "bvector \<Rightarrow> bvector \<Rightarrow> bool" where
  "bv_eq v w = (bv_compare v w = 0)"

definition bv_less :: "bvector \<Rightarrow> bvector \<Rightarrow> bool" where
  "bv_less v w = (bv_compare v w < 0)"

definition check_or_next :: "bvector \<Rightarrow> nat \<Rightarrow> nat" where
  "check_or_next v prev = (case find (\<lambda>i. v ! i) [prev..<length v] of None \<Rightarrow> 0 | Some i \<Rightarrow> i)"

definition get_first :: "bvector \<Rightarrow> nat" where
  "get_first v = check_or_next v 0"

definition get_next :: "bvector \<Rightarrow> nat \<Rightarrow> nat" where
  "get_next v prev = check_or_next v (Suc prev)"

section \<open>Reading the result of an operation\<close>

lemma bv_length_simps [simp, bs_simps]:
  "length (bvector_new n) = n"
  "length (set_bit v i b) = length v"
  "length (set_all v) = length v"
  "length (bv_clear v) = length v"
  "length (bit_or v w) = max (length v) (length w)"
  "length (bit_and v w) = max (length v) (length w)"
  "length (bv_invert v) = length v"
  "length (bv_resize v n) = n"
  "bv_size v = length v"
  by (simp_all add: bvector_new_def set_bit_def set_all_def bv_clear_def bit_or_def bit_and_def
      bv_invert_def bv_resize_def bv_size_def)

lemma get_bit_simps [simp, bs_simps]:
  "get_bit (bvector_new n) i = False"
  "get_bit (set_bit v n b) i = (if i = n \<and> n < length v then b else get_bit v i)"
  "get_bit (set_all v) i = (i < length v)"
  "get_bit (bv_clear v) i = False"
  "get_bit (bit_or v w) i = (get_bit v i \<or> get_bit w i)"
  "get_bit (bit_and v w) i = (get_bit v i \<and> get_bit w i)"
  "get_bit (bv_invert v) i = (i < length v \<and> \<not> get_bit v i)"
  by (auto simp: get_bit_def bvector_new_def set_bit_def set_all_def bv_clear_def bit_or_def
      bit_and_def bv_invert_def nth_list_update)

lemma get_bit_outside: "length v \<le> i \<Longrightarrow> \<not> get_bit v i"
  by (simp add: get_bit_def)

lemma get_bit_lt: "get_bit v i \<Longrightarrow> i < length v"
  by (simp add: get_bit_def split: if_splits)

lemma bv_eqI: "length v = length w \<Longrightarrow> (\<And>i. get_bit v i = get_bit w i) \<Longrightarrow> v = w"
  unfolding get_bit_def by (rule nth_equalityI) (simp, metis)

lemma bv_count_0: "bv_count v = 0 \<longleftrightarrow> (\<forall>i. \<not> get_bit v i)"
  by (auto simp: bv_count_def filter_empty_conv get_bit_def in_set_conv_nth)

section \<open>Comparison\<close>

lemma bv_compare_antisym: "bv_compare ys xs = - bv_compare xs ys"
  by (induction xs ys rule: bv_compare.induct) simp_all

lemma bv_compare_eq_0: "length xs = length ys \<Longrightarrow> bv_compare xs ys = 0 \<longleftrightarrow> xs = ys"
  by (induction xs ys rule: bv_compare.induct) auto

lemma bv_less_trans:
  assumes "length xs = length ys" and "length ys = length zs"
    and "bv_less xs ys" and "bv_less ys zs"
  shows "bv_less xs zs"
  using assms unfolding bv_less_def
proof (induction xs ys zs rule: list_induct3)
  case Nil
  then show ?case by simp
next
  case (Cons x xs y ys z zs)
  then show ?case by (auto split: if_splits)
qed

lemma bv_eq_iff: "length v = length w \<Longrightarrow> bv_eq v w \<longleftrightarrow> v = w"
  by (simp add: bv_eq_def bv_compare_eq_0)

lemma bv_less_irrefl: "\<not> bv_less v v"
  using bv_compare_eq_0 [of v v] by (simp add: bv_less_def)

lemma bv_less_linear:
  "length v = length w \<Longrightarrow> bv_less v w \<or> v = w \<or> bv_less w v"
  using bv_compare_antisym [of w v] bv_compare_eq_0 [of v w] by (auto simp: bv_less_def)

section \<open>Scanning\<close>

text \<open>
  The contract of a scanning function: \<open>nxt v i\<close> is the next position after \<open>i\<close> that is on,
  or 0 when there is none. The client's view is the list of the positions that are on; the
  equation \<open>positions_unfold\<close> is what every loop of the source that follows \<open>nxt\<close> is proved with.
\<close>

locale bit_scanner =
  fixes wf :: "'v \<Rightarrow> bool"
    and sz :: "'v \<Rightarrow> nat"
    and on :: "'v \<Rightarrow> nat \<Rightarrow> bool"
    and nxt :: "'v \<Rightarrow> nat \<Rightarrow> nat"
  assumes on_lt: "wf v \<Longrightarrow> on v i \<Longrightarrow> i < sz v"
    and nxt_on: "wf v \<Longrightarrow> nxt v i \<noteq> 0 \<Longrightarrow> i < nxt v i \<and> on v (nxt v i)"
    and nxt_least: "wf v \<Longrightarrow> i < j \<Longrightarrow> on v j \<Longrightarrow> nxt v i \<noteq> 0 \<and> nxt v i \<le> j"
begin

lemma nxt_lt: "wf v \<Longrightarrow> nxt v i \<noteq> 0 \<Longrightarrow> nxt v i < sz v"
  using nxt_on on_lt by blast

lemma nxt_0_iff: "wf v \<Longrightarrow> nxt v i = 0 \<longleftrightarrow> (\<forall>j>i. \<not> on v j)"
  using nxt_least nxt_on by (metis neq0_conv)

lemma nxt_decreases: "wf v \<Longrightarrow> nxt v i \<noteq> 0 \<Longrightarrow> sz v - nxt v i < sz v - i"
  using nxt_lt nxt_on by (metis diff_less_mono2 less_trans)

lemma positions_unfold:
  assumes "wf v"
  shows "filter (on v) [Suc i..<sz v] =
    (if nxt v i = 0 then [] else nxt v i # filter (on v) [Suc (nxt v i)..<sz v])"
proof (cases "nxt v i = 0")
  case True
  with assms have "\<forall>j>i. \<not> on v j" by (simp add: nxt_0_iff)
  then show ?thesis using True by (simp add: filter_empty_conv)
next
  case False
  have "\<not> on v k" if "Suc i \<le> k" and "k < nxt v i" for k
    using nxt_least [OF assms, of i k] that by auto
  with False nxt_on [OF assms False] nxt_lt [OF assms False] show ?thesis
    using filter_upt_split [of "Suc i" "nxt v i" "sz v" "on v"] by simp
qed

end

lemma check_or_next_cases:
  "(check_or_next v p = 0 \<and> (\<forall>j\<ge>p. \<not> get_bit v j)) \<or>
   (p \<le> check_or_next v p \<and> get_bit v (check_or_next v p) \<and>
    (\<forall>j. p \<le> j \<longrightarrow> j < check_or_next v p \<longrightarrow> \<not> get_bit v j))"
proof (cases "find (\<lambda>i. v ! i) [p..<length v]")
  case None
  then have "\<forall>j\<ge>p. \<not> get_bit v j" by (auto simp: find_None_iff get_bit_def)
  with None show ?thesis by (simp add: check_or_next_def)
next
  case (Some i)
  then obtain k where k: "k < length v - p" "i = p + k" "v ! i" "\<forall>j<k. \<not> v ! (p + j)"
    by (auto simp: find_Some_iff)
  have "\<not> get_bit v j" if "p \<le> j" "j < i" for j
    using k that by (metis get_bit_def le_add_diff_inverse nat_add_left_cancel_less)
  with Some k show ?thesis by (auto simp: check_or_next_def get_bit_def)
qed

interpretation bv: bit_scanner "\<lambda>v. True" length get_bit get_next
proof
  fix v i j
  show "get_bit v i \<Longrightarrow> i < length v" by (rule get_bit_lt)
  show "get_next v i \<noteq> 0 \<Longrightarrow> i < get_next v i \<and> get_bit v (get_next v i)"
    using check_or_next_cases [of v "Suc i"] by (auto simp: get_next_def)
  show "i < j \<Longrightarrow> get_bit v j \<Longrightarrow> get_next v i \<noteq> 0 \<and> get_next v i \<le> j"
    using check_or_next_cases [of v "Suc i"] unfolding get_next_def
    by (metis Suc_leI not_less not_less_eq_eq zero_less_Suc le_zero_eq)
qed

lemma get_first_cases:
  "(get_first v = 0 \<and> (\<forall>j. \<not> get_bit v j)) \<or>
   (get_bit v (get_first v) \<and> (\<forall>j<get_first v. \<not> get_bit v j))"
  using check_or_next_cases [of v 0] by (auto simp: get_first_def)

end
