(* ===== verification/Belief_State.thy ===== *)
theory Belief_State
  imports Bit_Vector
begin

text \<open>
  \<open>NewBeliefState\<close> (\<open>include/mcs/NewBeliefState.h\<close>, \<open>src/mcs/NewBeliefState.cpp\<close>): a three-valued
  assignment to all beliefs of all contexts as two bit vectors, and \<open>BeliefStateOffset\<close>
  (\<open>src/mcs/BeliefStateOffset.cpp\<close>), which lays the vectors out in one block per context. Bit 0
  of a block is its epsilon bit: off means that nothing is known about the context.
\<close>

section \<open>Belief states\<close>

datatype TruthVal = DMCS_FALSE | DMCS_TRUE | DMCS_UNDEF

record NewBeliefState =
  status_bit :: bvector
  value_bit :: bvector

definition bs_new :: "nat \<Rightarrow> bool \<Rightarrow> NewBeliefState" where
  "bs_new n setall =
     (if setall then \<lparr>status_bit = set_all (bvector_new n), value_bit = set_all (bvector_new n)\<rparr>
      else \<lparr>status_bit = bvector_new n, value_bit = bvector_new n\<rparr>)"

definition bs_new_blocks :: "nat \<Rightarrow> nat \<Rightarrow> bool \<Rightarrow> NewBeliefState" where
  "bs_new_blocks no_bs bs_size setall =
     (if setall
      then \<lparr>status_bit = set_all (bvector_new (no_bs * (bs_size + 1))),
            value_bit = set_all (bvector_new (no_bs * (bs_size + 1)))\<rparr>
      else \<lparr>status_bit = bvector_new (no_bs * (bs_size + 1)),
            value_bit = bvector_new (no_bs * (bs_size + 1))\<rparr>)"

definition bs_copy :: "NewBeliefState \<Rightarrow> NewBeliefState res" where
  "bs_copy bs = assertion (bv_size (status_bit bs) = bv_size (value_bit bs))
     (Inr \<lparr>status_bit = status_bit bs, value_bit = value_bit bs\<rparr>)"

definition bs_eq :: "NewBeliefState \<Rightarrow> NewBeliefState \<Rightarrow> bool" where
  "bs_eq bs1 bs2 = (bv_eq (status_bit bs1) (status_bit bs2) \<and> bv_eq (value_bit bs1) (value_bit bs2))"

definition bs_neq :: "NewBeliefState \<Rightarrow> NewBeliefState \<Rightarrow> bool" where
  "bs_neq bs1 bs2 =
     (\<not> bv_eq (value_bit bs1) (value_bit bs2) \<or> \<not> bv_eq (status_bit bs1) (status_bit bs2))"

definition bs_less :: "NewBeliefState \<Rightarrow> NewBeliefState \<Rightarrow> bool" where
  "bs_less bs1 bs2 =
     (if bv_less (status_bit bs1) (status_bit bs2) then True
      else if bv_eq (status_bit bs1) (status_bit bs2) \<and> bv_less (value_bit bs1) (value_bit bs2)
      then True
      else False)"

definition bs_or :: "NewBeliefState \<Rightarrow> NewBeliefState \<Rightarrow> NewBeliefState" where
  "bs_or bs1 bs2 = bs1\<lparr>status_bit := bit_or (status_bit bs1) (status_bit bs2),
                       value_bit := bit_or (value_bit bs1) (value_bit bs2)\<rparr>"

definition bs_and :: "NewBeliefState \<Rightarrow> NewBeliefState \<Rightarrow> NewBeliefState" where
  "bs_and bs1 bs2 = bs1\<lparr>status_bit := bit_and (status_bit bs1) (status_bit bs2),
                        value_bit := bit_and (value_bit bs1) (value_bit bs2)\<rparr>"

definition bs_size :: "NewBeliefState \<Rightarrow> nat res" where
  "bs_size bs = assertion (bv_size (status_bit bs) = bv_size (value_bit bs))
     (Inr (bv_size (value_bit bs)))"

definition bs_resize :: "NewBeliefState \<Rightarrow> nat \<Rightarrow> NewBeliefState res" where
  "bs_resize bs n = assertion (0 < n)
     (Inr (bs\<lparr>status_bit := bv_resize (status_bit bs) n, value_bit := bv_resize (value_bit bs) n\<rparr>))"

definition bs_test :: "NewBeliefState \<Rightarrow> nat \<Rightarrow> TruthVal res" where
  "bs_test bs pos = bind_res (bs_size bs) (\<lambda>n. assertion (pos < n)
     (Inr (if get_bit (status_bit bs) pos
           then (if get_bit (value_bit bs) pos then DMCS_TRUE else DMCS_FALSE)
           else DMCS_UNDEF)))"

definition bs_test_ctx :: "NewBeliefState \<Rightarrow> nat \<Rightarrow> nat \<Rightarrow> nat list \<Rightarrow> TruthVal res" where
  "bs_test_ctx bs ctx_id pos starting_offset =
     assertion (ctx_id < length starting_offset)
       (bind_res (vec_at starting_offset ctx_id) (\<lambda>off.
        bind_res (bs_size bs) (\<lambda>n. assertion (off + pos < n) (bs_test bs (off + pos)))))"

definition bs_set :: "NewBeliefState \<Rightarrow> nat \<Rightarrow> TruthVal \<Rightarrow> NewBeliefState res" where
  "bs_set bs pos val = bind_res (bs_size bs) (\<lambda>n. assertion (pos < n)
     (Inr (case val of
        DMCS_UNDEF \<Rightarrow> bs\<lparr>status_bit := set_bit (status_bit bs) pos False,
                        value_bit := set_bit (value_bit bs) pos False\<rparr>
      | DMCS_TRUE \<Rightarrow> bs\<lparr>status_bit := set_bit (status_bit bs) pos True,
                       value_bit := set_bit (value_bit bs) pos True\<rparr>
      | DMCS_FALSE \<Rightarrow> bs\<lparr>status_bit := set_bit (status_bit bs) pos True,
                        value_bit := set_bit (value_bit bs) pos False\<rparr>)))"

definition bs_set_ctx ::
  "NewBeliefState \<Rightarrow> nat \<Rightarrow> nat \<Rightarrow> nat list \<Rightarrow> TruthVal \<Rightarrow> NewBeliefState res" where
  "bs_set_ctx bs ctx_id pos starting_offset val =
     assertion (ctx_id < length starting_offset)
       (bind_res (vec_at starting_offset ctx_id) (\<lambda>off.
        bind_res (bs_size bs) (\<lambda>n. assertion (off + pos < n) (bs_set bs (off + pos) val))))"

definition isEpsilon :: "NewBeliefState \<Rightarrow> nat \<Rightarrow> nat list \<Rightarrow> bool res" where
  "isEpsilon bs ctx_id starting_offset =
     bind_res (vec_at starting_offset ctx_id) (\<lambda>off.
       assertion (off < bv_size (status_bit bs)) (Inr (\<not> get_bit (status_bit bs) off)))"

definition setEpsilon :: "NewBeliefState \<Rightarrow> nat \<Rightarrow> nat list \<Rightarrow> NewBeliefState res" where
  "setEpsilon bs ctx_id starting_offset =
     bind_res (vec_at starting_offset ctx_id) (\<lambda>off.
       assertion (off < bv_size (status_bit bs) \<and> off < bv_size (value_bit bs))
         (Inr (bs\<lparr>status_bit := set_bit (status_bit bs) off True,
                  value_bit := set_bit (value_bit bs) off True\<rparr>)))"

fun setEpsilon_upto :: "nat list \<Rightarrow> nat list \<Rightarrow> NewBeliefState \<Rightarrow> NewBeliefState res" where
  "setEpsilon_upto [] starting_offset bs = Inr bs"
| "setEpsilon_upto (i # is) starting_offset bs =
     bind_res (setEpsilon bs i starting_offset) (setEpsilon_upto is starting_offset)"

definition setEpsilon_all :: "NewBeliefState \<Rightarrow> nat list \<Rightarrow> NewBeliefState res" where
  "setEpsilon_all bs starting_offset =
     setEpsilon_upto [0..<length starting_offset] starting_offset bs"

text \<open>The common loop of \<open>getFirst\<close> and \<open>getNext\<close>: walk the status bits until a value bit is on.\<close>

function scan_true :: "NewBeliefState \<Rightarrow> nat \<Rightarrow> nat" where
  "scan_true bs b =
     (if get_bit (value_bit bs) b then b
      else let next = get_next (status_bit bs) b in
        if next = 0 then 0 else scan_true bs next)"
  by pat_completeness auto
termination
  by (relation "measure (\<lambda>(bs, b). length (status_bit bs) - b)") (auto intro: bv.nxt_decreases)

declare scan_true.simps [simp del]

definition getFirst :: "NewBeliefState \<Rightarrow> nat" where
  "getFirst bs =
     (if bv_count (status_bit bs) = 0 then 0 else scan_true bs (get_first (status_bit bs)))"

definition next_true :: "NewBeliefState \<Rightarrow> nat \<Rightarrow> nat" where
  "next_true bs b =
     (let next = get_next (status_bit bs) b in if next = 0 then 0 else scan_true bs next)"

definition getNext :: "NewBeliefState \<Rightarrow> nat \<Rightarrow> nat res" where
  "getNext bs b = assertion (b < bv_size (status_bit bs)) (Inr (next_true bs b))"

definition bs_clear :: "NewBeliefState \<Rightarrow> NewBeliefState" where
  "bs_clear bs = bs\<lparr>status_bit := bv_clear (status_bit bs), value_bit := bv_clear (value_bit bs)\<rparr>"

definition and_bm :: "NewBeliefState \<Rightarrow> bvector \<Rightarrow> NewBeliefState res" where
  "and_bm bs msk = bind_res (bs_size bs) (\<lambda>n. assertion (n = bv_size msk)
     (Inr (bs\<lparr>status_bit := bit_and (status_bit bs) msk,
              value_bit := bit_and (value_bit bs) msk\<rparr>)))"

function consistent_loop :: "NewBeliefState \<Rightarrow> NewBeliefState \<Rightarrow> nat \<Rightarrow> nat \<Rightarrow> bool res" where
  "consistent_loop bs bm end_bit pos =
     bind_res (bs_test bs pos) (\<lambda>a. bind_res (bs_test bm pos) (\<lambda>b.
       if a \<noteq> b then Inr False
       else let pos' = get_next (status_bit bm) pos in
         if pos' \<noteq> 0 \<and> pos' < end_bit then consistent_loop bs bm end_bit pos' else Inr True))"
  by pat_completeness auto
termination
  by (relation "measure (\<lambda>(bs, bm, end_bit, pos). length (status_bit bm) - pos)")
    (auto intro: bv.nxt_decreases)

declare consistent_loop.simps [simp del]

definition consistent_with ::
  "NewBeliefState \<Rightarrow> NewBeliefState \<Rightarrow> nat \<Rightarrow> nat list \<Rightarrow> bool res" where
  "consistent_with bs bm cid starting_offsets =
     assertion (bv_size (status_bit bs) = bv_size (status_bit bm))
     (assertion (bv_size (value_bit bs) = bv_size (value_bit bm))
       (bind_res (isEpsilon bs cid starting_offsets) (\<lambda>e1.
        if e1 then Inr True
        else bind_res (isEpsilon bm cid starting_offsets) (\<lambda>e2.
        if e2 then Inr True
        else let start_bit = starting_offsets ! cid;
                 end_bit = (if cid = length starting_offsets - 1 then bv_size (status_bit bs)
                            else starting_offsets ! (cid + 1))
             in consistent_loop bs bm end_bit (get_next (status_bit bm) start_bit)))))"

section \<open>Combination of two belief states\<close>

fun prepare_masks :: "NewBeliefState \<Rightarrow> NewBeliefState \<Rightarrow> nat list \<Rightarrow> bvector list \<Rightarrow> nat list
    \<Rightarrow> bvector \<Rightarrow> bvector \<Rightarrow> (bvector \<times> bvector) res" where
  "prepare_masks s t starting_offsets masks [] check comb = Inr (check, comb)"
| "prepare_masks s t starting_offsets masks (i # is) check comb =
     bind_res (isEpsilon s i starting_offsets) (\<lambda>es.
     bind_res (isEpsilon t i starting_offsets) (\<lambda>et.
     bind_res (vec_at masks i) (\<lambda>m.
       if \<not> es \<and> \<not> et
       then prepare_masks s t starting_offsets masks is (bit_or check m) comb
       else if es \<and> \<not> et
       then prepare_masks s t starting_offsets masks is check (bit_or comb m)
       else prepare_masks s t starting_offsets masks is check comb)))"

definition combine ::
  "NewBeliefState \<Rightarrow> NewBeliefState \<Rightarrow> nat list \<Rightarrow> bvector list \<Rightarrow> (bool \<times> NewBeliefState) res" where
  "combine s t starting_offsets masks =
     assertion (0 < length masks)
     (bind_res (bs_size s) (\<lambda>ns. bind_res (bs_size t) (\<lambda>nt.
      assertion (ns = nt)
     (assertion (ns = bv_size (masks ! 0))
     (assertion (length starting_offsets = length masks)
     (assertion (1 < length starting_offsets \<longrightarrow>
         ns = starting_offsets ! (length starting_offsets - 1)
              + starting_offsets ! 1 - starting_offsets ! 0)
     (bind_res (prepare_masks s t starting_offsets masks [0..<length starting_offsets]
                  (bvector_new ns) (bvector_new ns)) (\<lambda>(mask_check_consistency, mask_combine).
      bind_res (and_bm s mask_check_consistency) (\<lambda>s1.
      bind_res (and_bm t mask_check_consistency) (\<lambda>t1.
      if bs_neq s1 t1 then Inr (False, s)
      else
      bind_res (and_bm s (bv_invert mask_combine)) (\<lambda>s2.
      bind_res (and_bm t mask_combine) (\<lambda>t2.
      let s2' = bs_or s2 t2 in Inr (True, bs_or s s2')))))))))))))"

section \<open>The layout of the blocks\<close>

record BeliefStateOffset =
  bso_no_blocks :: nat
  bso_size_belief_state :: nat
  bso_masks :: "bvector list"
  bso_starting_offsets :: "nat list"

fun bso_fill :: "nat \<Rightarrow> nat \<Rightarrow> nat list \<Rightarrow> nat list \<Rightarrow> bvector list \<Rightarrow> nat list \<times> bvector list" where
  "bso_fill no_bs size_bs [] offs ms = (offs, ms)"
| "bso_fill no_bs size_bs (i # is) offs ms =
     (let offs' = (if 0 < i then offs[i := offs ! (i - 1) + size_bs + 1] else offs);
          m = fold (\<lambda>j v. set_bit v j True) [offs' ! i..<offs' ! i + size_bs]
                (bvector_new (no_bs * (size_bs + 1)))
      in bso_fill no_bs size_bs is offs' (ms @ [m]))"

definition bso_new :: "nat \<Rightarrow> nat \<Rightarrow> BeliefStateOffset res" where
  "bso_new no_bs size_bs = assertion (0 < no_bs \<and> 0 < size_bs)
     (let (offs, ms) = bso_fill no_bs size_bs [0..<no_bs] (replicate no_bs 0) []
      in Inr \<lparr>bso_no_blocks = no_bs, bso_size_belief_state = size_bs,
              bso_masks = ms, bso_starting_offsets = offs\<rparr>)"

text \<open>The singleton: the first call creates the instance, later calls return it.\<close>

definition bso_create :: "BeliefStateOffset option \<Rightarrow> nat \<Rightarrow> nat \<Rightarrow> BeliefStateOffset res" where
  "bso_create inst no_bs size_bs = (case inst of None \<Rightarrow> bso_new no_bs size_bs | Some b \<Rightarrow> Inr b)"

definition bso_instance :: "BeliefStateOffset option \<Rightarrow> BeliefStateOffset res" where
  "bso_instance inst = (case inst of None \<Rightarrow> Inl Assertion_Failed | Some b \<Rightarrow> Inr b)"

section \<open>The reading of a belief state\<close>

definition bs_view :: "NewBeliefState \<Rightarrow> nat \<Rightarrow> TruthVal" where
  "bs_view bs p = (if get_bit (status_bit bs) p
     then (if get_bit (value_bit bs) p then DMCS_TRUE else DMCS_FALSE) else DMCS_UNDEF)"

text \<open>Both vectors have the given size, and a value bit is on only where the status bit is.\<close>

definition wf_bs :: "nat \<Rightarrow> NewBeliefState \<Rightarrow> bool" where
  "wf_bs n bs \<longleftrightarrow> length (status_bit bs) = n \<and> length (value_bit bs) = n \<and>
     list_all2 (\<lambda>v s. v \<longrightarrow> s) (value_bit bs) (status_bit bs)"

lemma wf_bs_iff:
  "wf_bs n bs \<longleftrightarrow> length (status_bit bs) = n \<and> length (value_bit bs) = n \<and>
     (\<forall>i. get_bit (value_bit bs) i \<longrightarrow> get_bit (status_bit bs) i)"
  by (auto simp: wf_bs_def list_all2_conv_all_nth get_bit_def)

lemma wf_bsD:
  assumes "wf_bs n bs"
  shows "length (status_bit bs) = n" and "length (value_bit bs) = n"
    and "get_bit (value_bit bs) i \<Longrightarrow> get_bit (status_bit bs) i"
  using assms by (auto simp: wf_bs_iff)

lemma bs_size_wf [simp]: "wf_bs n bs \<Longrightarrow> bs_size bs = Inr n"
  by (simp add: bs_size_def wf_bs_iff)

lemma bs_test_wf: "wf_bs n bs \<Longrightarrow> bs_test bs p = assertion (p < n) (Inr (bs_view bs p))"
  by (simp add: bs_test_def bs_view_def wf_bs_iff)

lemma bs_view_eq_iff:
  "wf_bs n a \<Longrightarrow> wf_bs n b \<Longrightarrow> bs_view a p = bs_view b p \<longleftrightarrow>
     get_bit (status_bit a) p = get_bit (status_bit b) p \<and>
     get_bit (value_bit a) p = get_bit (value_bit b) p"
  by (auto simp: bs_view_def wf_bs_iff)

lemma bs_ext:
  assumes "wf_bs n a" and "wf_bs n b" and "\<And>p. p < n \<Longrightarrow> bs_view a p = bs_view b p"
  shows "a = b"
proof -
  have "bs_view a p = bs_view b p" for p
    using assms by (cases "p < n") (auto simp: bs_view_def get_bit_def wf_bs_iff)
  with assms(1,2) show ?thesis
    by (auto intro!: NewBeliefState.equality bv_eqI simp: bs_view_eq_iff wf_bs_iff)
qed

lemma wf_bs_new_blocks [simp, intro]: "wf_bs (n * (s + 1)) (bs_new_blocks n s setall)"
  by (simp add: wf_bs_iff bs_new_blocks_def)

lemma bs_view_new [simp]: "bs_view (bs_new_blocks n s False) p = DMCS_UNDEF"
  by (simp add: bs_view_def bs_new_blocks_def)

lemma bs_set_wf:
  assumes "wf_bs n bs" and "p < n"
  obtains bs' where "bs_set bs p v = Inr bs'" and "wf_bs n bs'" and "bs_view bs' = (bs_view bs)(p := v)"
proof
  show "bs_set bs p v = Inr (case v of
        DMCS_UNDEF \<Rightarrow> bs\<lparr>status_bit := set_bit (status_bit bs) p False,
                        value_bit := set_bit (value_bit bs) p False\<rparr>
      | DMCS_TRUE \<Rightarrow> bs\<lparr>status_bit := set_bit (status_bit bs) p True,
                       value_bit := set_bit (value_bit bs) p True\<rparr>
      | DMCS_FALSE \<Rightarrow> bs\<lparr>status_bit := set_bit (status_bit bs) p True,
                        value_bit := set_bit (value_bit bs) p False\<rparr>)" (is "_ = Inr ?b")
    using assms by (simp add: bs_set_def)
  show "wf_bs n ?b" using assms by (auto simp: wf_bs_iff split: TruthVal.splits)
  show "bs_view ?b = (bs_view bs)(p := v)"
    using assms by (auto simp: bs_view_def wf_bs_iff split: TruthVal.splits)
qed

lemma bs_set_outside: "wf_bs n bs \<Longrightarrow> n \<le> p \<Longrightarrow> bs_set bs p v = Inl Assertion_Failed"
  by (simp add: bs_set_def)

lemma isEpsilon_wf:
  "wf_bs n bs \<Longrightarrow> i < length offs \<Longrightarrow> offs ! i < n \<Longrightarrow>
     isEpsilon bs i offs = Inr (bs_view bs (offs ! i) = DMCS_UNDEF)"
  by (simp add: isEpsilon_def bs_view_def wf_bs_iff)

lemma setEpsilon_wf:
  assumes "wf_bs n bs" and "i < length offs" and "offs ! i < n"
  obtains bs' where "setEpsilon bs i offs = Inr bs'" and "wf_bs n bs'"
    and "bs_view bs' = (bs_view bs)(offs ! i := DMCS_TRUE)"
proof
  show "setEpsilon bs i offs = Inr (bs\<lparr>status_bit := set_bit (status_bit bs) (offs ! i) True,
          value_bit := set_bit (value_bit bs) (offs ! i) True\<rparr>)" (is "_ = Inr ?b")
    using assms by (simp add: setEpsilon_def wf_bs_iff)
  show "wf_bs n ?b" using assms by (auto simp: wf_bs_iff)
  show "bs_view ?b = (bs_view bs)(offs ! i := DMCS_TRUE)"
    using assms by (auto simp: bs_view_def wf_bs_iff)
qed

lemma wf_bs_or [intro]: "wf_bs n a \<Longrightarrow> wf_bs n b \<Longrightarrow> wf_bs n (bs_or a b)"
  by (auto simp: bs_or_def wf_bs_iff)

lemma wf_bs_and [intro]: "wf_bs n a \<Longrightarrow> wf_bs n b \<Longrightarrow> wf_bs n (bs_and a b)"
  by (auto simp: bs_and_def wf_bs_iff)

lemma and_bm_wf:
  "wf_bs n a \<Longrightarrow> length m = n \<Longrightarrow> and_bm a m = Inr (a\<lparr>status_bit := bit_and (status_bit a) m,
     value_bit := bit_and (value_bit a) m\<rparr>)"
  by (simp add: and_bm_def)

lemma bs_bv_eq:
  assumes "wf_bs n a" and "wf_bs n b"
  shows "bv_eq (status_bit a) (status_bit b) \<and> bv_eq (value_bit a) (value_bit b) \<longleftrightarrow> a = b"
proof -
  from assms have "bv_eq (status_bit a) (status_bit b) \<longleftrightarrow> status_bit a = status_bit b"
    and "bv_eq (value_bit a) (value_bit b) \<longleftrightarrow> value_bit a = value_bit b"
    by (simp_all add: bv_eq_iff wf_bsD)
  then show ?thesis by (cases a; cases b; simp)
qed

lemma bs_eq_wf: "wf_bs n a \<Longrightarrow> wf_bs n b \<Longrightarrow> bs_eq a b \<longleftrightarrow> a = b"
  by (simp only: bs_eq_def bs_bv_eq)

lemma bs_neq_wf: "wf_bs n a \<Longrightarrow> wf_bs n b \<Longrightarrow> bs_neq a b \<longleftrightarrow> a \<noteq> b"
  unfolding bs_neq_def using bs_bv_eq [of n a b] by blast

section \<open>Scanning the beliefs that are true\<close>

definition bs_on :: "NewBeliefState \<Rightarrow> nat \<Rightarrow> bool" where
  "bs_on bs i \<longleftrightarrow> bs_view bs i = DMCS_TRUE"

definition eq_sized :: "NewBeliefState \<Rightarrow> bool" where
  "eq_sized bs \<longleftrightarrow> length (status_bit bs) = length (value_bit bs)"

lemma bs_on_bits: "bs_on bs i \<longleftrightarrow> get_bit (status_bit bs) i \<and> get_bit (value_bit bs) i"
  by (simp add: bs_on_def bs_view_def)

lemma scan_true_cases:
  "get_bit (status_bit bs) p \<Longrightarrow>
     (scan_true bs p = 0 \<and> (\<forall>j\<ge>p. \<not> bs_on bs j)) \<or>
     (p \<le> scan_true bs p \<and> bs_on bs (scan_true bs p) \<and>
      (\<forall>j. p \<le> j \<longrightarrow> j < scan_true bs p \<longrightarrow> \<not> bs_on bs j))"
proof (induction bs p rule: scan_true.induct)
  case (1 bs p)
  let ?n = "get_next (status_bit bs) p"
  show ?case
  proof (cases "get_bit (value_bit bs) p")
    case True
    with "1.prems" have "bs_on bs p" by (simp add: bs_on_bits)
    then show ?thesis by (simp add: scan_true.simps [of bs p] True)
  next
    case off: False
    then have offp: "\<not> bs_on bs p" by (simp add: bs_on_bits)
    show ?thesis
    proof (cases "?n = 0")
      case True
      then have "\<not> bs_on bs j" if "p < j" for j
        using that bv.nxt_0_iff by (auto simp: bs_on_bits)
      with offp have "\<forall>j\<ge>p. \<not> bs_on bs j" by (metis le_neq_implies_less)
      with True off show ?thesis by (simp add: scan_true.simps [of bs p])
    next
      case False
      have n: "p < ?n" "get_bit (status_bit bs) ?n" using bv.nxt_on False by blast+
      have gap: "\<not> bs_on bs j" if "p \<le> j" "j < ?n" for j
        using that offp bv.nxt_least [of p j "status_bit bs"]
        by (metis TrueI bs_on_bits le_neq_implies_less not_less)
      have eq: "scan_true bs p = scan_true bs ?n"
        using off False by (simp add: scan_true.simps [of bs p] Let_def)
      from "1.IH" [OF off refl False n(2)] show ?thesis
      proof (elim disjE conjE)
        assume "scan_true bs ?n = 0" "\<forall>j\<ge>?n. \<not> bs_on bs j"
        with gap show ?thesis unfolding eq by (meson not_less)
      next
        assume "?n \<le> scan_true bs ?n" "bs_on bs (scan_true bs ?n)"
          "\<forall>j. ?n \<le> j \<longrightarrow> j < scan_true bs ?n \<longrightarrow> \<not> bs_on bs j"
        with gap n(1) show ?thesis unfolding eq by (meson not_less less_imp_le order_trans)
      qed
    qed
  qed
qed

interpretation bst: bit_scanner eq_sized "\<lambda>bs. length (status_bit bs)" bs_on next_true
proof
  fix bs i j
  show "bs_on bs i \<Longrightarrow> i < length (status_bit bs)"
    by (auto simp: bs_on_bits intro: get_bit_lt)
  let ?n = "get_next (status_bit bs) i"
  have n: "?n \<noteq> 0 \<Longrightarrow> i < ?n \<and> get_bit (status_bit bs) ?n" using bv.nxt_on by blast
  show "next_true bs i \<noteq> 0 \<Longrightarrow> i < next_true bs i \<and> bs_on bs (next_true bs i)"
    using n scan_true_cases [of bs ?n] by (auto simp: next_true_def Let_def split: if_splits)
  assume j: "i < j" "bs_on bs j"
  then have nj: "?n \<noteq> 0" "?n \<le> j"
    using bv.nxt_least [of i j "status_bit bs"] by (auto simp: bs_on_bits)
  with j n scan_true_cases [of bs ?n]
  show "next_true bs i \<noteq> 0 \<and> next_true bs i \<le> j"
    by (auto simp: next_true_def Let_def not_le)
qed

lemma wf_eq_sized [simp]: "wf_bs n bs \<Longrightarrow> eq_sized bs"
  by (simp add: wf_bs_iff eq_sized_def)

lemma getNext_wf: "wf_bs n bs \<Longrightarrow> b < n \<Longrightarrow> getNext bs b = Inr (next_true bs b)"
  by (simp add: getNext_def wf_bs_iff)

lemma getFirst_cases:
  "(getFirst bs = 0 \<and> (\<forall>j. \<not> bs_on bs j)) \<or>
   (bs_on bs (getFirst bs) \<and> (\<forall>j<getFirst bs. \<not> bs_on bs j))"
proof (cases "bv_count (status_bit bs) = 0")
  case True
  then show ?thesis by (simp add: getFirst_def bv_count_0 bs_on_bits)
next
  case False
  then obtain k where "get_bit (status_bit bs) k" by (auto simp: bv_count_0)
  with get_first_cases [of "status_bit bs"]
  have f: "get_bit (status_bit bs) (get_first (status_bit bs))"
    "\<forall>j<get_first (status_bit bs). \<not> get_bit (status_bit bs) j" by auto
  then have "\<not> bs_on bs j" if "j < get_first (status_bit bs)" for j
    using that by (simp add: bs_on_bits)
  with False scan_true_cases [OF f(1)] show ?thesis
    by (simp add: getFirst_def) (metis not_le)
qed

lemma next_true_increases:
  "next_true bs b \<noteq> 0 \<Longrightarrow> b < next_true bs b \<and> next_true bs b < length (status_bit bs)"
  by (cases "get_next (status_bit bs) b = 0")
    (use scan_true_cases [of bs "get_next (status_bit bs) b"] bv.nxt_on [of "status_bit bs" b] in
      \<open>auto simp: next_true_def Let_def bs_on_bits dest: get_bit_lt\<close>)

lemma getNext_increases:
  "getNext bs b = Inr p \<Longrightarrow> p \<noteq> 0 \<Longrightarrow> b < p \<and> p < length (status_bit bs)"
  using next_true_increases [of bs b] by (auto simp: getNext_def assertion_eq_Inr)

end
