(* ===== verification/Belief_Combine.thy ===== *)
theory Belief_Combine
  imports Belief_State
begin

text \<open>
  Facts about the block layout of \<open>BeliefStateOffset\<close> and about \<open>combine\<close>, the join of two belief
  states that the joiners use: a closed form of the layout, the bits of the result, and the
  refinement of the join of partial assignments.
\<close>

section \<open>The layout\<close>

text \<open>The first position of a block; the block of context \<open>i\<close> has \<open>s + 1\<close> positions.\<close>

definition block_start :: "nat \<Rightarrow> nat \<Rightarrow> nat" where
  "block_start s i = i * (s + 1)"

lemma block_start_0 [simp]: "block_start s 0 = 0"
  by (simp add: block_start_def)

lemma block_start_Suc: "block_start s (Suc i) = block_start s i + s + 1"
  by (simp add: block_start_def)

lemma block_start_mono: "i \<le> n \<Longrightarrow> block_start s i \<le> block_start s n"
  unfolding block_start_def by (rule mult_le_mono1)

lemma block_start_less [simp]: "block_start s i < block_start s n \<longleftrightarrow> i < n"
  unfolding block_start_def mult_less_cancel2 by simp

lemma block_start_eq [simp]: "block_start s i = block_start s n \<longleftrightarrow> i = n"
  unfolding block_start_def mult_cancel2 by simp

lemma block_start_fold: "n * Suc s = block_start s n"
  by (simp add: block_start_def)

lemma block_end: "i < n \<Longrightarrow> block_start s i + s < block_start s n"
  using block_start_mono [of "Suc i" n s] by (simp add: block_start_Suc)

lemma block_cases:
  assumes "p < block_start s n"
  obtains i q where "i < n" and "q \<le> s" and "p = block_start s i + q"
proof
  show "p div (s + 1) < n" using assms by (simp add: block_start_def less_mult_imp_div_less)
  show "p mod (s + 1) \<le> s" by (simp add: less_Suc_eq_le [symmetric])
  show "p = block_start s (p div (s + 1)) + p mod (s + 1)"
    unfolding block_start_def by (metis div_mult_mod_eq)
qed

lemma block_unique:
  assumes "q \<le> s" and "q' \<le> s" and "block_start s i + q = block_start s i' + q'"
  shows "i = i'" and "q = q'"
proof -
  have "i < i' \<Longrightarrow> False" if "q \<le> s" "block_start s i + q = block_start s i' + q'" for i i' q q'
    using that block_end [of i i' s] by simp
  from this [of q i i' q'] this [of q' i' i q] assms show "i = i'" by (metis nat_neq_iff)
  with assms(3) show "q = q'" by simp
qed

definition block_mask :: "nat \<Rightarrow> nat \<Rightarrow> nat \<Rightarrow> bvector" where
  "block_mask n s i =
     map (\<lambda>j. block_start s i \<le> j \<and> j < block_start s i + s) [0..<block_start s n]"

lemma length_block_mask [simp]: "length (block_mask n s i) = block_start s n"
  by (simp add: block_mask_def)

lemma get_bit_block_mask:
  "i < n \<Longrightarrow> get_bit (block_mask n s i) j \<longleftrightarrow> block_start s i \<le> j \<and> j < block_start s i + s"
  using block_end [of i n s] by (auto simp: get_bit_def block_mask_def)

lemma length_fold_set_bit [simp]: "length (fold (\<lambda>j v. set_bit v j True) js v) = length v"
  by (induction js arbitrary: v) auto

lemma get_bit_fold_set_bit:
  "get_bit (fold (\<lambda>j v. set_bit v j True) js v) i \<longleftrightarrow> get_bit v i \<or> (i \<in> set js \<and> i < length v)"
  by (induction js arbitrary: v) auto

lemma block_mask_fold:
  "i < n \<Longrightarrow> fold (\<lambda>j v. set_bit v j True) [block_start s i..<block_start s i + s]
     (bvector_new (block_start s n)) = block_mask n s i"
  by (rule bv_eqI)
    (use block_end [of i n s] in \<open>auto simp: get_bit_fold_set_bit get_bit_block_mask\<close>)

lemma bso_fill_from:
  assumes "k \<le> n" and "length offs = n" and "\<forall>i<k. offs ! i = block_start s i"
    and "\<forall>i<n. k \<le> i \<longrightarrow> offs ! i = 0"
  shows "bso_fill n s [k..<n] offs ms =
    (map (\<lambda>i. block_start s i) [0..<n], ms @ map (block_mask n s) [k..<n])"
  using assms
proof (induction "n - k" arbitrary: k offs ms)
  case 0
  then show ?case by (auto intro: nth_equalityI)
next
  case (Suc d)
  then have k: "k < n" by simp
  define offs' where "offs' = (if 0 < k then offs[k := offs ! (k - 1) + s + 1] else offs)"
  have offk: "offs' ! k = block_start s k"
  proof (cases k)
    case (Suc m)
    with Suc.prems k have "offs ! m = block_start s m" by simp
    with Suc Suc.prems(2) k show ?thesis by (simp add: offs'_def block_start_Suc)
  next
    case 0
    with Suc.prems(4) k show ?thesis by (simp add: offs'_def)
  qed
  have "bso_fill n s [Suc k..<n] offs' (ms @ [block_mask n s k]) =
    (map (\<lambda>i. block_start s i) [0..<n], (ms @ [block_mask n s k]) @ map (block_mask n s) [Suc k..<n])"
  proof (rule Suc.hyps(1))
    show "\<forall>i<Suc k. offs' ! i = block_start s i"
      using Suc.prems(3) offk by (auto simp: less_Suc_eq offs'_def)
    show "\<forall>i<n. Suc k \<le> i \<longrightarrow> offs' ! i = 0"
      using Suc.prems(4) by (auto simp: offs'_def)
  qed (use Suc.hyps(2) Suc.prems k in \<open>auto simp: offs'_def\<close>)
  moreover have "bso_fill n s [k..<n] offs ms =
      bso_fill n s [Suc k..<n] offs' (ms @ [block_mask n s k])"
    using k block_mask_fold [OF k] offk
    by (simp add: upt_conv_Cons Let_def block_start_fold flip: offs'_def del: mult_Suc_right)
  ultimately show ?case using k by (simp add: upt_conv_Cons)
qed

definition layout :: "nat \<Rightarrow> nat \<Rightarrow> BeliefStateOffset" where
  "layout n s = \<lparr>bso_no_blocks = n, bso_size_belief_state = s,
     bso_masks = map (block_mask n s) [0..<n],
     bso_starting_offsets = map (\<lambda>i. block_start s i) [0..<n]\<rparr>"

lemma bso_new_layout:
  "bso_new n s = (if 0 < n \<and> 0 < s then Inr (layout n s) else Inl Assertion_Failed)"
  using bso_fill_from [of 0 n "replicate n 0" s "[]"]
  by (simp add: bso_new_def layout_def)

lemma layout_simps [simp]:
  "bso_no_blocks (layout n s) = n"
  "bso_size_belief_state (layout n s) = s"
  "length (bso_masks (layout n s)) = n"
  "length (bso_starting_offsets (layout n s)) = n"
  "i < n \<Longrightarrow> bso_masks (layout n s) ! i = block_mask n s i"
  "i < n \<Longrightarrow> bso_starting_offsets (layout n s) ! i = block_start s i"
  by (simp_all add: layout_def)

section \<open>The bits of a combination\<close>

definition known :: "nat \<Rightarrow> NewBeliefState \<Rightarrow> nat \<Rightarrow> bool" where
  "known s bs i \<longleftrightarrow> bs_view bs (block_start s i) \<noteq> DMCS_UNDEF"

lemma isEpsilon_layout:
  assumes "wf_bs (block_start s n) bs" and "i < n"
  shows "isEpsilon bs i (bso_starting_offsets (layout n s)) = Inr (\<not> known s bs i)"
proof -
  have "block_start s i < block_start s n" using assms(2) by simp
  then show ?thesis
    using assms isEpsilon_wf [OF assms(1), of i "bso_starting_offsets (layout n s)"]
    by (simp add: known_def)
qed

lemma prepare_masks_layout:
  assumes "wf_bs (block_start s n) a" and "wf_bs (block_start s n) b" and "set is \<subseteq> {..<n}"
  shows "prepare_masks a b (bso_starting_offsets (layout n s)) (bso_masks (layout n s)) is c m =
    Inr (fold (\<lambda>i v. bit_or v (block_mask n s i)) (filter (\<lambda>i. known s a i \<and> known s b i) is) c,
         fold (\<lambda>i v. bit_or v (block_mask n s i)) (filter (\<lambda>i. \<not> known s a i \<and> known s b i) is) m)"
  using assms(3)
proof (induction "is" arbitrary: c m)
  case (Cons i "is")
  then have "i < n" by simp
  with Cons show ?case
    by (simp add: isEpsilon_layout [OF assms(1)] isEpsilon_layout [OF assms(2)])
qed simp

lemma length_fold_bit_or:
  "\<forall>i\<in>set is. length (f i) = length c \<Longrightarrow>
     length (fold (\<lambda>i v. bit_or v (f i)) is c) = length c"
  by (induction "is" arbitrary: c) auto

lemma get_bit_fold_bit_or:
  "get_bit (fold (\<lambda>i v. bit_or v (f i)) is c) j \<longleftrightarrow> get_bit c j \<or> (\<exists>i\<in>set is. get_bit (f i) j)"
  by (induction "is" arbitrary: c) auto

text \<open>
  A position is compared when both states know its context, and taken over from the second state
  when only the second one knows the context. In both cases the mask of the block leaves out the
  block's last position.
\<close>

definition compared :: "nat \<Rightarrow> nat \<Rightarrow> NewBeliefState \<Rightarrow> NewBeliefState \<Rightarrow> nat \<Rightarrow> bool" where
  "compared n s a b j \<longleftrightarrow> (\<exists>i<n. known s a i \<and> known s b i \<and> get_bit (block_mask n s i) j)"

definition taken_over :: "nat \<Rightarrow> nat \<Rightarrow> NewBeliefState \<Rightarrow> NewBeliefState \<Rightarrow> nat \<Rightarrow> bool" where
  "taken_over n s a b j \<longleftrightarrow> (\<exists>i<n. \<not> known s a i \<and> known s b i \<and> get_bit (block_mask n s i) j)"

abbreviation masked :: "NewBeliefState \<Rightarrow> bvector \<Rightarrow> NewBeliefState" where
  "masked x k \<equiv>
     x\<lparr>status_bit := bit_and (status_bit x) k, value_bit := bit_and (value_bit x) k\<rparr>"

lemma wf_masked: "wf_bs N x \<Longrightarrow> length k = N \<Longrightarrow> wf_bs N (masked x k)"
  by (auto simp: wf_bs_iff)

lemma bs_neq_masked:
  assumes a: "wf_bs N a" and b: "wf_bs N b" and k: "length k = N"
  shows "bs_neq (masked a k) (masked b k) \<longleftrightarrow> \<not> (\<forall>j. get_bit k j \<longrightarrow> bs_view a j = bs_view b j)"
proof -
  have "masked a k = masked b k \<longleftrightarrow> (\<forall>j. get_bit k j \<longrightarrow> bs_view a j = bs_view b j)"
  proof
    assume h: "masked a k = masked b k"
    have "get_bit (status_bit (masked a k)) j = get_bit (status_bit (masked b k)) j"
      "get_bit (value_bit (masked a k)) j = get_bit (value_bit (masked b k)) j" for j
      by (simp_all only: h)
    then show "\<forall>j. get_bit k j \<longrightarrow> bs_view a j = bs_view b j"
      by (auto simp: bs_view_eq_iff [OF a b])
  next
    assume h: "\<forall>j. get_bit k j \<longrightarrow> bs_view a j = bs_view b j"
    show "masked a k = masked b k"
      by (rule bs_ext [OF wf_masked [OF a k] wf_masked [OF b k]])
        (use h in \<open>auto simp: bs_view_def split: if_splits\<close>)
  qed
  then show ?thesis by (simp add: bs_neq_wf [OF wf_masked [OF a k] wf_masked [OF b k]])
qed

lemma combine_layout:
  assumes a: "wf_bs (block_start s n) a" and b: "wf_bs (block_start s n) b" and n: "0 < n"
  obtains r where
    "combine a b (bso_starting_offsets (layout n s)) (bso_masks (layout n s)) =
       Inr (if \<forall>j. compared n s a b j \<longrightarrow> bs_view a j = bs_view b j then (True, r) else (False, a))"
    and "wf_bs (block_start s n) r"
    and "\<And>j. get_bit (status_bit r) j \<longleftrightarrow>
      get_bit (status_bit a) j \<or> taken_over n s a b j \<and> get_bit (status_bit b) j"
    and "\<And>j. get_bit (value_bit r) j \<longleftrightarrow>
      get_bit (value_bit a) j \<or> taken_over n s a b j \<and> get_bit (value_bit b) j"
proof -
  let ?N = "block_start s n"
  define c where "c = fold (\<lambda>i v. bit_or v (block_mask n s i))
    (filter (\<lambda>i. known s a i \<and> known s b i) [0..<n]) (bvector_new ?N)"
  define m where "m = fold (\<lambda>i v. bit_or v (block_mask n s i))
    (filter (\<lambda>i. \<not> known s a i \<and> known s b i) [0..<n]) (bvector_new ?N)"
  have pm: "prepare_masks a b (bso_starting_offsets (layout n s)) (bso_masks (layout n s)) [0..<n]
      (bvector_new ?N) (bvector_new ?N) = Inr (c, m)"
    using prepare_masks_layout [OF a b, of "[0..<n]"] by (simp add: c_def m_def lessThan_atLeast0)
  have lc: "length c = ?N" and lm: "length m = ?N"
    by (simp_all add: c_def m_def length_fold_bit_or)
  have bc: "get_bit c j \<longleftrightarrow> compared n s a b j" for j
    by (auto simp: c_def get_bit_fold_bit_or compared_def)
  have bm: "get_bit m j \<longleftrightarrow> taken_over n s a b j" for j
    by (auto simp: m_def get_bit_fold_bit_or taken_over_def)
  define r where "r = bs_or a (bs_or (masked a (bv_invert m)) (masked b m))"
  have wr: "wf_bs ?N r"
    unfolding r_def using a b lm by (intro wf_bs_or wf_masked) auto
  have last: "n > 1 \<Longrightarrow> ?N = block_start s (n - 1) + block_start s 1 - block_start s 0"
    using n block_start_Suc [of s "n - 1"] block_start_Suc [of s 0] by simp
  have "combine a b (bso_starting_offsets (layout n s)) (bso_masks (layout n s)) =
      Inr (if \<forall>j. compared n s a b j \<longrightarrow> bs_view a j = bs_view b j then (True, r) else (False, a))"
    using n last a b lc lm bs_neq_masked [OF a b lc] unfolding combine_def
    by (simp add: pm and_bm_wf [OF a] and_bm_wf [OF b] bc r_def Let_def)
  then show ?thesis
  proof (rule that)
    show "get_bit (status_bit r) j \<longleftrightarrow>
        get_bit (status_bit a) j \<or> taken_over n s a b j \<and> get_bit (status_bit b) j" for j
      by (auto simp: r_def bs_or_def bm)
    show "get_bit (value_bit r) j \<longleftrightarrow>
        get_bit (value_bit a) j \<or> taken_over n s a b j \<and> get_bit (value_bit b) j" for j
      by (auto simp: r_def bs_or_def bm)
  qed (rule wr)
qed

section \<open>Refinement of the join of partial assignments\<close>

text \<open>
  The specification: a belief state says nothing or a list of truth values about each context;
  two answers about a context are compatible unless they differ, and merging prefers the first.
\<close>

definition ctx_belief :: "nat \<Rightarrow> NewBeliefState \<Rightarrow> nat \<Rightarrow> TruthVal list option" where
  "ctx_belief s bs i =
     (if known s bs i then Some (map (\<lambda>p. bs_view bs (block_start s i + p)) [0..<s]) else None)"

definition compatible :: "'a option \<Rightarrow> 'a option \<Rightarrow> bool" where
  "compatible x y = (case x of None \<Rightarrow> True | Some u \<Rightarrow> (case y of None \<Rightarrow> True | Some v \<Rightarrow> u = v))"

definition merge :: "'a option \<Rightarrow> 'a option \<Rightarrow> 'a option" where
  "merge x y = (case x of None \<Rightarrow> y | Some u \<Rightarrow> Some u)"

definition blank_unknown :: "nat \<Rightarrow> nat \<Rightarrow> NewBeliefState \<Rightarrow> bool" where
  "blank_unknown n s bs \<longleftrightarrow>
     (\<forall>i<n. \<not> known s bs i \<longrightarrow> (\<forall>p < s. bs_view bs (block_start s i + p) = DMCS_UNDEF))"

lemma mask_position:
  "i < n \<Longrightarrow> get_bit (block_mask n s i) j \<longleftrightarrow> (\<exists>p < s. j = block_start s i + p)"
  by (auto simp: get_bit_block_mask le_iff_add)

lemma compared_compatible:
  "(\<forall>j. compared n s a b j \<longrightarrow> bs_view a j = bs_view b j) \<longleftrightarrow>
     (\<forall>i<n. compatible (ctx_belief s a i) (ctx_belief s b i))"
proof -
  have "(\<forall>j. compared n s a b j \<longrightarrow> bs_view a j = bs_view b j) \<longleftrightarrow>
    (\<forall>i<n. known s a i \<and> known s b i \<longrightarrow>
       (\<forall>p < s. bs_view a (block_start s i + p) = bs_view b (block_start s i + p)))"
    unfolding compared_def using mask_position by metis
  also have "\<dots> \<longleftrightarrow> (\<forall>i<n. compatible (ctx_belief s a i) (ctx_belief s b i))"
    by (auto simp: compatible_def ctx_belief_def)
  finally show ?thesis .
qed

lemma taken_over_block:
  assumes "i < n" and "p \<le> s"
  shows "taken_over n s a b (block_start s i + p) \<longleftrightarrow> \<not> known s a i \<and> known s b i \<and> p < s"
proof
  assume "taken_over n s a b (block_start s i + p)"
  then obtain k q where k: "k < n" "\<not> known s a k" "known s b k" "q < s"
    "block_start s i + p = block_start s k + q"
    by (auto simp: taken_over_def mask_position)
  from block_unique [OF assms(2) _ k(5)] k show "\<not> known s a i \<and> known s b i \<and> p < s" by auto
next
  assume "\<not> known s a i \<and> known s b i \<and> p < s"
  with assms show "taken_over n s a b (block_start s i + p)"
    by (auto simp: taken_over_def mask_position)
qed

text \<open>A state that a join works on: of the size of the layout, and saying nothing about unknown contexts.\<close>

definition well_state :: "nat \<Rightarrow> nat \<Rightarrow> NewBeliefState \<Rightarrow> bool" where
  "well_state n s bs \<longleftrightarrow> wf_bs (block_start s n) bs \<and> blank_unknown n s bs"

lemma combine_join:
  assumes n: "0 < n" "0 < s" and a: "well_state n s a" and b: "wf_bs (block_start s n) b"
  obtains r where "combine a b (bso_starting_offsets (layout n s)) (bso_masks (layout n s)) =
        Inr (\<forall>i<n. compatible (ctx_belief s a i) (ctx_belief s b i), r)"
    and "well_state n s r"
    and "if \<forall>i<n. compatible (ctx_belief s a i) (ctx_belief s b i)
         then \<forall>i<n. ctx_belief s r i = merge (ctx_belief s a i) (ctx_belief s b i) else r = a"
proof -
  from a have wfa: "wf_bs (block_start s n) a" and blank: "blank_unknown n s a"
    by (simp_all add: well_state_def)
  obtain r where r: "combine a b (bso_starting_offsets (layout n s)) (bso_masks (layout n s)) =
      Inr (if \<forall>j. compared n s a b j \<longrightarrow> bs_view a j = bs_view b j then (True, r) else (False, a))"
    "wf_bs (block_start s n) r"
    "\<And>j. get_bit (status_bit r) j \<longleftrightarrow>
       get_bit (status_bit a) j \<or> taken_over n s a b j \<and> get_bit (status_bit b) j"
    "\<And>j. get_bit (value_bit r) j \<longleftrightarrow>
       get_bit (value_bit a) j \<or> taken_over n s a b j \<and> get_bit (value_bit b) j"
    by (rule combine_layout [OF wfa b n(1)]) blast
  have view: "bs_view r (block_start s i + p) =
      (if known s a i then bs_view a (block_start s i + p) else
       if known s b i then bs_view b (block_start s i + p) else DMCS_UNDEF)" if "i < n" "p < s" for i p
    using that blank taken_over_block [OF that(1) less_imp_le [OF that(2)], of a b] r(3,4)
      wf_bsD(3) [OF wfa]
    by (auto simp: bs_view_def blank_unknown_def split: if_splits)
  have kr: "known s r i \<longleftrightarrow> known s a i \<or> known s b i" if "i < n" for i
    using view [OF that n(2)] by (auto simp: known_def)
  have "ctx_belief s r i = merge (ctx_belief s a i) (ctx_belief s b i)" if "i < n" for i
    using view [OF that] kr [OF that] by (auto simp: ctx_belief_def merge_def)
  moreover have "well_state n s r"
    using r(2) view kr by (simp add: well_state_def blank_unknown_def)
  ultimately show thesis
    using r(1) a that by (auto simp: compared_compatible split: if_splits)
qed

text \<open>
  C2. \<open>combine\<close> refines the join of partial assignments: it succeeds exactly when the two belief
  states are compatible on every context, and then the first state holds the merge of the two,
  context by context; on a conflict the first state is returned unchanged. (The comparison and
  the merge are about the positions that the masks of \<open>BeliefStateOffset\<close> cover.)
\<close>

theorem combine_refines_join:
  assumes "bso_new n s = Inr bso"
    and "wf_bs (n * (s + 1)) a" and "wf_bs (n * (s + 1)) b" and "blank_unknown n s a"
  shows "\<exists>r. combine a b (bso_starting_offsets bso) (bso_masks bso) =
        Inr (\<forall>i<n. compatible (ctx_belief s a i) (ctx_belief s b i), r) \<and>
      wf_bs (n * (s + 1)) r \<and>
      (if \<forall>i<n. compatible (ctx_belief s a i) (ctx_belief s b i)
       then \<forall>i<n. ctx_belief s r i = merge (ctx_belief s a i) (ctx_belief s b i)
       else r = a)"
proof -
  from assms(1) have n: "0 < n" "0 < s" and bso: "bso = layout n s"
    by (auto simp: bso_new_layout split: if_splits)
  note wf = assms(2,3) [folded block_start_def]
  from wf(1) assms(4) have "well_state n s a" by (simp add: well_state_def)
  then obtain r where r: "combine a b (bso_starting_offsets (layout n s)) (bso_masks (layout n s)) =
        Inr (\<forall>i<n. compatible (ctx_belief s a i) (ctx_belief s b i), r)" "well_state n s r"
      "if \<forall>i<n. compatible (ctx_belief s a i) (ctx_belief s b i)
         then \<forall>i<n. ctx_belief s r i = merge (ctx_belief s a i) (ctx_belief s b i) else r = a"
    by (rule combine_join [OF n _ wf(2)])
  from r(2) have "wf_bs (block_start s n) r" by (simp add: well_state_def)
  with r(1,3) show ?thesis unfolding bso block_start_def [symmetric] by blast
qed

theorem combine_refines_join_witness:
  "\<exists>r. combine \<lparr>status_bit = [True, True, False, False, False, False],
                value_bit = [True, True, False, False, False, False]\<rparr>
               \<lparr>status_bit = [False, False, False, True, True, False],
                value_bit = [False, False, False, True, False, False]\<rparr>
               (bso_starting_offsets (layout 2 2)) (bso_masks (layout 2 2)) = Inr (True, r)"
proof -
  let ?a = "\<lparr>status_bit = [True, True, False, False, False, False],
                value_bit = [True, True, False, False, False, False]\<rparr>"
  let ?b = "\<lparr>status_bit = [False, False, False, True, True, False],
                value_bit = [False, False, False, True, False, False]\<rparr>"
  have 1: "bso_new 2 2 = Inr (layout 2 2)" by (simp add: bso_new_layout)
  have 2: "wf_bs (2 * (2 + 1)) ?a" "wf_bs (2 * (2 + 1)) ?b" by (simp_all add: wf_bs_def)
  have 3: "blank_unknown 2 2 ?a"
    by (simp add: blank_unknown_def known_def bs_view_def get_bit_def block_start_def
        less_Suc_eq numeral_2_eq_2)
  have "\<forall>i<2. compatible (ctx_belief 2 ?a i) (ctx_belief 2 ?b i)"
    by (simp add: compatible_def ctx_belief_def known_def bs_view_def get_bit_def block_start_def
        less_Suc_eq numeral_2_eq_2)
  with combine_refines_join [OF 1 2 3] show ?thesis by auto
qed

text \<open>The result depends on the second state only at the positions compared or taken over.\<close>

lemma combine_cong:
  assumes a: "wf_bs (block_start s n) a" and b: "wf_bs (block_start s n) b"
    and b': "wf_bs (block_start s n) b'" and n: "0 < n" and known: "\<And>k. known s b' k = known s b k"
    and view: "\<And>j. compared n s a b j \<or> taken_over n s a b j \<Longrightarrow> bs_view b' j = bs_view b j"
  shows "combine a b' (bso_starting_offsets (layout n s)) (bso_masks (layout n s)) =
    combine a b (bso_starting_offsets (layout n s)) (bso_masks (layout n s))"
proof -
  have comp: "compared n s a b' j = compared n s a b j" "taken_over n s a b' j = taken_over n s a b j" for j
    by (simp_all add: compared_def taken_over_def known)
  have bits: "get_bit (status_bit b') j = get_bit (status_bit b) j"
    "get_bit (value_bit b') j = get_bit (value_bit b) j" if "taken_over n s a b j" for j
    using that view bs_view_eq_iff [OF b' b] by auto
  obtain r where r: "combine a b (bso_starting_offsets (layout n s)) (bso_masks (layout n s)) =
      Inr (if \<forall>j. compared n s a b j \<longrightarrow> bs_view a j = bs_view b j then (True, r) else (False, a))"
    "wf_bs (block_start s n) r"
    "\<And>j. get_bit (status_bit r) j \<longleftrightarrow>
       get_bit (status_bit a) j \<or> taken_over n s a b j \<and> get_bit (status_bit b) j"
    "\<And>j. get_bit (value_bit r) j \<longleftrightarrow>
       get_bit (value_bit a) j \<or> taken_over n s a b j \<and> get_bit (value_bit b) j"
    by (rule combine_layout [OF a b n]) blast
  obtain r' where r': "combine a b' (bso_starting_offsets (layout n s)) (bso_masks (layout n s)) =
      Inr (if \<forall>j. compared n s a b' j \<longrightarrow> bs_view a j = bs_view b' j then (True, r') else (False, a))"
    "wf_bs (block_start s n) r'"
    "\<And>j. get_bit (status_bit r') j \<longleftrightarrow>
       get_bit (status_bit a) j \<or> taken_over n s a b' j \<and> get_bit (status_bit b') j"
    "\<And>j. get_bit (value_bit r') j \<longleftrightarrow>
       get_bit (value_bit a) j \<or> taken_over n s a b' j \<and> get_bit (value_bit b') j"
    by (rule combine_layout [OF a b' n]) blast
  have "r' = r"
    by (rule bs_ext [OF r'(2) r(2)]) (use r(3,4) r'(3,4) bits comp in \<open>auto simp: bs_view_def\<close>)
  with r(1) r'(1) view comp show ?thesis by auto
qed

text \<open>
  C29. The last belief of a block is outside its mask: \<open>combine\<close> neither compares it nor takes it
  over, so changing the last belief of any context in the second argument never changes the result.
\<close>

theorem combine_ignores_last_belief:
  assumes "bso_new n s = Inr bso"
    and "wf_bs (n * (s + 1)) a" and "wf_bs (n * (s + 1)) b" and "i < n"
  shows "\<exists>b'. bs_set_ctx b i s (bso_starting_offsets bso) v = Inr b' \<and>
     combine a b' (bso_starting_offsets bso) (bso_masks bso) =
     combine a b (bso_starting_offsets bso) (bso_masks bso)"
proof -
  from assms(1) have n: "0 < n" "0 < s" and bso: "bso = layout n s"
    by (auto simp: bso_new_layout split: if_splits)
  note wf = assms(2,3) [folded block_start_def]
  have lt: "block_start s i + s < block_start s n" using assms(4) by (rule block_end)
  obtain b' where b': "bs_set b (block_start s i + s) v = Inr b'" "wf_bs (block_start s n) b'"
    "bs_view b' = (bs_view b)(block_start s i + s := v)"
    by (rule bs_set_wf [OF wf(2) lt])
  have set: "bs_set_ctx b i s (bso_starting_offsets bso) v = Inr b'"
    using assms(4) wf(2) lt b'(1) by (simp add: bs_set_ctx_def bso)
  have same: "bs_view b' (block_start s k + q) = bs_view b (block_start s k + q)" if "q < s" for k q
    using block_unique [of s s q i k] that n by (auto simp: b'(3))
  have known: "known s b' k = known s b k" for k
    using same [of 0 k] n by (simp add: known_def)
  have view: "bs_view b' j = bs_view b j" if "compared n s a b j \<or> taken_over n s a b j" for j
    using that same by (auto simp: compared_def taken_over_def mask_position)
  have "combine a b' (bso_starting_offsets bso) (bso_masks bso) =
      combine a b (bso_starting_offsets bso) (bso_masks bso)"
    unfolding bso by (rule combine_cong [OF wf b'(2) n(1) known view])
  with set show ?thesis by blast
qed

theorem combine_ignores_last_belief_witness:
  "\<exists>b'. bs_set_ctx (bs_new_blocks 2 3 True) 1 3 (bso_starting_offsets (layout 2 3)) DMCS_FALSE = Inr b' \<and>
     combine (bs_new_blocks 2 3 True) b' (bso_starting_offsets (layout 2 3)) (bso_masks (layout 2 3)) =
     combine (bs_new_blocks 2 3 True) (bs_new_blocks 2 3 True)
       (bso_starting_offsets (layout 2 3)) (bso_masks (layout 2 3))"
  by (rule combine_ignores_last_belief [where n = 2 and s = 3 and i = 1])
    (auto simp: bso_new_layout wf_bs_def bs_new_blocks_def set_all_def bvector_new_def list_all2_conv_all_nth)

section \<open>Consistency of a model with an input\<close>

lemma view_status: "bs_view b p \<noteq> DMCS_UNDEF \<longleftrightarrow> get_bit (status_bit b) p"
  by (simp add: bs_view_def)

lemma consistent_loop_ok:
  assumes "wf_bs N a" and "wf_bs N b" and "pos < N"
  shows "is_ok (consistent_loop a b e pos)"
  using assms
proof (induction a b e pos rule: consistent_loop.induct)
  case (1 bs bm e pos)
  have t: "bs_test bs pos = Inr (bs_view bs pos)" "bs_test bm pos = Inr (bs_view bm pos)"
    using 1(2-4) by (simp_all add: bs_test_wf)
  have "get_next (status_bit bm) pos < N" if "get_next (status_bit bm) pos \<noteq> 0"
    using bv.nxt_lt [OF _ that] 1(3) by (simp add: wf_bs_iff)
  with 1(1) [OF t(1) t(2) _ refl] 1(2,3) t show ?case
    by (subst consistent_loop.simps) (simp add: Let_def)
qed

lemma consistent_loop_scan:
  assumes "wf_bs N a" and "wf_bs N b" and "pos < N" and "pos < e" and "get_bit (status_bit b) pos"
  shows "consistent_loop a b e pos =
    Inr (\<forall>p. pos \<le> p \<and> p < e \<and> get_bit (status_bit b) p \<longrightarrow> bs_view a p = bs_view b p)"
  using assms
proof (induction a b e pos rule: consistent_loop.induct)
  case (1 bs bm e pos)
  let ?n = "get_next (status_bit bm) pos"
  have t: "bs_test bs pos = Inr (bs_view bs pos)" "bs_test bm pos = Inr (bs_view bm pos)"
    using 1(2-4) by (simp_all add: bs_test_wf)
  note IH = 1(1) [OF t(1) t(2) _ refl]
  have n: "?n \<noteq> 0 \<Longrightarrow> pos < ?n \<and> get_bit (status_bit bm) ?n \<and> ?n < N"
    using bv.nxt_on [of "status_bit bm" pos] 1(3) by (auto simp: wf_bs_iff dest: get_bit_lt)
  have gap: "?n \<noteq> 0 \<and> ?n \<le> p" if "pos < p" "get_bit (status_bit bm) p" for p
    using bv.nxt_least [of pos p "status_bit bm"] that by simp
  show ?case
  proof (cases "bs_view bs pos = bs_view bm pos")
    case False
    with t 1(5,6) show ?thesis by (subst consistent_loop.simps) auto
  next
    case True
    show ?thesis
    proof (cases "?n \<noteq> 0 \<and> ?n < e")
      case False
      have "bs_view bs p = bs_view bm p" if "pos \<le> p" "p < e" "get_bit (status_bit bm) p" for p
        using that gap [of p] False True by (cases "p = pos") auto
      with False t True show ?thesis by (subst consistent_loop.simps) (auto simp: Let_def)
    next
      case nx: True
      then have "consistent_loop bs bm e pos = consistent_loop bs bm e ?n"
        using t True by (subst consistent_loop.simps) (simp add: Let_def)
      also have "\<dots> = Inr (\<forall>p. ?n \<le> p \<and> p < e \<and> get_bit (status_bit bm) p \<longrightarrow> bs_view bs p = bs_view bm p)"
        using IH nx n 1(2,3) True by blast
      also have "(\<forall>p. ?n \<le> p \<and> p < e \<and> get_bit (status_bit bm) p \<longrightarrow> bs_view bs p = bs_view bm p) \<longleftrightarrow>
          (\<forall>p. pos \<le> p \<and> p < e \<and> get_bit (status_bit bm) p \<longrightarrow> bs_view bs p = bs_view bm p)"
        using gap n nx True by (metis le_less less_le_trans order_trans)
      finally show ?thesis .
    qed
  qed
qed

lemma consistent_with_layout:
  assumes a: "wf_bs (block_start s n) a" and b: "wf_bs (block_start s n) b" and i: "i < n"
  shows "consistent_with a b i (bso_starting_offsets (layout n s)) =
    (if known s a i \<and> known s b i
     then consistent_loop a b (block_start s (Suc i)) (get_next (status_bit b) (block_start s i)) else Inr True)"
proof -
  have e: "(if i = length (bso_starting_offsets (layout n s)) - 1 then bv_size (status_bit a)
      else bso_starting_offsets (layout n s) ! (i + 1)) = block_start s (Suc i)"
    using a i by (auto simp: bv_size_def wf_bs_iff)
  show ?thesis
    using a b i isEpsilon_layout [OF a i] isEpsilon_layout [OF b i] e
    by (simp add: consistent_with_def Let_def wf_bs_iff bv_size_def)
qed

lemma consistent_with_ok:
  assumes "wf_bs (block_start s n) a" and "wf_bs (block_start s n) b" and "i < n"
  shows "is_ok (consistent_with a b i (bso_starting_offsets (layout n s)))"
proof -
  have "get_next (status_bit b) (block_start s i) < block_start s n"
    using bv.nxt_lt [of "status_bit b" "block_start s i"] assms(2) block_start_less [of s 0 n] assms(3)
    by (cases "get_next (status_bit b) (block_start s i) = 0") (auto simp: wf_bs_iff)
  then show ?thesis
    using consistent_loop_ok [OF assms(1,2)] by (simp add: consistent_with_layout [OF assms])
qed

text \<open>
  C22. \<open>consistent_with\<close>: when the second state decides some belief of the context, the test
  succeeds exactly when one of the two states does not know the context or the first state has
  the value of the second at each belief of the context that the second decides.
\<close>

theorem consistent_with_correct:
  assumes "bso_new n s = Inr bso" and "wf_bs (n * (s + 1)) a" and "wf_bs (n * (s + 1)) b" and "i < n"
    and "\<exists>p. block_start s i < p \<and> p < block_start s (i + 1) \<and> bs_view b p \<noteq> DMCS_UNDEF"
  shows "consistent_with a b i (bso_starting_offsets bso) =
    Inr (known s a i \<and> known s b i \<longrightarrow>
      (\<forall>p. block_start s i < p \<and> p < block_start s (i + 1) \<and> bs_view b p \<noteq> DMCS_UNDEF \<longrightarrow>
         bs_view a p = bs_view b p))"
proof -
  from assms(1) have bso: "bso = layout n s" by (auto simp: bso_new_layout split: if_splits)
  note wf = assms(2,3) [folded block_start_def]
  let ?n = "get_next (status_bit b) (block_start s i)"
  from assms(5) obtain p where p: "block_start s i < p" "p < block_start s (Suc i)" "get_bit (status_bit b) p"
    by (auto simp: view_status)
  then have n: "?n \<noteq> 0" "?n \<le> p" using bv.nxt_least [of "block_start s i" p "status_bit b"] by auto
  then have n': "block_start s i < ?n" "get_bit (status_bit b) ?n"
    using bv.nxt_on [of "status_bit b" "block_start s i"] by auto
  have lt: "?n < block_start s n" using get_bit_lt [OF n'(2)] wf(2) by (simp add: wf_bs_iff)
  have "(\<forall>p. ?n \<le> p \<and> p < block_start s (Suc i) \<and> get_bit (status_bit b) p \<longrightarrow> bs_view a p = bs_view b p) \<longleftrightarrow>
      (\<forall>p. block_start s i < p \<and> p < block_start s (Suc i) \<and> get_bit (status_bit b) p \<longrightarrow> bs_view a p = bs_view b p)"
    using n'(1) bv.nxt_least [of "block_start s i" _ "status_bit b"] by (metis TrueI less_le_trans)
  then show ?thesis unfolding bso consistent_with_layout [OF wf assms(4)]
    using consistent_loop_scan [OF wf lt _ n'(2), of "block_start s (Suc i)"] n p by (auto simp: view_status)
qed

theorem consistent_with_correct_witness:
  "consistent_with \<lparr>status_bit = [True, True, False], value_bit = [True, True, False]\<rparr>
     \<lparr>status_bit = [True, True, False], value_bit = [True, False, False]\<rparr> 0 (bso_starting_offsets (layout 1 2)) = Inr False"
proof -
  have 1: "bso_new 1 2 = Inr (layout 1 2)" by (simp add: bso_new_layout)
  let ?a = "\<lparr>status_bit = [True, True, False], value_bit = [True, True, False]\<rparr>"
  let ?b = "\<lparr>status_bit = [True, True, False], value_bit = [True, False, False]\<rparr>"
  have wf: "wf_bs (1 * (2 + 1)) ?a" "wf_bs (1 * (2 + 1)) ?b" by (simp_all add: wf_bs_def)
  have v: "bs_view ?a 1 = DMCS_TRUE" "bs_view ?b 1 = DMCS_FALSE" "bs_view ?a 0 = DMCS_TRUE" "bs_view ?b 0 = DMCS_TRUE"
    by (simp_all add: bs_view_def get_bit_def)
  have v': "bs_view ?b (Suc 0) = DMCS_FALSE" by (simp add: bs_view_def get_bit_def)
  have d: "block_start 2 0 < 1 \<and> 1 < block_start 2 (0 + 1) \<and> bs_view ?b 1 \<noteq> DMCS_UNDEF"
    by (simp add: v' block_start_def)
  have k: "known 2 ?a 0" "known 2 ?b 0" by (simp_all add: known_def v)
  have no: "\<not> (known 2 ?a 0 \<and> known 2 ?b 0 \<longrightarrow> (\<forall>p. block_start 2 0 < p \<and> p < block_start 2 (0 + 1) \<and>
      bs_view ?b p \<noteq> DMCS_UNDEF \<longrightarrow> bs_view ?a p = bs_view ?b p))"
    using d k v by (metis TruthVal.distinct(1))
  have "consistent_with ?a ?b 0 (bso_starting_offsets (layout 1 2)) =
    Inr (known 2 ?a 0 \<and> known 2 ?b 0 \<longrightarrow> (\<forall>p. block_start 2 0 < p \<and> p < block_start 2 (0 + 1) \<and>
      bs_view ?b p \<noteq> DMCS_UNDEF \<longrightarrow> bs_view ?a p = bs_view ?b p))"
    by (rule consistent_with_correct [OF 1 wf]) (simp, use d in blast)
  then show ?thesis by (simp only: no)
qed

end
