(* ===== verification/Query_ID.thy ===== *)
theory Query_ID
  imports Dmcs_Prelude
begin

unbundle bit_operations_syntax

text \<open>
  \<open>QueryID\<close> (\<open>include/mcs/QueryID.h\<close>, \<open>src/mcs/QueryID.cpp\<close>): a query identifier packs the query
  type, the query order, the joiner offset, the context, the neighbor offset and the neighbor into
  one \<open>std::size_t\<close>. The constructor computes the shifts and masks; the accessors are
  free functions over the singleton instance.
\<close>

type_synonym qid = "64 word"

record QueryID =
  query_order_shift :: nat
  local_context_shift :: nat
  joiner_offset_shift :: nat
  neighbor_offset_shift :: nat
  neighbor_id_shift :: nat
  query_type_mask :: "64 word"
  query_order_mask :: "64 word"
  local_context_mask :: "64 word"
  joiner_offset_mask :: "64 word"
  neighbor_offset_mask :: "64 word"
  neighbor_id_mask :: "64 word"

definition TYPE_SHUTDOWN :: "64 word" where "TYPE_SHUTDOWN = 1"
definition TYPE_REQUEST :: "64 word" where "TYPE_REQUEST = 2"
definition TYPE_ANSWER :: "64 word" where "TYPE_ANSWER = 3"

fun setupMask_loop :: "nat list \<Rightarrow> 64 word \<Rightarrow> 64 word" where
  "setupMask_loop [] m = m"
| "setupMask_loop (i # is) m = setupMask_loop is (m OR push_bit i 1)"

definition setupMask :: "nat \<Rightarrow> nat \<Rightarrow> 64 word" where
  "setupMask mask_beg mask_end = setupMask_loop [mask_beg..<mask_end] 0"

function find_order_shift :: "nat \<Rightarrow> nat \<Rightarrow> nat \<Rightarrow> nat \<Rightarrow> nat" where
  "find_order_shift s order_length joiner_length shift =
     (if (s - shift - order_length - joiner_length) mod 3 \<noteq> 0
      then find_order_shift s order_length joiner_length (shift + 1) else shift)"
  by pat_completeness auto
termination
  by (relation "measure (\<lambda>(s, ol, jl, shift). s - shift)") (auto split: nat_diff_split)

declare find_order_shift.simps [simp del]

definition QueryID_new :: "nat \<Rightarrow> QueryID" where
  "QueryID_new s =
     (let query_order_length = 24;
          joiner_offset_length = 6;
          qos = find_order_shift s query_order_length joiner_offset_length 4;
          one_third_left = (s - qos - query_order_length - joiner_offset_length) div 3;
          jos = qos + query_order_length;
          lcs = jos + joiner_offset_length;
          nos = lcs + one_third_left;
          nis = nos + one_third_left
      in \<lparr>query_order_shift = qos, local_context_shift = lcs, joiner_offset_shift = jos,
          neighbor_offset_shift = nos, neighbor_id_shift = nis,
          query_type_mask = setupMask 0 qos,
          query_order_mask = setupMask qos jos,
          local_context_mask = setupMask lcs nos,
          joiner_offset_mask = setupMask jos lcs,
          neighbor_offset_mask = setupMask nos nis,
          neighbor_id_mask = setupMask nis s\<rparr>)"

text \<open>The instance, on a machine whose \<open>std::size_t\<close> has 64 bits.\<close>

definition QI :: QueryID where
  "QI = QueryID_new 64"

definition query_id_own :: "qid \<Rightarrow> qid \<Rightarrow> qid" where
  "query_id_own ctx_id query_order =
     (TYPE_REQUEST OR push_bit (query_order_shift QI) query_order
        OR push_bit (local_context_shift QI) ctx_id)"

definition query_id_neighbor :: "qid \<Rightarrow> qid \<Rightarrow> qid \<Rightarrow> qid" where
  "query_id_neighbor ctx_id neighbor_id query_order =
     (TYPE_REQUEST OR push_bit (query_order_shift QI) query_order
        OR push_bit (local_context_shift QI) ctx_id
        OR push_bit (neighbor_id_shift QI) neighbor_id)"

definition query_id :: "qid \<Rightarrow> qid \<Rightarrow> qid \<Rightarrow> qid \<Rightarrow> qid \<Rightarrow> qid \<Rightarrow> qid" where
  "query_id query_type ctx_id joiner_offset neighbor_id neighbor_offset query_order =
     (query_type OR push_bit (query_order_shift QI) query_order
        OR push_bit (local_context_shift QI) ctx_id
        OR push_bit (joiner_offset_shift QI) joiner_offset
        OR push_bit (neighbor_offset_shift QI) neighbor_offset
        OR push_bit (neighbor_id_shift QI) neighbor_id)"

definition shutdown_query_id :: qid where
  "shutdown_query_id = TYPE_SHUTDOWN"

definition shutdown_query_id_to :: "qid \<Rightarrow> qid \<Rightarrow> qid" where
  "shutdown_query_id_to ctx_id neighbor_id =
     (TYPE_SHUTDOWN OR push_bit (local_context_shift QI) ctx_id
        OR push_bit (neighbor_id_shift QI) neighbor_id)"

definition is_shutdown :: "qid \<Rightarrow> bool" where
  "is_shutdown q \<longleftrightarrow> q AND query_type_mask QI = TYPE_SHUTDOWN"

definition is_request :: "qid \<Rightarrow> bool" where
  "is_request q \<longleftrightarrow> q AND query_type_mask QI = TYPE_REQUEST"

definition is_answer :: "qid \<Rightarrow> bool" where
  "is_answer q \<longleftrightarrow> q AND query_type_mask QI = TYPE_ANSWER"

definition ctxid_from_qid :: "qid \<Rightarrow> qid" where
  "ctxid_from_qid q = drop_bit (local_context_shift QI) (q AND local_context_mask QI)"

definition invoker_from_qid :: "qid \<Rightarrow> qid" where
  "invoker_from_qid q = ctxid_from_qid q"

definition joiner_offset_from_qid :: "qid \<Rightarrow> qid" where
  "joiner_offset_from_qid q = drop_bit (joiner_offset_shift QI) (q AND joiner_offset_mask QI)"

definition neighbor_offset_from_qid :: "qid \<Rightarrow> qid" where
  "neighbor_offset_from_qid q = drop_bit (neighbor_offset_shift QI) (q AND neighbor_offset_mask QI)"

definition neighbor_id_from_qid :: "qid \<Rightarrow> qid" where
  "neighbor_id_from_qid q = drop_bit (neighbor_id_shift QI) (q AND neighbor_id_mask QI)"

definition receiver_from_qid :: "qid \<Rightarrow> qid" where
  "receiver_from_qid q = neighbor_id_from_qid q"

definition set_joiner_offset :: "qid \<Rightarrow> qid \<Rightarrow> qid" where
  "set_joiner_offset q j_offset = q OR push_bit (joiner_offset_shift QI) j_offset"

definition unset_joiner_offset :: "qid \<Rightarrow> qid" where
  "unset_joiner_offset q = q AND NOT (joiner_offset_mask QI)"

definition set_neighbor_offset :: "qid \<Rightarrow> qid \<Rightarrow> qid" where
  "set_neighbor_offset q n_offset = q OR push_bit (neighbor_offset_shift QI) n_offset"

definition unset_neighbor_offset :: "qid \<Rightarrow> qid" where
  "unset_neighbor_offset q = q AND NOT (neighbor_offset_mask QI)"

definition set_neighbor_id :: "qid \<Rightarrow> qid \<Rightarrow> qid" where
  "set_neighbor_id q nid = q OR push_bit (neighbor_id_shift QI) nid"

definition unset_neighbor_id :: "qid \<Rightarrow> qid" where
  "unset_neighbor_id q = q AND NOT (neighbor_id_mask QI)"

definition qorder_from_qid :: "qid \<Rightarrow> qid" where
  "qorder_from_qid q = drop_bit (query_order_shift QI) (q AND query_order_mask QI)"

section \<open>The layout of the fields\<close>

lemma bit_setupMask_loop:
  "bit (setupMask_loop is m) k \<longleftrightarrow> bit m k \<or> (k \<in> set is \<and> k < 64)"
  by (induction "is" arbitrary: m) (auto simp: bit_simps)

lemma bit_setupMask: "bit (setupMask a b) k \<longleftrightarrow> a \<le> k \<and> k < b \<and> k < 64"
  by (auto simp: setupMask_def bit_setupMask_loop)

lemma QI_fields:
  "query_order_shift QI = 4" "joiner_offset_shift QI = 28" "local_context_shift QI = 34"
  "neighbor_offset_shift QI = 44" "neighbor_id_shift QI = 54"
  "query_type_mask QI = setupMask 0 4" "query_order_mask QI = setupMask 4 28"
  "joiner_offset_mask QI = setupMask 28 34" "local_context_mask QI = setupMask 34 44"
  "neighbor_offset_mask QI = setupMask 44 54" "neighbor_id_mask QI = setupMask 54 64"
  by (simp_all add: QI_def QueryID_new_def Let_def find_order_shift.simps [of 64 24 6 4])

text \<open>Reading a field, and writing one, in terms of bits.\<close>

definition field :: "nat \<Rightarrow> nat \<Rightarrow> qid \<Rightarrow> qid" where
  "field lo hi q = drop_bit lo (q AND setupMask lo hi)"

lemma bit_field: "bit (field lo hi q) k \<longleftrightarrow> lo + k < hi \<and> lo + k < 64 \<and> bit q (lo + k)"
  by (auto simp: field_def bit_drop_bit_eq bit_and_iff bit_setupMask)

definition fits :: "nat \<Rightarrow> qid \<Rightarrow> bool" where
  "fits w x \<longleftrightarrow> unat x < 2 ^ w"

lemma fits_bit: "fits w x \<Longrightarrow> w \<le> k \<Longrightarrow> \<not> bit x k"
proof -
  assume "fits w x" and k: "w \<le> k"
  then have "take_bit w (unat x) = unat x" by (simp add: fits_def take_bit_nat_eq_self)
  then have "bit (unat x) k \<longleftrightarrow> bit (take_bit w (unat x)) k" by simp
  also have "\<dots> \<longleftrightarrow> False" using k by (simp add: bit_take_bit_iff)
  finally show ?thesis by (simp add: bit_unsigned_iff)
qed

lemmas qid_accessors =
  ctxid_from_qid_def invoker_from_qid_def joiner_offset_from_qid_def neighbor_offset_from_qid_def
  neighbor_id_from_qid_def receiver_from_qid_def qorder_from_qid_def

lemma accessor_fields:
  "ctxid_from_qid q = field 34 44 q" "invoker_from_qid q = field 34 44 q"
  "joiner_offset_from_qid q = field 28 34 q" "neighbor_offset_from_qid q = field 44 54 q"
  "neighbor_id_from_qid q = field 54 64 q" "receiver_from_qid q = field 54 64 q"
  "qorder_from_qid q = field 4 28 q"
  by (simp_all add: qid_accessors QI_fields field_def)

lemma field_or: "field lo hi (a OR b) = field lo hi a OR field lo hi b"
  by (rule bit_word_eqI) (auto simp: bit_field bit_or_iff)

lemma fits_bitD: "fits w x \<Longrightarrow> bit x k \<Longrightarrow> k < w"
  using fits_bit [of w x k] by (meson not_le)

lemma field_push_same: "fits (hi - lo) x \<Longrightarrow> lo \<le> hi \<Longrightarrow> hi \<le> 64 \<Longrightarrow> field lo hi (push_bit lo x) = x"
  by (rule bit_word_eqI) (auto simp: bit_field bit_push_bit_iff dest: fits_bitD)

lemma field_push_other:
  "fits w x \<Longrightarrow> sh + w \<le> lo \<or> hi \<le> sh \<Longrightarrow> field lo hi (push_bit sh x) = 0"
  by (rule bit_word_eqI) (auto simp: bit_field bit_push_bit_iff dest: fits_bitD)

lemma field_type: "fits 4 x \<Longrightarrow> 4 \<le> lo \<Longrightarrow> field lo hi x = 0"
  using field_push_other [of 4 x 0 lo hi] by simp

definition clear_field :: "nat \<Rightarrow> nat \<Rightarrow> qid \<Rightarrow> qid" where
  "clear_field lo hi q = q AND NOT (setupMask lo hi)"

lemma clear_or: "clear_field lo hi (a OR b) = clear_field lo hi a OR clear_field lo hi b"
  by (rule bit_word_eqI) (auto simp: clear_field_def bit_simps)

lemma clear_push_same: "fits (hi - lo) x \<Longrightarrow> clear_field lo hi (push_bit lo x) = 0"
  by (rule bit_word_eqI) (auto simp: clear_field_def bit_simps bit_setupMask dest: fits_bitD)

lemma clear_push_other:
  "fits w x \<Longrightarrow> sh + w \<le> lo \<or> hi \<le> sh \<Longrightarrow> clear_field lo hi (push_bit sh x) = push_bit sh x"
  by (rule bit_word_eqI) (auto simp: clear_field_def bit_simps bit_setupMask dest: fits_bitD)

lemma clear_type: "fits 4 x \<Longrightarrow> 4 \<le> lo \<Longrightarrow> clear_field lo hi x = x"
  using clear_push_other [of 4 x 0 lo hi] by simp

lemma unset_clear:
  "unset_joiner_offset q = clear_field 28 34 q" "unset_neighbor_offset q = clear_field 44 54 q"
  "unset_neighbor_id q = clear_field 54 64 q"
  by (simp_all add: unset_joiner_offset_def unset_neighbor_offset_def unset_neighbor_id_def
      clear_field_def QI_fields)

lemma and_type_mask: "q AND query_type_mask QI = field 0 4 q"
  by (simp add: QI_fields field_def)

lemma fits_types: "fits 4 TYPE_REQUEST" "fits 4 TYPE_SHUTDOWN" "fits 4 TYPE_ANSWER"
  by (simp_all add: fits_def TYPE_REQUEST_def TYPE_SHUTDOWN_def TYPE_ANSWER_def)

lemma type_distinct [simp]:
  "TYPE_REQUEST \<noteq> TYPE_SHUTDOWN" "TYPE_REQUEST \<noteq> TYPE_ANSWER" "TYPE_SHUTDOWN \<noteq> TYPE_ANSWER"
  by (simp_all add: TYPE_REQUEST_def TYPE_SHUTDOWN_def TYPE_ANSWER_def)

lemmas fits_field = field_or field_push_same field_push_other field_type
lemmas fits_clear = clear_or clear_push_same clear_push_other clear_type

text \<open>An identifier without joiner and neighbor fields, and what forwarding it to a neighbor adds.\<close>

definition bare_qid :: "qid \<Rightarrow> bool" where
  "bare_qid q \<longleftrightarrow> unset_joiner_offset (unset_neighbor_offset (unset_neighbor_id q)) = q"

definition forward_qid :: "qid \<Rightarrow> qid \<Rightarrow> qid \<Rightarrow> qid \<Rightarrow> qid" where
  "forward_qid q nid noff joff = set_joiner_offset (set_neighbor_offset (set_neighbor_id q nid) noff) joff"

lemma clear_clear: "clear_field a b (clear_field c d q) = clear_field c d (clear_field a b q)"
  by (rule bit_word_eqI) (auto simp: clear_field_def bit_simps)

lemma clear_idem: "clear_field a b (clear_field a b q) = clear_field a b q"
  by (rule bit_word_eqI) (auto simp: clear_field_def bit_simps)

lemma field_clear_same: "field a b (clear_field a b q) = 0"
  by (rule bit_word_eqI) (auto simp: clear_field_def bit_simps bit_field bit_setupMask)

lemma bare_cleared:
  assumes "bare_qid q"
  shows "clear_field 28 34 q = q \<and> clear_field 44 54 q = q \<and> clear_field 54 64 q = q"
  using assms unfolding bare_qid_def unset_clear by (metis clear_clear clear_idem)

lemma bare_fields:
  assumes "bare_qid q"
  shows "field 28 34 q = 0 \<and> field 44 54 q = 0 \<and> field 54 64 q = 0"
  using bare_cleared [OF assms] by (metis field_clear_same)

lemma forward_qid_simps:
  assumes "bare_qid q" "fits 10 nid" "fits 10 noff" "fits 6 joff"
  shows "neighbor_offset_from_qid (forward_qid q nid noff joff) = noff \<and>
    joiner_offset_from_qid (forward_qid q nid noff joff) = joff \<and>
    receiver_from_qid (forward_qid q nid noff joff) = nid \<and>
    unset_joiner_offset (unset_neighbor_offset (unset_neighbor_id (forward_qid q nid noff joff))) = q"
  unfolding accessor_fields unset_clear
  using assms bare_fields [OF assms(1)] bare_cleared [OF assms(1)]
  by (simp add: forward_qid_def set_joiner_offset_def set_neighbor_offset_def set_neighbor_id_def
      QI_fields fits_field fits_clear)

lemma query_id_own_bare:
  assumes "fits 10 ctx" and "fits 24 order"
  shows "bare_qid (query_id_own ctx order)"
  unfolding bare_qid_def unset_clear using assms by (simp add: query_id_own_def QI_fields fits_clear fits_types)

lemma query_id_own_request:
  assumes "fits 10 ctx" and "fits 24 order"
  shows "\<not> is_shutdown (query_id_own ctx order) \<and> invoker_from_qid (query_id_own ctx order) = ctx"
  unfolding is_shutdown_def and_type_mask accessor_fields
  using assms field_push_same [of 4 0 TYPE_REQUEST] by (simp add: query_id_own_def QI_fields fits_field fits_types)

lemma query_id_own_is_request:
  "fits 10 ctx \<Longrightarrow> fits 24 order \<Longrightarrow> is_request (query_id_own ctx order)"
  unfolding is_request_def and_type_mask
  using field_push_same [of 4 0 TYPE_REQUEST] by (simp add: query_id_own_def QI_fields fits_field fits_types)

lemma is_shutdown_shutdown: "is_shutdown shutdown_query_id"
  using field_push_same [of 4 0 TYPE_SHUTDOWN] by (simp add: is_shutdown_def shutdown_query_id_def and_type_mask fits_types)

lemma fits_of_nat: "k < 2 ^ i \<Longrightarrow> fits i (of_nat k)"
  unfolding fits_def unat_of_nat by (rule le_less_trans [OF mod_less_eq_dividend])

text \<open>
  C19. Packing and unpacking: when every component fits its field (4 bits type, 24 bits order,
  6 bits joiner offset, 10 bits each for context, neighbor offset and neighbor), each accessor
  reads back exactly the component that \<open>query_id\<close> was given.
\<close>

theorem query_id_roundtrip:
  assumes "fits 4 ty" "fits 24 order" "fits 6 joff" "fits 10 ctx" "fits 10 noff" "fits 10 nid"
    and "q = query_id ty ctx joff nid noff order"
  shows "q AND query_type_mask QI = ty \<and> qorder_from_qid q = order \<and>
    joiner_offset_from_qid q = joff \<and> ctxid_from_qid q = ctx \<and>
    neighbor_offset_from_qid q = noff \<and> neighbor_id_from_qid q = nid"
  unfolding and_type_mask accessor_fields
  using assms field_push_same [of 4 0 ty] by (simp add: query_id_def QI_fields fits_field)

theorem query_id_roundtrip_witness:
  "ctxid_from_qid (query_id TYPE_ANSWER 5 3 7 2 9) = 5 \<and>
   neighbor_id_from_qid (query_id TYPE_ANSWER 5 3 7 2 9) = 7 \<and>
   qorder_from_qid (query_id TYPE_ANSWER 5 3 7 2 9) = 9"
proof -
  have h: "fits 4 TYPE_ANSWER" "fits 24 9" "fits 6 3" "fits 10 5" "fits 10 2" "fits 10 7"
    by (simp_all add: fits_types) (simp_all add: fits_def)
  show ?thesis using query_id_roundtrip [OF h refl] by simp
qed

text \<open>
  What \<open>ask_neighbor\<close> adds to a query identifier can be read off by the receiver and taken off
  again: the neighbor, neighbor offset, joiner offset and invoker come back, the query is still
  a request, and unsetting the three fields restores the identifier the joiner was called with.
\<close>

theorem forwarded_qid_roundtrip:
  fixes ctx order nid noff joff :: qid
  assumes "fits 10 ctx" "fits 24 order" "fits 10 nid" "fits 10 noff" "fits 6 joff"
    and "q = query_id_own ctx order"
    and "q' = set_joiner_offset (set_neighbor_offset (set_neighbor_id q nid) noff) joff"
  shows "receiver_from_qid q' = nid \<and> neighbor_offset_from_qid q' = noff \<and>
    joiner_offset_from_qid q' = joff \<and> invoker_from_qid q' = ctx \<and> qorder_from_qid q' = order \<and>
    is_request q' \<and> \<not> is_shutdown q' \<and>
    unset_joiner_offset (unset_neighbor_offset (unset_neighbor_id q')) = q"
proof -
  note defs = assms(6,7) query_id_own_def set_joiner_offset_def set_neighbor_offset_def
    set_neighbor_id_def QI_fields
  have strip: "unset_joiner_offset (unset_neighbor_offset (unset_neighbor_id q')) = q"
    unfolding unset_clear using assms(1-5) by (simp add: defs fits_clear fits_types)
  have ty: "field 0 4 q' = TYPE_REQUEST"
    using assms(1-5) field_push_same [of 4 0 TYPE_REQUEST] by (simp add: defs fits_field fits_types)
  show ?thesis
    using assms(1-5) strip ty unfolding is_request_def is_shutdown_def and_type_mask accessor_fields
    by (simp add: defs fits_field fits_types)
qed

theorem forwarded_qid_roundtrip_witness:
  "receiver_from_qid (set_joiner_offset (set_neighbor_offset (set_neighbor_id (query_id_own 3 1) 4) 2) 1) = 4 \<and>
   unset_joiner_offset (unset_neighbor_offset (unset_neighbor_id
     (set_joiner_offset (set_neighbor_offset (set_neighbor_id (query_id_own 3 1) 4) 2) 1))) = query_id_own 3 1"
proof -
  have h: "fits 10 3" "fits 24 1" "fits 10 4" "fits 10 2" "fits 6 1"
    by (simp_all add: fits_def)
  show ?thesis using forwarded_qid_roundtrip [OF h refl refl] by simp
qed

end
