(* ===== verification/Term_ID.thy ===== *)
theory Term_ID
  imports Dmcs_Prelude
begin

unbundle bit_operations_syntax

text \<open>
  \<open>ID\<close> (\<open>include/mcs/ID.h\<close>, \<open>src/mcs/ID.cpp\<close>): identifiers of terms, atoms, literals, rules
  and beliefs, with their kind and properties encoded in the bits of a 32-bit word.
\<close>

record ID =
  kind :: "32 word"
  address :: "32 word"

section \<open>Constants\<close>

definition ALL_ONES :: "32 word" where "ALL_ONES = 0xFFFFFFFF"
definition NAF_MASK :: "32 word" where "NAF_MASK = 0x80000000"
definition MAINKIND_MASK :: "32 word" where "MAINKIND_MASK = 0x70000000"
definition MAINKIND_SHIFT :: nat where "MAINKIND_SHIFT = 28"
definition SUBKIND_MASK :: "32 word" where "SUBKIND_MASK = 0x0F000000"
definition SUBKIND_SHIFT :: nat where "SUBKIND_SHIFT = 24"
definition PROPERTY_MASK :: "32 word" where "PROPERTY_MASK = 0x00FF0000"
definition CONTEXT_ID_MASK :: "32 word" where "CONTEXT_ID_MASK = 0x0000FFFF"

definition MAINKIND_ATOM :: "32 word" where "MAINKIND_ATOM = 0x00000000"
definition MAINKIND_TERM :: "32 word" where "MAINKIND_TERM = 0x10000000"
definition MAINKIND_LITERAL :: "32 word" where "MAINKIND_LITERAL = 0x20000000"
definition MAINKIND_RULE :: "32 word" where "MAINKIND_RULE = 0x30000000"
definition MAINKIND_BELIEF :: "32 word" where "MAINKIND_BELIEF = 0x40000000"

definition SUBKIND_TERM_CONSTANT :: "32 word" where "SUBKIND_TERM_CONSTANT = 0x00000000"
definition SUBKIND_TERM_INTEGER :: "32 word" where "SUBKIND_TERM_INTEGER = 0x01000000"
definition SUBKIND_TERM_VARIABLE :: "32 word" where "SUBKIND_TERM_VARIABLE = 0x02000000"
definition SUBKIND_TERM_BUILTIN :: "32 word" where "SUBKIND_TERM_BUILTIN = 0x03000000"
definition SUBKIND_TERM_PREDICATE :: "32 word" where "SUBKIND_TERM_PREDICATE = 0x04000000"

definition SUBKIND_ATOM_ORDINARYG :: "32 word" where "SUBKIND_ATOM_ORDINARYG = 0x00000000"
definition SUBKIND_ATOM_ORDINARYN :: "32 word" where "SUBKIND_ATOM_ORDINARYN = 0x01000000"
definition SUBKIND_ATOM_BUILTIN :: "32 word" where "SUBKIND_ATOM_BUILTIN = 0x02000000"
definition SUBKIND_ATOM_AGGREGATE :: "32 word" where "SUBKIND_ATOM_AGGREGATE = 0x03000000"
definition SUBKIND_ATOM_EXTERNAL :: "32 word" where "SUBKIND_ATOM_EXTERNAL = 0x06000000"
definition SUBKIND_ATOM_MODULE :: "32 word" where "SUBKIND_ATOM_MODULE = 0x0A000000"

definition SUBKIND_RULE_REGULAR :: "32 word" where "SUBKIND_RULE_REGULAR = 0x00000000"
definition SUBKIND_RULE_CONSTRAINT :: "32 word" where "SUBKIND_RULE_CONSTRAINT = 0x01000000"
definition SUBKIND_RULE_WEAKCONSTRAINT :: "32 word" where "SUBKIND_RULE_WEAKCONSTRAINT = 0x02000000"
definition SUBKIND_RULE_BRIDGE_RULE :: "32 word" where "SUBKIND_RULE_BRIDGE_RULE = 0x03000000"

definition PROPERTY_VAR_ANONYMOUS :: "32 word" where "PROPERTY_VAR_ANONYMOUS = 0x00010000"
definition PROPERTY_RULE_EXTATOMS :: "32 word" where "PROPERTY_RULE_EXTATOMS = 0x00080000"
definition PROPERTY_RULE_DISJ :: "32 word" where "PROPERTY_RULE_DISJ = 0x00100000"
definition PROPERTY_RULE_MODATOMS :: "32 word" where "PROPERTY_RULE_MODATOMS = 0x00400000"
definition PROPERTY_AUX :: "32 word" where "PROPERTY_AUX = 0x00800000"

lemmas kind_consts =
  ALL_ONES_def NAF_MASK_def MAINKIND_MASK_def SUBKIND_MASK_def PROPERTY_MASK_def CONTEXT_ID_MASK_def
  MAINKIND_ATOM_def MAINKIND_TERM_def MAINKIND_LITERAL_def MAINKIND_RULE_def MAINKIND_BELIEF_def
  SUBKIND_TERM_CONSTANT_def SUBKIND_TERM_INTEGER_def SUBKIND_TERM_VARIABLE_def
  SUBKIND_TERM_BUILTIN_def SUBKIND_TERM_PREDICATE_def SUBKIND_ATOM_ORDINARYG_def
  SUBKIND_ATOM_ORDINARYN_def SUBKIND_ATOM_BUILTIN_def SUBKIND_ATOM_AGGREGATE_def
  SUBKIND_ATOM_EXTERNAL_def SUBKIND_ATOM_MODULE_def SUBKIND_RULE_REGULAR_def
  SUBKIND_RULE_CONSTRAINT_def SUBKIND_RULE_WEAKCONSTRAINT_def SUBKIND_RULE_BRIDGE_RULE_def
  PROPERTY_VAR_ANONYMOUS_def PROPERTY_RULE_EXTATOMS_def PROPERTY_RULE_DISJ_def
  PROPERTY_RULE_MODATOMS_def PROPERTY_AUX_def

definition ID_new :: ID where
  "ID_new = \<lparr>kind = ALL_ONES, address = ALL_ONES\<rparr>"

definition ID_FAIL :: ID where
  "ID_FAIL = \<lparr>kind = ALL_ONES, address = ALL_ONES\<rparr>"

section \<open>Builtin terms\<close>

datatype TermBuiltinAddress =
    TERM_BUILTIN_EQ | TERM_BUILTIN_NE | TERM_BUILTIN_LT | TERM_BUILTIN_LE | TERM_BUILTIN_GT
  | TERM_BUILTIN_GE | TERM_BUILTIN_MUL | TERM_BUILTIN_ADD | TERM_BUILTIN_SUB | TERM_BUILTIN_DIV
  | TERM_BUILTIN_AGGCOUNT | TERM_BUILTIN_AGGMIN | TERM_BUILTIN_AGGMAX | TERM_BUILTIN_AGGSUM
  | TERM_BUILTIN_AGGTIMES | TERM_BUILTIN_AGGAVG | TERM_BUILTIN_AGGANY | TERM_BUILTIN_INT
  | TERM_BUILTIN_SUCC | TERM_BUILTIN_MOD

text \<open>The numbers that C++ gives to the enumerators.\<close>

fun builtin_address :: "TermBuiltinAddress \<Rightarrow> 32 word" where
  "builtin_address TERM_BUILTIN_EQ = 0"
| "builtin_address TERM_BUILTIN_NE = 1"
| "builtin_address TERM_BUILTIN_LT = 2"
| "builtin_address TERM_BUILTIN_LE = 3"
| "builtin_address TERM_BUILTIN_GT = 4"
| "builtin_address TERM_BUILTIN_GE = 5"
| "builtin_address TERM_BUILTIN_MUL = 6"
| "builtin_address TERM_BUILTIN_ADD = 7"
| "builtin_address TERM_BUILTIN_SUB = 8"
| "builtin_address TERM_BUILTIN_DIV = 9"
| "builtin_address TERM_BUILTIN_AGGCOUNT = 10"
| "builtin_address TERM_BUILTIN_AGGMIN = 11"
| "builtin_address TERM_BUILTIN_AGGMAX = 12"
| "builtin_address TERM_BUILTIN_AGGSUM = 13"
| "builtin_address TERM_BUILTIN_AGGTIMES = 14"
| "builtin_address TERM_BUILTIN_AGGAVG = 15"
| "builtin_address TERM_BUILTIN_AGGANY = 16"
| "builtin_address TERM_BUILTIN_INT = 17"
| "builtin_address TERM_BUILTIN_SUCC = 18"
| "builtin_address TERM_BUILTIN_MOD = 19"

definition termFromInteger :: "32 word \<Rightarrow> ID" where
  "termFromInteger i = \<lparr>kind = MAINKIND_TERM OR SUBKIND_TERM_INTEGER, address = i\<rparr>"

definition termFromBuiltin :: "TermBuiltinAddress \<Rightarrow> ID" where
  "termFromBuiltin b = \<lparr>kind = MAINKIND_TERM OR SUBKIND_TERM_BUILTIN, address = builtin_address b\<rparr>"

definition termFromBuiltinString :: "string \<Rightarrow> ID res" where
  "termFromBuiltinString op = assertion (op \<noteq> [])
     (if length op = 1 then
        (if hd op = CHR ''='' then Inr (termFromBuiltin TERM_BUILTIN_EQ)
         else if hd op = CHR ''<'' then Inr (termFromBuiltin TERM_BUILTIN_LT)
         else if hd op = CHR ''>'' then Inr (termFromBuiltin TERM_BUILTIN_GT)
         else if hd op = CHR ''*'' then Inr (termFromBuiltin TERM_BUILTIN_MUL)
         else if hd op = CHR ''+'' then Inr (termFromBuiltin TERM_BUILTIN_ADD)
         else if hd op = CHR ''-'' then Inr (termFromBuiltin TERM_BUILTIN_SUB)
         else if hd op = CHR ''/'' then Inr (termFromBuiltin TERM_BUILTIN_DIV)
         else Inl Assertion_Failed)
      else if length op = 2 then
        (if op = ''=='' then Inr (termFromBuiltin TERM_BUILTIN_EQ)
         else if op = ''!='' \<or> op = ''<>'' then Inr (termFromBuiltin TERM_BUILTIN_NE)
         else if op = ''<='' then Inr (termFromBuiltin TERM_BUILTIN_LE)
         else if op = ''>='' then Inr (termFromBuiltin TERM_BUILTIN_GE)
         else Inl Assertion_Failed)
      else if op = ''#succ'' then Inr (termFromBuiltin TERM_BUILTIN_SUCC)
      else if op = ''#int'' then Inr (termFromBuiltin TERM_BUILTIN_INT)
      else if op = ''#count'' then Inr (termFromBuiltin TERM_BUILTIN_AGGCOUNT)
      else if op = ''#min'' then Inr (termFromBuiltin TERM_BUILTIN_AGGMIN)
      else if op = ''#max'' then Inr (termFromBuiltin TERM_BUILTIN_AGGMAX)
      else if op = ''#sum'' then Inr (termFromBuiltin TERM_BUILTIN_AGGSUM)
      else if op = ''#times'' then Inr (termFromBuiltin TERM_BUILTIN_AGGTIMES)
      else if op = ''#avg'' then Inr (termFromBuiltin TERM_BUILTIN_AGGAVG)
      else if op = ''#any'' then Inr (termFromBuiltin TERM_BUILTIN_AGGANY)
      else if op = ''#mod'' then Inr (termFromBuiltin TERM_BUILTIN_MOD)
      else Inl Assertion_Failed)"

definition builtinTerms :: "string list" where
  "builtinTerms = [''='', ''!='', ''<'', ''<='', ''>'', ''>='', ''*'', ''+'', ''-'', ''/'',
     ''#count'', ''#min'', ''#max'', ''#sum'', ''#times'', ''#avg'', ''#any'', ''#int'', ''#succ'', ''#mod'']"

definition stringFromBuiltinTerm :: "32 word \<Rightarrow> string res" where
  "stringFromBuiltinTerm addr = assertion (unat addr < length builtinTerms)
     (Inr (builtinTerms ! unat addr))"

section \<open>Classification\<close>

definition isTerm :: "ID \<Rightarrow> bool" where
  "isTerm x \<longleftrightarrow> kind x AND MAINKIND_MASK = MAINKIND_TERM"

definition isAtom :: "ID \<Rightarrow> bool" where
  "isAtom x \<longleftrightarrow> kind x AND MAINKIND_MASK = MAINKIND_ATOM"

definition isLiteral :: "ID \<Rightarrow> bool" where
  "isLiteral x \<longleftrightarrow> kind x AND MAINKIND_MASK = MAINKIND_LITERAL"

definition isBelief :: "ID \<Rightarrow> bool" where
  "isBelief x \<longleftrightarrow> kind x AND MAINKIND_MASK = MAINKIND_BELIEF"

definition isRule :: "ID \<Rightarrow> bool" where
  "isRule x \<longleftrightarrow> kind x AND MAINKIND_MASK = MAINKIND_RULE"

definition isNaf :: "ID \<Rightarrow> bool" where
  "isNaf x \<longleftrightarrow> kind x AND NAF_MASK = NAF_MASK"

definition isAuxiliary :: "ID \<Rightarrow> bool" where
  "isAuxiliary x \<longleftrightarrow> kind x AND PROPERTY_AUX = PROPERTY_AUX"

text \<open>The tests of a subkind or property assert the main kind first.\<close>

definition isConstantTerm :: "ID \<Rightarrow> bool res" where
  "isConstantTerm x = assertion (isTerm x) (Inr (kind x AND SUBKIND_MASK = SUBKIND_TERM_CONSTANT))"

definition isIntegerTerm :: "ID \<Rightarrow> bool res" where
  "isIntegerTerm x = assertion (isTerm x) (Inr (kind x AND SUBKIND_MASK = SUBKIND_TERM_INTEGER))"

definition isVariableTerm :: "ID \<Rightarrow> bool res" where
  "isVariableTerm x = assertion (isTerm x) (Inr (kind x AND SUBKIND_MASK = SUBKIND_TERM_VARIABLE))"

definition isBuiltinTerm :: "ID \<Rightarrow> bool res" where
  "isBuiltinTerm x = assertion (isTerm x) (Inr (kind x AND SUBKIND_MASK = SUBKIND_TERM_BUILTIN))"

definition isPredicateTerm :: "ID \<Rightarrow> bool res" where
  "isPredicateTerm x = assertion (isTerm x) (Inr (kind x AND SUBKIND_MASK = SUBKIND_TERM_PREDICATE))"

definition isOrdinaryAtom :: "ID \<Rightarrow> bool res" where
  "isOrdinaryAtom x = assertion (isAtom x \<or> isLiteral x)
     (Inr (kind x AND SUBKIND_ATOM_BUILTIN \<noteq> SUBKIND_ATOM_BUILTIN))"

definition isOrdinaryGroundAtom :: "ID \<Rightarrow> bool res" where
  "isOrdinaryGroundAtom x = assertion (isAtom x \<or> isLiteral x) (Inr (kind x AND SUBKIND_MASK = 0))"

definition isOrdinaryNongroundAtom :: "ID \<Rightarrow> bool res" where
  "isOrdinaryNongroundAtom x = assertion (isAtom x \<or> isLiteral x)
     (Inr (kind x AND SUBKIND_MASK = SUBKIND_ATOM_ORDINARYN))"

definition isBuiltinAtom :: "ID \<Rightarrow> bool res" where
  "isBuiltinAtom x = assertion (isAtom x \<or> isLiteral x)
     (Inr (kind x AND SUBKIND_MASK = SUBKIND_ATOM_BUILTIN))"

definition isAggregateAtom :: "ID \<Rightarrow> bool res" where
  "isAggregateAtom x = assertion (isAtom x \<or> isLiteral x)
     (Inr (kind x AND SUBKIND_MASK = SUBKIND_ATOM_AGGREGATE))"

definition isExternalAtom :: "ID \<Rightarrow> bool res" where
  "isExternalAtom x = assertion (isAtom x \<or> isLiteral x)
     (Inr (kind x AND SUBKIND_MASK = SUBKIND_ATOM_EXTERNAL))"

definition isModuleAtom :: "ID \<Rightarrow> bool res" where
  "isModuleAtom x = assertion (isAtom x \<or> isLiteral x)
     (Inr (kind x AND SUBKIND_MASK = SUBKIND_ATOM_MODULE))"

definition isRegularRule :: "ID \<Rightarrow> bool res" where
  "isRegularRule x = assertion (isRule x) (Inr (kind x AND SUBKIND_MASK = SUBKIND_RULE_REGULAR))"

definition isConstraint :: "ID \<Rightarrow> bool res" where
  "isConstraint x = assertion (isRule x) (Inr (kind x AND SUBKIND_MASK = SUBKIND_RULE_CONSTRAINT))"

definition isWeakConstraint :: "ID \<Rightarrow> bool res" where
  "isWeakConstraint x = assertion (isRule x) (Inr (kind x AND SUBKIND_MASK = SUBKIND_RULE_WEAKCONSTRAINT))"

definition isBridgeRule :: "ID \<Rightarrow> bool res" where
  "isBridgeRule x = assertion (isRule x) (Inr (kind x AND SUBKIND_MASK = SUBKIND_RULE_BRIDGE_RULE))"

definition doesRuleContainExtatoms :: "ID \<Rightarrow> bool res" where
  "doesRuleContainExtatoms x = assertion (isRule x)
     (Inr (kind x AND PROPERTY_RULE_EXTATOMS = PROPERTY_RULE_EXTATOMS))"

definition doesRuleContainModatoms :: "ID \<Rightarrow> bool res" where
  "doesRuleContainModatoms x = assertion (isRule x)
     (Inr (kind x AND PROPERTY_RULE_MODATOMS = PROPERTY_RULE_MODATOMS))"

definition isRuleDisjunctive :: "ID \<Rightarrow> bool res" where
  "isRuleDisjunctive x = assertion (isRule x) (Inr (kind x AND PROPERTY_RULE_DISJ = PROPERTY_RULE_DISJ))"

definition isAnonymousVariable :: "ID \<Rightarrow> bool res" where
  "isAnonymousVariable x = bind_res (isVariableTerm x) (\<lambda>v.
     assertion v (Inr (kind x AND PROPERTY_VAR_ANONYMOUS = PROPERTY_VAR_ANONYMOUS)))"

definition contextID :: "ID \<Rightarrow> nat res" where
  "contextID x = assertion (isBelief x) (Inr (unat (kind x AND CONTEXT_ID_MASK)))"

section \<open>Conversions\<close>

definition posLiteralFromAtom :: "ID \<Rightarrow> ID res" where
  "posLiteralFromAtom atom = assertion (isAtom atom)
     (Inr \<lparr>kind = kind atom OR MAINKIND_LITERAL, address = address atom\<rparr>)"

definition nafLiteralFromAtom :: "ID \<Rightarrow> ID res" where
  "nafLiteralFromAtom atom = assertion (isAtom atom)
     (Inr \<lparr>kind = kind atom OR MAINKIND_LITERAL OR NAF_MASK, address = address atom\<rparr>)"

definition literalFromAtom :: "ID \<Rightarrow> bool \<Rightarrow> ID res" where
  "literalFromAtom atom naf = assertion (isAtom atom)
     (if naf then nafLiteralFromAtom atom else posLiteralFromAtom atom)"

definition atomFromLiteral :: "ID \<Rightarrow> ID res" where
  "atomFromLiteral literal = assertion (isLiteral literal)
     (Inr \<lparr>kind = (kind literal AND NOT (NAF_MASK OR MAINKIND_MASK)) OR MAINKIND_ATOM,
           address = address literal\<rparr>)"

definition posLiteralFromBelief :: "ID \<Rightarrow> ID res" where
  "posLiteralFromBelief belief = assertion (isBelief belief)
     (Inr \<lparr>kind = (kind belief AND NOT NAF_MASK) OR MAINKIND_BELIEF, address = address belief\<rparr>)"

definition nafLiteralFromBelief :: "ID \<Rightarrow> ID res" where
  "nafLiteralFromBelief belief = assertion (isBelief belief)
     (Inr \<lparr>kind = kind belief OR MAINKIND_BELIEF OR NAF_MASK, address = address belief\<rparr>)"

definition literalFromBelief :: "ID \<Rightarrow> bool \<Rightarrow> ID res" where
  "literalFromBelief belief naf = assertion (isBelief belief)
     (if naf then nafLiteralFromBelief belief else posLiteralFromBelief belief)"

definition id_eq :: "ID \<Rightarrow> ID \<Rightarrow> bool" where
  "id_eq x y \<longleftrightarrow> kind x = kind y \<and> address x = address y"

definition id_neq :: "ID \<Rightarrow> ID \<Rightarrow> bool" where
  "id_neq x y \<longleftrightarrow> kind x \<noteq> kind y \<or> address x \<noteq> address y"

definition id_or :: "ID \<Rightarrow> ID \<Rightarrow> ID" where
  "id_or x y = \<lparr>kind = kind x OR kind y, address = address x OR address y\<rparr>"

definition id_and :: "ID \<Rightarrow> ID \<Rightarrow> ID" where
  "id_and x y = \<lparr>kind = kind x AND kind y, address = address x AND address y\<rparr>"

section \<open>Properties\<close>

text \<open>Masking distributes over the alternatives that a conversion adds, so that the tests compute.\<close>

lemmas masking = word_ao_dist word_ao_dist2 and.assoc

lemma and_not_cancel: "x AND y = 0 \<Longrightarrow> x AND NOT y = (x :: 32 word)"
  by (simp add: bit_eq_iff bit_simps) blast

lemma isAtom_clear: "isAtom a \<longleftrightarrow> kind a AND MAINKIND_MASK = 0"
  by (simp add: isAtom_def MAINKIND_ATOM_def)

lemma bit_NAF_MASK: "bit NAF_MASK n \<longleftrightarrow> n = 31"
proof -
  have "NAF_MASK = 2 ^ 31" by (simp add: NAF_MASK_def)
  then have "bit NAF_MASK n \<longleftrightarrow> bit (2 ^ 31 :: 32 word) n" by simp
  also have "\<dots> \<longleftrightarrow> n = 31" by (simp only: bit_2_iff bit_exp_iff possible_bit_word) auto
  finally show ?thesis .
qed

lemma isNaf_bit: "isNaf x \<longleftrightarrow> bit (kind x) 31"
proof
  assume "isNaf x"
  then have "bit (kind x AND NAF_MASK) 31" by (simp add: isNaf_def bit_NAF_MASK)
  then show "bit (kind x) 31" by (simp add: bit_and_iff)
next
  assume "bit (kind x) 31"
  then show "isNaf x" unfolding isNaf_def
    by (intro bit_eqI) (auto simp: bit_NAF_MASK bit_and_iff)
qed

lemma naf_bit: "kind x AND NAF_MASK = (if isNaf x then NAF_MASK else 0)"
  by (rule bit_eqI) (auto simp: isNaf_bit bit_NAF_MASK bit_simps)

text \<open>
  Literals and atoms: for a plain atom (no default-negation bit), \<open>literalFromAtom\<close> yields a
  literal with the requested sign and the same address and subkind, and \<open>atomFromLiteral\<close> gives the
  atom back.
\<close>

theorem literal_atom_roundtrip:
  assumes "isAtom a" and "\<not> isNaf a"
  shows "\<exists>l. literalFromAtom a naf = Inr l \<and> isLiteral l \<and> isNaf l = naf \<and>
           kind l AND SUBKIND_MASK = kind a AND SUBKIND_MASK \<and> atomFromLiteral l = Inr a"
proof -
  from assms have main: "kind a AND MAINKIND_MASK = 0" and naf: "kind a AND NAF_MASK = 0"
    by (simp_all add: isAtom_clear naf_bit)
  then have keep: "kind a AND NOT (NAF_MASK OR MAINKIND_MASK) = kind a"
    by (intro and_not_cancel) (simp add: masking)
  from main naf keep assms(1) show ?thesis
    by (cases naf)
      (simp_all add: literalFromAtom_def nafLiteralFromAtom_def posLiteralFromAtom_def
        atomFromLiteral_def isLiteral_def isNaf_def masking, simp_all add: kind_consts)
qed

theorem literal_atom_roundtrip_witness:
  "\<exists>l. literalFromAtom \<lparr>kind = 0x01000000, address = 7\<rparr> True = Inr l \<and> isLiteral l \<and> isNaf l \<and>
       kind l AND SUBKIND_MASK = 0x01000000 \<and> atomFromLiteral l = Inr \<lparr>kind = 0x01000000, address = 7\<rparr>"
  using literal_atom_roundtrip [of "\<lparr>kind = 0x01000000, address = 7\<rparr>" True]
  by (simp add: isAtom_def isNaf_def kind_consts)

text \<open>
  Belief literals: for a belief of any sign, \<open>literalFromBelief\<close> yields a belief literal with
  exactly the requested sign, the same address and the same context number.
\<close>

theorem belief_literal_sign_and_context:
  assumes "isBelief b"
  shows "\<exists>l c. literalFromBelief b naf = Inr l \<and> isBelief l \<and> isNaf l = naf \<and>
           address l = address b \<and> contextID b = Inr c \<and> contextID l = Inr c \<and> c < 2 ^ 16"
proof -
  have keep: "(k AND NOT NAF_MASK) AND m = k AND m" if "NOT NAF_MASK AND m = m" for k m :: "32 word"
    using that by (simp add: and.assoc)
  have "unat (kind b AND CONTEXT_ID_MASK) \<le> unat CONTEXT_ID_MASK"
    by (simp add: word_le_nat_alt [symmetric] word_and_le1)
  then have "unat (kind b AND CONTEXT_ID_MASK) < 2 ^ 16" by (simp add: CONTEXT_ID_MASK_def)
  with assms show ?thesis
    by (cases naf)
      (simp_all add: literalFromBelief_def nafLiteralFromBelief_def posLiteralFromBelief_def
        contextID_def isBelief_def isNaf_def masking, simp_all add: kind_consts keep)
qed

theorem belief_literal_sign_and_context_witness:
  "\<exists>l c. literalFromBelief \<lparr>kind = 0xC0000003, address = 9\<rparr> False = Inr l \<and> isBelief l \<and> \<not> isNaf l \<and>
       address l = 9 \<and> contextID \<lparr>kind = 0xC0000003, address = 9\<rparr> = Inr c \<and> contextID l = Inr c \<and> c < 2 ^ 16"
  using belief_literal_sign_and_context [of "\<lparr>kind = 0xC0000003, address = 9\<rparr>" False]
  by (simp add: isBelief_def kind_consts)

text \<open>
  Builtin operators: printing a builtin term and reading the string back yields the same
  term, for every builtin; and every string that is read is the printed form of the resulting
  term, or one of the two spelling variants of equality and inequality.
\<close>

theorem builtin_string_roundtrip:
  "(\<exists>s. stringFromBuiltinTerm (address (termFromBuiltin b)) = Inr s \<and>
        termFromBuiltinString s = Inr (termFromBuiltin b)) \<and>
   (is_ok (termFromBuiltinString op) =
      (op \<in> set builtinTerms \<or> op = ''=='' \<or> op = ''<>''))"
proof
  show "\<exists>s. stringFromBuiltinTerm (address (termFromBuiltin b)) = Inr s \<and>
        termFromBuiltinString s = Inr (termFromBuiltin b)"
    by (cases b) (simp_all add: termFromBuiltin_def stringFromBuiltinTerm_def builtinTerms_def
        termFromBuiltinString_def)
next
  show "is_ok (termFromBuiltinString op) = (op \<in> set builtinTerms \<or> op = ''=='' \<or> op = ''<>'')"
    by (cases op; cases "tl op")
     (auto simp: termFromBuiltinString_def builtinTerms_def)
qed

end
