(* ===== verification/Messages.thy ===== *)
theory Messages
  imports Belief_State Query_ID
begin

text \<open>
  The messages that contexts exchange: requests (\<open>ForwardMessage\<close>), returned belief states
  (\<open>ReturnedBeliefState\<close>), lists of them (\<open>BackwardMessage\<close>), the notification of a joiner
  (\<open>NewJoinIn\<close>), and the description of a neighbor (\<open>NewNeighbor\<close>).
\<close>

section \<open>Neighbors and requests\<close>

record NewNeighbor =
  neighbor_id :: qid
  neighbor_offset :: qid
  nb_hostname :: string
  nb_port :: string

type_synonym NewHistory = "qid set"

record ForwardMessage =
  fm_qid :: qid
  fm_k1 :: nat
  fm_k2 :: nat
  fm_history :: NewHistory

definition ForwardMessage_default :: ForwardMessage where
  "ForwardMessage_default = \<lparr>fm_qid = 0, fm_k1 = 1, fm_k2 = 1, fm_history = {}\<rparr>"

definition ForwardMessage_new :: "qid \<Rightarrow> NewHistory \<Rightarrow> nat \<Rightarrow> nat \<Rightarrow> ForwardMessage" where
  "ForwardMessage_new q h k_one k_two = \<lparr>fm_qid = q, fm_k1 = k_one, fm_k2 = k_two, fm_history = h\<rparr>"

definition getPackSize :: "ForwardMessage \<Rightarrow> nat" where
  "getPackSize m = (if fm_k2 m = 0 then 0 else sz_add (sz_sub (fm_k2 m) (fm_k1 m)) 1)"

definition setPackRequest :: "ForwardMessage \<Rightarrow> nat \<Rightarrow> nat \<Rightarrow> ForwardMessage res" where
  "setPackRequest m k_one k_two = assertion (k_one \<le> k_two) (Inr (m\<lparr>fm_k1 := k_one, fm_k2 := k_two\<rparr>))"

section \<open>Answers\<close>

text \<open>
  The field \<open>belief_state\<close> is a pointer; \<open>None\<close> is the null pointer, which ends a package. The
  type parameter is the belief state itself, or its address where a proof is about memory.
\<close>

record 'bs ReturnedBeliefState =
  belief_state :: "'bs option"
  rbs_qid :: qid

type_synonym returned = "NewBeliefState ReturnedBeliefState"

definition rbs_new :: "'bs option \<Rightarrow> qid \<Rightarrow> 'bs ReturnedBeliefState" where
  "rbs_new bs q = \<lparr>belief_state = bs, rbs_qid = q\<rparr>"

lemma rbs_new_simps [simp]:
  "belief_state (rbs_new b q) = b"
  "rbs_qid (rbs_new b q) = q"
  by (simp_all add: rbs_new_def)

record BackwardMessage =
  rbsl :: "returned list"

record NewJoinIn =
  nji_neighbor_offset :: qid
  no_belief_state :: nat

lemma pack_request_size:
  assumes "setPackRequest m a b = Inr m'" and "0 < a" and "b < SIZE_T"
  shows "getPackSize m' = b + 1 - a"
proof -
  from assms(1) have "a \<le> b" and m': "m' = m\<lparr>fm_k1 := a, fm_k2 := b\<rparr>"
    by (auto simp: setPackRequest_def assertion_eq_Inr)
  with assms show ?thesis
    by (simp add: getPackSize_def sz_sub_small sz_add_small)
qed

end
