(* ===== verification/Output_Order.thy ===== *)
theory Output_Order
  imports Messages "HOL-Library.Multiset"
begin

text \<open>
  The order and the removal of duplicates that an output thread applies to a package
  (\<open>src/mcs/ReturnedBeliefState.cpp\<close>, \<open>src/network/NewOutputThread.cpp\<close>). The removal works in
  place on a list of pointers and deletes the belief states of the duplicates, so it is modelled
  on a heap; comparing or deleting through a dangling pointer is \<open>Undefined_Behaviour\<close>.
\<close>

section \<open>Definitions\<close>

definition my_compare :: "returned \<Rightarrow> returned \<Rightarrow> bool" where
  "my_compare r1 r2 =
     (case belief_state r1 of None \<Rightarrow> False
      | Some b1 \<Rightarrow>
        (case belief_state r2 of None \<Rightarrow> True
         | Some b2 \<Rightarrow>
             if bs_less b1 b2 then True
             else if bs_eq b1 b2 then rbs_qid r1 < rbs_qid r2
             else False))"

definition rbs_eq :: "returned \<Rightarrow> returned \<Rightarrow> bool" where
  "rbs_eq r1 r2 =
     (case (belief_state r1, belief_state r2) of
        (None, None) \<Rightarrow> True
      | (Some b1, Some b2) \<Rightarrow> bs_eq b1 b2 \<and> rbs_qid r1 = rbs_qid r2
      | _ \<Rightarrow> False)"

text \<open>\<open>std::list::sort\<close> is a stable sort with respect to the comparison.\<close>

fun insert_by :: "('a \<Rightarrow> 'a \<Rightarrow> bool) \<Rightarrow> 'a \<Rightarrow> 'a list \<Rightarrow> 'a list" where
  "insert_by lt x [] = [x]"
| "insert_by lt x (y # ys) = (if lt y x then y # insert_by lt x ys else x # y # ys)"

definition list_sort :: "('a \<Rightarrow> 'a \<Rightarrow> bool) \<Rightarrow> 'a list \<Rightarrow> 'a list" where
  "list_sort lt xs = foldr (insert_by lt) xs []"

type_synonym addr = nat
type_synonym heap = "addr \<rightharpoonup> NewBeliefState"

definition deref :: "heap \<Rightarrow> addr \<Rightarrow> NewBeliefState res" where
  "deref h p = (case h p of None \<Rightarrow> Inl Undefined_Behaviour | Some b \<Rightarrow> Inr b)"

definition delete_bs :: "heap \<Rightarrow> addr option \<Rightarrow> heap res" where
  "delete_bs h p = (case p of None \<Rightarrow> Inr h
     | Some a \<Rightarrow> (case h a of None \<Rightarrow> Inl Undefined_Behaviour | Some b \<Rightarrow> Inr (h(a := None))))"

fun delete_all :: "heap \<Rightarrow> addr ReturnedBeliefState list \<Rightarrow> heap res" where
  "delete_all h [] = Inr h"
| "delete_all h (r # rs) = bind_res (delete_bs h (belief_state r)) (\<lambda>h. delete_all h rs)"

definition rbs_eq_at :: "heap \<Rightarrow> addr ReturnedBeliefState \<Rightarrow> addr ReturnedBeliefState \<Rightarrow> bool res" where
  "rbs_eq_at h r1 r2 =
     (case (belief_state r1, belief_state r2) of
        (None, None) \<Rightarrow> Inr True
      | (Some p1, Some p2) \<Rightarrow>
          bind_res (deref h p1) (\<lambda>b1. bind_res (deref h p2) (\<lambda>b2.
            Inr (bs_eq b1 b2 \<and> rbs_qid r1 = rbs_qid r2)))
      | _ \<Rightarrow> Inr False)"

text \<open>
  The loop of \<open>remove_duplication\<close>: iterators are positions, \<open>arr\<close> the objects the list points
  to. The result is the array, the final \<open>mid\<close> and the heap.
\<close>

function remdup_loop ::
  "heap \<Rightarrow> addr ReturnedBeliefState list \<Rightarrow> nat \<Rightarrow> nat \<Rightarrow> nat \<Rightarrow> (addr ReturnedBeliefState list \<times> nat \<times> heap) res"
where
  "remdup_loop h arr mid first beg_remove =
     (if length arr \<le> first + 1
      then bind_res (delete_all h (drop beg_remove arr)) (\<lambda>h. Inr (arr, mid, h))
      else bind_res (rbs_eq_at h (arr ! mid) (arr ! (first + 1))) (\<lambda>same.
        if \<not> same
        then bind_res (delete_all h (drop beg_remove (take (first + 1) arr))) (\<lambda>h.
               remdup_loop h (arr[mid + 1 := arr ! (first + 1)]) (mid + 1) (first + 1) (first + 2))
        else remdup_loop h arr mid (first + 1) beg_remove))"
  by pat_completeness auto
termination
  by (relation "measure (\<lambda>(h, arr, mid, first, beg). length arr - first)") auto

declare remdup_loop.simps [simp del]

definition remove_duplication ::
  "heap \<Rightarrow> addr ReturnedBeliefState list \<Rightarrow> (addr ReturnedBeliefState list \<times> heap) res" where
  "remove_duplication h arr =
     (if arr = [] then Inl Undefined_Behaviour
      else bind_res (remdup_loop h arr 0 0 1) (\<lambda>(arr, mid, h). Inr (take (mid + 1) arr, h)))"

text \<open>
  The output thread: \<open>write_result\<close> sorts the package, removes duplicates, writes the header and
  the message, and frees what it has written. The result is the message and the heap.
\<close>

definition rbs_val :: "heap \<Rightarrow> addr ReturnedBeliefState \<Rightarrow> returned" where
  "rbs_val h r = rbs_new (map_option (\<lambda>p. the (h p)) (belief_state r)) (rbs_qid r)"

definition dangling :: "heap \<Rightarrow> addr ReturnedBeliefState \<Rightarrow> bool" where
  "dangling h r = (case belief_state r of None \<Rightarrow> False | Some p \<Rightarrow> h p = None)"

definition clean_up :: "heap \<Rightarrow> addr ReturnedBeliefState list \<Rightarrow> heap res" where
  "clean_up h output_list = delete_all h output_list"

definition write_result :: "heap \<Rightarrow> addr ReturnedBeliefState list \<Rightarrow> (BackwardMessage \<times> heap) res" where
  "write_result h output_list =
     (if list_ex (dangling h) output_list then Inl Undefined_Behaviour
      else bind_res
        (remove_duplication h (list_sort (\<lambda>a b. my_compare (rbs_val h a) (rbs_val h b)) output_list))
        (\<lambda>(output_list, h).
           let bmess = \<lparr>rbsl = map (rbs_val h) output_list\<rparr>
           in bind_res (clean_up h output_list) (\<lambda>h. Inr (bmess, h))))"

text \<open>
  \<open>startup\<close> on the messages that arrive on its queue, up to the null pointer that stops it; the
  result lists the messages written, the heap and the package that is still open.
\<close>

fun output_loop ::
  "heap \<Rightarrow> qid \<Rightarrow> addr ReturnedBeliefState list \<Rightarrow> addr ReturnedBeliefState option list
     \<Rightarrow> (BackwardMessage list \<times> heap \<times> addr ReturnedBeliefState list) res"
where
  "output_loop h invoker_id output_list [] = Inr ([], h, output_list)"
| "output_loop h invoker_id output_list (None # ms) =
     bind_res (clean_up h output_list) (\<lambda>h. Inr ([], h, []))"
| "output_loop h invoker_id output_list (Some res # ms) =
     assertion (ctxid_from_qid (rbs_qid res) = invoker_id)
       (if belief_state res = None
        then bind_res (write_result h (output_list @ [res])) (\<lambda>(bmess, h).
               bind_res (output_loop h invoker_id [] ms) (\<lambda>(sent, h, rest). Inr (bmess # sent, h, rest)))
        else output_loop h invoker_id (output_list @ [res]) ms)"

section \<open>Sorting and removing duplicates along a comparison\<close>

fun dedup :: "('a \<Rightarrow> 'a \<Rightarrow> bool) \<Rightarrow> 'a list \<Rightarrow> 'a list" where
  "dedup eq [] = []"
| "dedup eq [x] = [x]"
| "dedup eq (x # y # ys) = (if eq x y then dedup eq (x # ys) else x # dedup eq (y # ys))"

lemma mset_insert_by [simp]: "mset (insert_by lt x xs) = add_mset x (mset xs)"
  by (induction xs) auto

lemma mset_list_sort [simp]: "mset (list_sort lt xs) = mset xs"
  by (induction xs) (simp_all add: list_sort_def)

lemma set_list_sort [simp]: "set (list_sort lt xs) = set xs"
  by (metis mset_list_sort set_mset_mset)

lemma set_dedup_subset: "set (dedup eq xs) \<subseteq> set xs"
  by (induction eq xs rule: dedup.induct) auto

text \<open>What a comparison promises on a domain: a strict weak order whose equivalence is \<open>eq\<close>.\<close>

lemma dedup_list_induct:
  assumes "P []" and "\<And>x. P [x]" and "\<And>x y ys. P (x # ys) \<Longrightarrow> P (y # ys) \<Longrightarrow> P (x # y # ys)"
  shows "P xs"
proof (induction xs rule: length_induct)
  case (1 xs)
  then show ?case using assms by (cases xs; cases "tl xs") auto
qed

locale comparator =
  fixes ok :: "'a \<Rightarrow> bool" and lt eq :: "'a \<Rightarrow> 'a \<Rightarrow> bool"
  assumes less_irrefl: "ok a \<Longrightarrow> eq a b \<Longrightarrow> \<not> lt a b"
    and less_trans: "ok a \<Longrightarrow> ok b \<Longrightarrow> ok c \<Longrightarrow> lt a b \<Longrightarrow> lt b c \<Longrightarrow> lt a c"
    and less_total: "ok a \<Longrightarrow> ok b \<Longrightarrow> lt a b \<or> eq a b \<or> lt b a"
    and eq_refl: "ok a \<Longrightarrow> eq a a"
    and eq_sym: "ok a \<Longrightarrow> ok b \<Longrightarrow> eq a b \<Longrightarrow> eq b a"
    and eq_trans: "ok a \<Longrightarrow> ok b \<Longrightarrow> ok c \<Longrightarrow> eq a b \<Longrightarrow> eq b c \<Longrightarrow> eq a c"
    and less_eq_trans: "ok a \<Longrightarrow> ok b \<Longrightarrow> ok c \<Longrightarrow> lt a b \<Longrightarrow> eq b c \<Longrightarrow> lt a c"
    and eq_less_trans: "ok a \<Longrightarrow> ok b \<Longrightarrow> ok c \<Longrightarrow> eq a b \<Longrightarrow> lt b c \<Longrightarrow> lt a c"
begin

lemma less_asym: "ok a \<Longrightarrow> ok b \<Longrightarrow> lt a b \<Longrightarrow> \<not> lt b a"
  by (metis less_trans less_irrefl eq_refl)

lemma less_le_trans: "ok a \<Longrightarrow> ok b \<Longrightarrow> ok c \<Longrightarrow> lt a b \<Longrightarrow> \<not> lt c b \<Longrightarrow> lt a c"
  by (metis less_total less_trans less_eq_trans)

lemma not_less_trans:
  "ok a \<Longrightarrow> ok b \<Longrightarrow> ok c \<Longrightarrow> \<not> lt b a \<Longrightarrow> \<not> lt c b \<Longrightarrow> \<not> lt c a"
  by (metis less_total less_trans less_irrefl eq_sym less_eq_trans eq_less_trans eq_trans)

lemma sorted_insert_by:
  "\<lbrakk>ok x; \<forall>y\<in>set ys. ok y; sorted_wrt (\<lambda>a b. \<not> lt b a) ys\<rbrakk>
     \<Longrightarrow> sorted_wrt (\<lambda>a b. \<not> lt b a) (insert_by lt x ys)"
proof (induction ys)
  case Nil
  then show ?case by simp
next
  case (Cons y ys)
  then have *: "set (insert_by lt x ys) = insert x (set ys)"
    by (metis mset_insert_by set_mset_mset set_mset_add_mset_insert)
  show ?case
  proof (cases "lt y x")
    case True
    with Cons * show ?thesis
      by (auto dest: less_asym)
  next
    case False
    with Cons show ?thesis by (auto dest: not_less_trans [of x y])
  qed
qed

lemma sorted_list_sort:
  "\<forall>x\<in>set xs. ok x \<Longrightarrow> sorted_wrt (\<lambda>a b. \<not> lt b a) (list_sort lt xs)"
proof (induction xs)
  case Nil
  then show ?case by (simp add: list_sort_def)
next
  case (Cons x xs)
  then have "sorted_wrt (\<lambda>a b. \<not> lt b a) (insert_by lt x (list_sort lt xs))"
    by (intro sorted_insert_by) auto
  then show ?case by (simp add: list_sort_def)
qed

lemma dedup_covers:
  "\<forall>x\<in>set xs. ok x \<Longrightarrow> z \<in> set xs \<Longrightarrow> \<exists>y\<in>set (dedup eq xs). eq y z"
proof (induction xs arbitrary: z rule: dedup_list_induct)
  case (3 x y ys)
  note covers = 3(1)
  show ?case
  proof (cases "eq x y")
    case True
    define z' where "z' = (if z = y then x else z)"
    with 3(3,4) have "\<exists>w\<in>set (dedup eq (x # ys)). eq w z'" by (intro covers) auto
    then obtain w where w: "w \<in> set (dedup eq (x # ys))" "eq w z'" ..
    moreover from w(1) 3(3) have "ok w" using set_dedup_subset [of eq "x # ys"] by auto
    ultimately show ?thesis using True 3(3) by (auto simp: z'_def split: if_splits intro: eq_trans)
  next
    case False
    with 3 show ?thesis by (auto simp: eq_refl)
  qed
qed (auto simp: eq_refl)

lemma dedup_strict:
  "\<lbrakk>\<forall>x\<in>set xs. ok x; sorted_wrt (\<lambda>a b. \<not> lt b a) xs\<rbrakk> \<Longrightarrow> sorted_wrt lt (dedup eq xs)"
proof (induction xs rule: dedup_list_induct)
  case (3 x y ys)
  show ?case
  proof (cases "eq x y")
    case False
    with 3 have "lt x y" using less_total [of x y] by auto
    with 3 have "lt x z" if "z \<in> set (y # ys)" for z
      using that by (auto intro: less_le_trans)
    then have "\<forall>z\<in>set (dedup eq (y # ys)). lt x z" using set_dedup_subset by fast
    with False 3 show ?thesis by auto
  qed (use 3 in auto)
qed auto

end

section \<open>The comparison of returned belief states\<close>

text \<open>Answers about one system carry belief states of one size.\<close>

definition sized_answer :: "nat \<Rightarrow> returned \<Rightarrow> bool" where
  "sized_answer n r = (case belief_state r of None \<Rightarrow> True | Some b \<Rightarrow> wf_bs n b)"

lemma bs_less_sized:
  "wf_bs n a \<Longrightarrow> wf_bs n b \<Longrightarrow> bs_less a b \<longleftrightarrow>
     bv_less (status_bit a) (status_bit b) \<or>
     status_bit a = status_bit b \<and> bv_less (value_bit a) (value_bit b)"
  by (simp add: bs_less_def wf_bs_iff bv_eq_iff)

lemma bs_less_trans:
  assumes "wf_bs n a" and "wf_bs n b" and "wf_bs n c" and "bs_less a b" and "bs_less b c"
  shows "bs_less a c"
proof -
  from assms(1-3) have len:
    "length (status_bit a) = length (status_bit b)" "length (status_bit b) = length (status_bit c)"
    "length (value_bit a) = length (value_bit b)" "length (value_bit b) = length (value_bit c)"
    by (simp_all add: wf_bs_iff)
  from assms(4,5) show ?thesis
    unfolding bs_less_sized [OF assms(1,2)] bs_less_sized [OF assms(2,3)] bs_less_sized [OF assms(1,3)]
    using bv_less_trans [OF len(1,2)] bv_less_trans [OF len(3,4)] by auto
qed

lemma bs_less_irrefl: "\<not> bs_less a a"
  by (simp add: bs_less_def bv_less_irrefl)

lemma bs_less_total:
  assumes "wf_bs n a" and "wf_bs n b"
  shows "bs_less a b \<or> a = b \<or> bs_less b a"
proof -
  from assms have len: "length (status_bit a) = length (status_bit b)"
    "length (value_bit a) = length (value_bit b)"
    by (simp_all add: wf_bs_iff)
  show ?thesis
    unfolding bs_less_sized [OF assms] bs_less_sized [OF assms(2,1)]
    using bv_less_linear [OF len(1)] bv_less_linear [OF len(2)] by (cases a; cases b) auto
qed

lemma rbs_eq_sized:
  "sized_answer n a \<Longrightarrow> sized_answer n b \<Longrightarrow>
     rbs_eq a b \<longleftrightarrow> belief_state a = None \<and> belief_state b = None \<or> belief_state a \<noteq> None \<and> a = b"
  by (cases a; cases b) (auto simp: rbs_eq_def sized_answer_def bs_eq_wf split: option.splits)

text \<open>On answers of one size the comparison is lexicographic, with the end marker as the top.\<close>

definition answer_less :: "returned \<Rightarrow> returned \<Rightarrow> bool" where
  "answer_less a b = (case (belief_state a, belief_state b) of
     (Some x, Some y) \<Rightarrow> bs_less x y \<or> x = y \<and> rbs_qid a < rbs_qid b
   | (Some x, None) \<Rightarrow> True
   | _ \<Rightarrow> False)"

lemma my_compare_sized: "sized_answer n a \<Longrightarrow> sized_answer n b \<Longrightarrow> my_compare a b = answer_less a b"
  by (auto simp: my_compare_def answer_less_def sized_answer_def bs_eq_wf bs_less_irrefl
      split: option.splits)

lemma answer_less_trans:
  assumes "sized_answer n a" and "sized_answer n b" and "sized_answer n c"
    and "answer_less a b" and "answer_less b c"
  shows "answer_less a c"
proof (cases "belief_state a"; cases "belief_state b"; cases "belief_state c")
  fix x y z
  assume "belief_state a = Some x" "belief_state b = Some y" "belief_state c = Some z"
  with assms show ?thesis
    using bs_less_trans [of n x y z] by (auto simp: answer_less_def sized_answer_def)
qed (use assms in \<open>auto simp: answer_less_def\<close>)

lemma answer_less_total:
  "sized_answer n a \<Longrightarrow> sized_answer n b \<Longrightarrow> answer_less a b \<or> rbs_eq a b \<or> answer_less b a"
  using bs_less_total [of n "the (belief_state a)" "the (belief_state b)"]
  by (auto simp: answer_less_def sized_answer_def rbs_eq_def bs_eq_wf split: option.splits)

lemma rbs_eq_cong:
  "sized_answer n a \<Longrightarrow> sized_answer n b \<Longrightarrow> rbs_eq a b \<Longrightarrow>
     answer_less a c = answer_less b c \<and> answer_less c a = answer_less c b \<and> rbs_eq a c = rbs_eq b c"
  unfolding rbs_eq_sized [of n a b] by (auto simp: answer_less_def rbs_eq_def split: option.splits)

lemma answer_less_irrefl: "\<not> answer_less a a"
  by (simp add: answer_less_def bs_less_irrefl split: option.splits)

lemma rbs_eq_refl: "sized_answer n a \<Longrightarrow> rbs_eq a a"
  by (auto simp: rbs_eq_sized)

interpretation answers: comparator "sized_answer n" my_compare rbs_eq for n
proof
  fix a b c :: returned
  assume a: "sized_answer n a" and b: "sized_answer n b"
  show "my_compare a b \<or> rbs_eq a b \<or> my_compare b a"
    unfolding my_compare_sized [OF a b] my_compare_sized [OF b a] by (rule answer_less_total [OF a b])
  show "rbs_eq a b \<Longrightarrow> rbs_eq b a"
    using rbs_eq_cong [OF a b, of a] rbs_eq_refl [OF a] by simp
  assume c: "sized_answer n c"
  note cmp = my_compare_sized [OF a b] my_compare_sized [OF b c] my_compare_sized [OF a c]
  show "my_compare a b \<Longrightarrow> my_compare b c \<Longrightarrow> my_compare a c"
    unfolding cmp by (rule answer_less_trans [OF a b c])
  show "rbs_eq a b \<Longrightarrow> rbs_eq b c \<Longrightarrow> rbs_eq a c"
    using rbs_eq_cong [OF a b, of c] by simp
  show "my_compare a b \<Longrightarrow> rbs_eq b c \<Longrightarrow> my_compare a c"
    unfolding cmp using rbs_eq_cong [OF b c, of a] by simp
  show "rbs_eq a b \<Longrightarrow> my_compare b c \<Longrightarrow> my_compare a c"
    unfolding cmp using rbs_eq_cong [OF a b, of c] by simp
next
  fix a b :: returned
  assume "sized_answer n a" "rbs_eq a b"
  then show "\<not> my_compare a b"
    by (auto simp: sized_answer_def rbs_eq_def my_compare_def bs_eq_def bs_less_def bv_eq_def bv_less_def
        split: option.splits)
next
  fix a :: returned
  assume "sized_answer n a"
  then show "rbs_eq a a" by (rule rbs_eq_refl)
qed

section \<open>Removal of duplicates in place\<close>

text \<open>The addresses that a list of objects holds, and the answer that an object stands for.\<close>

definition ptrs :: "addr ReturnedBeliefState list \<Rightarrow> addr list" where
  "ptrs rs = List.map_filter belief_state rs"

definition free_ptrs :: "heap \<Rightarrow> addr list \<Rightarrow> heap" where
  "free_ptrs h ps = (\<lambda>p. if p \<in> set ps then None else h p)"

lemma ptrs_simps [simp]:
  "ptrs [] = []"
  "ptrs (r # rs) = (case belief_state r of None \<Rightarrow> ptrs rs | Some p \<Rightarrow> p # ptrs rs)"
  "ptrs (rs @ ss) = ptrs rs @ ptrs ss"
  by (simp_all add: ptrs_def List.map_filter_def split: option.splits)

lemma delete_all_live:
  "distinct (ptrs rs) \<Longrightarrow> set (ptrs rs) \<subseteq> dom h \<Longrightarrow> delete_all h rs = Inr (free_ptrs h (ptrs rs))"
proof (induction rs arbitrary: h)
  case Nil
  then show ?case by (simp add: free_ptrs_def)
next
  case (Cons r rs)
  show ?case
  proof (cases "belief_state r")
    case None
    with Cons show ?thesis by (simp add: delete_bs_def)
  next
    case (Some p)
    with Cons.prems obtain b where "h p = Some b" by auto
    moreover have "delete_all (h(p := None)) rs = Inr (free_ptrs (h(p := None)) (ptrs rs))"
      using Cons.prems Some by (intro Cons.IH) auto
    ultimately show ?thesis using Some by (auto simp: delete_bs_def free_ptrs_def)
  qed
qed

lemma rbs_eq_at_live:
  assumes "set (ptrs [a, b]) \<subseteq> dom h"
  shows "rbs_eq_at h a b = Inr (rbs_eq (rbs_val h a) (rbs_val h b))"
  using assms by (auto simp: rbs_eq_at_def rbs_eq_def rbs_val_def deref_def split: option.splits)

lemma rbs_val_free:
  "set (ptrs [a]) \<inter> set ps = {} \<Longrightarrow> rbs_val (free_ptrs h ps) a = rbs_val h a"
  by (cases "belief_state a") (auto simp: rbs_val_def free_ptrs_def)

text \<open>
  The state of the loop: \<open>K\<close> is what has been kept, \<open>J\<close> are overwritten objects, \<open>R\<close> the run of
  duplicates of the last kept object found so far and \<open>S\<close> the objects not looked at. The function
  below is what the loop makes of it, on values only.
\<close>

fun keep :: "heap \<Rightarrow> addr ReturnedBeliefState \<Rightarrow> addr ReturnedBeliefState list \<Rightarrow> addr ReturnedBeliefState list" where
  "keep h x [] = [x]"
| "keep h x (y # ys) = (if rbs_eq (rbs_val h x) (rbs_val h y) then keep h x ys else x # keep h y ys)"

fun doomed :: "heap \<Rightarrow> addr ReturnedBeliefState \<Rightarrow> addr ReturnedBeliefState list \<Rightarrow> addr ReturnedBeliefState list" where
  "doomed h x [] = []"
| "doomed h x (y # ys) = (if rbs_eq (rbs_val h x) (rbs_val h y) then y # doomed h x ys else doomed h y ys)"

lemma keep_free:
  "set (ptrs (x # S)) \<inter> set ps = {} \<Longrightarrow> keep (free_ptrs h ps) x S = keep h x S"
proof (induction S arbitrary: x)
  case (Cons y S)
  then show ?case by (simp add: rbs_val_free split: option.splits)
qed simp

lemma doomed_free:
  "set (ptrs (x # S)) \<inter> set ps = {} \<Longrightarrow> doomed (free_ptrs h ps) x S = doomed h x S"
proof (induction S arbitrary: x)
  case (Cons y S)
  then show ?case by (simp add: rbs_val_free split: option.splits)
qed simp

lemma overwrite_first_junk:
  "\<exists>J'. (K @ J @ R @ s # S)[length K := s] = (K @ [s]) @ J' @ S \<and>
        length J' = length J + length R"
proof (cases "J @ R")
  case Nil
  then show ?thesis by (auto simp: list_update_append)
next
  case (Cons x T)
  have "(K @ (J @ R) @ s # S)[length K := s] = (K @ [s]) @ (T @ [s]) @ S"
    by (simp add: Cons list_update_append)
  moreover from Cons have "length (T @ [s]) = length J + length R"
    by (metis length_append length_append_singleton length_Cons)
  ultimately show ?thesis by (metis append.assoc)
qed

lemma remdup_loop_correct:
  assumes "distinct (ptrs (x # R @ S))" and "set (ptrs (x # R @ S)) \<subseteq> dom h"
  shows "\<exists>arr mid. remdup_loop h (K @ x # J @ R @ S) (length K)
            (length K + length J + length R) (Suc (length K + length J)) =
           Inr (arr, mid, free_ptrs h (ptrs (R @ doomed h x S))) \<and>
         take (Suc mid) arr = K @ keep h x S"
  using assms
proof (induction S arbitrary: x K J R h)
  case Nil
  then have "delete_all h R = Inr (free_ptrs h (ptrs R))"
    by (intro delete_all_live) (auto split: option.splits)
  then show ?case by (simp add: remdup_loop.simps)
next
  case (Cons s S)
  let ?arr = "K @ x # J @ R @ s # S"
  have at: "?arr ! length K = x" "?arr ! (length K + length J + length R + 1) = s"
    by (simp_all add: nth_append)
  have cmp: "rbs_eq_at h x s = Inr (rbs_eq (rbs_val h x) (rbs_val h s))"
    using Cons.prems by (intro rbs_eq_at_live) (auto split: option.splits)
  show ?case
  proof (cases "rbs_eq (rbs_val h x) (rbs_val h s)")
    case True
    have "\<exists>arr mid. remdup_loop h (K @ x # J @ (R @ [s]) @ S) (length K)
            (length K + length J + length (R @ [s])) (Suc (length K + length J)) =
           Inr (arr, mid, free_ptrs h (ptrs ((R @ [s]) @ doomed h x S))) \<and>
         take (Suc mid) arr = K @ keep h x S"
      using Cons.prems by (intro Cons.IH) simp_all
    with True at cmp show ?thesis
      by (subst remdup_loop.simps) simp
  next
    case False
    define h1 where "h1 = free_ptrs h (ptrs R)"
    from Cons.prems have del: "delete_all h R = Inr h1"
      unfolding h1_def by (intro delete_all_live) (auto split: option.splits)
    obtain J' where J': "((K @ [x]) @ J @ R @ s # S)[length (K @ [x]) := s] = ((K @ [x]) @ [s]) @ J' @ S"
      and lenJ': "length J' = length J + length R"
      using overwrite_first_junk [of "K @ [x]" J R s S] by blast
    from Cons.prems have apart: "set (ptrs (s # S)) \<inter> set (ptrs R) = {}"
      by (auto split: option.splits)
    have "\<exists>arr mid. remdup_loop h1 ((K @ [x]) @ s # J' @ [] @ S) (length (K @ [x]))
            (length (K @ [x]) + length J' + length ([] :: addr ReturnedBeliefState list))
            (Suc (length (K @ [x]) + length J')) =
           Inr (arr, mid, free_ptrs h1 (ptrs ([] @ doomed h1 s S))) \<and>
         take (Suc mid) arr = (K @ [x]) @ keep h1 s S"
    proof (rule Cons.IH)
      show "distinct (ptrs (s # [] @ S))" using Cons.prems by (auto split: option.splits)
      show "set (ptrs (s # [] @ S)) \<subseteq> dom h1"
        using Cons.prems apart by (auto simp: h1_def free_ptrs_def split: option.splits)
    qed
    moreover have "free_ptrs h1 (ptrs (doomed h1 s S)) = free_ptrs h (ptrs (R @ doomed h s S))"
      using doomed_free [OF apart] by (auto simp: h1_def free_ptrs_def)
    moreover have "keep h1 s S = keep h s S"
      using keep_free [OF apart] by (simp add: h1_def)
    ultimately show ?thesis using False at cmp del J' lenJ'
      by (subst remdup_loop.simps) (simp add: add.assoc)
  qed
qed

lemma keep_dedup: "map (rbs_val h) (keep h x S) = dedup rbs_eq (map (rbs_val h) (x # S))"
  by (induction S arbitrary: x) auto

lemma keep_doomed_mset:
  "mset (ptrs (keep h x S)) + mset (ptrs (doomed h x S)) = mset (ptrs (x # S))"
  by (induction S arbitrary: x) (auto split: option.splits)

lemma remove_duplication_keep:
  assumes "distinct (ptrs (x # S))" and "set (ptrs (x # S)) \<subseteq> dom h"
  shows "remove_duplication h (x # S) = Inr (keep h x S, free_ptrs h (ptrs (doomed h x S)))"
  using remdup_loop_correct [of x "[]" S h "[]" "[]"] assms by (auto simp: remove_duplication_def)

lemma map_rbs_val_free:
  "set (ptrs rs) \<inter> set ps = {} \<Longrightarrow> map (rbs_val (free_ptrs h ps)) rs = map (rbs_val h) rs"
proof (induction rs)
  case (Cons r rs)
  then show ?case by (auto simp: rbs_val_free split: option.splits)
qed simp

lemma keep_doomed_disjoint:
  assumes "distinct (ptrs (x # S))"
  shows "set (ptrs (keep h x S)) \<inter> set (ptrs (doomed h x S)) = {} \<and>
         distinct (ptrs (keep h x S)) \<and> distinct (ptrs (doomed h x S)) \<and>
         set (ptrs (keep h x S)) \<union> set (ptrs (doomed h x S)) = set (ptrs (x # S))"
proof -
  from assms have "distinct (ptrs (keep h x S) @ ptrs (doomed h x S))"
    by (metis distinct_count_atmost_1 keep_doomed_mset mset_append mset_eq_imp_distinct_iff)
  moreover have "set (ptrs (keep h x S) @ ptrs (doomed h x S)) = set (ptrs (x # S))"
    by (metis keep_doomed_mset mset_append set_mset_mset)
  ultimately show ?thesis by auto
qed

lemma insert_by_map:
  "map f (insert_by (\<lambda>a b. lt (f a) (f b)) x xs) = insert_by lt (f x) (map f xs)"
  by (induction xs) auto

lemma list_sort_map: "map f (list_sort (\<lambda>a b. lt (f a) (f b)) xs) = list_sort lt (map f xs)"
  by (induction xs) (auto simp: list_sort_def insert_by_map)

lemma mset_ptrs: "mset (ptrs rs) = mset (ptrs ss)" if "mset rs = mset ss"
  using that by (simp add: ptrs_def List.map_filter_def)

lemma write_result_value:
  assumes "rs \<noteq> []" and "distinct (ptrs rs)" and "set (ptrs rs) \<subseteq> dom h"
  shows "write_result h rs =
    Inr (\<lparr>rbsl = dedup rbs_eq (list_sort my_compare (map (rbs_val h) rs))\<rparr>, free_ptrs h (ptrs rs))"
proof -
  let ?ss = "list_sort (\<lambda>a b. my_compare (rbs_val h a) (rbs_val h b)) rs"
  have live: "\<not> list_ex (dangling h) rs"
    using assms(3) by (induction rs) (auto simp: dangling_def split: option.splits)
  have same: "mset (ptrs ?ss) = mset (ptrs rs)" by (rule mset_ptrs) simp
  from assms(1) obtain x S where ss: "?ss = x # S" by (metis list.exhaust mset_list_sort mset_zero_iff)
  from same assms(2,3) have d: "distinct (ptrs (x # S))" and l: "set (ptrs (x # S)) \<subseteq> dom h"
    unfolding ss by (metis mset_eq_imp_distinct_iff, metis set_mset_mset)
  note parts = keep_doomed_disjoint [OF d, of h]
  let ?h = "free_ptrs h (ptrs (doomed h x S))"
  from parts have "set (ptrs (keep h x S)) \<subseteq> set (ptrs (x # S)) - set (ptrs (doomed h x S))" by blast
  with l have "set (ptrs (keep h x S)) \<subseteq> dom h - set (ptrs (doomed h x S))" by blast
  then have "set (ptrs (keep h x S)) \<subseteq> dom ?h"
    by (auto simp: free_ptrs_def simp del: ptrs_simps)
  then have "delete_all ?h (keep h x S) = Inr (free_ptrs ?h (ptrs (keep h x S)))"
    using parts by (intro delete_all_live) auto
  moreover have "free_ptrs ?h (ptrs (keep h x S)) = free_ptrs h (ptrs rs)"
  proof -
    have "set (ptrs rs) = set (ptrs (keep h x S)) \<union> set (ptrs (doomed h x S))"
      using parts same unfolding ss by (metis set_mset_mset)
    then show ?thesis by (auto simp: free_ptrs_def fun_eq_iff)
  qed
  moreover have "map (rbs_val ?h) (keep h x S) = dedup rbs_eq (list_sort my_compare (map (rbs_val h) rs))"
    using parts map_rbs_val_free [of "keep h x S" "ptrs (doomed h x S)" h]
    by (simp only: keep_dedup ss [symmetric] list_sort_map [of "rbs_val h"])
  ultimately show ?thesis
    using live remove_duplication_keep [OF d l] by (simp add: write_result_def ss clean_up_def)
qed

section \<open>What the output thread sends\<close>

definition package_out :: "heap \<Rightarrow> addr ReturnedBeliefState list \<Rightarrow> BackwardMessage" where
  "package_out h pkg = \<lparr>rbsl = dedup rbs_eq (list_sort my_compare (map (rbs_val h) pkg))\<rparr>"

text \<open>A package: answers with a belief state, closed by the null pointer, all for one invoker.\<close>

definition package :: "qid \<Rightarrow> addr ReturnedBeliefState list \<Rightarrow> bool" where
  "package invoker pkg \<longleftrightarrow> pkg \<noteq> [] \<and> list_all (\<lambda>r. belief_state r \<noteq> None) (butlast pkg) \<and>
     belief_state (last pkg) = None \<and> list_all (\<lambda>r. ctxid_from_qid (rbs_qid r) = invoker) pkg"

lemma output_loop_collect:
  "list_all (\<lambda>r. belief_state r \<noteq> None \<and> ctxid_from_qid (rbs_qid r) = invoker) rs \<Longrightarrow>
     output_loop h invoker acc (map Some rs @ ms) = output_loop h invoker (acc @ rs) ms"
  by (induction rs arbitrary: acc) auto

lemma output_loop_package:
  assumes "package invoker pkg" and "distinct (ptrs pkg)" and "set (ptrs pkg) \<subseteq> dom h"
  shows "output_loop h invoker [] (map Some pkg @ ms) =
    bind_res (output_loop (free_ptrs h (ptrs pkg)) invoker [] ms)
      (\<lambda>(sent, h', rest). Inr (package_out h pkg # sent, h', rest))"
proof -
  from assms(1) have pkg: "pkg = butlast pkg @ [last pkg]" by (simp add: package_def)
  from assms(1) have all: "list_all (\<lambda>r. ctxid_from_qid (rbs_qid r) = invoker) (butlast pkg @ [last pkg])"
    by (simp add: package_def)
  with assms(1) have "list_all (\<lambda>r. belief_state r \<noteq> None \<and> ctxid_from_qid (rbs_qid r) = invoker) (butlast pkg)"
    by (auto simp: package_def list_all_iff dest: in_set_butlastD)
  then have "output_loop h invoker [] (map Some (butlast pkg) @ Some (last pkg) # ms) =
      output_loop h invoker (butlast pkg) (Some (last pkg) # ms)"
    by (simp add: output_loop_collect)
  also from assms all have "\<dots> = bind_res (write_result h pkg) (\<lambda>(bmess, h).
      bind_res (output_loop h invoker [] ms) (\<lambda>(sent, h, rest). Inr (bmess # sent, h, rest)))"
    using pkg by (simp add: package_def list_all_iff)
  also from assms have "write_result h pkg = Inr (package_out h pkg, free_ptrs h (ptrs pkg))"
    by (simp add: write_result_value package_def package_out_def)
  finally show ?thesis using pkg by (metis append_Cons append_Nil append_assoc bind_res_simps(2)
        case_prod_conv list.simps(8,9) map_append)
qed





end
