(* ===== verification/Belief_Tables.thy ===== *)
theory Belief_Tables
  imports Term_ID
begin

unbundle bit_operations_syntax

text \<open>
  Beliefs, bridge rules and the tables that hold them (\<open>include/mcs/Belief.h\<close>, \<open>BeliefTable.h\<close>,
  \<open>BridgeRule.h\<close>, \<open>BridgeRuleTable.h\<close>). A table is a Boost multi-index container: the list of its
  elements in the order of insertion, where an insertion that violates a unique index fails.
  The locks of the tables are not modelled: each operation is atomic.
\<close>

section \<open>Beliefs\<close>

record Belief =
  b_address :: "32 word"
  b_kind :: "32 word"
  b_text :: string

definition Belief_new :: "16 word \<Rightarrow> string \<Rightarrow> Belief" where
  "Belief_new ctx_id text = \<lparr>b_address = 0, b_kind = MAINKIND_BELIEF OR ucast ctx_id, b_text = text\<rparr>"

definition Belief_new_at :: "16 word \<Rightarrow> 32 word \<Rightarrow> string \<Rightarrow> Belief" where
  "Belief_new_at ctx_id addr text =
     \<lparr>b_address = addr, b_kind = MAINKIND_BELIEF OR ucast ctx_id, b_text = text\<rparr>"

definition b_ctx_id :: "Belief \<Rightarrow> nat" where
  "b_ctx_id b = unat (b_kind b AND CONTEXT_ID_MASK)"

definition b_id :: "Belief \<Rightarrow> ID" where
  "b_id b = \<lparr>kind = b_kind b, address = b_address b\<rparr>"

record BeliefTable =
  bt_container :: "Belief list"
  nextAddress :: "32 word"

definition BeliefTable_new :: BeliefTable where
  "BeliefTable_new = \<lparr>bt_container = [], nextAddress = 0\<rparr>"

definition bt_getByID :: "BeliefTable \<Rightarrow> ID \<Rightarrow> Belief res" where
  "bt_getByID t x = assertion (isBelief x)
     (case find (\<lambda>b. b_address b = address x) (bt_container t) of
        None \<Rightarrow> Inl (Belief_Unknown (address x)) | Some b \<Rightarrow> Inr b)"

definition bt_getIDByString :: "BeliefTable \<Rightarrow> string \<Rightarrow> ID" where
  "bt_getIDByString t str =
     (case find (\<lambda>b. b_text b = str) (bt_container t) of None \<Rightarrow> ID_FAIL | Some b \<Rightarrow> b_id b)"

text \<open>Insertion into the container with its two unique indices.\<close>

definition bt_insert :: "BeliefTable \<Rightarrow> Belief \<Rightarrow> BeliefTable \<times> bool" where
  "bt_insert t nb =
     (if \<exists>b\<in>set (bt_container t). b_address b = b_address nb \<or> b_text b = b_text nb then (t, False)
      else (t\<lparr>bt_container := bt_container t @ [nb]\<rparr>, True))"

definition bt_storeAndGetID :: "BeliefTable \<Rightarrow> Belief \<Rightarrow> (BeliefTable \<times> ID) res" where
  "bt_storeAndGetID t b =
     assertion (isBelief \<lparr>kind = b_kind b, address = 0\<rparr>)
     (assertion (b_text b \<noteq> [])
      (let nb = b\<lparr>b_address := nextAddress t\<rparr>;
           (t, success) = bt_insert (t\<lparr>nextAddress := nextAddress t + 1\<rparr>) nb
       in assertion success (Inr (t, \<lparr>kind = b_kind nb, address = b_address nb\<rparr>))))"

definition bt_storeWithID :: "BeliefTable \<Rightarrow> Belief \<Rightarrow> ID \<Rightarrow> (BeliefTable \<times> ID) res" where
  "bt_storeWithID t b setid =
     assertion (isBelief setid)
     (assertion (b_text b \<noteq> [])
     (assertion (nextAddress t = 0)
      (let nb = b\<lparr>b_kind := kind setid, b_address := address setid\<rparr>;
           (t, success) = bt_insert t nb
       in assertion success (Inr (t, setid)))))"

definition bt_getAllByAddress :: "BeliefTable \<Rightarrow> Belief list" where
  "bt_getAllByAddress t = bt_container t"

section \<open>Bridge rules\<close>

record BridgeRule =
  br_kind :: "32 word"
  br_head :: ID
  br_body :: "ID list"

type_synonym BridgeRuleTable = "BridgeRule list"

definition is_bridge_rule_kind :: "32 word \<Rightarrow> bool" where
  "is_bridge_rule_kind k \<longleftrightarrow> isBridgeRule \<lparr>kind = k, address = 0\<rparr> = Inr True"

definition BridgeRule_new :: "32 word \<Rightarrow> ID \<Rightarrow> ID list \<Rightarrow> BridgeRule res" where
  "BridgeRule_new k h body = assertion (is_bridge_rule_kind k)
     (Inr \<lparr>br_kind = k, br_head = h, br_body = body\<rparr>)"

definition br_getByID :: "BridgeRuleTable \<Rightarrow> ID \<Rightarrow> BridgeRule res" where
  "br_getByID t x = assertion (isBridgeRule x = Inr True)
     (assertion (unat (address x) < length t) (Inr (t ! unat (address x))))"

fun index_of :: "('a \<Rightarrow> bool) \<Rightarrow> 'a list \<Rightarrow> nat option" where
  "index_of P [] = None"
| "index_of P (x # xs) = (if P x then Some 0 else map_option Suc (index_of P xs))"

definition br_getIDByElement :: "BridgeRuleTable \<Rightarrow> BridgeRule \<Rightarrow> ID" where
  "br_getIDByElement t rule =
     (case index_of (\<lambda>r. br_kind r = br_kind rule \<and> br_head r = br_head rule \<and> br_body r = br_body rule) t of
        None \<Rightarrow> ID_FAIL
      | Some i \<Rightarrow> \<lparr>kind = br_kind (t ! i), address = word_of_nat i\<rparr>)"

definition br_storeAndGetID :: "BridgeRuleTable \<Rightarrow> BridgeRule \<Rightarrow> (BridgeRuleTable \<times> ID) res" where
  "br_storeAndGetID t rule =
     assertion (is_bridge_rule_kind (br_kind rule))
     (assertion (br_body rule \<noteq> [])
     (assertion (rule \<notin> set t)
      (Inr (t @ [rule], \<lparr>kind = br_kind rule, address = word_of_nat (length t)\<rparr>))))"

definition br_clear :: "BridgeRuleTable \<Rightarrow> BridgeRuleTable" where
  "br_clear t = []"

definition br_getAllByAddress :: "BridgeRuleTable \<Rightarrow> BridgeRule list" where
  "br_getAllByAddress t = t"

section \<open>The contract of a table\<close>

text \<open>
  Storing an element yields an identifier by which it is found from then on, and changes nothing
  about the elements stored before. \<open>image\<close> is the element as it is stored.
\<close>

locale indexed_table =
  fixes wf :: "'t \<Rightarrow> bool" and room :: "nat \<Rightarrow> 't \<Rightarrow> bool" and store :: "'t \<Rightarrow> 'e \<Rightarrow> ('t \<times> ID) res"
    and get :: "'t \<Rightarrow> ID \<Rightarrow> 'e res" and lookup :: "'t \<Rightarrow> 'e \<Rightarrow> ID" and image :: "ID \<Rightarrow> 'e \<Rightarrow> 'e"
  assumes wf_store: "wf t \<Longrightarrow> store t e = Inr (t', x) \<Longrightarrow> wf t'"
    and room_store: "room (Suc k) t \<Longrightarrow> store t e = Inr (t', x) \<Longrightarrow> room k t'"
    and get_new: "wf t \<Longrightarrow> room (Suc k) t \<Longrightarrow> store t e = Inr (t', x) \<Longrightarrow> get t' x = Inr (image x e)"
    and get_old: "wf t \<Longrightarrow> store t e = Inr (t', x) \<Longrightarrow> get t y = Inr e' \<Longrightarrow> get t' y = Inr e'"
    and lookup_new: "wf t \<Longrightarrow> store t e = Inr (t', x) \<Longrightarrow> lookup t' e = x"
    and lookup_old: "wf t \<Longrightarrow> store t e = Inr (t', x) \<Longrightarrow> is_ok (get t (lookup t e')) \<Longrightarrow> lookup t e' \<noteq> ID_FAIL \<Longrightarrow>
      lookup t' e' = lookup t e'"
begin

fun store_all :: "'t \<Rightarrow> 'e list \<Rightarrow> ('t \<times> ID list) res" where
  "store_all t [] = Inr (t, [])"
| "store_all t (e # es) = bind_res (store t e) (\<lambda>(t, x).
     bind_res (store_all t es) (\<lambda>(t, xs). Inr (t, x # xs)))"

lemma store_all_get:
  assumes "wf t" and "room (length es) t" and "store_all t es = Inr (t', xs)"
  shows "wf t' \<and> list_all2 (\<lambda>x e. get t' x = Inr (image x e)) xs es \<and>
    (\<forall>y e. get t y = Inr e \<longrightarrow> get t' y = Inr e)"
  using assms
proof (induction es arbitrary: t xs)
  case (Cons e es)
  then obtain t1 x xs' where t1: "store t e = Inr (t1, x)" "store_all t1 es = Inr (t', xs')" "xs = x # xs'"
    by (auto simp: bind_res_eq_Inr)
  from Cons.prems(2) have room: "room (Suc (length es)) t" by simp
  from Cons.IH [OF wf_store [OF Cons.prems(1) t1(1)] room_store [OF room t1(1)] t1(2)]
    get_new [OF Cons.prems(1) room t1(1)] get_old [OF Cons.prems(1) t1(1)] t1(3)
  show ?case by auto
qed auto

end

definition bt_wf :: "BeliefTable \<Rightarrow> bool" where
  "bt_wf t \<longleftrightarrow> distinct (map b_address (bt_container t)) \<and> distinct (map b_text (bt_container t)) \<and>
     list_all (\<lambda>b. isBelief (b_id b)) (bt_container t)"

definition br_wf :: "BridgeRuleTable \<Rightarrow> bool" where
  "br_wf t \<longleftrightarrow> distinct t \<and> list_all (\<lambda>r. is_bridge_rule_kind (br_kind r)) t"

lemma find_append:
  "find P (xs @ ys) = (case find P xs of None \<Rightarrow> find P ys | Some x \<Rightarrow> Some x)"
  by (induction xs) auto

lemma isBelief_kind: "isBelief \<lparr>kind = k, address = a\<rparr> = isBelief \<lparr>kind = k, address = b\<rparr>"
  by (simp add: isBelief_def)

interpretation belief_table: indexed_table bt_wf "\<lambda>k t. True" bt_storeAndGetID bt_getByID
  "\<lambda>t b. bt_getIDByString t (b_text b)" "\<lambda>x b. b\<lparr>b_address := address x\<rparr>"
proof
  fix t t' :: BeliefTable and e x
  assume wf: "bt_wf t" and st: "bt_storeAndGetID t e = Inr (t', x)"
  let ?nb = "e\<lparr>b_address := nextAddress t\<rparr>"
  from st have bel: "isBelief \<lparr>kind = b_kind e, address = 0\<rparr>"
    and fresh: "\<forall>b\<in>set (bt_container t). b_address b \<noteq> nextAddress t \<and> b_text b \<noteq> b_text e"
    and t': "t' = t\<lparr>nextAddress := nextAddress t + 1, bt_container := bt_container t @ [?nb]\<rparr>"
    and x: "x = \<lparr>kind = b_kind e, address = nextAddress t\<rparr>"
    by (auto simp: bt_storeAndGetID_def bt_insert_def assertion_eq_Inr Let_def split: if_splits)
  have belx: "isBelief x" using bel by (simp add: x isBelief_def)
  have no: "find (\<lambda>b. b_address b = nextAddress t) (bt_container t) = None"
    "find (\<lambda>b. b_text b = b_text e) (bt_container t) = None"
    using fresh by (auto simp: find_None_iff)
  show "bt_wf t'" using wf fresh belx by (auto simp: bt_wf_def t' b_id_def x isBelief_def)
  show "bt_getByID t' x = Inr (e\<lparr>b_address := address x\<rparr>)"
    using belx no by (simp add: bt_getByID_def t' x find_append)
  show "bt_getIDByString t' (b_text e) = x"
    using no by (simp add: bt_getIDByString_def t' x find_append b_id_def)
  show "bt_getByID t' y = Inr e'" if "bt_getByID t y = Inr e'" for y e'
    using that by (auto simp: bt_getByID_def t' find_append assertion_eq_Inr split: option.splits)
  show "bt_getIDByString t' (b_text e') = bt_getIDByString t (b_text e')"
    if "bt_getIDByString t (b_text e') \<noteq> ID_FAIL" for e'
    using that by (auto simp: bt_getIDByString_def t' find_append split: option.splits)
qed simp

lemma index_of_append:
  "index_of P (xs @ ys) = (case index_of P xs of None \<Rightarrow> map_option (\<lambda>i. length xs + i) (index_of P ys) | Some i \<Rightarrow> Some i)"
proof (induction xs)
  case Nil
  then show ?case by (cases "index_of P ys") auto
next
  case (Cons x xs)
  then show ?case by (cases "index_of P xs"; cases "index_of P ys") auto
qed

lemma index_of_None: "(\<forall>x\<in>set xs. \<not> P x) \<Longrightarrow> index_of P xs = None"
  by (induction xs) auto

lemma index_of_lt: "index_of P xs = Some i \<Longrightarrow> i < length xs"
  by (induction xs arbitrary: i) (auto split: if_splits)

interpretation rule_table: indexed_table br_wf "\<lambda>k t. length t + k \<le> 2 ^ 32" br_storeAndGetID br_getByID
  br_getIDByElement "\<lambda>x r. r"
proof
  fix t t' :: BridgeRuleTable and e x
  assume wf: "br_wf t" and st: "br_storeAndGetID t e = Inr (t', x)"
  from st have kd: "is_bridge_rule_kind (br_kind e)" and fresh: "e \<notin> set t" and t': "t' = t @ [e]"
    and x: "x = \<lparr>kind = br_kind e, address = word_of_nat (length t)\<rparr>"
    by (auto simp: br_storeAndGetID_def assertion_eq_Inr)
  have kdx: "isBridgeRule x = Inr True"
    using kd by (simp add: x is_bridge_rule_kind_def isBridgeRule_def isRule_def)
  show "br_wf t'" using wf kd fresh by (simp add: br_wf_def t')
  show "br_getByID t' x = Inr e" if "length t + Suc k \<le> 2 ^ 32" for k
  proof -
    from that have "unat (word_of_nat (length t) :: 32 word) = length t"
      by (simp add: unsigned_of_nat take_bit_nat_eq_self)
    with kdx show ?thesis by (simp add: br_getByID_def x t')
  qed
  show "br_getIDByElement t' e = x"
  proof -
    have "index_of (\<lambda>r. br_kind r = br_kind e \<and> br_head r = br_head e \<and> br_body r = br_body e) t = None"
      using fresh BridgeRule.equality by (intro index_of_None) fastforce
    then show ?thesis by (simp add: br_getIDByElement_def t' index_of_append x)
  qed
  show "br_getByID t' y = Inr e'" if "br_getByID t y = Inr e'" for y e'
    using that by (auto simp: br_getByID_def t' nth_append assertion_eq_Inr)
  show "br_getIDByElement t' e' = br_getIDByElement t e'" if "br_getIDByElement t e' \<noteq> ID_FAIL" for e'
    using that by (auto simp: br_getIDByElement_def t' index_of_append nth_append split: option.splits
        dest: index_of_lt)
next
  fix k and t t' :: BridgeRuleTable and e x
  assume "length t + Suc k \<le> 2 ^ 32" and "br_storeAndGetID t e = Inr (t', x)"
  then show "length t' + k \<le> 2 ^ 32" by (auto simp: br_storeAndGetID_def assertion_eq_Inr)
qed

section \<open>Storing and finding\<close>

text \<open>
  A belief table: storing a belief with a nonempty text that is not in the table yet, while the
  next address is unused, succeeds; it is then found by its identifier and by its text, no address
  or text is stored twice, and what was stored before is still found.
\<close>

theorem belief_store_lookup:
  assumes "bt_wf t" and "isBelief \<lparr>kind = b_kind b, address = 0\<rparr>" and "b_text b \<noteq> []"
    and "\<forall>b'\<in>set (bt_container t). b_address b' \<noteq> nextAddress t \<and> b_text b' \<noteq> b_text b"
  shows "\<exists>t' x. bt_storeAndGetID t b = Inr (t', x) \<and> bt_wf t' \<and>
    bt_getByID t' x = Inr (b\<lparr>b_address := nextAddress t\<rparr>) \<and> bt_getIDByString t' (b_text b) = x \<and>
    (\<forall>y e. bt_getByID t y = Inr e \<longrightarrow> bt_getByID t' y = Inr e)"
proof -
  let ?x = "\<lparr>kind = b_kind b, address = nextAddress t\<rparr>"
  have "\<exists>t'. bt_storeAndGetID t b = Inr (t', ?x)"
    using assms by (auto simp: bt_storeAndGetID_def bt_insert_def Let_def)
  then obtain t' where t': "bt_storeAndGetID t b = Inr (t', ?x)" ..
  show ?thesis
    using belief_table.wf_store [OF assms(1) t'] belief_table.get_new [OF assms(1) TrueI t']
      belief_table.lookup_new [OF assms(1) t'] belief_table.get_old [OF assms(1) t'] t'
    by (intro exI [of _ t'] exI [of _ ?x]) auto
qed

theorem belief_store_lookup_witness:
  "\<exists>t' x. bt_storeAndGetID BeliefTable_new (Belief_new 3 ''a'') = Inr (t', x) \<and>
     bt_getByID t' x = Inr (Belief_new 3 ''a'') \<and> bt_getIDByString t' ''a'' = x"
proof -
  have 1: "bt_wf BeliefTable_new" by (simp add: bt_wf_def BeliefTable_new_def)
  have 2: "isBelief \<lparr>kind = b_kind (Belief_new 3 ''a''), address = 0\<rparr>"
    by (simp add: isBelief_def Belief_new_def kind_consts)
  have 3: "b_text (Belief_new 3 ''a'') = ''a''" "(Belief_new 3 ''a'')\<lparr>b_address := 0\<rparr> = Belief_new 3 ''a''"
    by (simp_all add: Belief_new_def)
  show ?thesis using belief_store_lookup [OF 1 2] 3 by (auto simp: BeliefTable_new_def)
qed

text \<open>
  The bridge rule table: a bridge rule with a nonempty body that is not in the table yet is
  appended; it is then found by its identifier, and its identifier by its content.
\<close>

theorem rule_store_lookup:
  assumes "br_wf t" and "length t < 2 ^ 32" and "is_bridge_rule_kind (br_kind r)" and "br_body r \<noteq> []"
    and "r \<notin> set t"
  shows "\<exists>t' x. br_storeAndGetID t r = Inr (t', x) \<and> br_wf t' \<and> br_getAllByAddress t' = br_getAllByAddress t @ [r] \<and>
    br_getByID t' x = Inr r \<and> br_getIDByElement t' r = x"
proof -
  let ?x = "\<lparr>kind = br_kind r, address = word_of_nat (length t)\<rparr>"
  have t': "br_storeAndGetID t r = Inr (t @ [r], ?x)" using assms by (simp add: br_storeAndGetID_def)
  from assms(2) have room: "length t + Suc 0 \<le> 2 ^ 32" by simp
  show ?thesis
    using rule_table.wf_store [OF assms(1) t'] rule_table.get_new [OF assms(1) room t']
      rule_table.lookup_new [OF assms(1) t'] t'
    by (intro exI [of _ "t @ [r]"] exI [of _ ?x]) (simp add: br_getAllByAddress_def)
qed

theorem rule_store_lookup_witness:
  "\<exists>t' x. br_storeAndGetID [] \<lparr>br_kind = 0x33000000, br_head = \<lparr>kind = 0x40000001, address = 1\<rparr>,
      br_body = [\<lparr>kind = 0x40000002, address = 1\<rparr>]\<rparr> = Inr (t', x) \<and> length t' = 1 \<and>
    br_getByID t' x = Inr \<lparr>br_kind = 0x33000000, br_head = \<lparr>kind = 0x40000001, address = 1\<rparr>,
      br_body = [\<lparr>kind = 0x40000002, address = 1\<rparr>]\<rparr>"
proof -
  let ?r = "\<lparr>br_kind = 0x33000000, br_head = \<lparr>kind = 0x40000001, address = 1\<rparr>,
      br_body = [\<lparr>kind = 0x40000002, address = 1\<rparr>]\<rparr> :: BridgeRule"
  have 1: "br_wf []" by (simp add: br_wf_def)
  have 2: "is_bridge_rule_kind (br_kind ?r)"
    by (simp add: is_bridge_rule_kind_def isBridgeRule_def isRule_def kind_consts)
  show ?thesis using rule_store_lookup [OF 1 _ 2] by (auto simp: br_getAllByAddress_def)
qed

end
