(* ===== verification/Bridge_Rules.thy ===== *)
theory Bridge_Rules
  imports Belief_Tables Belief_Combine
begin

text \<open>
  The evaluation of bridge rules (\<open>src/mcs/BridgeRuleEvaluator.cpp\<close>): which heads hold under an input
  belief state. The result is a \<open>HeadsPlusBeliefState\<close> (\<open>include/mcs/Heads.h\<close>), the message to the
  local evaluator.
\<close>

record Heads =
  getHeads :: "NewBeliefState option"
  getK1 :: nat
  getK2 :: nat

record HeadsPlusBeliefState = Heads +
  getInputBeliefState :: NewBeliefState

definition heads_eq :: "'z Heads_scheme \<Rightarrow> 'y Heads_scheme \<Rightarrow> bool" where
  "heads_eq a b = (case getHeads a of
       None \<Rightarrow> (case getHeads b of None \<Rightarrow> True | Some _ \<Rightarrow> False)
     | Some x \<Rightarrow> (case getHeads b of None \<Rightarrow> False
        | Some y \<Rightarrow> bs_eq x y \<and> getK1 a = getK1 b \<and> getK2 a = getK2 b))"

definition heads_neq :: "'z Heads_scheme \<Rightarrow> 'y Heads_scheme \<Rightarrow> bool" where
  "heads_neq a b = (case getHeads a of
       None \<Rightarrow> (case getHeads b of None \<Rightarrow> False | Some _ \<Rightarrow> True)
     | Some x \<Rightarrow> (case getHeads b of None \<Rightarrow> True
        | Some y \<Rightarrow> bs_neq x y \<or> getK1 a \<noteq> getK1 b \<or> getK2 a \<noteq> getK2 b))"

fun satisfied :: "ID list \<Rightarrow> NewBeliefState \<Rightarrow> nat list \<Rightarrow> bool res" where
  "satisfied [] input starting_offset = Inr True"
| "satisfied (x # body) input starting_offset =
     assertion (isBelief x)
     (bind_res (contextID x) (\<lambda>ctx_id.
      bind_res (vec_at starting_offset ctx_id) (\<lambda>off.
      bind_res (bs_test input (unat (address x) + off)) (\<lambda>v.
        if isNaf x then (if v = DMCS_TRUE then Inr False else satisfied body input starting_offset)
        else (if v \<noteq> DMCS_TRUE then Inr False else satisfied body input starting_offset)))))"

fun fire_rules :: "BridgeRule list \<Rightarrow> NewBeliefState \<Rightarrow> nat list \<Rightarrow> NewBeliefState \<Rightarrow> NewBeliefState res" where
  "fire_rules [] input starting_offset h = Inr h"
| "fire_rules (r # rs) input starting_offset h =
     bind_res (satisfied (br_body r) input starting_offset) (\<lambda>sat.
       if sat then
         bind_res (contextID (br_head r)) (\<lambda>ctx_id.
         bind_res (vec_at starting_offset ctx_id) (\<lambda>off.
         bind_res (bs_set h (unat (address (br_head r)) + off) DMCS_TRUE) (\<lambda>h.
           fire_rules rs input starting_offset h)))
       else fire_rules rs input starting_offset h)"

definition evaluate_bridge_rules ::
  "BeliefStateOffset option \<Rightarrow> BridgeRuleTable \<Rightarrow> NewBeliefState \<Rightarrow> nat \<Rightarrow> nat \<Rightarrow> nat list \<Rightarrow> HeadsPlusBeliefState res" where
  "evaluate_bridge_rules inst brtab input k1 k2 starting_offset =
     bind_res (bso_instance inst) (\<lambda>bso.
       let h = bs_new_blocks (bso_no_blocks bso) (bso_size_belief_state bso) False
       in bind_res (fire_rules (br_getAllByAddress brtab) input starting_offset h) (\<lambda>h.
            Inr \<lparr>getHeads = Some h, getK1 = k1, getK2 = k2, getInputBeliefState = input\<rparr>))"

section \<open>Applicable rules\<close>

text \<open>The position of a belief in a laid out state, and when a rule applies.\<close>

definition pos_of :: "nat \<Rightarrow> ID \<Rightarrow> nat" where
  "pos_of s x = block_start s (unat (kind x AND CONTEXT_ID_MASK)) + unat (address x)"

definition belief_in :: "nat \<Rightarrow> nat \<Rightarrow> ID \<Rightarrow> bool" where
  "belief_in n s x \<longleftrightarrow> isBelief x \<and> unat (kind x AND CONTEXT_ID_MASK) < n \<and> unat (address x) \<le> s"

definition applicable :: "nat \<Rightarrow> NewBeliefState \<Rightarrow> BridgeRule \<Rightarrow> bool" where
  "applicable s input r \<longleftrightarrow>
     (\<forall>x\<in>set (br_body r). if isNaf x then bs_view input (pos_of s x) \<noteq> DMCS_TRUE
        else bs_view input (pos_of s x) = DMCS_TRUE)"

definition rules_in :: "nat \<Rightarrow> nat \<Rightarrow> BridgeRuleTable \<Rightarrow> bool" where
  "rules_in n s rs \<longleftrightarrow> list_all (\<lambda>r. belief_in n s (br_head r) \<and> list_all (belief_in n s) (br_body r)) rs"

lemma pos_of_less: "belief_in n s x \<Longrightarrow> pos_of s x < block_start s n"
proof -
  assume "belief_in n s x"
  then have c: "unat (kind x AND CONTEXT_ID_MASK) + 1 \<le> n" and a: "unat (address x) \<le> s"
    by (auto simp: belief_in_def)
  have "block_start s (unat (kind x AND CONTEXT_ID_MASK) + 1) \<le> block_start s n"
    unfolding block_start_def by (rule mult_le_mono1 [OF c])
  moreover have "pos_of s x < block_start s (unat (kind x AND CONTEXT_ID_MASK) + 1)"
    using a by (simp add: pos_of_def block_start_def)
  ultimately show ?thesis by linarith
qed

lemma belief_offset:
  assumes "belief_in n s x"
  shows "contextID x = Inr (unat (kind x AND CONTEXT_ID_MASK)) \<and>
    vec_at (bso_starting_offsets (layout n s)) (unat (kind x AND CONTEXT_ID_MASK)) =
      Inr (block_start s (unat (kind x AND CONTEXT_ID_MASK)))"
  using assms by (simp add: belief_in_def contextID_def)

lemma satisfied_iff:
  assumes "wf_bs (block_start s n) input" and "list_all (belief_in n s) body"
  shows "satisfied body input (bso_starting_offsets (layout n s)) =
    Inr (\<forall>x\<in>set body. if isNaf x then bs_view input (pos_of s x) \<noteq> DMCS_TRUE
        else bs_view input (pos_of s x) = DMCS_TRUE)"
  using assms(2)
proof (induction body)
  case (Cons x body)
  then have x: "belief_in n s x" by simp
  note off = belief_offset [OF x]
  have "bs_test input (unat (address x) + block_start s (unat (kind x AND CONTEXT_ID_MASK))) =
      Inr (bs_view input (pos_of s x))"
    using bs_test_wf [OF assms(1)] pos_of_less [OF x] by (simp add: pos_of_def add.commute)
  with x off have "satisfied (x # body) input (bso_starting_offsets (layout n s)) =
      (if if isNaf x then bs_view input (pos_of s x) \<noteq> DMCS_TRUE else bs_view input (pos_of s x) = DMCS_TRUE
       then satisfied body input (bso_starting_offsets (layout n s)) else Inr False)"
    by (simp add: belief_in_def)
  with Cons show ?case by simp
qed simp

lemma fire_rules_view:
  assumes "wf_bs (block_start s n) input" and "rules_in n s rs" and "wf_bs (block_start s n) h"
  shows "\<exists>h'. fire_rules rs input (bso_starting_offsets (layout n s)) h = Inr h' \<and> wf_bs (block_start s n) h' \<and>
    (\<forall>p. bs_view h' p = (if \<exists>r\<in>set rs. applicable s input r \<and> pos_of s (br_head r) = p then DMCS_TRUE else bs_view h p))"
  using assms(2,3)
proof (induction rs arbitrary: h)
  case (Cons r rs)
  then have r: "belief_in n s (br_head r)" "list_all (belief_in n s) (br_body r)" and rs: "rules_in n s rs"
    by (simp_all add: rules_in_def)
  have sat: "satisfied (br_body r) input (bso_starting_offsets (layout n s)) = Inr (applicable s input r)"
    using satisfied_iff [OF assms(1) r(2)] by (simp add: applicable_def)
  show ?case
  proof (cases "applicable s input r")
    case False
    with Cons.IH [OF rs Cons.prems(2)] sat show ?thesis by auto
  next
    case True
    obtain h1 where h1: "bs_set h (pos_of s (br_head r)) DMCS_TRUE = Inr h1" "wf_bs (block_start s n) h1"
      "bs_view h1 = (bs_view h)(pos_of s (br_head r) := DMCS_TRUE)"
      by (rule bs_set_wf [OF Cons.prems(2) pos_of_less [OF r(1)]])
    have "fire_rules (r # rs) input (bso_starting_offsets (layout n s)) h =
        fire_rules rs input (bso_starting_offsets (layout n s)) h1"
      using True sat belief_offset [OF r(1)] h1(1) by (simp add: pos_of_def add.commute)
    with Cons.IH [OF rs h1(2)] True h1(3) show ?thesis by auto
  qed
qed simp

text \<open>
  C18. Bridge rules: under a well-formed input, over rules whose beliefs are within the layout, the
  evaluation returns the request with a set of heads in which a position is true exactly when
  it is the head of an applicable rule (every positive body belief true, no default-negated one
  true), and says nothing about all other positions.
\<close>

theorem evaluate_bridge_rules_correct:
  assumes "bso_new n s = Inr bso" and "wf_bs (n * (s + 1)) input" and "rules_in n s brtab"
  shows "\<exists>h. evaluate_bridge_rules (Some bso) brtab input a b (bso_starting_offsets bso) =
      Inr \<lparr>getHeads = Some h, getK1 = a, getK2 = b, getInputBeliefState = input\<rparr> \<and>
    wf_bs (n * (s + 1)) h \<and>
    (\<forall>p. bs_view h p = (if \<exists>r\<in>set brtab. applicable s input r \<and> pos_of s (br_head r) = p
                         then DMCS_TRUE else DMCS_UNDEF))"
proof -
  from assms(1) have bso: "bso = layout n s" by (auto simp: bso_new_layout split: if_splits)
  note wf = assms(2) [folded block_start_def]
  have "wf_bs (block_start s n) (bs_new_blocks n s False)" by (simp only: block_start_def wf_bs_new_blocks)
  from fire_rules_view [OF wf assms(3) this] show ?thesis
    unfolding bso block_start_def [symmetric]
    by (auto simp: evaluate_bridge_rules_def bso_instance_def br_getAllByAddress_def)
qed

theorem evaluate_bridge_rules_correct_witness:
  "\<exists>h. evaluate_bridge_rules (Some (layout 2 2))
       [\<lparr>br_kind = 0x33000000, br_head = \<lparr>kind = 0x40000000, address = 1\<rparr>,
         br_body = [\<lparr>kind = 0xC0000001, address = 1\<rparr>]\<rparr>] (bs_new_blocks 2 2 False) 1 5
       (bso_starting_offsets (layout 2 2)) =
     Inr \<lparr>getHeads = Some h, getK1 = 1, getK2 = 5, getInputBeliefState = bs_new_blocks 2 2 False\<rparr> \<and>
     bs_view h 1 = DMCS_TRUE \<and> bs_view h 2 = DMCS_UNDEF"
proof -
  let ?r = "\<lparr>br_kind = 0x33000000, br_head = \<lparr>kind = 0x40000000, address = 1\<rparr>,
         br_body = [\<lparr>kind = 0xC0000001, address = 1\<rparr>]\<rparr> :: BridgeRule"
  have 1: "bso_new 2 2 = Inr (layout 2 2)" by (simp add: bso_new_layout)
  have 2: "rules_in 2 2 [?r]"
    by (simp add: rules_in_def belief_in_def isBelief_def kind_consts)
  have 3: "pos_of 2 (br_head ?r) = 1" by (simp add: pos_of_def kind_consts block_start_def)
  have 4: "applicable 2 (bs_new_blocks 2 2 False) ?r"
    by (simp add: applicable_def isNaf_def kind_consts)
  show ?thesis using evaluate_bridge_rules_correct [OF 1 wf_bs_new_blocks 2, of False 1 5] 3 4 by auto
qed

end
