(* ===== verification/DLV_Result.thy ===== *)
theory DLV_Result
  imports Output_Order Bridge_Rules
begin

unbundle bit_operations_syntax

text \<open>
  From the solver's output to belief states: the actions of the grammar of answer sets and the parser
  \<open>DLVResultParser_t\<close> of the evaluator (\<open>include/parser/Parser.hpp\<close>, \<open>DLVResultGrammar.hpp\<close>,
  \<open>DLVResultGrammar.tcc\<close>). A parser has one object, made with the parser and never reset, into which it
  writes the literals of every line that it is given. The recognition of a line by Boost.Spirit's
  \<open>phrase_parse\<close> is a parameter: it yields the literals whose actions run, in their order, and whether
  the whole line was matched.
\<close>

section \<open>Objects\<close>

text \<open>Belief states on the heap; addresses from \<open>next_addr\<close> on have not been handed out.\<close>

record store =
  mem :: heap
  next_addr :: addr

definition new_obj :: "store \<Rightarrow> NewBeliefState \<Rightarrow> addr \<times> store" where
  "new_obj st bs = (next_addr st, st\<lparr>mem := (mem st)(next_addr st \<mapsto> bs), next_addr := Suc (next_addr st)\<rparr>)"

definition assign_obj :: "store \<Rightarrow> addr \<Rightarrow> NewBeliefState \<Rightarrow> store res" where
  "assign_obj st a bs = bind_res (deref (mem st) a) (\<lambda>_. Inr (st\<lparr>mem := (mem st)(a \<mapsto> bs)\<rparr>))"

definition delete_obj :: "store \<Rightarrow> addr \<Rightarrow> store res" where
  "delete_obj st a = bind_res (delete_bs (mem st) (Some a)) (\<lambda>h. Inr (st\<lparr>mem := h\<rparr>))"

definition store_ok :: "store \<Rightarrow> bool" where
  "store_ok st \<longleftrightarrow> (\<forall>a. next_addr st \<le> a \<longrightarrow> mem st a = None)"

text \<open>
  What a run does to the store: the new objects \<open>as\<close> hold the values \<open>vs\<close>, and no object that
  existed before is touched.
\<close>

definition news :: "store \<Rightarrow> store \<Rightarrow> addr list \<Rightarrow> NewBeliefState list \<Rightarrow> bool" where
  "news st st' as vs \<longleftrightarrow> map (mem st') as = map Some vs \<and> distinct as \<and>
     (\<forall>a\<in>set as. next_addr st \<le> a) \<and> (\<forall>a<next_addr st. mem st' a = mem st a) \<and>
     store_ok st' \<and> next_addr st \<le> next_addr st'"

section \<open>The action of a literal\<close>

type_synonym literal = "bool \<times> string"
type_synonym recognizer = "string \<Rightarrow> literal list \<times> bool"

definition handleLiteral :: "BeliefStateOffset \<Rightarrow> BeliefTable \<Rightarrow> nat \<Rightarrow> NewBeliefState \<Rightarrow> literal \<Rightarrow> NewBeliefState res" where
  "handleLiteral bso btab ctx_id bs l = (case l of (strong_neg, belief_text) \<Rightarrow>
     let belief_id = bt_getIDByString btab belief_text
     in assertion (belief_id \<noteq> ID_FAIL)
        (if strong_neg
         then bs_set_ctx bs ctx_id (unat (address belief_id)) (bso_starting_offsets bso) DMCS_FALSE
         else bs_set_ctx bs ctx_id (unat (address belief_id)) (bso_starting_offsets bso) DMCS_TRUE))"

fun handle_literals :: "BeliefStateOffset \<Rightarrow> BeliefTable \<Rightarrow> nat \<Rightarrow> NewBeliefState \<Rightarrow> literal list \<Rightarrow> NewBeliefState res" where
  "handle_literals bso btab ctx_id bs [] = Inr bs"
| "handle_literals bso btab ctx_id bs (l # ls) =
     bind_res (handleLiteral bso btab ctx_id bs l) (\<lambda>bs. handle_literals bso btab ctx_id bs ls)"

section \<open>The parser of the evaluator\<close>

record DLVResultGrammarSemantics =
  m_BTab :: BeliefTable
  m_CtxID :: nat
  m_ParsedResult :: addr

definition DLVResultGrammarSemantics_new ::
  "BeliefStateOffset option \<Rightarrow> BeliefTable \<Rightarrow> nat \<Rightarrow> store \<Rightarrow> (DLVResultGrammarSemantics \<times> store) res" where
  "DLVResultGrammarSemantics_new inst btab ctx_id st =
     bind_res (bso_instance inst) (\<lambda>bso.
       let (a, st) = new_obj st (bs_new_blocks (bso_no_blocks bso) (bso_size_belief_state bso) False)
       in Inr (\<lparr>m_BTab = btab, m_CtxID = ctx_id, m_ParsedResult = a\<rparr>, st))"

text \<open>\<open>Parser::parseString\<close>: the actions work on the object of the semantics.\<close>

definition parseString ::
  "recognizer \<Rightarrow> BeliefStateOffset option \<Rightarrow> DLVResultGrammarSemantics \<Rightarrow> store \<Rightarrow> string \<Rightarrow> (addr \<times> store) res" where
  "parseString phrase_parse inst sem st str =
     (case phrase_parse str of (ls, r) \<Rightarrow>
        bind_res (bso_instance inst) (\<lambda>bso.
        bind_res (deref (mem st) (m_ParsedResult sem)) (\<lambda>bs.
        bind_res (handle_literals bso (m_BTab sem) (m_CtxID sem) bs ls) (\<lambda>bs.
        bind_res (assign_obj st (m_ParsedResult sem) bs) (\<lambda>st.
          if r then Inr (m_ParsedResult sem, st) else Inl (Runtime_Error ''Query plan parsing failed''))))))"

text \<open>What a parser that has read nothing before makes of a line.\<close>

definition line_model ::
  "recognizer \<Rightarrow> BeliefStateOffset option \<Rightarrow> BeliefTable \<Rightarrow> nat \<Rightarrow> string \<Rightarrow> NewBeliefState res" where
  "line_model phrase_parse inst btab ctx_id line =
     bind_res (bso_instance inst) (\<lambda>bso.
     bind_res (handle_literals bso btab ctx_id
         (bs_new_blocks (bso_no_blocks bso) (bso_size_belief_state bso) False) (fst (phrase_parse line))) (\<lambda>bs.
       if snd (phrase_parse line) then Inr bs else Inl (Runtime_Error ''Query plan parsing failed'')))"

section \<open>New objects\<close>

lemma news_Nil: "store_ok st \<Longrightarrow> news st st [] []"
  by (simp add: news_def)

lemma news_store_ok: "news st st' as vs \<Longrightarrow> store_ok st'"
  by (simp add: news_def)

lemma news_below:
  assumes "news st st' as vs" and "a \<in> set as"
  shows "a < next_addr st'"
proof (rule ccontr)
  assume "\<not> a < next_addr st'"
  with assms(1) have "mem st' a = None" by (simp add: news_def store_ok_def)
  moreover have "mem st' a \<in> set (map (mem st') as)" using assms(2) by simp
  moreover have "map (mem st') as = map Some vs" using assms(1) by (simp add: news_def)
  ultimately show False by auto
qed

lemma news_trans:
  assumes "news st st1 as vs" and "news st1 st2 bs us"
  shows "news st st2 (as @ bs) (vs @ us)"
proof -
  have "map (mem st2) as = map (mem st1) as"
    using news_below [OF assms(1)] assms(2) by (simp add: news_def)
  then show ?thesis using assms news_below [OF assms(1)] unfolding news_def by fastforce
qed

text \<open>Assigning to the new objects one after the other keeps them new.\<close>

lemma news_assign:
  assumes "news st st' (as @ a # bs) (vs @ v # us)" and "length as = length vs"
  shows "mem st' a = Some v \<and> assign_obj st' a u = Inr (st'\<lparr>mem := (mem st')(a \<mapsto> u)\<rparr>) \<and>
    news st (st'\<lparr>mem := (mem st')(a \<mapsto> u)\<rparr>) (as @ a # bs) (vs @ u # us)"
proof -
  from assms have m: "map (mem st') as = map Some vs" "mem st' a = Some v" "map (mem st') bs = map Some us"
    by (simp_all add: news_def append_eq_append_conv)
  moreover from assms have "a \<notin> set as" "a \<notin> set bs" "next_addr st \<le> a" by (simp_all add: news_def)
  moreover from news_below [OF assms(1), of a] have "a < next_addr st'" by simp
  ultimately show ?thesis
    using assms by (auto simp: news_def assign_obj_def deref_def store_ok_def)
qed

section \<open>What is parsed\<close>

text \<open>The position of a literal's belief, and a model as the fold of its literals.\<close>

definition lit_known :: "nat \<Rightarrow> BeliefTable \<Rightarrow> literal \<Rightarrow> bool" where
  "lit_known s btab l \<longleftrightarrow> bt_getIDByString btab (snd l) \<noteq> ID_FAIL \<and>
     unat (address (bt_getIDByString btab (snd l))) \<le> s"

definition lit_pos :: "nat \<Rightarrow> nat \<Rightarrow> BeliefTable \<Rightarrow> literal \<Rightarrow> nat" where
  "lit_pos s ctx btab l = block_start s ctx + unat (address (bt_getIDByString btab (snd l)))"

definition lit_val :: "literal \<Rightarrow> TruthVal" where
  "lit_val l = (if fst l then DMCS_FALSE else DMCS_TRUE)"

lemma handleLiteral_view:
  assumes "wf_bs (block_start s n) bs" and "ctx < n" and "lit_known s btab l"
  shows "\<exists>bs'. handleLiteral (layout n s) btab ctx bs l = Inr bs' \<and> wf_bs (block_start s n) bs' \<and>
    bs_view bs' = (bs_view bs)(lit_pos s ctx btab l := lit_val l)"
proof -
  let ?x = "bt_getIDByString btab (snd l)"
  have lt: "lit_pos s ctx btab l < block_start s n"
    using assms(2,3) block_end [of ctx n s] by (simp add: lit_pos_def lit_known_def)
  have "handleLiteral (layout n s) btab ctx bs l = bs_set bs (lit_pos s ctx btab l) (lit_val l)"
    using assms lt by (simp add: handleLiteral_def lit_known_def bs_set_ctx_def lit_val_def
        lit_pos_def split_beta)
  moreover obtain bs' where "bs_set bs (lit_pos s ctx btab l) (lit_val l) = Inr bs'"
    "wf_bs (block_start s n) bs'" "bs_view bs' = (bs_view bs)(lit_pos s ctx btab l := lit_val l)"
    by (rule bs_set_wf [OF assms(1) lt])
  ultimately show ?thesis by simp
qed

lemma handle_literals_view:
  assumes "wf_bs (block_start s n) bs" and "ctx < n" and "list_all (lit_known s btab) ls"
  shows "\<exists>bs'. handle_literals (layout n s) btab ctx bs ls = Inr bs' \<and> wf_bs (block_start s n) bs' \<and>
    bs_view bs' = fold (\<lambda>l v. v(lit_pos s ctx btab l := lit_val l)) ls (bs_view bs)"
  using assms(1,3)
proof (induction ls arbitrary: bs)
  case (Cons l ls)
  from Cons.prems have "lit_known s btab l" by simp
  from handleLiteral_view [OF Cons.prems(1) assms(2) this] obtain bs1 where
    b: "handleLiteral (layout n s) btab ctx bs l = Inr bs1" "wf_bs (block_start s n) bs1"
    "bs_view bs1 = (bs_view bs)(lit_pos s ctx btab l := lit_val l)" by blast
  from Cons.IH [OF b(2)] Cons.prems(2) b show ?case by simp
qed simp

lemma fold_upd_out: "p \<notin> f ` set ls \<Longrightarrow> fold (\<lambda>l v. v(f l := g l)) ls v p = v p"
  by (induction ls arbitrary: v) auto

lemma fold_upd_in:
  "distinct (map f ls) \<Longrightarrow> l \<in> set ls \<Longrightarrow> fold (\<lambda>l v. v(f l := g l)) ls v (f l) = g l"
proof (induction ls arbitrary: v)
  case (Cons x ls)
  show ?case
  proof (cases "l \<in> set ls")
    case True
    with Cons show ?thesis by simp
  next
    case False
    with Cons.prems have "l = x" "f x \<notin> f ` set ls" by auto
    then show ?thesis using fold_upd_out [of "f x" f ls g "v(f x := g x)"] by (simp del: fun_upd_apply) simp
  qed
qed simp

lemma handle_literals_append:
  "handle_literals bso btab ctx bs (ls @ ls') =
     bind_res (handle_literals bso btab ctx bs ls) (\<lambda>bs. handle_literals bso btab ctx bs ls')"
  by (induction ls arbitrary: bs) (auto simp: bind_res_assoc)

lemma parse_first_line:
  assumes "DLVResultGrammarSemantics_new (Some bso) btab ctx st = Inr (psem, st1)"
    and "line_model phrase_parse (Some bso) btab ctx line = Inr m"
  shows "parseString phrase_parse (Some bso) psem st1 line = Inr (new_obj st m)"
  using assms
  by (auto simp: DLVResultGrammarSemantics_new_def bso_instance_def new_obj_def line_model_def parseString_def
      assign_obj_def deref_def bind_res_eq_Inr split: if_splits prod.splits)

text \<open>Literals of beliefs that stand at proper positions of their context's block.\<close>

definition lit_proper :: "nat \<Rightarrow> BeliefTable \<Rightarrow> literal \<Rightarrow> bool" where
  "lit_proper s btab l \<longleftrightarrow> lit_known s btab l \<and> address (bt_getIDByString btab (snd l)) \<noteq> 0"

lemma lit_pos_proper: "lit_proper s btab l \<Longrightarrow> block_start s ctx < lit_pos s ctx btab l"
  by (simp add: lit_proper_def lit_pos_def unat_gt_0)

lemma mark_not_literal: "list_all (lit_proper s btab) ls \<Longrightarrow> block_start s ctx \<notin> lit_pos s ctx btab ` set ls"
  by (metis (no_types, lifting) image_iff list_all_iff lit_pos_proper less_irrefl)

lemma handle_literals_unknown:
  assumes "wf_bs (block_start s n) b" and "ctx < n" and "list_all (lit_proper s btab) ls" and "\<not> known s b ctx"
  shows "\<exists>b'. handle_literals (layout n s) btab ctx b ls = Inr b' \<and> wf_bs (block_start s n) b' \<and> \<not> known s b' ctx"
proof -
  have "list_all (lit_known s btab) ls" using assms(3) by (auto simp: list_all_iff lit_proper_def)
  from handle_literals_view [OF assms(1,2) this] obtain b' where
    b': "handle_literals (layout n s) btab ctx b ls = Inr b'" "wf_bs (block_start s n) b'"
    "bs_view b' = fold (\<lambda>l v. v(lit_pos s ctx btab l := lit_val l)) ls (bs_view b)" by blast
  with mark_not_literal [OF assms(3), of ctx] assms(4) show ?thesis by (simp add: known_def fold_upd_out)
qed

text \<open>
  The model of a line: the literals of the line hold in it, everything else is open, and so is the
  mark of the context's own block. Therefore every input is consistent with it, whatever the input
  says about the context, and a join with it keeps the context's block of the other state, whatever
  the model says.
\<close>

theorem parsed_model_is_unmarked:
  assumes "bso_new n s = Inr bso" and "ctx < n" and "phrase_parse line = (ls, True)" and "list_all (lit_proper s btab) ls"
    and "distinct (map (lit_pos s ctx btab) ls)" and "wf_bs (n * (s + 1)) other"
  shows "\<exists>psem st1 st2 a m. DLVResultGrammarSemantics_new (Some bso) btab ctx st = Inr (psem, st1) \<and>
    parseString phrase_parse (Some bso) psem st1 line = Inr (a, st2) \<and> mem st2 a = Some m \<and>
    (\<forall>l\<in>set ls. bs_view m (lit_pos s ctx btab l) = lit_val l) \<and>
    (\<forall>p. p \<notin> lit_pos s ctx btab ` set ls \<longrightarrow> bs_view m p = DMCS_UNDEF) \<and>
    consistent_with m other ctx (bso_starting_offsets bso) = Inr True \<and>
    (\<exists>ok r. combine other m (bso_starting_offsets bso) (bso_masks bso) = Inr (ok, r) \<and>
       (\<forall>p. p \<le> s \<longrightarrow> bs_view r (block_start s ctx + p) = bs_view other (block_start s ctx + p)))"
proof -
  from assms(1) have n: "0 < n" and bso: "bso = layout n s" by (auto simp: bso_new_layout split: if_splits)
  note other = assms(6) [folded block_start_def]
  have blank: "wf_bs (block_start s n) (bs_new_blocks n s False)" by (simp only: block_start_def wf_bs_new_blocks)
  have "list_all (lit_known s btab) ls" using assms(4) by (auto simp: list_all_iff lit_proper_def)
  from handle_literals_view [OF blank assms(2) this] obtain m where
    m: "handle_literals (layout n s) btab ctx (bs_new_blocks n s False) ls = Inr m" "wf_bs (block_start s n) m"
    "bs_view m = fold (\<lambda>l v. v(lit_pos s ctx btab l := lit_val l)) ls (bs_view (bs_new_blocks n s False))" by blast
  with mark_not_literal [OF assms(4), of ctx] m(3) have unknown: "\<not> known s m ctx" by (simp add: known_def fold_upd_out)
  obtain psem st1 where sem: "DLVResultGrammarSemantics_new (Some bso) btab ctx st = Inr (psem, st1)"
    by (auto simp: DLVResultGrammarSemantics_new_def bso_instance_def new_obj_def)
  have "line_model phrase_parse (Some bso) btab ctx line = Inr m"
    using m(1) assms(3) by (simp add: line_model_def bso_instance_def bso)
  note parse = parse_first_line [OF sem this]
  obtain r where r: "combine other m (bso_starting_offsets bso) (bso_masks bso) =
      Inr (if \<forall>j. compared n s other m j \<longrightarrow> bs_view other j = bs_view m j then (True, r) else (False, other))"
    "wf_bs (block_start s n) r"
    "\<And>j. get_bit (status_bit r) j \<longleftrightarrow> get_bit (status_bit other) j \<or> taken_over n s other m j \<and> get_bit (status_bit m) j"
    "\<And>j. get_bit (value_bit r) j \<longleftrightarrow> get_bit (value_bit other) j \<or> taken_over n s other m j \<and> get_bit (value_bit m) j"
    unfolding bso by (rule combine_layout [OF other m(2) n]) blast
  have "bs_view r (block_start s ctx + p) = bs_view other (block_start s ctx + p)" if "p \<le> s" for p
    using taken_over_block [OF assms(2) that, of other m] r(3,4) unknown by (simp add: bs_view_def)
  then have "\<exists>ok r. combine other m (bso_starting_offsets bso) (bso_masks bso) = Inr (ok, r) \<and>
      (\<forall>p. p \<le> s \<longrightarrow> bs_view r (block_start s ctx + p) = bs_view other (block_start s ctx + p))"
    unfolding r(1) by auto
  moreover have "consistent_with m other ctx (bso_starting_offsets bso) = Inr True"
    using unknown by (simp add: bso consistent_with_layout [OF m(2) other assms(2)])
  moreover have "mem (snd (new_obj st m)) (fst (new_obj st m)) = Some m" by (simp add: new_obj_def)
  ultimately show ?thesis using sem parse m(3)
    by (intro exI [of _ psem] exI [of _ st1] exI [of _ "snd (new_obj st m)"] exI [of _ "fst (new_obj st m)"] exI [of _ m])
      (simp add: fold_upd_in [OF assms(5)] fold_upd_out)
qed

text \<open>
  C30. \<open>DLVResultParser_t\<close>, the parser that the evaluator creates, has one object for all lines: parsing
  two lines returns the same pointer twice, and the object then holds the literals of both.
\<close>

theorem shared_parser_accumulates:
  assumes "parseString phrase_parse (Some bso) psem st line = Inr (a, st1)"
    and "parseString phrase_parse (Some bso) psem st1 line' = Inr (a', st2)"
    and "mem st (m_ParsedResult psem) = Some bs"
  shows "a' = a \<and> (\<exists>bs2. mem st2 a = Some bs2 \<and> handle_literals bso (m_BTab psem) (m_CtxID psem) bs
      (fst (phrase_parse line) @ fst (phrase_parse line')) = Inr bs2)"
  using assms
  by (auto simp: parseString_def bso_instance_def assign_obj_def deref_def bind_res_eq_Inr
      handle_literals_append split: prod.splits if_splits option.splits)

theorem shared_parser_accumulates_witness:
  "\<exists>st1 st2 bs2. parseString (\<lambda>line. ([], True)) (Some (layout 2 3))
       \<lparr>m_BTab = BeliefTable_new, m_CtxID = 1, m_ParsedResult = 0\<rparr>
       \<lparr>mem = [0 \<mapsto> bs_new_blocks 2 3 False], next_addr = 1\<rparr> ''{}'' = Inr (0, st1) \<and>
     parseString (\<lambda>line. ([], True)) (Some (layout 2 3))
       \<lparr>m_BTab = BeliefTable_new, m_CtxID = 1, m_ParsedResult = 0\<rparr> st1 ''{}'' = Inr (0, st2) \<and>
     mem st2 0 = Some bs2"
proof -
  let ?sem = "\<lparr>m_BTab = BeliefTable_new, m_CtxID = 1, m_ParsedResult = 0\<rparr>"
  let ?st = "\<lparr>mem = [0 \<mapsto> bs_new_blocks 2 3 False], next_addr = 1\<rparr>"
  have 1: "parseString (\<lambda>line. ([], True)) (Some (layout 2 3)) ?sem ?st ''{}'' = Inr (0, ?st)"
    by (simp add: parseString_def bso_instance_def assign_obj_def deref_def)
  from shared_parser_accumulates [OF 1 1, of "bs_new_blocks 2 3 False"] 1 show ?thesis by auto
qed

end
