(* ===== verification/Local_Evaluator.thy ===== *)
theory Local_Evaluator
  imports DLV_Result
begin

unbundle bit_operations_syntax

text \<open>
  The evaluator of a context's local knowledge base (\<open>src/dmcs/Evaluator.cpp\<close>,
  \<open>src/dmcs/DLVEvaluator.cpp\<close>). It runs the solver DLV on the knowledge base and the heads of the
  applicable bridge rules, and sends the models with the requested numbers that agree with the
  input. DLV is a parameter, a function from options and program text to output lines. The lines are
  read with \<open>DLVResultParser_t\<close> (theory \<open>DLV_Result\<close>), one parser for each call of \<open>solve\<close>, so all
  answer sets of a call are written into one object: the evaluator does what it is meant to do when
  the solver has at most one answer set, or when one model is asked for; the other cases are
  characterised too.
\<close>

section \<open>Definitions\<close>

type_synonym solver = "string list \<Rightarrow> string \<Rightarrow> string list"
type_synonym parser = "store \<Rightarrow> string \<Rightarrow> (addr \<times> store) res"

record Evaluator =
  local_kb :: string
  includeFacts :: bool
  arguments :: "string list"
  models_counter :: nat

definition DLVEvaluator_new :: "string \<Rightarrow> Evaluator" where
  "DLVEvaluator_new kb = \<lparr>local_kb = kb, includeFacts = True, arguments = [''-silent''],
     models_counter = SIZE_T - 1\<rparr>"

type_synonym HeadsBeliefStatePair = "HeadsPlusBeliefState \<times> addr option"

record eval_world =
  ev :: Evaluator
  est :: store
  eval_out :: "HeadsBeliefStatePair list"

text \<open>The loop of \<open>reset_process\<close> over the heads: the texts of the beliefs, in their order.\<close>

function head_texts :: "BeliefTable \<Rightarrow> nat \<Rightarrow> nat \<Rightarrow> NewBeliefState \<Rightarrow> nat \<Rightarrow> string list res" where
  "head_texts btab ctx_id off h pos =
     (if pos = 0 then Inr []
      else bind_res (bt_getByID btab \<lparr>kind = MAINKIND_BELIEF OR of_nat ctx_id, address = of_nat pos - of_nat off\<rparr>) (\<lambda>b.
           bind_res (getNext h pos) (\<lambda>pos'.
           bind_res (head_texts btab ctx_id off h pos') (\<lambda>ts. Inr (b_text b # ts)))))"
  by pat_completeness auto
termination
  by (relation "measure (\<lambda>(btab, ctx_id, off, h, pos). if pos = 0 then 0 else Suc (length (status_bit h) - pos))")
    (auto dest: getNext_increases)

declare head_texts.simps [simp del]

definition reset_process :: "solver \<Rightarrow> BeliefStateOffset option \<Rightarrow> Evaluator \<Rightarrow> nat \<Rightarrow> HeadsPlusBeliefState \<Rightarrow> BeliefTable
    \<Rightarrow> (string list \<times> Evaluator) res" where
  "reset_process dlv inst e ctx_id heads btab =
     bind_res (bso_instance inst) (\<lambda>bso.
     bind_res (vec_at (bso_starting_offsets bso) ctx_id) (\<lambda>off.
     bind_res (case getHeads heads of None \<Rightarrow> Inr []
               | Some h \<Rightarrow> head_texts btab ctx_id off h (getFirst h)) (\<lambda>ts.
       let options = (if includeFacts e then ''-facts'' else ''-nofacts'') # arguments e @ [''--''];
           program = local_kb e @ concat (map (\<lambda>t. t @ ''.'' @ [CHR 0x0A]) ts)
       in Inr (dlv options program, e\<lparr>models_counter := 0\<rparr>))))"

definition test_and_send :: "BeliefStateOffset option \<Rightarrow> eval_world \<Rightarrow> addr \<Rightarrow> HeadsPlusBeliefState \<Rightarrow> nat \<Rightarrow> eval_world res" where
  "test_and_send inst w local_model heads ctx_id =
     bind_res (deref (mem (est w)) local_model) (\<lambda>m.
     bind_res (bso_instance inst) (\<lambda>bso.
     bind_res (consistent_with m (getInputBeliefState heads) ctx_id (bso_starting_offsets bso)) (\<lambda>ok.
       if \<not> ok then bind_res (delete_obj (est w) local_model) (\<lambda>st. Inr (w\<lparr>est := st\<rparr>))
       else bind_res (assign_obj (est w) local_model (bs_or m (getInputBeliefState heads))) (\<lambda>st.
         Inr (w\<lparr>ev := (ev w)\<lparr>models_counter := sz_add (models_counter (ev w)) 1\<rparr>, est := st,
                eval_out := eval_out w @ [(heads, Some local_model)]\<rparr>)))))"

text \<open>A parser object, as its operation \<open>parseString\<close>.\<close>

definition DLVResultParser_t :: "recognizer \<Rightarrow> BeliefStateOffset option \<Rightarrow> BeliefTable \<Rightarrow> nat \<Rightarrow> store \<Rightarrow> (parser \<times> store) res" where
  "DLVResultParser_t phrase_parse inst btab ctx_id st =
     bind_res (DLVResultGrammarSemantics_new inst btab ctx_id st) (\<lambda>(psem, st).
       Inr (parseString phrase_parse inst psem, st))"

text \<open>Cost lines of weak constraints are discarded.\<close>

definition cost_line :: "string \<Rightarrow> bool" where
  "cost_line l \<longleftrightarrow> take 22 l = ''Cost ([Weight:Level]):''"

fun read_all_loop :: "parser \<Rightarrow> BeliefStateOffset option \<Rightarrow> nat \<Rightarrow> HeadsPlusBeliefState \<Rightarrow> string list \<Rightarrow> eval_world \<Rightarrow> eval_world res" where
  "read_all_loop parse inst ctx_id heads [] w = Inr w"
| "read_all_loop parse inst ctx_id heads (l # lines) w =
     (if l = [] then Inr w
      else if cost_line l then read_all_loop parse inst ctx_id heads lines w
      else bind_res (parse (est w) l) (\<lambda>(local_model, st).
           bind_res (test_and_send inst (w\<lparr>est := st\<rparr>) local_model heads ctx_id) (\<lambda>w.
             read_all_loop parse inst ctx_id heads lines w)))"

definition read_all :: "recognizer \<Rightarrow> BeliefStateOffset option \<Rightarrow> nat \<Rightarrow> HeadsPlusBeliefState \<Rightarrow> BeliefTable \<Rightarrow> string list
    \<Rightarrow> eval_world \<Rightarrow> eval_world res" where
  "read_all phrase_parse inst ctx_id heads btab lines w =
     bind_res (DLVResultParser_t phrase_parse inst btab ctx_id (est w)) (\<lambda>(parse, st).
       read_all_loop parse inst ctx_id heads lines (w\<lparr>est := st\<rparr>))"

text \<open>The first loop of \<open>read_until_k2\<close> passes over \<open>limit\<close> models, the second sends up to number \<open>limit\<close>.\<close>

fun skip_models :: "parser \<Rightarrow> BeliefStateOffset option \<Rightarrow> nat \<Rightarrow> HeadsPlusBeliefState \<Rightarrow> nat \<Rightarrow> string list \<Rightarrow> eval_world
    \<Rightarrow> (string list \<times> eval_world) res" where
  "skip_models parse inst ctx_id heads limit [] w = Inr ([], w)"
| "skip_models parse inst ctx_id heads limit (l # lines) w =
     (if \<not> models_counter (ev w) < limit then Inr (l # lines, w)
      else if l = [] then Inr (lines, w)
      else if cost_line l then skip_models parse inst ctx_id heads limit lines w
      else bind_res (parse (est w) l) (\<lambda>(local_model, st).
           bind_res (deref (mem st) local_model) (\<lambda>m.
           bind_res (bso_instance inst) (\<lambda>bso.
           bind_res (consistent_with m (getInputBeliefState heads) ctx_id (bso_starting_offsets bso)) (\<lambda>ok.
           bind_res (delete_obj st local_model) (\<lambda>st.
             skip_models parse inst ctx_id heads limit lines
               (if ok then w\<lparr>est := st, ev := (ev w)\<lparr>models_counter := sz_add (models_counter (ev w)) 1\<rparr>\<rparr>
                else w\<lparr>est := st\<rparr>)))))))"

fun send_models :: "parser \<Rightarrow> BeliefStateOffset option \<Rightarrow> nat \<Rightarrow> HeadsPlusBeliefState \<Rightarrow> nat \<Rightarrow> string list \<Rightarrow> eval_world \<Rightarrow> eval_world res" where
  "send_models parse inst ctx_id heads limit [] w = Inr w"
| "send_models parse inst ctx_id heads limit (l # lines) w =
     (if \<not> models_counter (ev w) < limit then Inr w
      else if l = [] then Inr w
      else if cost_line l then send_models parse inst ctx_id heads limit lines w
      else bind_res (parse (est w) l) (\<lambda>(local_model, st).
           bind_res (test_and_send inst (w\<lparr>est := st\<rparr>) local_model heads ctx_id) (\<lambda>w.
             send_models parse inst ctx_id heads limit lines w)))"

definition read_until_k2 :: "recognizer \<Rightarrow> BeliefStateOffset option \<Rightarrow> nat \<Rightarrow> nat \<Rightarrow> nat \<Rightarrow> HeadsPlusBeliefState \<Rightarrow> BeliefTable
    \<Rightarrow> string list \<Rightarrow> eval_world \<Rightarrow> eval_world res" where
  "read_until_k2 phrase_parse inst ctx_id k1 k2 heads btab lines w =
     assertion (0 < k1 \<and> k1 \<le> k2)
     (bind_res (DLVResultParser_t phrase_parse inst btab ctx_id (est w)) (\<lambda>(parse, st).
      bind_res (skip_models parse inst ctx_id heads (k1 - 1) lines (w\<lparr>est := st\<rparr>)) (\<lambda>(lines, w).
        if models_counter (ev w) < k1 - 1 then Inr w
        else send_models parse inst ctx_id heads k2 lines w)))"

definition solve :: "solver \<Rightarrow> recognizer \<Rightarrow> BeliefStateOffset option \<Rightarrow> eval_world \<Rightarrow> nat \<Rightarrow> HeadsPlusBeliefState \<Rightarrow> BeliefTable
    \<Rightarrow> eval_world res" where
  "solve dlv phrase_parse inst w ctx_id heads btab =
     bind_res (reset_process dlv inst (ev w) ctx_id heads btab) (\<lambda>(lines, e).
     let k1 = getK1 heads; k2 = getK2 heads; w = w\<lparr>ev := e\<rparr>
     in bind_res
          (if k1 = 0 \<and> k2 = 0 then read_all phrase_parse inst ctx_id heads btab lines w
           else assertion (k1 \<le> k2) (read_until_k2 phrase_parse inst ctx_id k1 k2 heads btab lines w)) (\<lambda>w.
        Inr (w\<lparr>eval_out := eval_out w @ [(heads, None)]\<rparr>)))"

text \<open>The thread: it solves one request after the other until it gets a null pointer.\<close>

fun eval_startup :: "solver \<Rightarrow> recognizer \<Rightarrow> BeliefStateOffset option \<Rightarrow> nat \<Rightarrow> BeliefTable \<Rightarrow> HeadsPlusBeliefState option list
    \<Rightarrow> eval_world \<Rightarrow> eval_world res" where
  "eval_startup dlv phrase_parse inst ctx_id btab [] w = Inl Blocked"
| "eval_startup dlv phrase_parse inst ctx_id btab (None # eval_in) w = Inr w"
| "eval_startup dlv phrase_parse inst ctx_id btab (Some heads # eval_in) w =
     bind_res (solve dlv phrase_parse inst w ctx_id heads btab)
       (eval_startup dlv phrase_parse inst ctx_id btab eval_in)"

section \<open>The models in the output\<close>

definition answer_lines :: "string list \<Rightarrow> string list" where
  "answer_lines lines = filter (\<lambda>l. \<not> cost_line l) (takeWhile (\<lambda>l. l \<noteq> []) lines)"

lemma answer_lines_simps [simp]:
  "answer_lines [] = []"
  "answer_lines ([] # ls) = []"
  "l \<noteq> [] \<Longrightarrow> answer_lines (l # ls) = (if cost_line l then answer_lines ls else l # answer_lines ls)"
  by (simp_all add: answer_lines_def)

text \<open>
  What a run adds: messages with new objects that hold the given models together with the input;
  no object that existed before is touched.
\<close>

definition sends :: "HeadsPlusBeliefState \<Rightarrow> NewBeliefState list \<Rightarrow> eval_world \<Rightarrow> eval_world \<Rightarrow> bool" where
  "sends heads ms w w' \<longleftrightarrow> (\<exists>as. eval_out w' = eval_out w @ map (\<lambda>a. (heads, Some a)) as \<and>
     news (est w) (est w') as (map (\<lambda>m. bs_or m (getInputBeliefState heads)) ms))"

lemma sends_refl: "store_ok (est w) \<Longrightarrow> sends heads [] w w"
  by (simp add: sends_def news_Nil)

lemma sends_trans:
  assumes "sends heads ms w w1" and "sends heads ms' w1 w2"
  shows "sends heads (ms @ ms') w w2"
proof -
  let ?v = "map (\<lambda>m. bs_or m (getInputBeliefState heads))"
  from assms(1) obtain as where "eval_out w1 = eval_out w @ map (\<lambda>a. (heads, Some a)) as"
    "news (est w) (est w1) as (?v ms)" by (auto simp: sends_def)
  moreover from assms(2) obtain bs where "eval_out w2 = eval_out w1 @ map (\<lambda>a. (heads, Some a)) bs"
    "news (est w1) (est w2) bs (?v ms')" by (auto simp: sends_def)
  ultimately show ?thesis
    unfolding sends_def by (intro exI [of _ "as @ bs"]) (simp add: news_trans)
qed

text \<open>The models that agree with an input.\<close>

definition agrees :: "BeliefStateOffset \<Rightarrow> nat \<Rightarrow> NewBeliefState \<Rightarrow> NewBeliefState \<Rightarrow> bool" where
  "agrees bso ctx_id input m \<longleftrightarrow> consistent_with m input ctx_id (bso_starting_offsets bso) = Inr True"

definition comparable :: "BeliefStateOffset \<Rightarrow> nat \<Rightarrow> NewBeliefState \<Rightarrow> NewBeliefState \<Rightarrow> bool" where
  "comparable bso ctx_id input m \<longleftrightarrow> is_ok (consistent_with m input ctx_id (bso_starting_offsets bso))"

definition counted :: "nat \<Rightarrow> eval_world \<Rightarrow> eval_world \<Rightarrow> bool" where
  "counted k w w' \<longleftrightarrow> ev w' = (ev w)\<lparr>models_counter := models_counter (ev w) + k\<rparr>"

lemma counted_trans: "counted k w w1 \<Longrightarrow> counted k' w1 w2 \<Longrightarrow> counted (k + k') w w2"
  by (simp add: counted_def)

lemma counted_0 [simp]: "counted 0 w w"
  by (simp add: counted_def)

lemma new_obj_store:
  "store_ok st \<Longrightarrow> new_obj st m = (a, st') \<Longrightarrow> store_ok st' \<and> a = next_addr st \<and> next_addr st' = Suc a \<and>
     mem st' = (mem st)(a \<mapsto> m)"
  by (auto simp: new_obj_def store_ok_def)

lemma test_and_send_new:
  assumes "store_ok (est w)" and "comparable bso ctx (getInputBeliefState heads) m"
    and "new_obj (est w) m = (a, st)" and "models_counter (ev w) + 1 < SIZE_T"
  shows "\<exists>w'. test_and_send (Some bso) (w\<lparr>est := st\<rparr>) a heads ctx = Inr w' \<and>
    (if agrees bso ctx (getInputBeliefState heads) m then sends heads [m] w w' \<and> counted 1 w w'
     else sends heads [] w w' \<and> counted 0 w w')"
proof -
  note st = new_obj_store [OF assms(1,3)]
  from assms(2) obtain ok where ok:
    "consistent_with m (getInputBeliefState heads) ctx (bso_starting_offsets bso) = Inr ok"
    by (auto simp: comparable_def is_ok_iff)
  show ?thesis
  proof (cases ok)
    case True
    let ?w = "w\<lparr>ev := (ev w)\<lparr>models_counter := models_counter (ev w) + 1\<rparr>,
        est := st\<lparr>mem := (mem st)(a \<mapsto> bs_or m (getInputBeliefState heads))\<rparr>,
        eval_out := eval_out w @ [(heads, Some a)]\<rparr>"
    have "test_and_send (Some bso) (w\<lparr>est := st\<rparr>) a heads ctx = Inr ?w"
      using ok True st sz_add_small [OF assms(4)]
      by (simp add: test_and_send_def deref_def bso_instance_def assign_obj_def)
    moreover have "sends heads [m] w ?w"
      using st by (auto simp: sends_def news_def store_ok_def intro!: exI [of _ "[a]"])
    ultimately show ?thesis using ok True by (auto simp: agrees_def counted_def)
  next
    case False
    let ?w = "w\<lparr>est := st\<lparr>mem := (mem st)(a := None)\<rparr>\<rparr>"
    have "test_and_send (Some bso) (w\<lparr>est := st\<rparr>) a heads ctx = Inr ?w"
      using ok False st by (simp add: test_and_send_def deref_def bso_instance_def delete_obj_def delete_bs_def)
    moreover have "sends heads [] w ?w"
      using st by (auto simp: sends_def news_def store_ok_def)
    ultimately show ?thesis using ok False by (auto simp: agrees_def counted_def)
  qed
qed

section \<open>Reading\<close>

definition lines_ok :: "BeliefStateOffset \<Rightarrow> nat \<Rightarrow> NewBeliefState \<Rightarrow> (string \<Rightarrow> NewBeliefState) \<Rightarrow> (string \<Rightarrow> bool)
    \<Rightarrow> string list \<Rightarrow> bool" where
  "lines_ok bso ctx input model good lines \<longleftrightarrow>
     (\<forall>l\<in>set (answer_lines lines). good l \<and> comparable bso ctx input (model l))"

definition agreeing_models :: "BeliefStateOffset \<Rightarrow> nat \<Rightarrow> NewBeliefState \<Rightarrow> (string \<Rightarrow> NewBeliefState) \<Rightarrow> string list
    \<Rightarrow> NewBeliefState list" where
  "agreeing_models bso ctx input model lines = filter (agrees bso ctx input) (map model (answer_lines lines))"

text \<open>The loops read the answer sets one after the other.\<close>

lemma read_none:
  assumes "answer_lines lines = []"
  shows "send_models parse inst ctx heads limit lines w = Inr w"
    and "\<exists>rest. skip_models parse inst ctx heads limit lines w = Inr (rest, w) \<and>
      (\<not> models_counter (ev w) < limit \<longrightarrow> answer_lines rest = [])"
  using assms
proof (induction lines)
  case (Cons l lines)
  {
    case 1
    with Cons.IH(1) show ?case by (cases "l = []") (auto split: if_splits)
  next
    case 2
    with Cons.IH(2) show ?case by (cases "l = []") (auto split: if_splits)
  }
qed simp_all

lemma skip_nothing: "\<not> models_counter (ev w) < limit \<Longrightarrow> skip_models parse inst ctx heads limit lines w = Inr (lines, w)"
  by (cases lines) simp_all

lemma send_nothing: "\<not> models_counter (ev w) < limit \<Longrightarrow> send_models parse inst ctx heads limit lines w = Inr w"
  by (cases lines) simp_all

lemma read_next:
  assumes "answer_lines lines = l # ls"
  shows "l \<noteq> [] \<and> \<not> cost_line l \<and> (\<exists>rest. answer_lines rest = ls \<and>
    (\<forall>parse inst ctx heads limit w. models_counter (ev w) < limit \<longrightarrow>
       send_models parse inst ctx heads limit lines w = send_models parse inst ctx heads limit (l # rest) w \<and>
       skip_models parse inst ctx heads limit lines w = skip_models parse inst ctx heads limit (l # rest) w))"
  using assms
proof (induction lines)
  case (Cons x lines)
  then have x: "x \<noteq> []" by auto
  show ?case
  proof (cases "cost_line x")
    case True
    with Cons.prems x have "answer_lines lines = l # ls" by simp
    from Cons.IH [OF this] obtain rest where "l \<noteq> []" "\<not> cost_line l" "answer_lines rest = ls"
      "\<forall>parse inst ctx heads limit w. models_counter (ev w) < limit \<longrightarrow>
         send_models parse inst ctx heads limit lines w = send_models parse inst ctx heads limit (l # rest) w \<and>
         skip_models parse inst ctx heads limit lines w = skip_models parse inst ctx heads limit (l # rest) w" by blast
    with True x show ?thesis by (intro conjI exI [of _ rest]) simp_all
  next
    case False
    with Cons.prems x have "l = x" "answer_lines lines = ls" by simp_all
    with False x show ?thesis by blast
  qed
qed simp

lemma send_next:
  assumes "answer_lines lines = l # ls"
  shows "\<exists>rest. answer_lines rest = ls \<and> (\<forall>limit w. models_counter (ev w) < limit \<longrightarrow>
    send_models parse inst ctx heads limit lines w = bind_res (parse (est w) l) (\<lambda>(a, st).
      bind_res (test_and_send inst (w\<lparr>est := st\<rparr>) a heads ctx) (send_models parse inst ctx heads limit rest)))"
proof -
  from read_next [OF assms] obtain rest where r: "l \<noteq> []" "\<not> cost_line l" "answer_lines rest = ls"
    "\<forall>limit w. models_counter (ev w) < limit \<longrightarrow>
       send_models parse inst ctx heads limit lines w = send_models parse inst ctx heads limit (l # rest) w" by blast
  then show ?thesis by (intro exI [of _ rest]) simp
qed

lemma test_and_send_counter:
  "test_and_send inst w a heads ctx = Inr w' \<Longrightarrow> models_counter (ev w') \<le> models_counter (ev w) + 1"
  by (auto simp: test_and_send_def bind_res_eq_Inr sz_add_def split: if_splits)

text \<open>\<open>read_all\<close> is the sending loop without a bound.\<close>

lemma read_all_loop_send_models:
  assumes "models_counter (ev w) + length lines \<le> limit"
  shows "read_all_loop parse inst ctx heads lines w = send_models parse inst ctx heads limit lines w"
  using assms
proof (induction lines arbitrary: w)
  case (Cons l lines)
  have "bind_res (test_and_send inst (w\<lparr>est := st\<rparr>) a heads ctx) (read_all_loop parse inst ctx heads lines) =
      bind_res (test_and_send inst (w\<lparr>est := st\<rparr>) a heads ctx) (send_models parse inst ctx heads limit lines)" for a st
    using Cons test_and_send_counter [of inst "w\<lparr>est := st\<rparr>" a heads ctx]
    by (cases "test_and_send inst (w\<lparr>est := st\<rparr>) a heads ctx") fastforce+
  with Cons show ?case by (simp add: split_def)
qed simp

section \<open>Solving\<close>

text \<open>The model of a line, and the lines that a parser accepts.\<close>

abbreviation line_state :: "recognizer \<Rightarrow> BeliefStateOffset \<Rightarrow> BeliefTable \<Rightarrow> nat \<Rightarrow> string \<Rightarrow> NewBeliefState" where
  "line_state phrase_parse bso btab ctx l \<equiv> projr (line_model phrase_parse (Some bso) btab ctx l)"

abbreviation line_good :: "recognizer \<Rightarrow> BeliefStateOffset \<Rightarrow> BeliefTable \<Rightarrow> nat \<Rightarrow> string \<Rightarrow> bool" where
  "line_good phrase_parse bso btab ctx l \<equiv> is_ok (line_model phrase_parse (Some bso) btab ctx l)"

text \<open>
  The parser's object is used for one model only: the solver has at most one answer set, or one model
  is asked for and the first answer set agrees with the input.
\<close>

definition one_object :: "BeliefStateOffset \<Rightarrow> nat \<Rightarrow> NewBeliefState \<Rightarrow> (string \<Rightarrow> NewBeliefState) \<Rightarrow> nat \<Rightarrow> string list \<Rightarrow> bool" where
  "one_object bso ctx input model k2 lines \<longleftrightarrow> length (answer_lines lines) \<le> 1 \<or>
     k2 = 1 \<and> agrees bso ctx input (model (hd (answer_lines lines)))"

lemma new_parser:
  obtains parse st1 where "DLVResultParser_t phrase_parse (Some bso) btab ctx st = Inr (parse, st1)"
    and "store_ok st \<Longrightarrow> news st st1 [] []"
    and "\<And>l. line_good phrase_parse bso btab ctx l \<Longrightarrow>
      parse st1 l = Inr (new_obj st (line_state phrase_parse bso btab ctx l))"
proof -
  obtain psem st1 where sem: "DLVResultGrammarSemantics_new (Some bso) btab ctx st = Inr (psem, st1)"
    by (auto simp: DLVResultGrammarSemantics_new_def bso_instance_def new_obj_def)
  have "store_ok st \<Longrightarrow> news st st1 [] []"
    using sem by (auto simp: DLVResultGrammarSemantics_new_def bso_instance_def new_obj_def news_def store_ok_def)
  with sem parse_first_line [OF sem] show thesis
    by (intro that [of "parseString phrase_parse (Some bso) psem" st1]) (auto simp: DLVResultParser_t_def is_ok_iff)
qed

text \<open>The first line, sent or skipped.\<close>

lemma send_first:
  assumes st: "store_ok (est w)" and c: "models_counter (ev w) = 0" and k: "0 < limit" "limit < SIZE_T"
    and p: "parse st1 l = Inr (new_obj (est w) m)" and l: "answer_lines lines = l # ls"
    and cmp: "comparable bso ctx (getInputBeliefState heads) m"
    and one: "ls = [] \<or> limit = 1 \<and> agrees bso ctx (getInputBeliefState heads) m"
  shows "\<exists>w'. send_models parse (Some bso) ctx heads limit lines (w\<lparr>est := st1\<rparr>) = Inr w' \<and>
    (if agrees bso ctx (getInputBeliefState heads) m then sends heads [m] w w' \<and> counted 1 w w'
     else sends heads [] w w' \<and> counted 0 w w')"
proof -
  from send_next [OF l] obtain rest where r: "answer_lines rest = ls"
    "\<forall>limit w. models_counter (ev w) < limit \<longrightarrow> send_models parse (Some bso) ctx heads limit lines w =
      bind_res (parse (est w) l) (\<lambda>(a, st).
        bind_res (test_and_send (Some bso) (w\<lparr>est := st\<rparr>) a heads ctx) (send_models parse (Some bso) ctx heads limit rest))"
    by blast
  obtain a st where n: "new_obj (est w) m = (a, st)" by fastforce
  have "models_counter (ev w) + 1 < SIZE_T" using c by (simp add: SIZE_T_def)
  from test_and_send_new [OF st cmp n this] obtain w1 where
    w1: "test_and_send (Some bso) (w\<lparr>est := st\<rparr>) a heads ctx = Inr w1"
    "if agrees bso ctx (getInputBeliefState heads) m then sends heads [m] w w1 \<and> counted 1 w w1
     else sends heads [] w w1 \<and> counted 0 w w1" by blast
  have "send_models parse (Some bso) ctx heads limit lines (w\<lparr>est := st1\<rparr>) =
      send_models parse (Some bso) ctx heads limit rest w1"
    using r(2) [rule_format, of "w\<lparr>est := st1\<rparr>" limit] k c p n w1(1) by simp
  also have "\<dots> = Inr w1"
  proof (cases "ls = []")
    case True
    then show ?thesis using r(1) by (simp add: read_none)
  next
    case False
    with one w1(2) c have "\<not> models_counter (ev w1) < limit" by (simp add: counted_def)
    then show ?thesis by (rule send_nothing)
  qed
  finally show ?thesis using w1(2) by blast
qed

lemma skip_first:
  assumes st: "store_ok (est w)" and c: "models_counter (ev w) = 0" and k: "0 < limit"
    and p: "parse st1 l = Inr (new_obj (est w) m)" and l: "answer_lines lines = [l]"
    and cmp: "comparable bso ctx (getInputBeliefState heads) m"
  shows "\<exists>rest w'. skip_models parse (Some bso) ctx heads limit lines (w\<lparr>est := st1\<rparr>) = Inr (rest, w') \<and> sends heads [] w w' \<and>
    counted (if agrees bso ctx (getInputBeliefState heads) m then 1 else 0) w w' \<and>
    (\<not> models_counter (ev w') < limit \<longrightarrow> answer_lines rest = [])"
proof -
  let ?A = "agrees bso ctx (getInputBeliefState heads) m"
  from read_next [OF l] obtain rest where r: "answer_lines rest = []" "l \<noteq> []" "\<not> cost_line l"
    "\<forall>limit w. models_counter (ev w) < limit \<longrightarrow> skip_models parse (Some bso) ctx heads limit lines w =
      skip_models parse (Some bso) ctx heads limit (l # rest) w" by blast
  obtain a st' where n: "new_obj (est w) m = (a, st')" by fastforce
  note st' = new_obj_store [OF st n]
  have cw: "consistent_with m (getInputBeliefState heads) ctx (bso_starting_offsets bso) = Inr ?A"
    using cmp by (auto simp: comparable_def is_ok_iff agrees_def)
  define w1 where "w1 = (if ?A then w\<lparr>est := st'\<lparr>mem := (mem st')(a := None)\<rparr>, ev := (ev w)\<lparr>models_counter := 1\<rparr>\<rparr>
    else w\<lparr>est := st'\<lparr>mem := (mem st')(a := None)\<rparr>\<rparr>)"
  have "sz_add 0 1 = 1" by (simp add: sz_add_small SIZE_T_def)
  then have "skip_models parse (Some bso) ctx heads limit lines (w\<lparr>est := st1\<rparr>) = skip_models parse (Some bso) ctx heads limit rest w1"
    using r(2,3) r(4) [rule_format, of "w\<lparr>est := st1\<rparr>" limit] k c p n cw st'
    by (auto simp: deref_def bso_instance_def delete_obj_def delete_bs_def w1_def)
  moreover from read_none(2) [OF r(1)] obtain rest' where
    "skip_models parse (Some bso) ctx heads limit rest w1 = Inr (rest', w1)"
    "\<not> models_counter (ev w1) < limit \<longrightarrow> answer_lines rest' = []" by blast
  moreover have "sends heads [] w w1" using st' st by (auto simp: w1_def store_ok_def sends_def news_def)
  moreover have "counted (if ?A then 1 else 0) w w1" using c by (simp add: w1_def counted_def)
  ultimately show ?thesis by auto
qed

text \<open>In all cases \<open>solve\<close> skips the models before the first requested one and sends the others up to a limit.\<close>

abbreviation read_limit :: "HeadsPlusBeliefState \<Rightarrow> string list \<Rightarrow> nat" where
  "read_limit heads lines \<equiv> if getK2 heads = 0 then length lines else getK2 heads"

lemma solve_by_loops:
  assumes r: "reset_process dlv inst (ev w) ctx heads btab = Inr (lines, e)" and k: "good_request (getK1 heads) (getK2 heads)"
    and p: "DLVResultParser_t phrase_parse inst btab ctx (est w) = Inr (parse, st1)"
  shows "solve dlv phrase_parse inst w ctx heads btab =
    bind_res (bind_res (skip_models parse inst ctx heads (getK1 heads - 1) lines (w\<lparr>ev := e, est := st1\<rparr>)) (\<lambda>(lines', w).
        if models_counter (ev w) < getK1 heads - 1 then Inr w
        else send_models parse inst ctx heads (read_limit heads lines) lines' w))
      (\<lambda>w. Inr (w\<lparr>eval_out := eval_out w @ [(heads, None)]\<rparr>))"
proof (cases "getK2 heads = 0")
  case True
  from r have "models_counter e = 0" by (auto simp: reset_process_def bind_res_eq_Inr Let_def)
  moreover from this have "read_all_loop parse inst ctx heads lines (w\<lparr>ev := e, est := st1\<rparr>) =
      send_models parse inst ctx heads (length lines) lines (w\<lparr>ev := e, est := st1\<rparr>)"
    by (intro read_all_loop_send_models) simp
  moreover have "getK1 heads = 0" using True k by (auto simp: good_request_def)
  ultimately show ?thesis using True r p by (simp add: solve_def read_all_def skip_nothing)
next
  case False
  with k have "0 < getK1 heads" "getK1 heads \<le> getK2 heads" by (auto simp: good_request_def)
  with False r p show ?thesis by (simp add: solve_def read_until_k2_def Let_def)
qed

lemma solve_ok:
  assumes r: "reset_process dlv (Some bso) (ev w) ctx heads btab = Inr (lines, e)" and st: "store_ok (est w)"
    and len: "length lines < SIZE_T" and k: "good_request (getK1 heads) (getK2 heads)"
    and l: "lines_ok bso ctx (getInputBeliefState heads) (line_state phrase_parse bso btab ctx) (line_good phrase_parse bso btab ctx) lines"
    and one: "one_object bso ctx (getInputBeliefState heads) (line_state phrase_parse bso btab ctx) (getK2 heads) lines"
    and ms: "ms = agreeing_models bso ctx (getInputBeliefState heads) (line_state phrase_parse bso btab ctx) lines"
  shows "\<exists>w'. solve dlv phrase_parse (Some bso) w ctx heads btab = Inr (w'\<lparr>eval_out := eval_out w' @ [(heads, None)]\<rparr>) \<and>
    sends heads (requested (getK1 heads) (getK2 heads) ms) w w' \<and>
    ev w' = (ev w)\<lparr>models_counter := (if getK2 heads = 0 then length ms else min (getK2 heads) (length ms))\<rparr>"
    (is "\<exists>w'. ?solve w' \<and> _ w' \<and> _ w'")
proof -
  let ?agrees = "agrees bso ctx (getInputBeliefState heads)" and ?model = "line_state phrase_parse bso btab ctx"
  let ?k1 = "getK1 heads" and ?k2 = "getK2 heads"
  from r have e: "e = (ev w)\<lparr>models_counter := 0\<rparr>" by (auto simp: reset_process_def bind_res_eq_Inr Let_def)
  define w0 where "w0 = w\<lparr>ev := e\<rparr>"
  have w0: "store_ok (est w0)" "models_counter (ev w0) = 0" "ev w0 = e" "est w0 = est w" "w\<lparr>ev := e, est := st1\<rparr> = w0\<lparr>est := st1\<rparr>" for st1
    using st e by (simp_all add: w0_def)
  have s0: "sends heads xs w0 w' \<Longrightarrow> sends heads xs w w'" for xs w' by (simp add: sends_def w0_def)
  obtain parse st1 where p: "DLVResultParser_t phrase_parse (Some bso) btab ctx (est w0) = Inr (parse, st1)"
    "news (est w0) st1 [] []"
    "\<And>l. line_good phrase_parse bso btab ctx l \<Longrightarrow> parse st1 l = Inr (new_obj (est w0) (?model l))"
    by (rule new_parser [of phrase_parse bso btab ctx "est w0"]) (use w0(1) in blast)
  let ?w1 = "w0\<lparr>est := st1\<rparr>"
  have none: "sends heads [] w0 ?w1" "counted 0 w0 ?w1" using p(2) by (simp_all add: sends_def counted_def)
  note solve = solve_by_loops [OF r k p(1) [unfolded w0(4)], unfolded w0(5)]
  let ?limit = "read_limit heads lines"
  have k1: "?k1 \<le> 1 \<or> 1 < ?k1 \<and> 1 < ?k2" using k by (auto simp: good_request_def)
  consider "answer_lines lines = []" | m ls where "answer_lines lines = m # ls" by (cases "answer_lines lines") auto
  then show ?thesis
  proof cases
    case 1
    then have "ms = []" by (simp add: ms agreeing_models_def)
    moreover obtain rest where "skip_models parse (Some bso) ctx heads (?k1 - 1) lines ?w1 = Inr (rest, ?w1)"
      "\<not> models_counter (ev ?w1) < ?k1 - 1 \<longrightarrow> answer_lines rest = []" using read_none(2) [OF 1] by blast
    then have "solve dlv phrase_parse (Some bso) w ctx heads btab =
        Inr (?w1\<lparr>eval_out := eval_out ?w1 @ [(heads, None)]\<rparr>)"
      unfolding solve by (simp add: read_none(1))
    ultimately show ?thesis using s0 [OF none(1)] e w0(3)
      by (intro exI [of _ ?w1]) (simp add: requested_def model_range_def)
  next
    case (2 x xs)
    let ?m = "?model x"
    have x: "line_good phrase_parse bso btab ctx x" "comparable bso ctx (getInputBeliefState heads) ?m"
      using l 2 by (simp_all add: lines_ok_def)
    have lines: "lines \<noteq> []" using 2 by auto
    have one': "xs = [] \<or> ?k2 = 1 \<and> ?agrees ?m" using one 2 by (simp add: one_object_def)
    show ?thesis
    proof (cases "?k1 \<le> 1")
      case True
      have lim: "0 < ?limit" "?limit < SIZE_T" "xs = [] \<or> ?limit = 1 \<and> ?agrees ?m"
        using k one' len lines by (auto simp: good_request_def)
      from send_first [where parse = parse, OF w0(1,2) lim(1,2) p(3) [OF x(1)] 2 x(2) lim(3)] obtain w' where
        w': "send_models parse (Some bso) ctx heads ?limit lines ?w1 = Inr w'"
        "if ?agrees ?m then sends heads [?m] w0 w' \<and> counted 1 w0 w' else sends heads [] w0 w' \<and> counted 0 w0 w'" by blast
      have "solve dlv phrase_parse (Some bso) w ctx heads btab = Inr (w'\<lparr>eval_out := eval_out w' @ [(heads, None)]\<rparr>)"
        unfolding solve using True w'(1) w0(2) by (simp add: skip_nothing)
      moreover have "requested ?k1 ?k2 ms = (if ?agrees ?m then [?m] else [])"
        "(if ?k2 = 0 then length ms else min ?k2 (length ms)) = (if ?agrees ?m then 1 else 0)"
        using True k one' 2 by (auto simp: ms agreeing_models_def requested_def model_range_def good_request_def le_Suc_eq)
      ultimately show ?thesis using w'(2) s0 e w0(3) by (intro exI [of _ w']) (auto simp: counted_def split: if_splits)
    next
      case False
      with k1 one' have k: "0 < ?k1 - 1" "xs = []" "1 < ?k2" by auto
      from skip_first [where parse = parse, OF w0(1,2) k(1) p(3) [OF x(1)] _ x(2)] 2 k(2) obtain rest w' where
        w': "skip_models parse (Some bso) ctx heads (?k1 - 1) lines ?w1 = Inr (rest, w')" "sends heads [] w0 w'"
        "counted (if ?agrees ?m then 1 else 0) w0 w'" "\<not> models_counter (ev w') < ?k1 - 1 \<longrightarrow> answer_lines rest = []" by blast
      have "solve dlv phrase_parse (Some bso) w ctx heads btab = Inr (w'\<lparr>eval_out := eval_out w' @ [(heads, None)]\<rparr>)"
        unfolding solve using w'(1,4) by (simp add: read_none(1))
      moreover have "ms = (if ?agrees ?m then [?m] else [])" using 2 k(2) by (simp add: ms agreeing_models_def)
      ultimately show ?thesis using w'(2,3) s0 e w0(3) k
        by (intro exI [of _ w']) (auto simp: counted_def requested_def model_range_def split: if_splits)
    qed
  qed
qed


text \<open>A solver with two answer sets, of which one is asked for.\<close>

abbreviation wit_table :: BeliefTable where
  "wit_table \<equiv> \<lparr>bt_container = [\<lparr>b_address = 2, b_kind = 0x40000001, b_text = ''p''\<rparr>,
     \<lparr>b_address = 3, b_kind = 0x40000001, b_text = ''q''\<rparr>], nextAddress = 0\<rparr>"

abbreviation wit_heads :: "nat \<Rightarrow> nat \<Rightarrow> HeadsPlusBeliefState" where
  "wit_heads k1 k2 \<equiv> \<lparr>getHeads = None, getK1 = k1, getK2 = k2, getInputBeliefState = bs_new_blocks 2 3 False\<rparr>"

abbreviation wit_world :: eval_world where
  "wit_world \<equiv> \<lparr>ev = DLVEvaluator_new ''p v q.'', est = \<lparr>mem = Map.empty, next_addr = 0\<rparr>, eval_out = []\<rparr>"

abbreviation wit_parse :: recognizer where
  "wit_parse \<equiv> \<lambda>line. ([(False, line)], True)"

lemma wit_literals: "lit_proper 3 wit_table (False, ''p'')" "lit_proper 3 wit_table (False, ''q'')"
  by (simp_all add: lit_proper_def lit_known_def bt_getIDByString_def b_id_def ID_FAIL_def ALL_ONES_def)

lemma wit_process:
  "reset_process (\<lambda>options program. lines) (Some (layout 2 3)) (ev wit_world) 1 (wit_heads k1 k2) wit_table =
     Inr (lines, (ev wit_world)\<lparr>models_counter := 0\<rparr>)"
  by (simp add: reset_process_def bso_instance_def)


section \<open>Several answer sets\<close>

text \<open>What the object of the parser holds after some lines: each adds its literals and the input.\<close>

fun shared_state :: "recognizer \<Rightarrow> BeliefStateOffset \<Rightarrow> BeliefTable \<Rightarrow> nat \<Rightarrow> NewBeliefState \<Rightarrow> NewBeliefState \<Rightarrow> string list
    \<Rightarrow> NewBeliefState res" where
  "shared_state phrase_parse bso btab ctx input b [] = Inr b"
| "shared_state phrase_parse bso btab ctx input b (l # ls) =
     bind_res (handle_literals bso btab ctx b (fst (phrase_parse l))) (\<lambda>b.
       shared_state phrase_parse bso btab ctx input (bs_or b input) ls)"

definition line_proper :: "recognizer \<Rightarrow> nat \<Rightarrow> BeliefTable \<Rightarrow> string \<Rightarrow> bool" where
  "line_proper phrase_parse s btab l \<longleftrightarrow> snd (phrase_parse l) \<and> list_all (lit_proper s btab) (fst (phrase_parse l))"

lemma known_or: "\<not> known s a i \<Longrightarrow> \<not> known s b i \<Longrightarrow> \<not> known s (bs_or a b) i"
  by (simp add: known_def view_status bs_or_def)

lemma parse_again:
  assumes "mem st a = Some b" and "wf_bs (block_start s n) b" and "\<not> known s b ctx" and "ctx < n" and "line_proper pp s btab l"
  obtains b1 where "handle_literals (layout n s) btab ctx b (fst (pp l)) = Inr b1"
    and "wf_bs (block_start s n) b1" and "\<not> known s b1 ctx"
    and "parseString pp (Some (layout n s)) \<lparr>m_BTab = btab, m_CtxID = ctx, m_ParsedResult = a\<rparr> st l =
      Inr (a, st\<lparr>mem := (mem st)(a \<mapsto> b1)\<rparr>)"
proof -
  have l: "snd (pp l)" "list_all (lit_proper s btab) (fst (pp l))" using assms(5) by (simp_all add: line_proper_def)
  from handle_literals_unknown [OF assms(2,4) l(2) assms(3)] obtain b1 where
    b1: "handle_literals (layout n s) btab ctx b (fst (pp l)) = Inr b1" "wf_bs (block_start s n) b1" "\<not> known s b1 ctx" by blast
  with l assms(1) show thesis
    by (intro that [OF b1]) (simp add: parseString_def bso_instance_def deref_def assign_obj_def split_def)
qed

lemma parse_deleted:
  "mem st (m_ParsedResult psem) = None \<Longrightarrow> parseString pp (Some bso) psem st l = Inl Undefined_Behaviour"
  by (simp add: parseString_def bso_instance_def deref_def split_def)

lemma test_and_send_shared:
  assumes "mem (est w) a = Some b" and "wf_bs (block_start s n) b" and "\<not> known s b ctx" and "ctx < n"
    and "wf_bs (block_start s n) (getInputBeliefState heads)" and "models_counter (ev w) + 1 < SIZE_T"
  shows "test_and_send (Some (layout n s)) w a heads ctx = Inr (w\<lparr>ev := (ev w)\<lparr>models_counter := models_counter (ev w) + 1\<rparr>,
    est := (est w)\<lparr>mem := (mem (est w))(a \<mapsto> bs_or b (getInputBeliefState heads))\<rparr>, eval_out := eval_out w @ [(heads, Some a)]\<rparr>)"
  using assms consistent_with_layout [OF assms(2,5,4)]
  by (simp add: test_and_send_def deref_def bso_instance_def assign_obj_def sz_add_small)

lemma send_shared:
  assumes input: "wf_bs (block_start s n) (getInputBeliefState heads)" "\<not> known s (getInputBeliefState heads) ctx"
    and ctx: "ctx < n" and limit: "limit < SIZE_T" and psem: "psem = \<lparr>m_BTab = btab, m_CtxID = ctx, m_ParsedResult = a\<rparr>"
    and "mem (est w) a = Some b" and "wf_bs (block_start s n) b" and "\<not> known s b ctx"
    and "\<forall>l\<in>set ls. line_proper pp s btab l" and "answer_lines lines = ls" and "models_counter (ev w) \<le> limit"
  shows "\<exists>w' b'. send_models (parseString pp (Some (layout n s)) psem) (Some (layout n s)) ctx heads limit lines w = Inr w' \<and>
    eval_out w' = eval_out w @ replicate (min (limit - models_counter (ev w)) (length ls)) (heads, Some a) \<and>
    shared_state pp (layout n s) btab ctx (getInputBeliefState heads) b (take (limit - models_counter (ev w)) ls) = Inr b' \<and>
    mem (est w') a = Some b'"
  using assms(6-)
proof (induction ls arbitrary: lines w b)
  case Nil
  then show ?case by (simp add: read_none(1))
next
  case (Cons l ls)
  let ?send = "send_models (parseString pp (Some (layout n s)) psem) (Some (layout n s)) ctx heads limit"
  show ?case
  proof (cases "models_counter (ev w) < limit")
    case False
    with Cons.prems show ?thesis by (simp add: send_nothing)
  next
    case True
    have "line_proper pp s btab l" using Cons.prems(4) by simp
    then obtain b1 where b1: "handle_literals (layout n s) btab ctx b (fst (pp l)) = Inr b1"
      "wf_bs (block_start s n) b1" "\<not> known s b1 ctx"
      "parseString pp (Some (layout n s)) psem (est w) l = Inr (a, (est w)\<lparr>mem := (mem (est w))(a \<mapsto> b1)\<rparr>)"
      unfolding psem by (rule parse_again [OF Cons.prems(1-3) ctx])
    define w1 where "w1 = w\<lparr>est := (est w)\<lparr>mem := (mem (est w))(a \<mapsto> b1)\<rparr>\<rparr>"
    define w2 where "w2 = w1\<lparr>ev := (ev w1)\<lparr>models_counter := models_counter (ev w1) + 1\<rparr>,
      est := (est w1)\<lparr>mem := (mem (est w1))(a \<mapsto> bs_or b1 (getInputBeliefState heads))\<rparr>, eval_out := eval_out w1 @ [(heads, Some a)]\<rparr>"
    have "mem (est w1) a = Some b1" "models_counter (ev w1) + 1 < SIZE_T" using True limit by (simp_all add: w1_def)
    note t = test_and_send_shared [OF this(1) b1(2,3) ctx input(1) this(2), folded w2_def]
    from send_next [OF Cons.prems(5), of "parseString pp (Some (layout n s)) psem" "Some (layout n s)" ctx heads]
    obtain rest where rest: "answer_lines rest = ls" and step: "models_counter (ev w) < limit \<Longrightarrow>
      ?send lines w = bind_res (parseString pp (Some (layout n s)) psem (est w) l) (\<lambda>(a, st).
        bind_res (test_and_send (Some (layout n s)) (w\<lparr>est := st\<rparr>) a heads ctx) (?send rest))" by blast
    have r: "answer_lines rest = ls" "?send lines w = ?send rest w2"
      using rest step [OF True] b1(4) t by (simp_all add: w1_def)
    have w2: "mem (est w2) a = Some (bs_or b1 (getInputBeliefState heads))" "models_counter (ev w2) = models_counter (ev w) + 1"
      "eval_out w2 = eval_out w @ [(heads, Some a)]" by (simp_all add: w2_def w1_def)
    have p: "\<forall>l\<in>set ls. line_proper pp s btab l" "models_counter (ev w2) \<le> limit" using Cons.prems(4) True w2(2) by simp_all
    obtain d where d: "limit - models_counter (ev w) = Suc d" "limit - models_counter (ev w2) = d"
      using True w2(2) by (intro that [of "limit - models_counter (ev w2)"]) simp_all
    from Cons.IH [OF w2(1) wf_bs_or [OF b1(2) input(1)] known_or [OF b1(3) input(2)] p(1) r(1) p(2)] show ?thesis
      unfolding r(2) d w2(3) using b1(1) by simp
  qed
qed

text \<open>Skipping deletes the object, and the next line is written into it.\<close>

lemma skip_shared:
  assumes input: "wf_bs (block_start s n) (getInputBeliefState heads)" and ctx: "ctx < n"
    and psem: "psem = \<lparr>m_BTab = btab, m_CtxID = ctx, m_ParsedResult = a\<rparr>"
    and b: "mem (est w) a = Some b" "wf_bs (block_start s n) b" "\<not> known s b ctx"
    and l: "answer_lines lines = l # l' # ls" "line_proper pp s btab l" and k: "models_counter (ev w) = 0" "1 < k1" "k1 \<le> k2"
  shows "bind_res (skip_models (parseString pp (Some (layout n s)) psem) (Some (layout n s)) ctx heads (k1 - 1) lines w) (\<lambda>(lines, w).
      if models_counter (ev w) < k1 - 1 then Inr w
      else send_models (parseString pp (Some (layout n s)) psem) (Some (layout n s)) ctx heads k2 lines w) = Inl Undefined_Behaviour"
proof -
  let ?p = "parseString pp (Some (layout n s)) psem"
  obtain b1 where b1: "wf_bs (block_start s n) b1" "\<not> known s b1 ctx"
    "?p (est w) l = Inr (a, (est w)\<lparr>mem := (mem (est w))(a \<mapsto> b1)\<rparr>)"
    unfolding psem by (rule parse_again [OF b ctx l(2)])
  define w1 where "w1 = w\<lparr>est := (est w)\<lparr>mem := (mem (est w))(a := None)\<rparr>, ev := (ev w)\<lparr>models_counter := 1\<rparr>\<rparr>"
  from read_next [OF l(1)] obtain rest where r: "l \<noteq> []" "\<not> cost_line l" "answer_lines rest = l' # ls"
    "\<forall>limit w. models_counter (ev w) < limit \<longrightarrow> skip_models ?p (Some (layout n s)) ctx heads limit lines w =
      skip_models ?p (Some (layout n s)) ctx heads limit (l # rest) w" by blast
  from read_next [OF r(3)] obtain rest' where r': "l' \<noteq> []" "\<not> cost_line l'"
    "\<forall>limit w. models_counter (ev w) < limit \<longrightarrow> skip_models ?p (Some (layout n s)) ctx heads limit rest w =
      skip_models ?p (Some (layout n s)) ctx heads limit (l' # rest') w"
    "\<forall>limit w. models_counter (ev w) < limit \<longrightarrow> send_models ?p (Some (layout n s)) ctx heads limit rest w =
      send_models ?p (Some (layout n s)) ctx heads limit (l' # rest') w" by blast
  have "sz_add 0 1 = 1" by (simp add: sz_add_small SIZE_T_def)
  then have s1: "skip_models ?p (Some (layout n s)) ctx heads (k1 - 1) lines w = skip_models ?p (Some (layout n s)) ctx heads (k1 - 1) rest w1"
    using r(1,2) r(4) k b1(3) consistent_with_layout [OF b1(1) input ctx] b1(2)
    by (simp add: deref_def bso_instance_def delete_obj_def delete_bs_def w1_def)
  have u: "?p (est w1) l' = Inl Undefined_Behaviour" by (rule parse_deleted) (simp add: w1_def psem)
  have c: "models_counter (ev w1) = 1" by (simp add: w1_def)
  show ?thesis
  proof (cases "k1 = 2")
    case True
    then have "skip_models ?p (Some (layout n s)) ctx heads (k1 - 1) rest w1 = Inr (rest, w1)" using c by (intro skip_nothing) simp
    with True s1 r' u c k show ?thesis by simp
  next
    case False
    then have "models_counter (ev w1) < k1 - 1" using c k by simp
    with s1 r' u show ?thesis by simp
  qed
qed

text \<open>
  C3. \<open>DLVEvaluator::solve\<close> when the solver has several answer sets and the input says nothing about
  the context itself. If the first model is among the requested ones, then one message is sent per
  requested model, but all messages carry the same pointer, and its object holds the literals of
  all lines read, not one model. If the first model has to be skipped, the parser's object is deleted and
  then written to.
\<close>

theorem solve_with_several_answer_sets:
  assumes "bso_new n s = Inr bso" and "ctx < n" and "reset_process dlv (Some bso) (ev w) ctx heads btab = Inr (lines, e)"
    and "length lines < SIZE_T" and "good_request (getK1 heads) (getK2 heads)"
    and "wf_bs (n * (s + 1)) (getInputBeliefState heads)" and "\<not> known s (getInputBeliefState heads) ctx"
    and "\<forall>l\<in>set (answer_lines lines). line_proper phrase_parse s btab l" and "1 < length (answer_lines lines)"
    and "N = (if getK2 heads = 0 then length (answer_lines lines) else min (getK2 heads) (length (answer_lines lines)))"
  shows "if getK1 heads \<le> 1 then \<exists>w' b. solve dlv phrase_parse (Some bso) w ctx heads btab = Inr w' \<and>
      eval_out w' = eval_out w @ replicate N (heads, Some (next_addr (est w))) @ [(heads, None)] \<and>
      shared_state phrase_parse bso btab ctx (getInputBeliefState heads) (bs_new_blocks n s False) (take N (answer_lines lines)) = Inr b \<and>
      mem (est w') (next_addr (est w)) = Some b
    else solve dlv phrase_parse (Some bso) w ctx heads btab = Inl Undefined_Behaviour"
proof -
  let ?k1 = "getK1 heads" and ?k2 = "getK2 heads" and ?a = "next_addr (est w)" and ?blank = "bs_new_blocks n s False"
  from assms(1) have bso: "bso = layout n s" by (auto simp: bso_new_layout split: if_splits)
  from assms(3) have e: "e = (ev w)\<lparr>models_counter := 0\<rparr>" by (auto simp: reset_process_def bind_res_eq_Inr Let_def)
  note input = assms(6) [folded block_start_def]
  have blank: "wf_bs (block_start s n) ?blank" "\<not> known s ?blank ctx"
    by (simp_all only: block_start_def wf_bs_new_blocks known_def bs_view_new) simp
  define psem where "psem = \<lparr>m_BTab = btab, m_CtxID = ctx, m_ParsedResult = ?a\<rparr>"
  define w0 where "w0 = w\<lparr>ev := e, est := snd (new_obj (est w) ?blank)\<rparr>"
  have w0: "mem (est w0) ?a = Some ?blank" "models_counter (ev w0) = 0" "eval_out w0 = eval_out w" "w\<lparr>ev := e, est := est w0\<rparr> = w0"
    by (simp_all add: w0_def new_obj_def e)
  have p: "DLVResultParser_t phrase_parse (Some bso) btab ctx (est w) = Inr (parseString phrase_parse (Some bso) psem, est w0)"
    by (simp add: DLVResultParser_t_def DLVResultGrammarSemantics_new_def bso_instance_def new_obj_def w0_def psem_def bso)
  let ?limit = "read_limit heads lines"
  note solve = solve_by_loops [OF assms(3,5) p, unfolded w0(4)]
  have N: "N = min ?limit (length (answer_lines lines))"
  proof -
    have "length (answer_lines lines) \<le> length lines"
      unfolding answer_lines_def by (metis length_filter_le length_takeWhile_le order_trans)
    then show ?thesis using assms(10) by simp
  qed
  show ?thesis
  proof (cases "?k1 \<le> 1")
    case True
    have limit: "?limit < SIZE_T" using assms(4,5) by (auto simp: good_request_def)
    from send_shared [OF input assms(7,2) limit psem_def w0(1) blank assms(8) refl] w0(2) obtain w' b where
      w': "send_models (parseString phrase_parse (Some bso) psem) (Some bso) ctx heads ?limit lines w0 = Inr w'"
      "eval_out w' = eval_out w0 @ replicate (min ?limit (length (answer_lines lines))) (heads, Some ?a)"
      "shared_state phrase_parse bso btab ctx (getInputBeliefState heads) ?blank (take ?limit (answer_lines lines)) = Inr b"
      "mem (est w') ?a = Some b" unfolding bso by auto
    have "solve dlv phrase_parse (Some bso) w ctx heads btab = Inr (w'\<lparr>eval_out := eval_out w' @ [(heads, None)]\<rparr>)"
      unfolding solve using True w'(1) w0(2) by (simp add: skip_nothing)
    moreover have "take N (answer_lines lines) = take ?limit (answer_lines lines)" unfolding N by (simp add: min_def)
    ultimately show ?thesis using True w' w0(3) by (simp add: N)
  next
    case False
    then have k: "1 < ?k1" "?k1 \<le> ?k2" "?k2 \<noteq> 0" using assms(5) by (auto simp: good_request_def)
    obtain l l' ls where al: "answer_lines lines = l # l' # ls"
      using assms(9) by (cases "answer_lines lines"; cases "tl (answer_lines lines)") auto
    have "line_proper phrase_parse s btab l" using assms(8) al by simp
    from skip_shared [OF input assms(2) psem_def w0(1) blank al this w0(2) k(1,2), folded bso] False k show ?thesis
      unfolding solve by simp
  qed
qed

theorem solve_with_several_answer_sets_witness:
  "(\<exists>w' b. solve (\<lambda>options program. [''p'', ''q'']) wit_parse (Some (layout 2 3)) wit_world 1 (wit_heads 1 5) wit_table = Inr w' \<and>
      eval_out w' = [(wit_heads 1 5, Some 0), (wit_heads 1 5, Some 0), (wit_heads 1 5, None)] \<and> mem (est w') 0 = Some b \<and>
      bs_view b 6 = DMCS_TRUE \<and> bs_view b 7 = DMCS_TRUE) \<and>
   solve (\<lambda>options program. [''p'', ''q'']) wit_parse (Some (layout 2 3)) wit_world 1 (wit_heads 2 2) wit_table = Inl Undefined_Behaviour"
proof -
  let ?lines = "[''p'', ''q'']"
  have al: "answer_lines ?lines = ?lines" by (simp add: cost_line_def)
  have 1: "bso_new 2 3 = Inr (layout 2 3)" "(1::nat) < 2" "length ?lines < SIZE_T" by (simp_all add: bso_new_layout SIZE_T_def)
  have wf: "wf_bs (2 * (3 + 1)) (getInputBeliefState (wit_heads k1 k2))" for k1 k2 by (simp only: HeadsPlusBeliefState.simps wf_bs_new_blocks)
  have pr: "\<forall>l\<in>set (answer_lines ?lines). line_proper wit_parse 3 wit_table l" "1 < length (answer_lines ?lines)"
    unfolding al using wit_literals by (simp_all add: line_proper_def)
  have k: "good_request (getK1 (wit_heads 1 5)) (getK2 (wit_heads 1 5))" "good_request (getK1 (wit_heads 2 2)) (getK2 (wit_heads 2 2))"
    by (simp_all add: good_request_def SIZE_T_def)
  have u: "\<not> known 3 (getInputBeliefState (wit_heads k1 k2)) 1" for k1 k2 by (simp add: known_def)
  note several = solve_with_several_answer_sets [OF 1(1,2) wit_process 1(3) _ wf u pr refl]
  from several [OF k(1)] obtain w' b where
    w': "solve (\<lambda>options program. ?lines) wit_parse (Some (layout 2 3)) wit_world 1 (wit_heads 1 5) wit_table = Inr w'"
    "eval_out w' = [(wit_heads 1 5, Some 0), (wit_heads 1 5, Some 0), (wit_heads 1 5, None)]" "mem (est w') 0 = Some b"
    "shared_state wit_parse (layout 2 3) wit_table 1 (bs_new_blocks 2 3 False) (bs_new_blocks 2 3 False) ?lines = Inr b"
    unfolding al by (auto simp: numeral_2_eq_2)
  have "case shared_state wit_parse (layout 2 3) wit_table 1 (bs_new_blocks 2 3 False) (bs_new_blocks 2 3 False) ?lines of
      Inl _ \<Rightarrow> False | Inr b \<Rightarrow> bs_view b 6 = DMCS_TRUE \<and> bs_view b 7 = DMCS_TRUE" by code_simp
  with w'(4) have "bs_view b 6 = DMCS_TRUE" "bs_view b 7 = DMCS_TRUE" by simp_all
  with w' several [OF k(2)] show ?thesis by simp
qed

section \<open>The program\<close>

abbreviation belief_at :: "nat \<Rightarrow> nat \<Rightarrow> nat \<Rightarrow> ID" where
  "belief_at ctx off p \<equiv> \<lparr>kind = MAINKIND_BELIEF OR of_nat ctx, address = of_nat p - of_nat off\<rparr>"

lemma head_texts_scan:
  assumes "wf_bs N h" and "pos = 0 \<or> bs_on h pos"
    and "\<forall>p. bs_on h p \<longrightarrow> bt_getByID btab (belief_at ctx off p) = Inr (f p)"
  shows "head_texts btab ctx off h pos =
    Inr (if pos = 0 then [] else map (\<lambda>p. b_text (f p)) (pos # filter (bs_on h) [Suc pos..<N]))"
  using assms
proof (induction btab ctx off h pos rule: head_texts.induct)
  case (1 btab ctx off h pos)
  show ?case
  proof (cases "pos = 0")
    case False
    with 1(3) have on: "bs_on h pos" by simp
    with 1(4) have b: "bt_getByID btab (belief_at ctx off pos) = Inr (f pos)" by blast
    have sz: "length (status_bit h) = N" using 1(2) by (simp add: wf_bs_iff)
    have "pos < N" using bst.on_lt [OF wf_eq_sized [OF 1(2)] on] sz by simp
    then have g: "getNext h pos = Inr (next_true h pos)" by (rule getNext_wf [OF 1(2)])
    have n: "next_true h pos = 0 \<or> bs_on h (next_true h pos)"
      using bst.nxt_on [OF wf_eq_sized [OF 1(2)], of pos] by blast
    from 1(1) [OF False b g 1(2) n 1(4)] have
      "head_texts btab ctx off h (next_true h pos) = Inr (map (\<lambda>p. b_text (f p)) (filter (bs_on h) [Suc pos..<N]))"
      using bst.positions_unfold [OF wf_eq_sized [OF 1(2)], of pos] sz by simp
    with False b g show ?thesis by (subst head_texts.simps) simp
  qed (simp add: head_texts.simps)
qed

text \<open>
  \<open>DLVEvaluator::reset_process\<close>: the program given to the solver is the local knowledge base
  followed by one fact for each head that holds, in the order of the positions, and nothing else.
\<close>

theorem reset_process_program:
  assumes "bso_new n s = Inr bso" and "ctx < n" and "wf_bs (n * (s + 1)) h" and "getHeads heads = Some h"
    and "\<forall>p. bs_on h p \<longrightarrow> p \<noteq> 0 \<and> bt_getByID btab (belief_at ctx (block_start s ctx) p) = Inr (f p)"
  shows "reset_process dlv (Some bso) e ctx heads btab =
    Inr (dlv ((if includeFacts e then ''-facts'' else ''-nofacts'') # arguments e @ [''--''])
          (local_kb e @ concat (map (\<lambda>p. b_text (f p) @ ''.'' @ [CHR 0x0A]) (filter (bs_on h) [0..<n * (s + 1)]))),
        e\<lparr>models_counter := 0\<rparr>)"
proof -
  let ?N = "n * (s + 1)"
  from assms(1) have bso: "bso = layout n s" by (auto simp: bso_new_layout split: if_splits)
  have "head_texts btab ctx (block_start s ctx) h (getFirst h) =
      Inr (map (\<lambda>p. b_text (f p)) (filter (bs_on h) [0..<?N]))"
  proof (cases "getFirst h = 0")
    case True
    then have "\<forall>j. \<not> bs_on h j" using getFirst_cases [of h] assms(5) by auto
    with True show ?thesis by (simp add: head_texts.simps)
  next
    case False
    then have on: "bs_on h (getFirst h)" "\<forall>j<getFirst h. \<not> bs_on h j" using getFirst_cases [of h] by auto
    have "getFirst h < ?N"
      using bst.on_lt [OF wf_eq_sized [OF assms(3)] on(1)] assms(3) by (simp add: wf_bs_iff)
    then have "filter (bs_on h) [0..<?N] = getFirst h # filter (bs_on h) [Suc (getFirst h)..<?N]"
      using on by (intro filter_upt_split) auto
    with False head_texts_scan [OF assms(3) disjI2 [OF on(1)], of btab ctx "block_start s ctx" f] assms(5)
    show ?thesis by simp
  qed
  then show ?thesis
    using assms(2,4) by (simp add: reset_process_def bso bso_instance_def comp_def)
qed

theorem reset_process_program_witness:
  "reset_process (\<lambda>options program. [program]) (Some (layout 2 3)) (DLVEvaluator_new ''a:-b.'') 1
     \<lparr>getHeads = Some \<lparr>status_bit = [False, False, False, False, False, False, True, False],
        value_bit = [False, False, False, False, False, False, True, False]\<rparr>,
      getK1 = 1, getK2 = 1, getInputBeliefState = bs_new_blocks 2 3 False\<rparr>
     \<lparr>bt_container = [\<lparr>b_address = 2, b_kind = 0x40000001, b_text = ''b''\<rparr>], nextAddress = 0\<rparr> =
   Inr ([''a:-b.'' @ ''b.'' @ [CHR 0x0A]], (DLVEvaluator_new ''a:-b.'')\<lparr>models_counter := 0\<rparr>)"
proof -
  let ?h = "\<lparr>status_bit = [False, False, False, False, False, False, True, False],
        value_bit = [False, False, False, False, False, False, True, False]\<rparr>"
  let ?b = "\<lparr>b_address = 2, b_kind = 0x40000001, b_text = ''b''\<rparr>"
  let ?t = "\<lparr>bt_container = [?b], nextAddress = 0\<rparr>"
  have 1: "bso_new 2 3 = Inr (layout 2 3)" by (simp add: bso_new_layout)
  have wf: "wf_bs (2 * (3 + 1)) ?h" by (simp add: wf_bs_def)
  have on: "bs_on ?h p \<longleftrightarrow> p = 6" for p
    by (auto simp: bs_on_bits get_bit_def nth_Cons' split: if_splits)
  have b: "bt_getByID ?t (belief_at 1 (block_start 3 1) 6) = Inr ?b"
    by (simp add: bt_getByID_def isBelief_def kind_consts block_start_def)
  have f: "filter (bs_on ?h) [0..<2 * (3 + 1)] = [6]" by (simp add: on upt_rec)
  have "\<forall>p. bs_on ?h p \<longrightarrow> p \<noteq> 0 \<and> bt_getByID ?t (belief_at 1 (block_start 3 1) p) = Inr ?b"
    using b by (simp add: on)
  from reset_process_program [OF 1 _ wf _ this, where e = "DLVEvaluator_new ''a:-b.''" and dlv = "\<lambda>options program. [program]"]
  show ?thesis unfolding f by (simp add: DLVEvaluator_new_def)
qed

end
