(* ===== verification/Guessing.thy ===== *)
theory Guessing
  imports Belief_Combine
begin

text \<open>
  Guessing the beliefs of neighbors (\<open>NewContext::next_guess\<close> and \<open>NewContext::jump_guess\<close> in
  \<open>src/mcs/NewContext.cpp\<close>). The guessing input marks the beliefs to guess; a guess gives each of
  them a truth value and is advanced like a binary counter, lowest position first.
\<close>

section \<open>Definitions\<close>

text \<open>
  The inner loop of \<open>next_guess\<close>, which sets the beliefs before \<open>bit\<close> to false; the number of rounds
  is bounded by the number of positions.
\<close>

fun reset_before :: "nat \<Rightarrow> nat \<Rightarrow> NewBeliefState \<Rightarrow> NewBeliefState \<Rightarrow> nat \<Rightarrow> nat \<Rightarrow> NewBeliefState res" where
  "reset_before 0 s guessing_input current_guess previous_bit b = Inl Out_Of_Fuel"
| "reset_before (Suc fuel) s guessing_input current_guess previous_bit b =
     (if previous_bit < b then
        bind_res (if previous_bit mod (s + 1) \<noteq> 0 then bs_set current_guess previous_bit DMCS_FALSE
                  else Inr current_guess) (\<lambda>current_guess.
        bind_res (getNext guessing_input previous_bit) (\<lambda>previous_bit.
          reset_before fuel s guessing_input current_guess previous_bit b))
      else Inr current_guess)"

function next_guess_loop :: "nat \<Rightarrow> NewBeliefState \<Rightarrow> NewBeliefState \<Rightarrow> nat \<Rightarrow> nat \<Rightarrow> NewBeliefState option res" where
  "next_guess_loop s guessing_input current_guess first_bit_set b =
     bind_res (getNext guessing_input b) (\<lambda>b'.
       if b' = 0 then Inr None
       else if b' mod (s + 1) \<noteq> 0 then
         bind_res (bs_test current_guess b') (\<lambda>v.
           if v = DMCS_FALSE then
             bind_res (bs_set current_guess b' DMCS_TRUE) (\<lambda>current_guess.
             bind_res (getNext guessing_input first_bit_set) (\<lambda>previous_bit.
             bind_res (reset_before (Suc (bv_size (status_bit guessing_input))) s guessing_input current_guess previous_bit b')
               (\<lambda>current_guess. Inr (Some current_guess))))
           else next_guess_loop s guessing_input current_guess first_bit_set b')
       else next_guess_loop s guessing_input current_guess first_bit_set b')"
  by pat_completeness auto
termination
  by (relation "measure (\<lambda>(s, g, c, f, b). length (status_bit g) - b)")
    (auto dest!: getNext_increases)

declare next_guess_loop.simps [simp del]

definition next_guess :: "BeliefStateOffset option \<Rightarrow> NewBeliefState \<Rightarrow> NewBeliefState \<Rightarrow> NewBeliefState option res" where
  "next_guess inst current_guess guessing_input =
     bind_res (bso_instance inst) (\<lambda>bso.
       let s = bso_size_belief_state bso; first_bit_set = getFirst guessing_input
       in assertion (first_bit_set mod (s + 1) = 0)
          (next_guess_loop s guessing_input current_guess first_bit_set first_bit_set))"

fun bin_step :: "nat \<Rightarrow> bool list" where
  "bin_step step = (if step = 0 then [] else (step mod 2 = 1) # bin_step (step div 2))"

declare bin_step.simps [simp del]

text \<open>The first loop of \<open>jump_guess\<close>; the result is the guess, the digits that are left, and the last position.\<close>

function jump_loop :: "nat \<Rightarrow> NewBeliefState \<Rightarrow> NewBeliefState \<Rightarrow> bool list \<Rightarrow> nat \<Rightarrow> (NewBeliefState \<times> bool list \<times> nat) res" where
  "jump_loop s guessing_input guess it b =
     bind_res (getNext guessing_input b) (\<lambda>b'.
       if b' = 0 then Inr (guess, it, 0)
       else if b' mod (s + 1) \<noteq> 0 then
         (case it of [] \<Rightarrow> Inl Undefined_Behaviour
          | d # it \<Rightarrow> bind_res (bs_set guess b' (if d then DMCS_TRUE else DMCS_FALSE)) (\<lambda>guess.
              if it = [] then Inr (guess, [], b') else jump_loop s guessing_input guess it b'))
       else jump_loop s guessing_input guess it b')"
  by pat_completeness auto
termination
  by (relation "measure (\<lambda>(s, g, c, it, b). length (status_bit g) - b)")
    (auto dest!: getNext_increases)

function clear_loop :: "nat \<Rightarrow> NewBeliefState \<Rightarrow> NewBeliefState \<Rightarrow> nat \<Rightarrow> NewBeliefState res" where
  "clear_loop s guessing_input guess b =
     (if b = 0 then Inr guess
      else bind_res (getNext guessing_input b) (\<lambda>b'.
        bind_res (if b' mod (s + 1) \<noteq> 0 then bs_set guess b' DMCS_FALSE else Inr guess) (\<lambda>guess.
          clear_loop s guessing_input guess b')))"
  by pat_completeness auto
termination
  by (relation "measure (\<lambda>(s, g, c, b). if b = 0 then 0 else Suc (length (status_bit g) - b))")
    (auto dest: getNext_increases)

declare jump_loop.simps [simp del] clear_loop.simps [simp del]

definition jump_guess :: "BeliefStateOffset option \<Rightarrow> NewBeliefState \<Rightarrow> NewBeliefState \<Rightarrow> nat \<Rightarrow> NewBeliefState option res" where
  "jump_guess inst starting_guess guessing_input step =
     bind_res (bso_instance inst) (\<lambda>bso.
       let s = bso_size_belief_state bso
       in if step = 0 then Inr (Some starting_guess)
          else let first_bit_set = getFirst guessing_input
            in assertion (first_bit_set mod (s + 1) = 0)
               (bind_res (jump_loop s guessing_input starting_guess (bin_step step) first_bit_set) (\<lambda>(guess, it, b).
                bind_res (clear_loop s guessing_input guess b) (\<lambda>guess.
                  Inr (if it \<noteq> [] then None else Some guess)))))"

section \<open>Guesses as numbers\<close>

text \<open>The truth values that guess number \<open>k\<close> gives to the positions \<open>ps\<close>.\<close>

fun guess_view :: "nat list \<Rightarrow> nat \<Rightarrow> (nat \<Rightarrow> TruthVal) \<Rightarrow> nat \<Rightarrow> TruthVal" where
  "guess_view [] k v = v"
| "guess_view (p # ps) k v = (guess_view ps (k div 2) v)(p := if odd k then DMCS_TRUE else DMCS_FALSE)"

fun all_false :: "nat list \<Rightarrow> (nat \<Rightarrow> TruthVal) \<Rightarrow> nat \<Rightarrow> TruthVal" where
  "all_false [] v = v"
| "all_false (p # ps) v = (all_false ps v)(p := DMCS_FALSE)"

lemma guess_view_outside: "p \<notin> set ps \<Longrightarrow> guess_view ps k v p = v p"
  by (induction ps k v rule: guess_view.induct) auto

lemma all_false_eq: "all_false ps v p = (if p \<in> set ps then DMCS_FALSE else v p)"
  by (induction ps v rule: all_false.induct) auto

text \<open>The successor of a guess: the first false position becomes true, those before it false.\<close>

lemma guess_view_Suc:
  assumes "distinct ps" and "k < 2 ^ length ps"
  shows "case dropWhile (\<lambda>p. guess_view ps k v p \<noteq> DMCS_FALSE) ps of
      [] \<Rightarrow> Suc k = 2 ^ length ps
    | p # qs \<Rightarrow> Suc k < 2 ^ length ps \<and> guess_view ps (Suc k) v =
        (all_false (takeWhile (\<lambda>p. guess_view ps k v p \<noteq> DMCS_FALSE) ps) (guess_view ps k v))(p := DMCS_TRUE)"
  using assms
proof (induction ps arbitrary: k)
  case (Cons p ps)
  note prems = Cons.prems
  then have p: "p \<notin> set ps" by simp
  show ?case
  proof (cases "odd k")
    case False
    then show ?thesis using prems by (auto simp: even_Suc_div_two elim!: evenE) 
  next
    case True
    let ?k = "k div 2" and ?v = "guess_view ps (k div 2) v"
    have dw: "dropWhile (\<lambda>q. guess_view (p # ps) k v q \<noteq> DMCS_FALSE) (p # ps) =
        dropWhile (\<lambda>q. ?v q \<noteq> DMCS_FALSE) ps"
      using True p by (auto intro!: dropWhile_cong)
    have tw: "takeWhile (\<lambda>q. guess_view (p # ps) k v q \<noteq> DMCS_FALSE) (p # ps) =
        p # takeWhile (\<lambda>q. ?v q \<noteq> DMCS_FALSE) ps"
      using True p by (auto intro!: takeWhile_cong)
    have k: "?k < 2 ^ length ps" "k = Suc (2 * ?k)" using prems True by (auto elim!: oddE)
    note IH = Cons.IH [OF _ k(1)]
    show ?thesis
    proof (cases "dropWhile (\<lambda>q. ?v q \<noteq> DMCS_FALSE) ps")
      case Nil
      with IH prems have "Suc ?k = 2 ^ length ps" by simp
      then show ?thesis unfolding dw Nil using k(2) by simp
    next
      case (Cons q qs)
      with IH prems have s: "Suc ?k < 2 ^ length ps"
        "guess_view ps (Suc ?k) v = (all_false (takeWhile (\<lambda>q. ?v q \<noteq> DMCS_FALSE) ps) ?v)(q := DMCS_TRUE)" by simp_all
      have "q \<in> set ps" using Cons by (metis list.set_intros(1) set_dropWhileD)
      then have "q \<noteq> p" using p by auto
      moreover have "Suc k div 2 = Suc ?k" "even (Suc k)" using True by auto
      ultimately show ?thesis unfolding dw tw Cons using s k(2)
        by (auto simp: fun_eq_iff all_false_eq)
    qed
  qed
qed simp

section \<open>The loops\<close>

definition guess_positions :: "nat \<Rightarrow> NewBeliefState \<Rightarrow> nat \<Rightarrow> nat list" where
  "guess_positions s g b = filter (\<lambda>p. p mod (s + 1) \<noteq> 0) (filter (bs_on g) [Suc b..<length (status_bit g)])"

lemma guess_positions_unfold:
  assumes "wf_bs N g"
  shows "guess_positions s g b = (if next_true g b = 0 then []
    else if next_true g b mod (s + 1) \<noteq> 0 then next_true g b # guess_positions s g (next_true g b)
    else guess_positions s g (next_true g b))"
  unfolding guess_positions_def bst.positions_unfold [OF wf_eq_sized [OF assms], of b] by simp

lemma guess_positions_sorted: "sorted_wrt (<) (guess_positions s g b)"
  unfolding guess_positions_def by (intro sorted_wrt_filter sorted_wrt_upt)

lemma guess_positions_distinct: "distinct (guess_positions s g b)"
  by (simp add: guess_positions_def)

lemma in_guess_positions:
  "wf_bs N g \<Longrightarrow> p \<in> set (guess_positions s g b) \<longleftrightarrow> bs_on g p \<and> b < p \<and> p mod (s + 1) \<noteq> 0"
  using bst.on_lt [of g p] by (auto simp: guess_positions_def Suc_le_eq)

lemma reset_before_view:
  assumes g: "wf_bs N g" and "wf_bs N cur" and b: "b < N" "bs_on g b" and "p \<le> b" and "bs_on g p" and "N - p < fuel"
  shows "\<exists>c. reset_before fuel s g cur p b = Inr c \<and> wf_bs N c \<and>
    (\<forall>q. bs_view c q = (if bs_on g q \<and> p \<le> q \<and> q < b \<and> q mod (s + 1) \<noteq> 0 then DMCS_FALSE else bs_view cur q))"
  using assms(2,5-7)
proof (induction fuel arbitrary: cur p)
  case (Suc fuel)
  show ?case
  proof (cases "p < b")
    case False
    with Suc.prems show ?thesis by auto
  next
    case True
    then have p: "p < N" using b by simp
    let ?n = "next_true g p"
    have n: "?n \<noteq> 0" "?n \<le> b" using bst.nxt_least [OF wf_eq_sized [OF g] True b(2)] by auto
    have n': "p < ?n" "bs_on g ?n" using bst.nxt_on [OF wf_eq_sized [OF g] n(1)] by auto
    have gap: "q \<le> p \<or> ?n \<le> q" if "bs_on g q" for q
      using bst.nxt_least [OF wf_eq_sized [OF g], of p q] that by (meson not_le)
    obtain x where x: "bs_set cur p DMCS_FALSE = Inr x" "wf_bs N x" "bs_view x = (bs_view cur)(p := DMCS_FALSE)"
      by (rule bs_set_wf [OF Suc.prems(1) p])
    define c1 where "c1 = (if p mod (s + 1) \<noteq> 0 then x else cur)"
    have c1: "(if p mod (s + 1) \<noteq> 0 then bs_set cur p DMCS_FALSE else Inr cur) = Inr c1" "wf_bs N c1"
      "bs_view c1 = (if p mod (s + 1) \<noteq> 0 then (bs_view cur)(p := DMCS_FALSE) else bs_view cur)"
      using x Suc.prems(1) by (simp_all add: c1_def)
    have "N - ?n < fuel" using Suc.prems(4) n'(1) p by simp
    from Suc.IH [OF c1(2) n(2) n'(2) this] obtain c where c: "reset_before fuel s g c1 ?n b = Inr c" "wf_bs N c"
      "\<forall>q. bs_view c q = (if bs_on g q \<and> ?n \<le> q \<and> q < b \<and> q mod (s + 1) \<noteq> 0 then DMCS_FALSE else bs_view c1 q)" by blast
    have "reset_before (Suc fuel) s g cur p b = Inr c"
      using True c1(1) getNext_wf [OF g p] c(1) by simp
    moreover have "bs_view c q = (if bs_on g q \<and> p \<le> q \<and> q < b \<and> q mod (s + 1) \<noteq> 0 then DMCS_FALSE else bs_view cur q)" for q
      using c(3) c1(3) gap [of q] n'(1) True Suc.prems(3) by (cases "q = p") auto
    ultimately show ?thesis using c(2) by blast
  qed
qed simp

lemma next_guess_loop_view:
  assumes "wf_bs N g" and "wf_bs N cur" and "f \<le> b" and "b < N"
  shows "case dropWhile (\<lambda>p. bs_view cur p \<noteq> DMCS_FALSE) (guess_positions s g b) of
      [] \<Rightarrow> next_guess_loop s g cur f b = Inr None
    | p # qs \<Rightarrow> (\<exists>c. next_guess_loop s g cur f b = Inr (Some c) \<and> wf_bs N c \<and>
        bs_view c = (\<lambda>q. if q = p then DMCS_TRUE
          else if q \<in> set (guess_positions s g f) \<and> q < p then DMCS_FALSE else bs_view cur q))"
  using assms
proof (induction s g cur f b rule: next_guess_loop.induct)
  case (1 s g cur f b)
  note g = 1(3) and cur = 1(4)
  let ?n = "next_true g b"
  have nx: "getNext g b = Inr ?n" by (rule getNext_wf [OF g 1(6)])
  show ?case
  proof (cases "?n = 0")
    case True
    then show ?thesis using nx by (simp add: guess_positions_unfold [OF g, of s b] next_guess_loop.simps)
  next
    case False
    have n: "b < ?n" "bs_on g ?n" "?n < N"
      using bst.nxt_on [OF wf_eq_sized [OF g] False] next_true_increases [OF False] g by (auto simp: wf_bs_iff)
    have t: "bs_test cur ?n = Inr (bs_view cur ?n)" using bs_test_wf [OF cur] n(3) by simp
    have fn: "f \<le> ?n" using 1(5) n(1) by simp
    consider "?n mod (s + 1) = 0" | "?n mod (s + 1) \<noteq> 0" "bs_view cur ?n \<noteq> DMCS_FALSE"
      | "?n mod (s + 1) \<noteq> 0" "bs_view cur ?n = DMCS_FALSE" by blast
    then show ?thesis
    proof cases
      case 1
      then have e: "next_guess_loop s g cur f b = next_guess_loop s g cur f ?n"
        using nx False by (subst next_guess_loop.simps) simp
      have "guess_positions s g b = guess_positions s g ?n"
        using 1 False guess_positions_unfold [OF g, of s b] by simp
      with "1.IH"(2) [OF nx False _ g cur fn n(3)] 1 show ?thesis unfolding e by simp
    next
      case 2
      then have e: "next_guess_loop s g cur f b = next_guess_loop s g cur f ?n"
        using nx False t by (subst next_guess_loop.simps) simp
      have "dropWhile (\<lambda>p. bs_view cur p \<noteq> DMCS_FALSE) (guess_positions s g b) =
          dropWhile (\<lambda>p. bs_view cur p \<noteq> DMCS_FALSE) (guess_positions s g ?n)"
        using 2 False guess_positions_unfold [OF g, of s b] by simp
      with "1.IH"(1) [OF nx False 2(1) t 2(2) g cur fn n(3)] show ?thesis unfolding e by simp
    next
      case 3
      obtain c1 where c1: "bs_set cur ?n DMCS_TRUE = Inr c1" "wf_bs N c1" "bs_view c1 = (bs_view cur)(?n := DMCS_TRUE)"
        by (rule bs_set_wf [OF cur n(3)])
      let ?p = "next_true g f"
      have fN: "f < N" and fltn: "f < ?n" using fn n 1(5) by simp_all
      have p: "?p \<noteq> 0" "?p \<le> ?n" using bst.nxt_least [OF wf_eq_sized [OF g] fltn n(2)] by auto
      have p': "f < ?p" "bs_on g ?p" using bst.nxt_on [OF wf_eq_sized [OF g] p(1)] by auto
      have gap: "f < q \<longleftrightarrow> ?p \<le> q" if "bs_on g q" for q
        using bst.nxt_least [OF wf_eq_sized [OF g], of f q] that p' by (metis le_less_trans less_le_trans not_le)
      have sz: "bv_size (status_bit g) = N" using g by (simp add: bv_size_def wf_bs_iff)
      have "N - ?p < Suc N" by simp
      from reset_before_view [OF g c1(2) n(3,2) p(2) p'(2) this, of s] obtain c where
        c: "reset_before (Suc N) s g c1 ?p ?n = Inr c" "wf_bs N c"
        "\<forall>q. bs_view c q = (if bs_on g q \<and> ?p \<le> q \<and> q < ?n \<and> q mod (s + 1) \<noteq> 0 then DMCS_FALSE else bs_view c1 q)" by blast
      have "next_guess_loop s g cur f b = Inr (Some c)"
        using nx False t 3 c1(1) c(1) sz getNext_wf [OF g fN] by (subst next_guess_loop.simps) simp
      moreover have "bs_view c = (\<lambda>q. if q = ?n then DMCS_TRUE
          else if q \<in> set (guess_positions s g f) \<and> q < ?n then DMCS_FALSE else bs_view cur q)"
        using c(3) c1(3) gap by (auto simp: fun_eq_iff in_guess_positions [OF g])
      ultimately show ?thesis
        unfolding guess_positions_unfold [OF g, of s b] using False 3 c(2) by simp
    qed
  qed
qed

lemma sorted_before:
  assumes "sorted_wrt (<) (xs @ p # ys)"
  shows "set xs = {q \<in> set (xs @ p # ys). q < (p :: nat)}"
proof -
  have "\<forall>q\<in>set xs. q < p" "\<forall>q\<in>set ys. p < q" using assms by (simp_all add: sorted_wrt_append)
  then show ?thesis by fastforce
qed

text \<open>One call of \<open>next_guess\<close> takes guess number \<open>k\<close> to number \<open>k + 1\<close>.\<close>

lemma next_guess_number:
  assumes g: "wf_bs (block_start s n) g" and cur: "wf_bs (block_start s n) cur" and n: "0 < n"
    and f: "getFirst g mod (s + 1) = 0" and ps: "ps = guess_positions s g (getFirst g)"
    and k: "k < 2 ^ length ps" and v: "bs_view cur = guess_view ps k v0"
  shows "if Suc k < 2 ^ length ps
    then \<exists>c. next_guess (Some (layout n s)) cur g = Inr (Some c) \<and> wf_bs (block_start s n) c \<and>
           bs_view c = guess_view ps (Suc k) v0
    else next_guess (Some (layout n s)) cur g = Inr None"
proof -
  let ?N = "block_start s n" and ?f = "getFirst g" and ?P = "\<lambda>p. bs_view cur p \<noteq> DMCS_FALSE"
  have fN: "?f < ?N"
    using getFirst_cases [of g] bst.on_lt [OF wf_eq_sized [OF g], of ?f] g n block_start_less [of s 0 n]
    by (auto simp: wf_bs_iff)
  have ng: "next_guess (Some (layout n s)) cur g = next_guess_loop s g cur ?f ?f"
    using f by (simp add: next_guess_def bso_instance_def Let_def)
  note loop = next_guess_loop_view [OF g cur order_refl fN, of s, folded ps]
  have dist: "distinct ps" by (simp add: ps guess_positions_distinct)
  note suc = guess_view_Suc [OF dist k, of v0, folded v]
  show ?thesis
  proof (cases "dropWhile ?P ps")
    case Nil
    with loop suc ng show ?thesis by simp
  next
    case (Cons p qs)
    have split: "ps = takeWhile ?P ps @ p # qs" using Cons by (metis takeWhile_dropWhile_id)
    have sorted: "sorted_wrt (<) (takeWhile ?P ps @ p # qs)"
      using guess_positions_sorted [of s g ?f] split ps by simp
    have "q \<in> set (takeWhile ?P ps) \<longleftrightarrow> q \<in> set ps \<and> q < p" for q
      using sorted_before [OF sorted] unfolding split [symmetric] by blast
    then have "(all_false (takeWhile ?P ps) (bs_view cur))(p := DMCS_TRUE) =
        (\<lambda>q. if q = p then DMCS_TRUE else if q \<in> set ps \<and> q < p then DMCS_FALSE else bs_view cur q)"
      by (auto simp: fun_eq_iff all_false_eq)
    with loop suc ng Cons show ?thesis by auto
  qed
qed

section \<open>Jumping to a guess\<close>

lemma guess_view_0: "guess_view ps 0 v = all_false ps v"
  by (induction ps) auto

text \<open>At a position of a guess, the values underneath do not matter.\<close>

lemma guess_view_covers: "p \<in> set ps \<Longrightarrow> guess_view ps k v p = guess_view ps k v' p"
  by (induction ps arbitrary: k) auto

lemma guess_view_upd: "p \<notin> set ps \<Longrightarrow> guess_view ps k (v(p := x)) = (guess_view ps k v)(p := x)"
  by (induction ps k v rule: guess_view.induct) (auto simp: fun_upd_twist)

lemma clear_loop_view:
  assumes "wf_bs N g" and "wf_bs N cur" and "b < N"
  shows "\<exists>c. clear_loop s g cur b = Inr c \<and> wf_bs N c \<and>
    (0 < b \<longrightarrow> bs_view c = all_false (guess_positions s g b) (bs_view cur)) \<and> (b = 0 \<longrightarrow> c = cur)"
  using assms
proof (induction s g cur b rule: clear_loop.induct)
  case (1 s g cur b)
  note g = 1(2) and cur = 1(3)
  let ?n = "next_true g b"
  show ?case
  proof (cases "b = 0")
    case True
    with cur show ?thesis by (simp add: clear_loop.simps)
  next
    case b: False
    have nx: "getNext g b = Inr ?n" by (rule getNext_wf [OF g 1(4)])
    have nN: "?n < N" using next_true_increases [of g b] g 1(4) by (cases "?n = 0") (auto simp: wf_bs_iff)
    obtain x where x: "bs_set cur ?n DMCS_FALSE = Inr x" "wf_bs N x" "bs_view x = (bs_view cur)(?n := DMCS_FALSE)"
      by (rule bs_set_wf [OF cur nN])
    define c1 where "c1 = (if ?n mod (s + 1) \<noteq> 0 then x else cur)"
    have c1: "(if ?n mod (s + 1) \<noteq> 0 then bs_set cur ?n DMCS_FALSE else Inr cur) = Inr c1" "wf_bs N c1"
      using x cur by (simp_all add: c1_def)
    obtain c where c: "clear_loop s g c1 ?n = Inr c" "wf_bs N c"
      "0 < ?n \<longrightarrow> bs_view c = all_false (guess_positions s g ?n) (bs_view c1)" "?n = 0 \<longrightarrow> c = c1"
      using 1(1) [OF b nx c1(1) g c1(2) nN] by (elim exE conjE)
    have "clear_loop s g cur b = Inr c" using b nx c1(1) c(1) by (subst clear_loop.simps) simp
    moreover have "bs_view c = all_false (guess_positions s g b) (bs_view cur)"
    proof (cases "?n = 0")
      case True
      then show ?thesis using c(4) guess_positions_unfold [OF g, of s b] by (simp add: c1_def)
    next
      case False
      then show ?thesis using c(3) guess_positions_unfold [OF g, of s b] x(3)
        by (auto simp: c1_def fun_eq_iff all_false_eq)
    qed
    ultimately show ?thesis using c(2) b by blast
  qed
qed

lemma bin_step_0 [simp]: "bin_step 0 = []"
  by (simp add: bin_step.simps)

lemma bin_step_pos: "0 < k \<Longrightarrow> bin_step k = odd k # bin_step (k div 2)"
  by (subst bin_step.simps) (simp add: odd_iff_mod_2_eq_one)

lemma bin_step_Nil [simp]: "bin_step k = [] \<longleftrightarrow> k = 0"
  by (cases "k = 0") (simp_all add: bin_step_pos)

lemma jump_loop_view:
  assumes "wf_bs N g" and "wf_bs N cur" and "b < N" and "0 < k" and "it = bin_step k"
  shows "if k < 2 ^ length (guess_positions s g b)
    then \<exists>c b'. jump_loop s g cur it b = Inr (c, [], b') \<and> 0 < b' \<and> b' < N \<and> wf_bs N c \<and>
           all_false (guess_positions s g b') (bs_view c) = guess_view (guess_positions s g b) k (bs_view cur)
    else \<exists>c it'. jump_loop s g cur it b = Inr (c, it', 0) \<and> it' \<noteq> [] \<and> wf_bs N c"
  using assms
proof (induction s g cur it b arbitrary: k rule: jump_loop.induct)
  case (1 s g cur it b)
  note g = 1(3) and cur = 1(4) and k = 1(6) and it = 1(7)
  let ?n = "next_true g b"
  have nx: "getNext g b = Inr ?n" by (rule getNext_wf [OF g 1(5)])
  note gp = guess_positions_unfold [OF g, of s b]
  show ?case
  proof (cases "?n = 0")
    case True
    then have "guess_positions s g b = []" "jump_loop s g cur it b = Inr (cur, it, 0)"
      using gp nx by (simp_all add: jump_loop.simps)
    with k it cur show ?thesis by simp
  next
    case False
    have n: "b < ?n" "?n < N" using next_true_increases [OF False] g by (auto simp: wf_bs_iff)
    show ?thesis
    proof (cases "?n mod (s + 1) = 0")
      case True
      then have e: "jump_loop s g cur it b = jump_loop s g cur it ?n"
        using nx False by (subst jump_loop.simps) simp
      have gp': "guess_positions s g b = guess_positions s g ?n" using gp True False by simp
      show ?thesis unfolding e gp' using "1.IH"(2) [OF nx False _ g cur n(2) k it] True by simp
    next
      case m: False
      let ?d = "if odd k then DMCS_TRUE else DMCS_FALSE"
      obtain x where x: "bs_set cur ?n ?d = Inr x" "wf_bs N x" "bs_view x = (bs_view cur)(?n := ?d)"
        by (rule bs_set_wf [OF cur n(2)])
      have gp': "guess_positions s g b = ?n # guess_positions s g ?n" using gp m False by simp
      have nin: "?n \<notin> set (guess_positions s g ?n)" by (simp add: guess_positions_def)
      have it': "it = odd k # bin_step (k div 2)" using it k by (simp add: bin_step_pos)
      show ?thesis
      proof (cases "k div 2 = 0")
        case True
        then have k1: "k = 1" using k by simp
        then have "jump_loop s g cur it b = Inr (x, [], ?n)"
          using nx False m it' x(1) by (subst jump_loop.simps) simp
        moreover have "(all_false (guess_positions s g ?n) (bs_view x)) = guess_view (guess_positions s g b) k (bs_view cur)"
          using nin x(3) k1 by (simp add: gp' guess_view_0 fun_eq_iff all_false_eq)
        moreover have "1 < (2 :: nat) ^ Suc (length (guess_positions s g ?n))" by (rule one_less_power) simp_all
        then have "k < 2 ^ length (guess_positions s g b)" using k1 by (simp add: gp')
        ultimately show ?thesis using False n(2) x(2) by auto
      next
        case k2: False
        have e: "jump_loop s g cur it b = jump_loop s g x (bin_step (k div 2)) ?n"
          using nx False m it' x(1) k2 by (subst jump_loop.simps) simp
        have lt: "k < 2 ^ length (guess_positions s g b) \<longleftrightarrow> k div 2 < 2 ^ length (guess_positions s g ?n)"
          by (auto simp: gp')
        have gv: "guess_view (guess_positions s g b) k (bs_view cur) =
            guess_view (guess_positions s g ?n) (k div 2) (bs_view x)"
          using nin by (simp add: gp' x(3) guess_view_upd)
        have "bin_step (k div 2) \<noteq> []" "0 < k div 2" using k2 by simp_all
        from "1.IH"(1) [OF nx False m it' x(1) this(1) g x(2) n(2) this(2) refl]
        show ?thesis unfolding e lt gv by simp
      qed
    qed
  qed
qed

lemma jump_guess_number:
  assumes g: "wf_bs (block_start s n) g" and sg: "wf_bs (block_start s n) sg" and n: "0 < n"
    and f: "getFirst g mod (s + 1) = 0" and ps: "ps = guess_positions s g (getFirst g)"
    and v: "bs_view sg = guess_view ps 0 v0"
  shows "if k < 2 ^ length ps
    then \<exists>c. jump_guess (Some (layout n s)) sg g k = Inr (Some c) \<and> wf_bs (block_start s n) c \<and>
           bs_view c = guess_view ps k v0
    else jump_guess (Some (layout n s)) sg g k = Inr None"
proof (cases "k = 0")
  case True
  with sg v show ?thesis by (simp add: jump_guess_def bso_instance_def)
next
  case False
  let ?N = "block_start s n" and ?f = "getFirst g"
  have fN: "?f < ?N"
    using getFirst_cases [of g] bst.on_lt [OF wf_eq_sized [OF g], of ?f] g n block_start_less [of s 0 n]
    by (auto simp: wf_bs_iff)
  have jg: "jump_guess (Some (layout n s)) sg g k = bind_res (jump_loop s g sg (bin_step k) ?f) (\<lambda>(guess, it, b).
      bind_res (clear_loop s g guess b) (\<lambda>guess. Inr (if it \<noteq> [] then None else Some guess)))"
    using f False by (simp add: jump_guess_def bso_instance_def Let_def)
  have gv: "guess_view ps k (bs_view sg) = guess_view ps k v0"
    unfolding v using guess_view_covers guess_view_outside by (metis ext)
  note loop = jump_loop_view [OF g sg fN _ refl, of k s, folded ps]
  show ?thesis
  proof (cases "k < 2 ^ length ps")
    case True
    with loop False obtain c b where c: "jump_loop s g sg (bin_step k) ?f = Inr (c, [], b)" "0 < b" "b < ?N" "wf_bs ?N c"
      "all_false (guess_positions s g b) (bs_view c) = guess_view ps k (bs_view sg)" by auto
    from clear_loop_view [OF g c(4,3), of s] c(2) obtain d where "clear_loop s g c b = Inr d" "wf_bs ?N d"
      "bs_view d = all_false (guess_positions s g b) (bs_view c)" by auto
    with c True jg gv show ?thesis by auto
  next
    case no: False
    with loop False obtain c it where c: "jump_loop s g sg (bin_step k) ?f = Inr (c, it, 0)" "it \<noteq> []" "wf_bs ?N c" by auto
    have "0 < ?N" using fN by simp
    with clear_loop_view [OF g c(3), of 0 s] c jg no show ?thesis by auto
  qed
qed

section \<open>All guesses\<close>

text \<open>Calling \<open>next_guess\<close> \<open>k\<close> times, until it returns a null pointer.\<close>

fun iterate_guess :: "BeliefStateOffset option \<Rightarrow> NewBeliefState \<Rightarrow> nat \<Rightarrow> NewBeliefState \<Rightarrow> NewBeliefState option res" where
  "iterate_guess inst g 0 c = Inr (Some c)"
| "iterate_guess inst g (Suc k) c = bind_res (iterate_guess inst g k c) (\<lambda>r. case r of None \<Rightarrow> Inr None
     | Some c \<Rightarrow> next_guess inst c g)"

text \<open>What \<open>init\<close> establishes: the positions of the guessing input are false in the starting guess.\<close>

definition guess_start :: "nat \<Rightarrow> nat \<Rightarrow> NewBeliefState \<Rightarrow> NewBeliefState \<Rightarrow> bool" where
  "guess_start n s g sg \<longleftrightarrow> 0 < n \<and> wf_bs (block_start s n) g \<and> wf_bs (block_start s n) sg \<and> getFirst g mod (s + 1) = 0 \<and>
     (\<forall>p\<in>set (guess_positions s g (getFirst g)). bs_view sg p = DMCS_FALSE)"

lemma guess_start_view: "guess_start n s g sg \<Longrightarrow> bs_view sg = guess_view (guess_positions s g (getFirst g)) 0 (bs_view sg)"
  by (auto simp: guess_start_def guess_view_0 all_false_eq fun_eq_iff)

lemma iterate_guess_number:
  assumes "guess_start n s g sg" and ps: "ps = guess_positions s g (getFirst g)"
  shows "if k < 2 ^ length ps
    then \<exists>c. iterate_guess (Some (layout n s)) g k sg = Inr (Some c) \<and> wf_bs (block_start s n) c \<and>
           bs_view c = guess_view ps k (bs_view sg)
    else iterate_guess (Some (layout n s)) g k sg = Inr None"
proof (induction k)
  case 0
  from assms guess_start_view [OF assms(1)] show ?case by (auto simp: guess_start_def)
next
  case (Suc k)
  show ?case
  proof (cases "k < 2 ^ length ps")
    case True
    with Suc obtain c where c: "iterate_guess (Some (layout n s)) g k sg = Inr (Some c)" "wf_bs (block_start s n) c"
      "bs_view c = guess_view ps k (bs_view sg)" by auto
    from assms(1) have "wf_bs (block_start s n) g" "0 < n" "getFirst g mod (s + 1) = 0" by (simp_all add: guess_start_def)
    from next_guess_number [OF this(1) c(2) this(2,3) ps True c(3)] c(1) show ?thesis by simp
  qed (use Suc in simp)
qed

lemma jump_guess_iterates:
  assumes "guess_start n s g sg"
  shows "jump_guess (Some (layout n s)) sg g k = iterate_guess (Some (layout n s)) g k sg"
proof -
  from assms have w: "wf_bs (block_start s n) g" "wf_bs (block_start s n) sg" "0 < n" "getFirst g mod (s + 1) = 0"
    by (simp_all add: guess_start_def)
  note j = jump_guess_number [OF w refl guess_start_view [OF assms], of k]
  note i = iterate_guess_number [OF assms refl, of k]
  show ?thesis
  proof (cases "k < 2 ^ length (guess_positions s g (getFirst g))")
    case True
    with i j obtain c d where "jump_guess (Some (layout n s)) sg g k = Inr (Some c)" "wf_bs (block_start s n) c"
      "iterate_guess (Some (layout n s)) g k sg = Inr (Some d)" "wf_bs (block_start s n) d"
      "bs_view c = bs_view d" by auto
    with bs_ext [of "block_start s n" c d] show ?thesis by simp
  qed (use i j in simp)
qed

abbreviation wit_guessing :: NewBeliefState where
  "wit_guessing \<equiv> \<lparr>status_bit = [True, True, True, False, False, False], value_bit = [True, True, True, False, False, False]\<rparr>"

abbreviation wit_start :: NewBeliefState where
  "wit_start \<equiv> \<lparr>status_bit = [True, True, True, False, False, False], value_bit = [True, False, False, False, False, False]\<rparr>"

lemma wit_guess_start: "guess_start 2 2 wit_guessing wit_start" "guess_positions 2 wit_guessing (getFirst wit_guessing) = [1, 2]"
proof -
  have on: "bs_on wit_guessing p \<longleftrightarrow> p < 3" for p
    by (auto simp: bs_on_bits get_bit_def nth_Cons' split: if_splits)
  have f: "getFirst wit_guessing = 0" using getFirst_cases [of wit_guessing] on by auto
  show p: "guess_positions 2 wit_guessing (getFirst wit_guessing) = [1, 2]"
    unfolding f guess_positions_def by (simp add: on upt_rec)
  show "guess_start 2 2 wit_guessing wit_start"
    unfolding guess_start_def p
    by (simp add: f wf_bs_def block_start_def bs_view_def get_bit_def)
qed

text \<open>
  C10. \<open>jump_guess\<close> is the shortcut that it is meant to be: from the starting guess, jumping to step
  \<open>k\<close> gives the same guess, or the same null pointer, as calling \<open>next_guess\<close> \<open>k\<close> times.
\<close>

theorem jump_guess_is_iterated_next_guess:
  assumes "guess_start n s g sg"
  shows "jump_guess (Some (layout n s)) sg g k = iterate_guess (Some (layout n s)) g k sg"
  by (rule jump_guess_iterates [OF assms])

theorem jump_guess_is_iterated_next_guess_witness:
  "guess_start 2 2 wit_guessing wit_start \<and>
   jump_guess (Some (layout 2 2)) wit_start wit_guessing 3 = iterate_guess (Some (layout 2 2)) wit_guessing 3 wit_start"
  using jump_guess_is_iterated_next_guess [OF wit_guess_start(1), of 3] wit_guess_start(1) by simp

text \<open>
  C21. \<open>next_guess\<close> runs through all guesses: the first \<open>2 ^ n\<close> calls, for \<open>n\<close> positions to guess, give the
  guesses with all combinations of truth values, no other position changes, and then the null
  pointer comes.
\<close>

theorem next_guess_enumerates:
  assumes "guess_start n s g sg" and "ps = guess_positions s g (getFirst g)"
  shows "(\<forall>f. \<exists>k c. k < 2 ^ length ps \<and> iterate_guess (Some (layout n s)) g k sg = Inr (Some c) \<and>
      (\<forall>p. bs_view c p = (if p \<in> set ps then (if f p then DMCS_TRUE else DMCS_FALSE) else bs_view sg p))) \<and>
    iterate_guess (Some (layout n s)) g (2 ^ length ps) sg = Inr None"
proof (intro conjI allI)
  fix f :: "nat \<Rightarrow> bool"
  have "\<exists>k<2 ^ length qs. \<forall>v p. guess_view qs k v p = (if p \<in> set qs then (if f p then DMCS_TRUE else DMCS_FALSE) else v p)"
    if "distinct qs" for qs
    using that
  proof (induction qs)
    case (Cons q qs)
    then obtain k where k: "k < 2 ^ length qs"
      "\<forall>v p. guess_view qs k v p = (if p \<in> set qs then (if f p then DMCS_TRUE else DMCS_FALSE) else v p)" by auto
    let ?k = "2 * k + (if f q then 1 else 0)"
    have "?k < 2 ^ length (q # qs)" "?k div 2 = k" "odd ?k \<longleftrightarrow> f q" using k(1) by auto
    with k(2) show ?case by (intro exI [of _ ?k]) auto
  qed simp
  from this [of ps] assms(2) obtain k where k: "k < 2 ^ length ps"
    "\<forall>v p. guess_view ps k v p = (if p \<in> set ps then (if f p then DMCS_TRUE else DMCS_FALSE) else v p)"
    by (auto simp: guess_positions_distinct)
  with iterate_guess_number [OF assms, of k]
  show "\<exists>k c. k < 2 ^ length ps \<and> iterate_guess (Some (layout n s)) g k sg = Inr (Some c) \<and>
      (\<forall>p. bs_view c p = (if p \<in> set ps then (if f p then DMCS_TRUE else DMCS_FALSE) else bs_view sg p))"
    by auto
next
  show "iterate_guess (Some (layout n s)) g (2 ^ length ps) sg = Inr None"
    using iterate_guess_number [OF assms, of "2 ^ length ps"] by simp
qed

theorem next_guess_enumerates_witness:
  "\<exists>k c. k < 4 \<and> iterate_guess (Some (layout 2 2)) wit_guessing k wit_start = Inr (Some c) \<and>
     bs_view c 1 = DMCS_FALSE \<and> bs_view c 2 = DMCS_TRUE"
proof -
  from next_guess_enumerates [OF wit_guess_start(1) refl] have "\<forall>f. \<exists>k c. k < 4 \<and>
      iterate_guess (Some (layout 2 2)) wit_guessing k wit_start = Inr (Some c) \<and>
      (\<forall>p. bs_view c p = (if p \<in> {1, 2} then (if f p then DMCS_TRUE else DMCS_FALSE) else bs_view wit_start p))"
    unfolding wit_guess_start(2) by simp
  from this [rule_format, of "\<lambda>p. p = 2"] show ?thesis by fastforce
qed

end
