(* ===== verification/Cache_Position.thy ===== *)
theory Cache_Position
  imports Dmcs_Prelude
begin

text \<open>
  The cache of guesses (\<open>src/mcs/CachePosition.cpp\<close>): \<open>mark\<close> holds, for the guesses with the numbers
  1, 2, and so on, how many models the guesses up to this one have, and \<open>find_position\<close> searches it
  for the guess at which to resume for the \<open>k\<close>-th model.
\<close>

section \<open>Definitions\<close>

record CachePosition =
  mark :: "nat list"

definition CachePosition_new :: CachePosition where
  "CachePosition_new = \<lparr>mark = []\<rparr>"

definition update_cache :: "CachePosition \<Rightarrow> nat \<Rightarrow> nat \<Rightarrow> CachePosition res" where
  "update_cache c index k =
     (if index \<le> length (mark c) then Inr c
      else assertion (index = length (mark c) + 1)
        (if index = 1 then Inr (c\<lparr>mark := mark c @ [k]\<rparr>)
         else Inr (c\<lparr>mark := mark c @ [sz_add k (last (mark c))]\<rparr>)))"

text \<open>The binary search: \<open>Inl mid\<close> when the loop returns, \<open>Inr beg\<close> when it ends.\<close>

function find_loop :: "nat list \<Rightarrow> nat \<Rightarrow> nat \<Rightarrow> nat \<Rightarrow> (nat + nat) res" where
  "find_loop m k b e =
     (if b + 1 < e then
        let mid = (b + e) div 2
        in bind_res (vec_at m mid) (\<lambda>x.
             if x < k then find_loop m k mid e
             else if k < x then find_loop m k b mid
             else Inr (Inl mid))
      else Inr (Inr b))"
  by pat_completeness auto
termination by (relation "measure (\<lambda>(m, k, b, e). e - b)") (auto simp: less_diff_conv)

declare find_loop.simps [simp del]

definition find_position :: "CachePosition \<Rightarrow> nat \<Rightarrow> nat res" where
  "find_position c k =
     (if mark c = [] then Inr 0
      else bind_res (find_loop (mark c) k 0 (length (mark c))) (\<lambda>r. case r of
          Inl mid \<Rightarrow> Inr mid
        | Inr b \<Rightarrow> bind_res (vec_at (mark c) b) (\<lambda>x. if x = k then Inr b else Inr (b + 1))))"

section \<open>The search\<close>

definition bracket :: "nat list \<Rightarrow> nat \<Rightarrow> nat \<Rightarrow> nat \<Rightarrow> bool" where
  "bracket m k b e \<longleftrightarrow> b < e \<and> e \<le> length m \<and> (b = 0 \<or> m ! b < k) \<and> (e = length m \<or> k < m ! e)"

lemma find_loop_bracket:
  assumes "bracket m k b e"
  shows "\<exists>r. find_loop m k b e = Inr r \<and> (case r of
      Inl mid \<Rightarrow> mid < length m \<and> m ! mid = k
    | Inr b' \<Rightarrow> bracket m k b' (b' + 1))"
  using assms
proof (induction m k b e rule: find_loop.induct)
  case (1 m k b e)
  show ?case
  proof (cases "b + 1 < e")
    case False
    with 1(3) have "e = b + 1" by (simp add: bracket_def)
    with 1(3) show ?thesis by (simp add: find_loop.simps)
  next
    case True
    define mid where "mid = (b + e) div 2"
    have mid: "b < mid" "mid < e" "mid < length m"
      using True 1(3) by (auto simp: mid_def bracket_def)
    consider "m ! mid < k" | "k < m ! mid" | "m ! mid = k" by linarith
    then show ?thesis
    proof cases
      case 1
      then have "bracket m k mid e" using mid \<open>bracket m k b e\<close> by (simp add: bracket_def)
      from "1.IH"(1) [OF True mid_def _ 1 this] mid 1 True show ?thesis
        by (subst find_loop.simps) (simp flip: mid_def)
    next
      case 2
      then have "bracket m k b mid" using mid \<open>bracket m k b e\<close> by (simp add: bracket_def)
      from "1.IH"(2) [OF True mid_def _ _ 2 this] mid 2 True show ?thesis
        by (subst find_loop.simps) (simp flip: mid_def)
    next
      case 3
      with mid True show ?thesis by (subst find_loop.simps) (simp flip: mid_def)
    qed
  qed
qed

lemma marks_below:
  assumes "sorted m" and "bracket m k b (b + 1)" and "m ! b < k"
  shows "length (filter (\<lambda>x. x < k) m) = b + 1"
proof -
  have b: "b < length m" using assms(2) by (simp add: bracket_def)
  have lo: "x < k" if "x \<in> set (take (b + 1) m)" for x
  proof -
    from that obtain i where "i < Suc b" "x = m ! i" by (auto simp: in_set_conv_nth)
    with assms(1,3) b sorted_nth_mono [of m i b] show ?thesis by simp
  qed
  have hi: "\<not> x < k" if "x \<in> set (drop (b + 1) m)" for x
  proof -
    from that obtain i where "i < length m - Suc b" "x = m ! (b + 1 + i)" by (auto simp: in_set_conv_nth)
    then have i: "b + 1 + i < length m" "x = m ! (b + 1 + i)" by auto
    with assms(2) have "k < m ! (b + 1)" by (simp add: bracket_def)
    with i assms(1) sorted_nth_mono [of m "b + 1" "b + 1 + i"] show ?thesis by simp
  qed
  have "filter (\<lambda>x. x < k) m = filter (\<lambda>x. x < k) (take (b + 1) m @ drop (b + 1) m)" by simp
  also have "\<dots> = take (b + 1) m" using lo hi by (simp add: filter_id_conv filter_empty_conv del: append_take_drop_id)
  finally show ?thesis using b by simp
qed

lemma find_position_cases:
  assumes "sorted (mark c)" and "mark c \<noteq> []"
  shows "\<exists>r. find_position c k = Inr r \<and>
    ((r < length (mark c) \<and> mark c ! r = k) \<or>
     (k \<notin> set (mark c) \<and> r = max 1 (length (filter (\<lambda>x. x < k) (mark c)))))"
proof -
  let ?m = "mark c"
  have "bracket ?m k 0 (length ?m)" using assms(2) by (simp add: bracket_def)
  from find_loop_bracket [OF this] obtain r where r: "find_loop ?m k 0 (length ?m) = Inr r"
    "case r of Inl mid \<Rightarrow> mid < length ?m \<and> ?m ! mid = k | Inr b' \<Rightarrow> bracket ?m k b' (b' + 1)" by blast
  show ?thesis
  proof (cases r)
    case (Inl mid)
    with r assms(2) show ?thesis by (simp add: find_position_def)
  next
    case (Inr b)
    with r have br: "bracket ?m k b (b + 1)" and b: "b < length ?m" by (auto simp: bracket_def)
    consider "?m ! b = k" | "?m ! b < k" | "k < ?m ! b" by linarith
    then show ?thesis
    proof cases
      case 1
      with r Inr b assms(2) show ?thesis by (simp add: find_position_def)
    next
      case 2
      note n = marks_below [OF assms(1) br 2]
      have "k \<notin> set ?m"
      proof
        assume "k \<in> set ?m"
        then obtain i where i: "i < length ?m" "?m ! i = k" by (auto simp: in_set_conv_nth)
        with 2 assms(1) b sorted_nth_mono [of ?m i b] have "b < i" by (cases "i \<le> b") auto
        with i br assms(1) sorted_nth_mono [of ?m "b + 1" i] show False by (simp add: bracket_def)
      qed
      with n r Inr b 2 assms(2) show ?thesis by (simp add: find_position_def)
    next
      case 3
      then have "b = 0" using br by (auto simp: bracket_def)
      with 3 assms have all: "\<forall>x\<in>set ?m. k < x"
        by (metis in_set_conv_nth le_less_trans not_le sorted_nth_mono zero_le linorder_not_le)
      then have "filter (\<lambda>x. x < k) ?m = []" by (auto simp: filter_empty_conv)
      with all r Inr \<open>b = 0\<close> 3 b assms(2) show ?thesis by (auto simp: find_position_def)
    qed
  qed
qed

section \<open>The cache during a run\<close>

text \<open>Reporting the guesses in their order with their numbers of models.\<close>

fun update_all :: "CachePosition \<Rightarrow> nat \<Rightarrow> nat list \<Rightarrow> CachePosition res" where
  "update_all c i [] = Inr c"
| "update_all c i (k # ks) = bind_res (update_cache c i k) (\<lambda>c. update_all c (i + 1) ks)"

fun running_sums :: "nat \<Rightarrow> nat list \<Rightarrow> nat list" where
  "running_sums a [] = []"
| "running_sums a (k # ks) = (a + k) # running_sums (a + k) ks"

lemma running_sums_bounds: "x \<in> set (running_sums a ks) \<Longrightarrow> a \<le> x"
  by (induction ks arbitrary: a) fastforce+

lemma sorted_running_sums: "sorted (running_sums a ks)"
  by (induction ks arbitrary: a) (auto dest: running_sums_bounds)

lemma update_all_sums:
  assumes "mark c \<noteq> []" and "last (mark c) + sum_list ks < SIZE_T"
  shows "update_all c (length (mark c) + 1) ks = Inr (c\<lparr>mark := mark c @ running_sums (last (mark c)) ks\<rparr>)"
  using assms
proof (induction ks arbitrary: c)
  case (Cons k ks)
  let ?c = "c\<lparr>mark := mark c @ [last (mark c) + k]\<rparr>"
  have "update_cache c (length (mark c) + 1) k = Inr ?c"
    using Cons.prems by (simp add: update_cache_def sz_add_small add.commute)
  with Cons.IH [of ?c] Cons.prems show ?case by simp
qed simp

lemma update_all_new:
  assumes "sum_list ks < SIZE_T"
  shows "update_all CachePosition_new 1 ks = Inr \<lparr>mark = running_sums 0 ks\<rparr>"
proof (cases ks)
  case (Cons k ks')
  have "update_cache CachePosition_new 1 k = Inr \<lparr>mark = [k]\<rparr>"
    by (simp add: update_cache_def CachePosition_new_def)
  with Cons assms update_all_sums [of "\<lparr>mark = [k]\<rparr>" ks'] show ?thesis by simp
qed (simp add: CachePosition_new_def)

text \<open>
  C31. When the guesses 1 to n have been reported in order with their numbers of models, the
  search for the k-th model returns the guess whose running total is k, or else the number of
  guesses whose running total is below k. It never returns 0 in the second case: it answers 1
  even when k lies before the first total.
\<close>

theorem cache_finds_the_guess:
  assumes "ks \<noteq> []" and "sum_list ks < SIZE_T"
    and "update_all CachePosition_new 1 ks = Inr c"
  shows "\<exists>r. find_position c k = Inr r \<and>
    (if k \<in> set (running_sums 0 ks) then r < length ks \<and> running_sums 0 ks ! r = k
     else r = max 1 (length (filter (\<lambda>x. x < k) (running_sums 0 ks))))"
proof -
  have c: "mark c = running_sums 0 ks" using assms update_all_new [of ks] by simp
  have len: "length (running_sums a xs) = length xs" for a xs
    by (induction xs arbitrary: a) auto
  have "mark c \<noteq> []" using assms(1) by (cases ks) (simp_all add: c)
  from find_position_cases [OF _ this, of k] c len sorted_running_sums [of 0 ks]
  show ?thesis by (auto dest: nth_mem)
qed

theorem cache_finds_the_guess_witness:
  "\<exists>c r. update_all CachePosition_new 1 [2, 3, 1] = Inr c \<and> find_position c 5 = Inr r \<and> r < 3 \<and>
     running_sums 0 [2, 3, 1] ! r = 5"
proof -
  have u: "update_all CachePosition_new 1 [2, 3, 1] = Inr \<lparr>mark = [2, 5, 6]\<rparr>"
    by (subst update_all_new) (simp_all add: SIZE_T_def)
  have "\<exists>r. find_position \<lparr>mark = [2, 5, 6]\<rparr> 5 = Inr r \<and>
    (if 5 \<in> set (running_sums 0 [2, 3, 1]) then r < length [2, 3, 1 :: nat] \<and> running_sums 0 [2, 3, 1] ! r = 5
     else r = max 1 (length (filter (\<lambda>x. x < 5) (running_sums 0 [2, 3, 1]))))"
    by (rule cache_finds_the_guess [OF _ _ u]) (simp_all add: SIZE_T_def)
  with u show ?thesis by auto
qed

end
