(* ===== verification/Query_Plan.thy ===== *)
theory Query_Plan
  imports Belief_Tables Belief_Combine
begin

unbundle bit_operations_syntax

text \<open>
  The query plan (\<open>include/mcs/QueryPlan.h\<close>) and the actions of its grammar
  (\<open>include/parser/QueryPlanGrammar.tcc\<close>, \<open>QueryPlanGrammar.hpp\<close>). The recognition of the input by
  Boost.Spirit is not part of the repository; the actions run on what it has recognized, a value of
  \<open>plan_source\<close> per context, in the order of the grammar's rule \<open>contextQueryPlan\<close>.
\<close>

section \<open>Data\<close>

type_synonym ContextID = nat
type_synonym ConstantList = "string list"

record ConstantCategory =
  cc_name :: string
  cc_constants :: ConstantList

record Filter =
  f_name :: string
  f_predicate :: string
  f_arguments :: "nat \<rightharpoonup> ConstantList"

record ContextQueryPlan =
  cqp_ctx :: ContextID
  cqp_hostname :: string
  cqp_port :: int
  cqp_constants :: "ConstantList option"
  constCats :: "ConstantCategory list option"
  cqp_preds :: "(string \<rightharpoonup> nat) option"
  cqp_filters :: "Filter list option"
  localSignature :: "BeliefTable option"
  groundInputSignature :: "BeliefTable option"
  outputProjections :: "(ContextID \<rightharpoonup> NewBeliefState) option"

definition ContextQueryPlan_new :: ContextQueryPlan where
  "ContextQueryPlan_new = \<lparr>cqp_ctx = 0, cqp_hostname = [], cqp_port = 0, cqp_constants = None, constCats = None,
     cqp_preds = None, cqp_filters = None, localSignature = None, groundInputSignature = None, outputProjections = None\<rparr>"

text \<open>A \<open>std::map\<close> as the list of its entries by increasing key; an insertion keeps an existing entry.\<close>

type_synonym ContextQueryPlanMap = "(ContextID \<times> ContextQueryPlan) list"

fun map_insert :: "'k :: linorder \<Rightarrow> 'a \<Rightarrow> ('k \<times> 'a) list \<Rightarrow> ('k \<times> 'a) list" where
  "map_insert k v [] = [(k, v)]"
| "map_insert k v ((k', v') # m) =
     (if k < k' then (k, v) # (k', v') # m else if k = k' then (k', v') # m else (k', v') # map_insert k v m)"

lemma map_of_map_insert:
  "sorted_wrt (<) (map fst m) \<Longrightarrow> map_of (map_insert k v m) =
     (case map_of m k of None \<Rightarrow> (map_of m)(k \<mapsto> v) | Some _ \<Rightarrow> map_of m)"
proof (induction k v m rule: map_insert.induct)
  case (2 k v k' v' m)
  have "map_of m k = None" if "k < k'" using that 2(2) by (auto simp: map_of_eq_None_iff)
  with 2 show ?case by (auto simp: fun_eq_iff split: option.splits)
qed auto

lemma set_map_insert: "fst ` set (map_insert k v m) = insert k (fst ` set m)"
  by (induction k v m rule: map_insert.induct) auto

lemma sorted_map_insert: "sorted_wrt (<) (map fst m) \<Longrightarrow> sorted_wrt (<) (map fst (map_insert k v m))"
proof (induction k v m rule: map_insert.induct)
  case (2 k v k' v' m)
  have "set (map fst (map_insert k v m)) = insert k (set (map fst m))" using set_map_insert [of k v m] by simp
  with 2 show ?case by auto
qed auto

section \<open>Actions\<close>

record QueryPlanGrammarSemantics =
  qp_result :: "ContextQueryPlanMap option"
  m_CurrentQueryPlan :: "ContextQueryPlan option"

definition QueryPlanGrammarSemantics_new :: QueryPlanGrammarSemantics where
  "QueryPlanGrammarSemantics_new = \<lparr>qp_result = None, m_CurrentQueryPlan = None\<rparr>"

text \<open>Writing through the pointer to the current plan.\<close>

definition on_current :: "(ContextQueryPlan \<Rightarrow> ContextQueryPlan res) \<Rightarrow> QueryPlanGrammarSemantics \<Rightarrow> QueryPlanGrammarSemantics res" where
  "on_current f mgr = (case m_CurrentQueryPlan mgr of None \<Rightarrow> Inl Undefined_Behaviour
     | Some qp \<Rightarrow> bind_res (f qp) (\<lambda>qp. Inr (mgr\<lparr>m_CurrentQueryPlan := Some qp\<rparr>)))"

definition setContextID :: "int \<Rightarrow> QueryPlanGrammarSemantics \<Rightarrow> QueryPlanGrammarSemantics res" where
  "setContextID source mgr =
     Inr (mgr\<lparr>m_CurrentQueryPlan := Some (ContextQueryPlan_new\<lparr>cqp_ctx := nat (source mod int SIZE_T)\<rparr>)\<rparr>)"

definition setHostName :: "string \<Rightarrow> QueryPlanGrammarSemantics \<Rightarrow> QueryPlanGrammarSemantics res" where
  "setHostName source = on_current (\<lambda>qp. Inr (qp\<lparr>cqp_hostname := source\<rparr>))"

definition setPort :: "int \<Rightarrow> QueryPlanGrammarSemantics \<Rightarrow> QueryPlanGrammarSemantics res" where
  "setPort source = on_current (\<lambda>qp. Inr (qp\<lparr>cqp_port := source\<rparr>))"

definition setConstantList :: "ConstantList \<Rightarrow> QueryPlanGrammarSemantics \<Rightarrow> QueryPlanGrammarSemantics res" where
  "setConstantList source = on_current (\<lambda>qp. Inr (qp\<lparr>cqp_constants := Some source\<rparr>))"

definition getCurrentConstantList :: "string list \<Rightarrow> ConstantList" where
  "getCurrentConstantList source = source"

definition setConstantCategories :: "(string \<times> ConstantList) list \<Rightarrow> QueryPlanGrammarSemantics \<Rightarrow> QueryPlanGrammarSemantics res" where
  "setConstantCategories source = on_current (\<lambda>qp.
     let cats = (case constCats qp of None \<Rightarrow> [] | Some cs \<Rightarrow> cs)
     in Inr (qp\<lparr>constCats := Some (cats @ map (\<lambda>(name, constants). \<lparr>cc_name = name, cc_constants = constants\<rparr>) source)\<rparr>))"

fun insert_new :: "('k \<times> 'v) list \<Rightarrow> ('k \<rightharpoonup> 'v) \<Rightarrow> ('k \<rightharpoonup> 'v)" where
  "insert_new [] m = m"
| "insert_new ((k, v) # kvs) m = insert_new kvs (case m k of None \<Rightarrow> m(k \<mapsto> v) | Some _ \<Rightarrow> m)"

definition setPredicates :: "(string \<times> nat) list \<Rightarrow> QueryPlanGrammarSemantics \<Rightarrow> QueryPlanGrammarSemantics res" where
  "setPredicates source = on_current (\<lambda>qp.
     let preds = (case cqp_preds qp of None \<Rightarrow> Map.empty | Some p \<Rightarrow> p)
     in Inr (qp\<lparr>cqp_preds := Some (insert_new source preds)\<rparr>))"

text \<open>The constants of a category; \<open>None\<close> is the null pointer that stays in the target.\<close>

definition seekConstantCategory :: "string \<Rightarrow> QueryPlanGrammarSemantics \<Rightarrow> ConstantList option res" where
  "seekConstantCategory source mgr = (case m_CurrentQueryPlan mgr of None \<Rightarrow> Inl Undefined_Behaviour
     | Some qp \<Rightarrow> (case constCats qp of None \<Rightarrow> Inl Assertion_Failed
        | Some cats \<Rightarrow> Inr (map_option cc_constants (find (\<lambda>c. cc_name c = source) cats))))"

definition checkConstantCategory :: "ConstantList \<Rightarrow> QueryPlanGrammarSemantics \<Rightarrow> ConstantList res" where
  "checkConstantCategory source mgr = (case m_CurrentQueryPlan mgr of None \<Rightarrow> Inl Undefined_Behaviour
     | Some qp \<Rightarrow>
       if 1 < length source then Inr source
       else case constCats qp of None \<Rightarrow> Inl Assertion_Failed
         | Some cats \<Rightarrow> bind_res (vec_at source 0) (\<lambda>name.
             case find (\<lambda>c. cc_name c = name) cats of Some c \<Rightarrow> Inr (cc_constants c) | None \<Rightarrow> Inr source))"

definition setFilters :: "(string \<times> string \<times> (nat \<times> ConstantList) list) list \<Rightarrow> QueryPlanGrammarSemantics \<Rightarrow> QueryPlanGrammarSemantics res" where
  "setFilters source = on_current (\<lambda>qp.
     let fs = (case cqp_filters qp of None \<Rightarrow> [] | Some fs \<Rightarrow> fs)
     in Inr (qp\<lparr>cqp_filters := Some (fs @ map (\<lambda>(name, predicate, args).
          \<lparr>f_name = name, f_predicate = predicate, f_arguments = insert_new args Map.empty\<rparr>) source)\<rparr>))"

text \<open>The text of a ground atom: the predicate, and its arguments in parentheses; the last comma becomes the closing one.\<close>

definition tuple_text :: "string list \<Rightarrow> string res" where
  "tuple_text tuples = (case tuples of [] \<Rightarrow> Inl Assertion_Failed
     | p # ts \<Rightarrow> Inr (if ts = [] then p
         else let predicate = p @ ''('' @ concat (map (\<lambda>t. t @ '','') ts)
              in predicate[length predicate - 1 := CHR '')'']))"

fun register_beliefs :: "nat \<Rightarrow> (32 word \<times> string list) list \<Rightarrow> BeliefTable \<Rightarrow> BeliefTable res" where
  "register_beliefs ctx [] t = Inr t"
| "register_beliefs ctx ((addr, tuples) # source) t =
     bind_res (tuple_text tuples) (\<lambda>predicate.
       let bel = Belief_new_at (of_nat ctx) addr predicate
       in bind_res (bt_storeWithID t bel (b_id bel)) (\<lambda>(t, _). register_beliefs ctx source t))"

definition registerAndInsertIntoBeliefSet :: "(32 word \<times> string list) list \<Rightarrow> QueryPlanGrammarSemantics \<Rightarrow> BeliefTable res" where
  "registerAndInsertIntoBeliefSet source mgr = (case m_CurrentQueryPlan mgr of
       None \<Rightarrow> (if source = [] then Inr BeliefTable_new else Inl Undefined_Behaviour)
     | Some qp \<Rightarrow> register_beliefs (cqp_ctx qp) source BeliefTable_new)"

definition setLocalSignature :: "BeliefTable \<Rightarrow> QueryPlanGrammarSemantics \<Rightarrow> QueryPlanGrammarSemantics res" where
  "setLocalSignature source = on_current (\<lambda>qp. Inr (qp\<lparr>localSignature := Some source\<rparr>))"

definition setInputSignature :: "BeliefTable \<Rightarrow> QueryPlanGrammarSemantics \<Rightarrow> QueryPlanGrammarSemantics res" where
  "setInputSignature source = on_current (\<lambda>qp. Inr (qp\<lparr>groundInputSignature := Some source\<rparr>))"

definition insertIntoMap :: "QueryPlanGrammarSemantics \<Rightarrow> QueryPlanGrammarSemantics res" where
  "insertIntoMap mgr = (case m_CurrentQueryPlan mgr of None \<Rightarrow> Inl Undefined_Behaviour
     | Some qp \<Rightarrow> let qpm = (case qp_result mgr of None \<Rightarrow> [] | Some m \<Rightarrow> m)
         in Inr (mgr\<lparr>qp_result := Some (map_insert (cqp_ctx qp) qp qpm)\<rparr>))"

section \<open>The grammar's rule for one context\<close>

record plan_source =
  ps_ctx :: int
  ps_host :: string
  ps_port :: int
  ps_constants :: "string list"
  ps_categories :: "(string \<times> string list) list option"
  ps_predicates :: "(string \<times> nat) list option"
  ps_filters :: "(string \<times> string \<times> (nat \<times> string list) list) list option"
  ps_local :: "(32 word \<times> string list) list option"
  ps_input :: "(32 word \<times> string list) list option"

definition optionally :: "('a \<Rightarrow> 'm \<Rightarrow> 'm res) \<Rightarrow> 'a option \<Rightarrow> 'm \<Rightarrow> 'm res" where
  "optionally act x mgr = (case x of None \<Rightarrow> Inr mgr | Some y \<Rightarrow> act y mgr)"

text \<open>The arguments of a filter go through \<open>checkConstantCategory\<close> while they are recognized.\<close>

fun check_args :: "(nat \<times> string list) list \<Rightarrow> QueryPlanGrammarSemantics \<Rightarrow> (nat \<times> ConstantList) list res" where
  "check_args [] mgr = Inr []"
| "check_args ((pos, cs) # args) mgr =
     bind_res (checkConstantCategory (getCurrentConstantList cs) mgr) (\<lambda>cs.
     bind_res (check_args args mgr) (\<lambda>args. Inr ((pos, cs) # args)))"

fun check_filters :: "(string \<times> string \<times> (nat \<times> string list) list) list \<Rightarrow> QueryPlanGrammarSemantics
    \<Rightarrow> (string \<times> string \<times> (nat \<times> ConstantList) list) list res" where
  "check_filters [] mgr = Inr []"
| "check_filters ((name, predicate, args) # fs) mgr =
     bind_res (check_args args mgr) (\<lambda>args.
     bind_res (check_filters fs mgr) (\<lambda>fs. Inr ((name, predicate, args) # fs)))"

definition contextQueryPlan :: "plan_source \<Rightarrow> QueryPlanGrammarSemantics \<Rightarrow> QueryPlanGrammarSemantics res" where
  "contextQueryPlan src mgr =
     bind_res (setContextID (ps_ctx src) mgr) (\<lambda>mgr.
     bind_res (setHostName (ps_host src) mgr) (\<lambda>mgr.
     bind_res (setPort (ps_port src) mgr) (\<lambda>mgr.
     bind_res (setConstantList (getCurrentConstantList (ps_constants src)) mgr) (\<lambda>mgr.
     bind_res (optionally setConstantCategories (ps_categories src) mgr) (\<lambda>mgr.
     bind_res (optionally setPredicates (ps_predicates src) mgr) (\<lambda>mgr.
     bind_res (optionally (\<lambda>fs mgr. bind_res (check_filters fs mgr) (\<lambda>fs. setFilters fs mgr)) (ps_filters src) mgr) (\<lambda>mgr.
     bind_res (optionally (\<lambda>s mgr. bind_res (registerAndInsertIntoBeliefSet s mgr) (\<lambda>t. setLocalSignature t mgr)) (ps_local src) mgr) (\<lambda>mgr.
     bind_res (optionally (\<lambda>s mgr. bind_res (registerAndInsertIntoBeliefSet s mgr) (\<lambda>t. setInputSignature t mgr)) (ps_input src) mgr) (\<lambda>mgr.
       insertIntoMap mgr)))))))))"

fun parse_plans :: "plan_source list \<Rightarrow> QueryPlanGrammarSemantics \<Rightarrow> QueryPlanGrammarSemantics res" where
  "parse_plans [] mgr = Inr mgr"
| "parse_plans (src # srcs) mgr = bind_res (contextQueryPlan src mgr) (parse_plans srcs)"

section \<open>Signatures\<close>

lemma belief_kind:
  fixes c :: "16 word"
  defines "k \<equiv> MAINKIND_BELIEF OR ucast c"
  shows "k AND MAINKIND_MASK = MAINKIND_BELIEF \<and> k AND NAF_MASK = 0 \<and> k AND CONTEXT_ID_MASK = ucast c"
proof -
  have u: "ucast c = (ucast c :: 32 word) AND 0xFFFF"
  proof -
    have "ucast c = (ucast c :: 32 word) AND mask 16"
      by (rule bit_word_eqI) (auto simp: bit_simps dest: bit_imp_le_length)
    moreover have "mask 16 = (0xFFFF :: 32 word)" by (simp add: mask_eq_exp_minus_1)
    ultimately show ?thesis by (simp only:)
  qed
  have "(ucast c :: 32 word) AND m = ucast c AND (0xFFFF AND m)" for m by (subst u) (simp only: and.assoc)
  note this [of MAINKIND_MASK] this [of NAF_MASK] this [of CONTEXT_ID_MASK]
  with u show ?thesis unfolding k_def bit.conj_disj_distrib2
    by (simp add: kind_consts)
qed

lemma belief_at_ID:
  "isBelief (b_id (Belief_new_at c a t)) \<and> b_id (Belief_new_at c a t) \<noteq> ID_FAIL"
  using belief_kind [of c]
  by (auto simp: isBelief_def b_id_def Belief_new_at_def ID_FAIL_def ALL_ONES_def kind_consts)

definition signature_text :: "string list \<Rightarrow> string" where
  "signature_text tuples = projr (tuple_text tuples)"

text \<open>Signatures that the grammar can register: no address and no atom twice, and no empty atom.\<close>

definition signature_ok :: "(32 word \<times> string list) list \<Rightarrow> bool" where
  "signature_ok source \<longleftrightarrow> distinct (map fst source) \<and> distinct (map (\<lambda>x. signature_text (snd x)) source) \<and>
     (\<forall>x\<in>set source. snd x \<noteq> [] \<and> signature_text (snd x) \<noteq> [])"

lemma register_beliefs_ok:
  assumes "signature_ok source" and "nextAddress t = 0"
    and "\<forall>x\<in>set source. \<forall>b\<in>set (bt_container t). b_address b \<noteq> fst x \<and> b_text b \<noteq> signature_text (snd x)"
  shows "register_beliefs ctx source t = Inr (t\<lparr>bt_container := bt_container t @
    map (\<lambda>x. Belief_new_at (of_nat ctx) (fst x) (signature_text (snd x))) source\<rparr>)"
  using assms
proof (induction source arbitrary: t)
  case (Cons x source)
  obtain a tu where x: "x = (a, tu)" by fastforce
  let ?b = "Belief_new_at (of_nat ctx) a (signature_text tu)"
  from Cons.prems(1) have ok: "tu \<noteq> []" "signature_text tu \<noteq> []" "signature_ok source"
    "\<forall>y\<in>set source. a \<noteq> fst y \<and> signature_text tu \<noteq> signature_text (snd y)"
    by (auto simp: signature_ok_def x)
  have tt: "tuple_text tu = Inr (signature_text tu)" using ok(1) by (cases tu) (simp_all add: tuple_text_def signature_text_def)
  have "bt_insert t ?b = (t\<lparr>bt_container := bt_container t @ [?b]\<rparr>, True)"
    using Cons.prems(3) by (auto simp: bt_insert_def x Belief_new_at_def)
  then have "bt_storeWithID t ?b (b_id ?b) = Inr (t\<lparr>bt_container := bt_container t @ [?b]\<rparr>, b_id ?b)"
    using belief_at_ID [of "of_nat ctx" a "signature_text tu"] ok(2) Cons.prems(2)
    by (simp add: bt_storeWithID_def b_id_def Belief_new_at_def)
  moreover have "register_beliefs ctx source (t\<lparr>bt_container := bt_container t @ [?b]\<rparr>) =
      Inr (t\<lparr>bt_container := bt_container t @ [?b] @ map (\<lambda>x. Belief_new_at (of_nat ctx) (fst x) (signature_text (snd x))) source\<rparr>)"
    using Cons.IH [of "t\<lparr>bt_container := bt_container t @ [?b]\<rparr>"] ok Cons.prems(2,3) by (simp add: x Belief_new_at_def)
  ultimately show ?case using tt by (simp add: x)
qed simp

definition signature_table :: "nat \<Rightarrow> (32 word \<times> string list) list \<Rightarrow> BeliefTable" where
  "signature_table ctx source = \<lparr>bt_container = map (\<lambda>x. Belief_new_at (of_nat ctx) (fst x) (signature_text (snd x))) source, nextAddress = 0\<rparr>"

lemma register_beliefs_new: "signature_ok source \<Longrightarrow> register_beliefs ctx source BeliefTable_new = Inr (signature_table ctx source)"
  using register_beliefs_ok [of source BeliefTable_new ctx] by (simp add: BeliefTable_new_def signature_table_def)

lemma find_map_distinct:
  "distinct (map f xs) \<Longrightarrow> x \<in> set xs \<Longrightarrow> (\<And>y. P (g y) \<longleftrightarrow> f y = f x) \<Longrightarrow> find P (map g xs) = Some (g x)"
proof (induction xs)
  case (Cons y xs)
  then show ?case by (cases "y = x") (auto simp: image_iff)
qed simp

lemma signature_table_lookup:
  assumes "signature_ok source" and "(a, tu) \<in> set source"
  shows "bt_getIDByString (signature_table ctx source) (signature_text tu) = b_id (Belief_new_at (of_nat ctx) a (signature_text tu))"
    and "bt_getByID (signature_table ctx source) (b_id (Belief_new_at (of_nat ctx) a (signature_text tu))) =
      Inr (Belief_new_at (of_nat ctx) a (signature_text tu))"
proof -
  let ?g = "\<lambda>x. Belief_new_at (of_nat ctx) (fst x) (signature_text (snd x))"
  have "find (\<lambda>b. b_text b = signature_text tu) (map ?g source) = Some (?g (a, tu))"
    using assms by (intro find_map_distinct [where f = "\<lambda>x. signature_text (snd x)"]) (simp_all add: signature_ok_def Belief_new_at_def)
  then show "bt_getIDByString (signature_table ctx source) (signature_text tu) = b_id (Belief_new_at (of_nat ctx) a (signature_text tu))"
    by (simp add: bt_getIDByString_def signature_table_def)
  have "find (\<lambda>b. b_address b = a) (map ?g source) = Some (?g (a, tu))"
    using assms by (intro find_map_distinct [where f = fst]) (simp_all add: signature_ok_def Belief_new_at_def)
  then show "bt_getByID (signature_table ctx source) (b_id (Belief_new_at (of_nat ctx) a (signature_text tu))) =
      Inr (Belief_new_at (of_nat ctx) a (signature_text tu))"
    using belief_at_ID [of "of_nat ctx" a "signature_text tu"]
    by (simp add: bt_getByID_def signature_table_def b_id_def Belief_new_at_def)
qed

section \<open>Plans\<close>

definition plan_ctx :: "plan_source \<Rightarrow> nat" where
  "plan_ctx src = nat (ps_ctx src mod int SIZE_T)"

text \<open>
  Sources that are read without failure: signatures can be registered, and filters come with
  categories, since the check of a filter argument insists on them.
\<close>

definition plan_ok :: "plan_source \<Rightarrow> bool" where
  "plan_ok src \<longleftrightarrow> pred_option signature_ok (ps_local src) \<and> pred_option signature_ok (ps_input src) \<and>
     pred_option (\<lambda>fs. (ps_categories src \<noteq> None \<or> fs = []) \<and> (\<forall>(name, predicate, args)\<in>set fs. \<forall>(pos, cs)\<in>set args. cs \<noteq> [])) (ps_filters src)"

definition plan_for :: "plan_source \<Rightarrow> ContextQueryPlan \<Rightarrow> bool" where
  "plan_for src qp \<longleftrightarrow> cqp_ctx qp = plan_ctx src \<and> cqp_hostname qp = ps_host src \<and> cqp_port qp = ps_port src \<and>
     cqp_constants qp = Some (ps_constants src) \<and>
     localSignature qp = map_option (signature_table (plan_ctx src)) (ps_local src) \<and>
     groundInputSignature qp = map_option (signature_table (plan_ctx src)) (ps_input src)"

lemma check_args_ok:
  assumes "m_CurrentQueryPlan mgr = Some qp" and "constCats qp \<noteq> None" and "\<forall>(pos, cs)\<in>set args. cs \<noteq> []"
  shows "is_ok (check_args args mgr)"
  using assms(3)
proof (induction args)
  case (Cons x args)
  obtain pos cs where x: "x = (pos, cs)" by fastforce
  with Cons.prems have "vec_at cs 0 = Inr (hd cs)" by (cases cs) auto
  with assms(1,2) have "is_ok (checkConstantCategory (getCurrentConstantList cs) mgr)"
    by (auto simp: checkConstantCategory_def getCurrentConstantList_def split: option.splits)
  with Cons show ?case by (auto simp: x is_ok_iff)
qed simp

lemma check_filters_ok:
  assumes "m_CurrentQueryPlan mgr = Some qp" and "constCats qp \<noteq> None"
    and "\<forall>(name, predicate, args)\<in>set fs. \<forall>(pos, cs)\<in>set args. cs \<noteq> []"
  shows "is_ok (check_filters fs mgr)"
  using assms(3)
proof (induction fs)
  case (Cons f fs)
  obtain name predicate args where f: "f = (name, predicate, args)" by (cases f)
  with Cons.prems check_args_ok [OF assms(1,2), of args] have "is_ok (check_args args mgr)" by auto
  with Cons show ?case by (auto simp: f is_ok_iff)
qed simp

text \<open>The filters do not touch what the other actions write.\<close>

lemma filters_action:
  assumes "m_CurrentQueryPlan mgr = Some qp" and "pred_option (\<lambda>fs. (constCats qp \<noteq> None \<or> fs = []) \<and>
      (\<forall>(name, predicate, args)\<in>set fs. \<forall>(pos, cs)\<in>set args. cs \<noteq> [])) src"
  shows "\<exists>fs. optionally (\<lambda>fs mgr. bind_res (check_filters fs mgr) (\<lambda>fs. setFilters fs mgr)) src mgr =
    Inr (mgr\<lparr>m_CurrentQueryPlan := Some (qp\<lparr>cqp_filters := fs\<rparr>)\<rparr>)"
proof (cases src)
  case None
  with assms(1) show ?thesis by (intro exI [of _ "cqp_filters qp"]) (simp add: optionally_def)
next
  case (Some fs)
  have "is_ok (check_filters fs mgr)"
    using assms Some check_filters_ok [OF assms(1), of fs] by (cases "fs = []") auto
  with Some assms(1) show ?thesis by (auto simp: optionally_def is_ok_iff setFilters_def on_current_def Let_def)
qed

lemma signature_action:
  assumes "m_CurrentQueryPlan mgr = Some qp" and "pred_option signature_ok src"
  shows "optionally (\<lambda>s mgr. bind_res (registerAndInsertIntoBeliefSet s mgr) (\<lambda>t. act t mgr)) src mgr =
    (case src of None \<Rightarrow> Inr mgr | Some s \<Rightarrow> act (signature_table (cqp_ctx qp) s) mgr)"
  using assms by (cases src) (simp_all add: optionally_def registerAndInsertIntoBeliefSet_def register_beliefs_new)

lemma contextQueryPlan_ok:
  assumes "plan_ok src"
  shows "\<exists>qp. contextQueryPlan src mgr = Inr (mgr\<lparr>m_CurrentQueryPlan := Some qp,
      qp_result := Some (map_insert (plan_ctx src) qp (case qp_result mgr of None \<Rightarrow> [] | Some m \<Rightarrow> m))\<rparr>) \<and> plan_for src qp"
proof -
  define qp1 where "qp1 = ContextQueryPlan_new\<lparr>cqp_ctx := plan_ctx src, cqp_hostname := ps_host src, cqp_port := ps_port src,
    cqp_constants := Some (ps_constants src),
    constCats := map_option (map (\<lambda>(name, constants). \<lparr>cc_name = name, cc_constants = constants\<rparr>)) (ps_categories src),
    cqp_preds := map_option (\<lambda>s. insert_new s Map.empty) (ps_predicates src)\<rparr>"
  let ?m1 = "mgr\<lparr>m_CurrentQueryPlan := Some qp1\<rparr>"
  have "constCats qp1 = None \<longleftrightarrow> ps_categories src = None" by (simp add: qp1_def)
  with filters_action [of ?m1 qp1 "ps_filters src"] assms obtain fs where
    fs: "optionally (\<lambda>fs mgr. bind_res (check_filters fs mgr) (\<lambda>fs. setFilters fs mgr)) (ps_filters src) ?m1 =
      Inr (mgr\<lparr>m_CurrentQueryPlan := Some (qp1\<lparr>cqp_filters := fs\<rparr>)\<rparr>)" by (auto simp: plan_ok_def)
  define qp2 where "qp2 = qp1\<lparr>cqp_filters := fs, localSignature := map_option (signature_table (plan_ctx src)) (ps_local src)\<rparr>"
  define qp3 where "qp3 = qp2\<lparr>groundInputSignature := map_option (signature_table (plan_ctx src)) (ps_input src)\<rparr>"
  have c: "cqp_ctx qp1 = plan_ctx src" "localSignature qp1 = None" "groundInputSignature qp1 = None"
    by (simp_all add: qp1_def ContextQueryPlan_new_def)
  have l: "optionally (\<lambda>s mgr. bind_res (registerAndInsertIntoBeliefSet s mgr) (\<lambda>t. setLocalSignature t mgr)) (ps_local src)
      (mgr\<lparr>m_CurrentQueryPlan := Some (qp1\<lparr>cqp_filters := fs\<rparr>)\<rparr>) = Inr (mgr\<lparr>m_CurrentQueryPlan := Some qp2\<rparr>)"
    using assms c by (subst signature_action) (auto simp: plan_ok_def setLocalSignature_def on_current_def qp2_def split: option.splits)
  have i: "optionally (\<lambda>s mgr. bind_res (registerAndInsertIntoBeliefSet s mgr) (\<lambda>t. setInputSignature t mgr)) (ps_input src)
      (mgr\<lparr>m_CurrentQueryPlan := Some qp2\<rparr>) = Inr (mgr\<lparr>m_CurrentQueryPlan := Some qp3\<rparr>)"
    using assms c by (subst signature_action) (auto simp: plan_ok_def setInputSignature_def on_current_def qp2_def qp3_def split: option.splits)
  have f: "bind_res (setContextID (ps_ctx src) mgr) (\<lambda>mgr.
     bind_res (setHostName (ps_host src) mgr) (\<lambda>mgr.
     bind_res (setPort (ps_port src) mgr) (\<lambda>mgr.
     bind_res (setConstantList (getCurrentConstantList (ps_constants src)) mgr) (\<lambda>mgr.
     bind_res (optionally setConstantCategories (ps_categories src) mgr) (\<lambda>mgr.
     bind_res (optionally setPredicates (ps_predicates src) mgr) k))))) = k ?m1" for k
    by (cases "ps_categories src"; cases "ps_predicates src")
      (simp_all add: setContextID_def setHostName_def setPort_def setConstantList_def setConstantCategories_def setPredicates_def
        on_current_def optionally_def getCurrentConstantList_def qp1_def ContextQueryPlan_new_def plan_ctx_def)
  have "contextQueryPlan src mgr = insertIntoMap (mgr\<lparr>m_CurrentQueryPlan := Some qp3\<rparr>)"
    unfolding contextQueryPlan_def f fs bind_res_simps l i ..
  moreover have "plan_for src qp3" by (simp add: plan_for_def qp3_def qp2_def qp1_def)
  ultimately show ?thesis by (intro exI [of _ qp3]) (simp add: insertIntoMap_def plan_for_def)
qed

lemma parse_plans_ok:
  assumes "\<forall>src\<in>set srcs. plan_ok src" and "distinct (map plan_ctx srcs)"
    and "m = (case qp_result mgr of None \<Rightarrow> [] | Some m \<Rightarrow> m)" and "sorted_wrt (<) (map fst m)"
    and "\<forall>src\<in>set srcs. map_of m (plan_ctx src) = None"
  shows "\<exists>mgr' m'. parse_plans srcs mgr = Inr mgr' \<and> m' = (case qp_result mgr' of None \<Rightarrow> [] | Some m \<Rightarrow> m) \<and>
    sorted_wrt (<) (map fst m') \<and> dom (map_of m') = dom (map_of m) \<union> plan_ctx ` set srcs \<and>
    (\<forall>c qp. map_of m c = Some qp \<longrightarrow> map_of m' c = Some qp) \<and>
    (\<forall>src\<in>set srcs. \<exists>qp. map_of m' (plan_ctx src) = Some qp \<and> plan_for src qp)"
  using assms
proof (induction srcs arbitrary: mgr m)
  case (Cons src srcs)
  from contextQueryPlan_ok [of src mgr] Cons.prems(1,3) obtain qp where
    q: "contextQueryPlan src mgr = Inr (mgr\<lparr>m_CurrentQueryPlan := Some qp, qp_result := Some (map_insert (plan_ctx src) qp m)\<rparr>)"
    "plan_for src qp" by auto
  let ?mgr = "mgr\<lparr>m_CurrentQueryPlan := Some qp, qp_result := Some (map_insert (plan_ctx src) qp m)\<rparr>"
  let ?m = "map_insert (plan_ctx src) qp m"
  have mo: "map_of ?m = (map_of m)(plan_ctx src \<mapsto> qp)" using map_of_map_insert [OF Cons.prems(4)] Cons.prems(5) by simp
  have "\<exists>mgr' m'. parse_plans srcs ?mgr = Inr mgr' \<and> m' = (case qp_result mgr' of None \<Rightarrow> [] | Some m \<Rightarrow> m) \<and>
    sorted_wrt (<) (map fst m') \<and> dom (map_of m') = dom (map_of ?m) \<union> plan_ctx ` set srcs \<and>
    (\<forall>c qp. map_of ?m c = Some qp \<longrightarrow> map_of m' c = Some qp) \<and>
    (\<forall>src\<in>set srcs. \<exists>qp. map_of m' (plan_ctx src) = Some qp \<and> plan_for src qp)"
    using Cons.prems(1,2,4,5) by (intro Cons.IH) (auto simp: sorted_map_insert mo image_iff)
  then obtain mgr' m' where r: "parse_plans srcs ?mgr = Inr mgr'" "m' = (case qp_result mgr' of None \<Rightarrow> [] | Some m \<Rightarrow> m)"
    "sorted_wrt (<) (map fst m')" "dom (map_of m') = dom (map_of ?m) \<union> plan_ctx ` set srcs"
    "\<forall>c qp. map_of ?m c = Some qp \<longrightarrow> map_of m' c = Some qp"
    "\<forall>src\<in>set srcs. \<exists>qp. map_of m' (plan_ctx src) = Some qp \<and> plan_for src qp" by blast
  have "map_of m' c = Some p" if "map_of m c = Some p" for c p
  proof -
    from that Cons.prems(5) have "c \<noteq> plan_ctx src" by auto
    with that mo have "map_of ?m c = Some p" by simp
    with r(5) show ?thesis by blast
  qed
  moreover have "map_of m' (plan_ctx src) = Some qp" using r(5) mo by simp
  ultimately show ?case using q r mo by (intro exI [of _ mgr'] exI [of _ m']) auto
qed auto

text \<open>What a client of a signature looks up: every atom is found by its text, and by its identifier.\<close>

definition signature_in :: "nat \<Rightarrow> (32 word \<times> string list) list \<Rightarrow> BeliefTable \<Rightarrow> bool" where
  "signature_in ctx source t \<longleftrightarrow> (\<forall>(a, tuples)\<in>set source. tuple_text tuples = Inr (signature_text tuples) \<and>
     (let x = \<lparr>kind = MAINKIND_BELIEF OR ucast (of_nat ctx :: 16 word), address = a\<rparr> in
      bt_getIDByString t (signature_text tuples) = x \<and>
      bt_getByID t x = Inr (Belief_new_at (of_nat ctx) a (signature_text tuples))))"

lemma signature_table_in:
  assumes "signature_ok source"
  shows "signature_in ctx source (signature_table ctx source)"
proof -
  have "tuple_text tu = Inr (signature_text tu)" if "(a, tu) \<in> set source" for a tu
    using assms that by (cases tu) (auto simp: signature_ok_def tuple_text_def signature_text_def)
  with signature_table_lookup [OF assms] show ?thesis
    by (auto simp: signature_in_def b_id_def Belief_new_at_def split: prod.splits)
qed

text \<open>
  C35. Reading a query plan: when the contexts are different and their signatures can be registered, the map
  has exactly the contexts of the source, each with its host, port and constants. A plan has a local and an input signature
  exactly when the source has them, and in both signatures every atom of the source is found by its text, with the address that the
  source gives it and the context's number, and by its identifier.
\<close>

theorem query_plan_read:
  assumes "srcs \<noteq> []" and "\<forall>src\<in>set srcs. plan_ok src" and "distinct (map plan_ctx srcs)"
  shows "\<exists>mgr m. parse_plans srcs QueryPlanGrammarSemantics_new = Inr mgr \<and> qp_result mgr = Some m \<and>
    dom (map_of m) = plan_ctx ` set srcs \<and>
    (\<forall>src\<in>set srcs. \<exists>qp. map_of m (plan_ctx src) = Some qp \<and> cqp_hostname qp = ps_host src \<and> cqp_port qp = ps_port src \<and>
       cqp_constants qp = Some (ps_constants src) \<and>
       rel_option (signature_in (plan_ctx src)) (ps_local src) (localSignature qp) \<and>
       rel_option (signature_in (plan_ctx src)) (ps_input src) (groundInputSignature qp))"
proof -
  from parse_plans_ok [OF assms(2,3) refl, of QueryPlanGrammarSemantics_new] obtain mgr m where
    m: "parse_plans srcs QueryPlanGrammarSemantics_new = Inr mgr" "m = (case qp_result mgr of None \<Rightarrow> [] | Some m \<Rightarrow> m)"
    "dom (map_of m) = plan_ctx ` set srcs" "\<forall>src\<in>set srcs. \<exists>qp. map_of m (plan_ctx src) = Some qp \<and> plan_for src qp"
    by (auto simp: QueryPlanGrammarSemantics_new_def)
  have r: "qp_result mgr = Some m" using m(2,3) assms(1) by (cases "qp_result mgr") auto
  have sig: "rel_option (signature_in c) x (map_option (signature_table c) x)" if "pred_option signature_ok x" for c x
    using that signature_table_in by (cases x) auto
  have "rel_option (signature_in (plan_ctx src)) (ps_local src) (localSignature qp) \<and>
      rel_option (signature_in (plan_ctx src)) (ps_input src) (groundInputSignature qp)" if "src \<in> set srcs" "plan_for src qp" for src qp
    using that assms(2) sig by (simp add: plan_for_def plan_ok_def)
  with m r show ?thesis by (intro exI [of _ mgr] exI [of _ m]) (fastforce simp: plan_for_def)
qed

theorem query_plan_read_witness:
  "\<exists>mgr m qp t u. parse_plans [\<lparr>ps_ctx = 2, ps_host = ''h'', ps_port = 5000, ps_constants = [''a''], ps_categories = None,
       ps_predicates = None, ps_filters = None, ps_local = Some [(3, [''q''])], ps_input = Some [(1, [''p'', ''a''])]\<rparr>]
       QueryPlanGrammarSemantics_new = Inr mgr \<and> qp_result mgr = Some m \<and> map_of m 2 = Some qp \<and> cqp_port qp = 5000 \<and>
     localSignature qp = Some t \<and> address (bt_getIDByString t ''q'') = 3 \<and>
     groundInputSignature qp = Some u \<and> address (bt_getIDByString u ''p(a)'') = 1"
proof -
  let ?src = "\<lparr>ps_ctx = 2, ps_host = ''h'', ps_port = 5000, ps_constants = [''a''], ps_categories = None,
       ps_predicates = None, ps_filters = None, ps_local = Some [(3, [''q''])], ps_input = Some [(1, [''p'', ''a''])]\<rparr>"
  have tx: "signature_text [''p'', ''a''] = ''p(a)''" "signature_text [''q''] = ''q''" by code_simp+
  have ok: "\<forall>src\<in>set [?src]. plan_ok src" by (simp add: plan_ok_def signature_ok_def tx)
  have c: "plan_ctx ?src = 2" by (simp add: plan_ctx_def SIZE_T_def)
  obtain mgr m qp where m: "parse_plans [?src] QueryPlanGrammarSemantics_new = Inr mgr" "qp_result mgr = Some m" "map_of m 2 = Some qp"
    "cqp_port qp = 5000" and s: "rel_option (signature_in 2) (ps_local ?src) (localSignature qp)"
    "rel_option (signature_in 2) (ps_input ?src) (groundInputSignature qp)"
    using query_plan_read [OF _ ok] c by auto
  obtain t u where t: "localSignature qp = Some t" "signature_in 2 [(3, [''q''])] t" and u: "groundInputSignature qp = Some u"
    "signature_in 2 [(1, [''p'', ''a''])] u"
    using s by (auto simp: option_rel_Some1)
  have "address (bt_getIDByString t ''q'') = 3" "address (bt_getIDByString u ''p(a)'') = 1"
    using t(2) u(2) by (simp_all add: signature_in_def tx Let_def)
  with m t(1) u(1) show ?thesis by blast
qed

end
