(* ===== verification/Context_Solving.thy ===== *)
theory Context_Solving
  imports Local_Evaluator Guessing Cache_Position Query_Plan
begin

text \<open>
  The part of a context that normal contexts and cycle breakers share (\<open>src/mcs/NewContext.cpp\<close>):
  evaluating the bridge rules under an input, handing the heads to the evaluator, reading the models
  back and sending them, projected to the interface of the invoking context, to the output
  dispatcher. The evaluator's thread serves one request at a time, so its run is the call of \<open>solve\<close>
  between the send to \<open>EVAL_IN_MQ\<close> and the receives from \<open>EVAL_OUT_MQ\<close>.
\<close>

section \<open>State\<close>

type_synonym ReturnPlanMap = "qid \<rightharpoonup> NewBeliefState"

record NewContext =
  ctx_id :: nat
  ctx_offset :: nat
  cache :: CachePosition
  return_plan :: ReturnPlanMap
  queryplan_map :: ContextQueryPlanMap
  bridge_rules :: BridgeRuleTable
  total_guessing_input :: "NewBeliefState option"
  starting_guess :: "NewBeliefState option"

text \<open>
  What the evaluator's thread was started with: the solver, the recognition of its lines, the layout of
  belief states and the signature.
\<close>

record reasoner =
  r_dlv :: solver
  r_phrase :: recognizer
  r_inst :: "BeliefStateOffset option"
  r_signature :: BeliefTable

record context_world =
  ew :: eval_world
  output_mq :: "addr ReturnedBeliefState list"

definition NewContext_new :: "nat \<Rightarrow> nat \<Rightarrow> ReturnPlanMap \<Rightarrow> ContextQueryPlanMap \<Rightarrow> BridgeRuleTable \<Rightarrow> NewContext" where
  "NewContext_new cid coff rp qpm br =
     \<lparr>ctx_id = cid, ctx_offset = coff, cache = CachePosition_new, return_plan = rp, queryplan_map = qpm,
      bridge_rules = br, total_guessing_input = None, starting_guess = None\<rparr>"

section \<open>Operations\<close>

definition send_out_result :: "'z NewContext_scheme \<Rightarrow> qid \<Rightarrow> bool \<Rightarrow> HeadsPlusBeliefState \<Rightarrow> addr \<Rightarrow> context_world
    \<Rightarrow> (bool \<times> context_world) res" where
  "send_out_result cx parent_qid normal_solve heads a w =
     bind_res
       (if getHeads heads \<noteq> None then
          let parent_ctx_id = invoker_from_qid parent_qid
          in case return_plan cx parent_ctx_id of None \<Rightarrow> Inl Assertion_Failed
             | Some iface \<Rightarrow>
                 bind_res (deref (mem (est (ew w))) a) (\<lambda>bs. assign_obj (est (ew w)) a (bs_and bs iface))
        else Inr (est (ew w)))
       (\<lambda>st. Inr (True, w\<lparr>ew := (ew w)\<lparr>est := st\<rparr>, output_mq := output_mq w @ [rbs_new (Some a) parent_qid]\<rparr>))"

text \<open>The loop of \<open>read_and_send\<close>; its list argument is what is waiting in \<open>EVAL_OUT_MQ\<close>.\<close>

fun read_and_send_loop :: "'z NewContext_scheme \<Rightarrow> qid \<Rightarrow> bool \<Rightarrow> nat \<Rightarrow> nat \<Rightarrow> HeadsBeliefStatePair list \<Rightarrow> context_world
    \<Rightarrow> (nat \<times> nat \<times> context_world) res" where
  "read_and_send_loop cx parent_qid normal_solve models_sent conflict_models [] w = Inl Blocked"
| "read_and_send_loop cx parent_qid normal_solve models_sent conflict_models ((heads, None) # q) w =
     Inr (models_sent, conflict_models, w\<lparr>ew := (ew w)\<lparr>eval_out := q\<rparr>\<rparr>)"
| "read_and_send_loop cx parent_qid normal_solve models_sent conflict_models ((heads, Some a) # q) w =
     bind_res (send_out_result cx parent_qid normal_solve heads a w) (\<lambda>(ok, w).
       if ok then read_and_send_loop cx parent_qid normal_solve (sz_add models_sent 1) conflict_models q w
       else read_and_send_loop cx parent_qid normal_solve models_sent (sz_add conflict_models 1) q w)"

definition read_and_send :: "'z NewContext_scheme \<Rightarrow> qid \<Rightarrow> bool \<Rightarrow> context_world \<Rightarrow> (nat \<times> nat \<times> context_world) res" where
  "read_and_send cx parent_qid normal_solve w =
     read_and_send_loop cx parent_qid normal_solve 0 0 (eval_out (ew w)) w"

text \<open>The results are the returned value, the new values of \<open>k1\<close> and \<open>k2\<close>, and the new states.\<close>

definition read_and_send_k1_k2 :: "'z NewContext_scheme \<Rightarrow> qid \<Rightarrow> nat \<Rightarrow> bool \<Rightarrow> nat \<Rightarrow> nat \<Rightarrow> context_world
    \<Rightarrow> (bool \<times> nat \<times> nat \<times> 'z NewContext_scheme \<times> context_world) res" where
  "read_and_send_k1_k2 cx parent_qid current_step normal_solve k1 k2 w =
     bind_res (read_and_send cx parent_qid normal_solve w) (\<lambda>(models_sent, conflict_models, w).
       if k1 = 0 \<and> k2 = 0 then Inr (False, k1, k2, cx, w)
       else let counter = models_counter (ev (ew w)) in
         assertion (conflict_models \<le> counter)
         (let counter = sz_sub counter conflict_models in
          if models_sent = 0 then
            assertion (counter < k1)
            (bind_res (if 0 < current_step then update_cache (cache cx) current_step counter else Inr (cache cx)) (\<lambda>c.
              Inr (False, sz_sub k1 counter, sz_sub k2 counter, cx\<lparr>cache := c\<rparr>, w)))
          else if models_sent < sz_add (sz_sub k2 k1) 1 then
            Inr (False, 1, sz_add (sz_sub (sz_sub k2 models_sent) k1) 1, cx, w)
          else assertion (models_sent = sz_add (sz_sub k2 k1) 1) (Inr (True, k1, k2, cx, w))))"

definition compute :: "reasoner \<Rightarrow> 'z NewContext_scheme \<Rightarrow> NewBeliefState \<Rightarrow> nat \<Rightarrow> nat \<Rightarrow> qid \<Rightarrow> nat \<Rightarrow> context_world
    \<Rightarrow> (bool \<times> nat \<times> nat \<times> 'z NewContext_scheme \<times> context_world) res" where
  "compute R cx input k1 k2 parent_qid current_step w =
     bind_res (bso_instance (r_inst R)) (\<lambda>bso.
     bind_res (evaluate_bridge_rules (r_inst R) (bridge_rules cx) input k1 k2 (bso_starting_offsets bso)) (\<lambda>heads.
     bind_res (solve (r_dlv R) (r_phrase R) (r_inst R) (ew w) (ctx_id cx) heads (r_signature R)) (\<lambda>e.
       read_and_send_k1_k2 cx parent_qid current_step True k1 k2 (w\<lparr>ew := e\<rparr>))))"

section \<open>What is sent\<close>

text \<open>A run sends new objects with the values \<open>vs\<close> as answers to \<open>q\<close>.\<close>

definition answers :: "qid \<Rightarrow> NewBeliefState list \<Rightarrow> context_world \<Rightarrow> context_world \<Rightarrow> bool" where
  "answers q vs w w' \<longleftrightarrow> (\<exists>as. output_mq w' = output_mq w @ map (\<lambda>a. rbs_new (Some a) q) as \<and>
     news (est (ew w)) (est (ew w')) as vs)"

lemma answers_Nil: "store_ok (est (ew w)) \<Longrightarrow> answers q [] w w"
  by (simp add: answers_def news_Nil)

lemma answers_trans:
  assumes "answers q vs w w1" and "answers q us w1 w2"
  shows "answers q (vs @ us) w w2"
proof -
  from assms(1) obtain as where "output_mq w1 = output_mq w @ map (\<lambda>a. rbs_new (Some a) q) as"
    "news (est (ew w)) (est (ew w1)) as vs" by (auto simp: answers_def)
  moreover from assms(2) obtain bs where "output_mq w2 = output_mq w1 @ map (\<lambda>a. rbs_new (Some a) q) bs"
    "news (est (ew w1)) (est (ew w2)) bs us" by (auto simp: answers_def)
  ultimately show ?thesis unfolding answers_def by (intro exI [of _ "as @ bs"]) (simp add: news_trans)
qed

lemma read_and_send_loop_ok:
  assumes "getHeads heads \<noteq> None" and "return_plan cx (invoker_from_qid q) = Some iface"
    and "news st (est (ew w)) (as @ bs) (vs @ us)" and "length as = length vs"
    and "length us = length bs" and "models_sent + length bs < SIZE_T"
  shows "\<exists>w'. read_and_send_loop cx q ns models_sent conf (map (\<lambda>a. (heads, Some a)) bs @ [(heads, None)]) w =
      Inr (models_sent + length bs, conf, w') \<and>
    output_mq w' = output_mq w @ map (\<lambda>a. rbs_new (Some a) q) bs \<and> eval_out (ew w') = [] \<and> ev (ew w') = ev (ew w) \<and>
    news st (est (ew w')) (as @ bs) (vs @ map (\<lambda>u. bs_and u iface) us)"
  using assms(3-6)
proof (induction bs arbitrary: w as vs us models_sent)
  case (Cons b bs)
  then obtain u us' where us: "us = u # us'" by (cases us) auto
  let ?st = "(est (ew w))\<lparr>mem := (mem (est (ew w)))(b \<mapsto> bs_and u iface)\<rparr>"
  define w1 where "w1 = w\<lparr>ew := (ew w)\<lparr>est := ?st\<rparr>, output_mq := output_mq w @ [rbs_new (Some b) q]\<rparr>"
  from news_assign [of st "est (ew w)" as b bs vs u us' "bs_and u iface"] Cons.prems us have
    m: "mem (est (ew w)) b = Some u" "assign_obj (est (ew w)) b (bs_and u iface) = Inr ?st"
    "news st ?st (as @ b # bs) (vs @ bs_and u iface # us')" by auto
  have "send_out_result cx q ns heads b w = Inr (True, w1)"
    using assms(1,2) m by (simp add: send_out_result_def deref_def w1_def)
  moreover have "sz_add models_sent 1 = models_sent + 1" using Cons.prems by (simp add: sz_add_small)
  ultimately have "read_and_send_loop cx q ns models_sent conf (map (\<lambda>a. (heads, Some a)) (b # bs) @ [(heads, None)]) w =
      read_and_send_loop cx q ns (models_sent + 1) conf (map (\<lambda>a. (heads, Some a)) bs @ [(heads, None)]) w1" by simp
  moreover have "news st (est (ew w1)) ((as @ [b]) @ bs) ((vs @ [bs_and u iface]) @ us')"
    using m(3) by (simp add: w1_def)
  from Cons.IH [OF this, of "models_sent + 1"] Cons.prems us obtain w' where
    "read_and_send_loop cx q ns (models_sent + 1) conf (map (\<lambda>a. (heads, Some a)) bs @ [(heads, None)]) w1 =
       Inr (models_sent + 1 + length bs, conf, w')"
    "output_mq w' = output_mq w1 @ map (\<lambda>a. rbs_new (Some a) q) bs" "eval_out (ew w') = []" "ev (ew w') = ev (ew w1)"
    "news st (est (ew w')) (as @ b # bs) (vs @ bs_and u iface # map (\<lambda>u. bs_and u iface) us')" by auto
  ultimately show ?case using us by (intro exI [of _ w']) (simp add: w1_def)
qed simp

section \<open>The contract of solving\<close>

text \<open>
  The output lines of the solver for an input, and the models of the context under the input: the
  answer sets that agree with it, each joined with it.
\<close>

definition local_lines :: "reasoner \<Rightarrow> nat \<Rightarrow> BridgeRuleTable \<Rightarrow> Evaluator \<Rightarrow> NewBeliefState \<Rightarrow> string list res" where
  "local_lines R ctx br e input =
     bind_res (bso_instance (r_inst R)) (\<lambda>bso.
     bind_res (evaluate_bridge_rules (r_inst R) br input 0 0 (bso_starting_offsets bso)) (\<lambda>heads.
     bind_res (reset_process (r_dlv R) (r_inst R) e ctx heads (r_signature R)) (\<lambda>(lines, _). Inr lines)))"

definition local_models :: "reasoner \<Rightarrow> BeliefStateOffset \<Rightarrow> nat \<Rightarrow> BridgeRuleTable \<Rightarrow> Evaluator \<Rightarrow> NewBeliefState \<Rightarrow> NewBeliefState list" where
  "local_models R bso ctx br e input = (case local_lines R ctx br e input of Inl _ \<Rightarrow> []
     | Inr lines \<Rightarrow> map (\<lambda>m. bs_or m input) (agreeing_models bso ctx input (line_state (r_phrase R) bso (r_signature R) ctx) lines))"

text \<open>
  Inputs that the evaluator serves in a request for models up to number \<open>k2\<close>: the output is read
  without an error, and the one object of the parser is used for one model only, because the solver
  has at most one answer set or because one model is asked for.
\<close>

definition solvable :: "reasoner \<Rightarrow> BeliefStateOffset \<Rightarrow> nat \<Rightarrow> BridgeRuleTable \<Rightarrow> Evaluator \<Rightarrow> nat \<Rightarrow> NewBeliefState \<Rightarrow> bool" where
  "solvable R bso ctx br e k2 input = (case local_lines R ctx br e input of Inl _ \<Rightarrow> False
     | Inr lines \<Rightarrow> length lines < SIZE_T \<and>
         lines_ok bso ctx input (line_state (r_phrase R) bso (r_signature R) ctx) (line_good (r_phrase R) bso (r_signature R) ctx) lines \<and>
         one_object bso ctx input (line_state (r_phrase R) bso (r_signature R) ctx) k2 lines)"

lemma next_request_one: "good_request k1 1 \<Longrightarrow> next_request k1 1 len = (a, b) \<Longrightarrow> b = 1"
  by (auto simp: good_request_def next_request_def split: if_splits)

lemma solvable_next:
  "good_request k1 k2 \<Longrightarrow> next_request k1 k2 len = (a, b) \<Longrightarrow> solvable R bso ctx br e k2 input \<Longrightarrow> solvable R bso ctx br e b input"
  using next_request_one by (auto simp: solvable_def one_object_def split: sum.splits)

definition world_ok :: "Evaluator \<Rightarrow> context_world \<Rightarrow> bool" where
  "world_ok e w \<longleftrightarrow> store_ok (est (ew w)) \<and> eval_out (ew w) = [] \<and> (\<exists>k. ev (ew w) = e\<lparr>models_counter := k\<rparr>)"

lemma evaluate_bridge_rules_request:
  "evaluate_bridge_rules inst br input 0 0 off = Inr heads \<Longrightarrow>
   evaluate_bridge_rules inst br input k1 k2 off = Inr (heads\<lparr>getK1 := k1, getK2 := k2\<rparr>) \<and>
   getHeads heads \<noteq> None \<and> getInputBeliefState heads = input"
  by (auto simp: evaluate_bridge_rules_def bind_res_eq_Inr Let_def)

lemma reset_process_request:
  "reset_process dlv inst e ctx heads btab = Inr (lines, e') \<Longrightarrow>
   reset_process dlv inst (e\<lparr>models_counter := k\<rparr>) ctx (heads\<lparr>getK1 := k1, getK2 := k2\<rparr>) btab =
     Inr (lines, e\<lparr>models_counter := 0\<rparr>)"
  by (auto simp: reset_process_def bind_res_eq_Inr Let_def)

text \<open>\<open>read_and_send_k1_k2\<close> after the evaluator has sent the requested ones of \<open>len\<close> models.\<close>

lemma k1_k2_arithmetic:
  assumes "good_request k1 k2" and "\<not> (k1 = 0 \<and> k2 = 0)" and "next_request k1 k2 len = (a, b)"
    and "models_sent = min (k2 + 1 - k1) (len - (k1 - 1))"
  shows "(if models_sent = 0 then
       assertion (min k2 len < k1) (bind_res (f (min k2 len)) (\<lambda>c. Inr (False, sz_sub k1 (min k2 len), sz_sub k2 (min k2 len), g c, w)))
     else if models_sent < sz_add (sz_sub k2 k1) 1 then Inr (False, 1, sz_add (sz_sub (sz_sub k2 models_sent) k1) 1, cx, w)
     else assertion (models_sent = sz_add (sz_sub k2 k1) 1) (Inr (True, k1, k2, cx, w))) =
    (if len < k1 then bind_res (f len) (\<lambda>c. Inr (False, a, b, g c, w)) else Inr (satisfied_by k1 k2 len, a, b, cx, w))"
proof -
  from assms(1,2) have k: "0 < k1" "k1 \<le> k2" "k2 < SIZE_T" by (auto simp: good_request_def)
  then have s: "sz_sub k2 k1 = k2 - k1" "sz_add (k2 - k1) 1 = k2 - k1 + 1"
    by (simp_all add: sz_sub_small sz_add_small)
  consider "len < k1" | "k1 \<le> len" "len < k2" | "k1 \<le> len" "k2 \<le> len" by linarith
  then show ?thesis
  proof cases
    case 1
    then have "models_sent = 0" "min k2 len = len" using k assms(4) by simp_all
    moreover have "sz_sub k1 len = k1 - len" "sz_sub k2 len = k2 - len" using 1 k by (simp_all add: sz_sub_small)
    moreover have "a = k1 - len" "b = k2 - len" using 1 k assms(3) by (simp_all add: next_request_def)
    ultimately show ?thesis using 1 by simp
  next
    case 2
    then have ms: "models_sent = len - (k1 - 1)" "0 < models_sent" "models_sent < k2 - k1 + 1" using k assms(4) by auto
    have "sz_sub k2 models_sent = k2 - models_sent" using 2 k ms by (simp add: sz_sub_small)
    moreover have "sz_sub (k2 - models_sent) k1 = k2 - models_sent - k1" using 2 k ms by (simp add: sz_sub_small)
    moreover have "sz_add (k2 - models_sent - k1) 1 = k2 - models_sent - k1 + 1" using k by (simp add: sz_add_small)
    moreover have "a = 1" "b = k2 - len" using 2 k assms(3) by (simp_all add: next_request_def)
    moreover have "k2 - models_sent - k1 + 1 = k2 - len" using 2 k ms by simp
    ultimately show ?thesis using 2 k ms s by (simp add: satisfied_by_def)
  next
    case 3
    then have ms: "models_sent = k2 - k1 + 1" using k assms(4) by simp
    moreover have "a = k1" "b = k2" using 3 assms(3) by (simp_all add: next_request_def)
    ultimately show ?thesis using 3 k s by (simp add: satisfied_by_def)
  qed
qed

locale local_reasoner =
  fixes R :: reasoner and ctx :: nat and bso :: BeliefStateOffset and br :: BridgeRuleTable and e :: Evaluator
  assumes inst: "r_inst R = Some bso"
begin

abbreviation models :: "NewBeliefState \<Rightarrow> NewBeliefState list" where
  "models \<equiv> local_models R bso ctx br e"

abbreviation model :: "string \<Rightarrow> NewBeliefState" where
  "model \<equiv> line_state (r_phrase R) bso (r_signature R) ctx"

abbreviation good :: "string \<Rightarrow> bool" where
  "good \<equiv> line_good (r_phrase R) bso (r_signature R) ctx"

lemma solve_models:
  assumes "world_ok e w" and "solvable R bso ctx br e k2 input" and "good_request k1 k2"
  shows "\<exists>heads e' as. evaluate_bridge_rules (r_inst R) br input k1 k2 (bso_starting_offsets bso) = Inr heads \<and>
    getHeads heads \<noteq> None \<and> solve (r_dlv R) (r_phrase R) (r_inst R) (ew w) ctx heads (r_signature R) = Inr e' \<and>
    eval_out e' = map (\<lambda>a. (heads, Some a)) as @ [(heads, None)] \<and>
    news (est (ew w)) (est e') as (requested k1 k2 (models input)) \<and> length (models input) < SIZE_T \<and>
    ev e' = e\<lparr>models_counter := if k2 = 0 then length (models input) else min k2 (length (models input))\<rparr>"
proof -
  from assms(2) obtain heads0 lines e1 where
    h: "evaluate_bridge_rules (r_inst R) br input 0 0 (bso_starting_offsets bso) = Inr heads0" and
    r: "reset_process (r_dlv R) (r_inst R) e ctx heads0 (r_signature R) = Inr (lines, e1)" and
    l: "local_lines R ctx br e input = Inr lines" "length lines < SIZE_T" "lines_ok bso ctx input model good lines" "one_object bso ctx input model k2 lines"
    by (auto simp: solvable_def local_lines_def inst bso_instance_def bind_res_eq_Inr split: sum.splits)
  define heads where "heads = heads0\<lparr>getK1 := k1, getK2 := k2\<rparr>"
  define ms where "ms = agreeing_models bso ctx input model lines"
  have hd: "evaluate_bridge_rules (r_inst R) br input k1 k2 (bso_starting_offsets bso) = Inr heads"
    "getHeads heads \<noteq> None" "getInputBeliefState heads = input" "getK1 heads = k1" "getK2 heads = k2"
    using evaluate_bridge_rules_request [OF h, of k1 k2] by (simp_all add: heads_def)
  from assms(1) obtain k where w: "store_ok (est (ew w))" "eval_out (ew w) = []" "ev (ew w) = e\<lparr>models_counter := k\<rparr>"
    by (auto simp: world_ok_def)
  have rp: "reset_process (r_dlv R) (Some bso) (ev (ew w)) ctx heads (r_signature R) = Inr (lines, e\<lparr>models_counter := 0\<rparr>)"
    using reset_process_request [OF r, where k = k and ?k1.0 = k1 and ?k2.0 = k2] by (simp add: w(3) heads_def inst)
  have ms': "models input = map (\<lambda>m. bs_or m input) ms" by (simp add: local_models_def l(1) ms_def)
  have len: "length ms < SIZE_T"
    unfolding ms_def agreeing_models_def answer_lines_def
    by (metis (no_types, lifting) l(2) length_filter_le length_map length_takeWhile_le order_le_less_trans)
  from solve_ok [OF rp w(1) l(2), of "r_phrase R" ms] assms(3) l(3,4) obtain w' where
    s: "solve (r_dlv R) (r_phrase R) (Some bso) (ew w) ctx heads (r_signature R) = Inr (w'\<lparr>eval_out := eval_out w' @ [(heads, None)]\<rparr>)"
    "sends heads (requested k1 k2 ms) (ew w) w'"
    "ev w' = (ev (ew w))\<lparr>models_counter := if k2 = 0 then length ms else min k2 (length ms)\<rparr>"
    by (auto simp: hd ms_def)
  from s(2) w(2) hd(3) obtain as where "eval_out w' = map (\<lambda>a. (heads, Some a)) as"
    "news (est (ew w)) (est w') as (map (\<lambda>m. bs_or m input) (requested k1 k2 ms))" by (auto simp: sends_def)
  moreover have "map (\<lambda>m. bs_or m input) (requested k1 k2 ms) = requested k1 k2 (models input)"
    by (simp add: ms' requested_def model_range_def take_map drop_map)
  ultimately show ?thesis using s hd len w(3)
    by (intro exI [of _ heads] exI [of _ "w'\<lparr>eval_out := eval_out w' @ [(heads, None)]\<rparr>"] exI [of _ as])
      (simp add: ms' inst)
qed

lemma length_requested:
  "good_request k1 k2 \<Longrightarrow> \<not> (k1 = 0 \<and> k2 = 0) \<Longrightarrow>
   length (requested k1 k2 xs) = min (k2 + 1 - k1) (length xs - (k1 - 1))"
  by (auto simp: requested_def length_model_range)

lemma compute_ok:
  assumes cx: "ctx_id cx = ctx" "bridge_rules cx = br" "return_plan cx (invoker_from_qid q) = Some iface"
    and w: "world_ok e w" and s: "solvable R bso ctx br e k2 input" and k: "good_request k1 k2"
    and n: "next_request k1 k2 (length (models input)) = (a, b)"
  shows "\<exists>w'. compute R cx input k1 k2 q step w =
      bind_res (if 0 < step \<and> length (models input) < k1 then update_cache (cache cx) step (length (models input))
                else Inr (cache cx))
        (\<lambda>c. Inr (satisfied_by k1 k2 (length (models input)), a, b, cx\<lparr>cache := c\<rparr>, w')) \<and>
    world_ok e w' \<and> answers q (map (\<lambda>m. bs_and m iface) (requested k1 k2 (models input))) w w'"
proof -
  let ?len = "length (models input)"
  from solve_models [OF w s k] obtain heads e' as where
    h: "evaluate_bridge_rules (r_inst R) br input k1 k2 (bso_starting_offsets bso) = Inr heads" "getHeads heads \<noteq> None"
    "solve (r_dlv R) (r_phrase R) (r_inst R) (ew w) ctx heads (r_signature R) = Inr e'"
    "eval_out e' = map (\<lambda>a. (heads, Some a)) as @ [(heads, None)]"
    "news (est (ew w)) (est e') as (requested k1 k2 (models input))" "?len < SIZE_T"
    "ev e' = e\<lparr>models_counter := if k2 = 0 then ?len else min k2 ?len\<rparr>" by blast
  from h(5) have las: "length (requested k1 k2 (models input)) = length as"
    unfolding news_def by (metis length_map)
  have "length as \<le> ?len" unfolding las [symmetric] by (auto simp: requested_def model_range_def)
  with h(6) have "0 + length as < SIZE_T" by simp
  moreover have "news (est (ew w)) (est (ew (w\<lparr>ew := e'\<rparr>))) ([] @ as) ([] @ requested k1 k2 (models input))"
    using h(5) by simp
  ultimately obtain w' where
    r: "read_and_send_loop cx q True 0 0 (map (\<lambda>a. (heads, Some a)) as @ [(heads, None)]) (w\<lparr>ew := e'\<rparr>) = Inr (length as, 0, w')"
    "output_mq w' = output_mq w @ map (\<lambda>a. rbs_new (Some a) q) as" "eval_out (ew w') = []" "ev (ew w') = ev e'"
    "news (est (ew w)) (est (ew w')) as (map (\<lambda>u. bs_and u iface) (requested k1 k2 (models input)))"
    using read_and_send_loop_ok [OF h(2) cx(3), of "est (ew w)" "w\<lparr>ew := e'\<rparr>" "[]" as "[]" "requested k1 k2 (models input)" 0 True 0] las
    by auto
  have world: "world_ok e w'" using r h(7) news_store_ok [OF r(5)] by (auto simp: world_ok_def)
  have ans: "answers q (map (\<lambda>m. bs_and m iface) (requested k1 k2 (models input))) w w'"
    using r by (auto simp: answers_def)
  have c: "compute R cx input k1 k2 q step w = read_and_send_k1_k2 cx q step True k1 k2 (w\<lparr>ew := e'\<rparr>)"
    using h(1,3) by (simp add: compute_def inst bso_instance_def cx)
  have rs: "read_and_send cx q True (w\<lparr>ew := e'\<rparr>) = Inr (length as, 0, w')"
    using r(1) h(4) by (simp add: read_and_send_def)
  show ?thesis
  proof (cases "k1 = 0 \<and> k2 = 0")
    case True
    with n have "a = 0" "b = 0" by (simp_all add: next_request_def)
    with True world ans c rs show ?thesis
      by (intro exI [of _ w']) (simp add: read_and_send_k1_k2_def satisfied_by_def)
  next
    case False
    then have k2: "k2 \<noteq> 0" using k by (auto simp: good_request_def)
    have counter: "models_counter (ev (ew w')) = min k2 ?len" using r(4) h(7) k2 by simp
    have sent: "length as = min (k2 + 1 - k1) (?len - (k1 - 1))" using length_requested [OF k False, of "models input"] las by simp
    have z: "sz_sub (min k2 ?len) 0 = min k2 ?len" using h(6) by (simp add: sz_sub_def)
    have "compute R cx input k1 k2 q step w =
      (if length as = 0 then
         assertion (min k2 ?len < k1) (bind_res (if 0 < step then update_cache (cache cx) step (min k2 ?len) else Inr (cache cx))
           (\<lambda>c. Inr (False, sz_sub k1 (min k2 ?len), sz_sub k2 (min k2 ?len), cx\<lparr>cache := c\<rparr>, w')))
       else if length as < sz_add (sz_sub k2 k1) 1 then Inr (False, 1, sz_add (sz_sub (sz_sub k2 (length as)) k1) 1, cx, w')
       else assertion (length as = sz_add (sz_sub k2 k1) 1) (Inr (True, k1, k2, cx, w')))"
      unfolding c read_and_send_k1_k2_def rs using k2 counter z by (simp add: Let_def)
    also have "\<dots> = (if ?len < k1 then bind_res (if 0 < step then update_cache (cache cx) step ?len else Inr (cache cx))
        (\<lambda>c. Inr (False, a, b, cx\<lparr>cache := c\<rparr>, w')) else Inr (satisfied_by k1 k2 ?len, a, b, cx, w'))"
      by (rule k1_k2_arithmetic [OF k False n sent, where f = "\<lambda>m. if 0 < step then update_cache (cache cx) step m else Inr (cache cx)"])
    finally have "compute R cx input k1 k2 q step w = \<dots>" .
    moreover have "?len < k1 \<Longrightarrow> \<not> satisfied_by k1 k2 ?len" using k by (auto simp: satisfied_by_def good_request_def)
    ultimately show ?thesis using world ans by (intro exI [of _ w']) (cases "?len < k1"; simp)
  qed
qed

end

text \<open>The evaluator's thread of a context: its solver, the grammar of its answer sets and its signature.\<close>

definition dlv_reasoner :: "solver \<Rightarrow> recognizer \<Rightarrow> BeliefStateOffset \<Rightarrow> BeliefTable \<Rightarrow> reasoner" where
  "dlv_reasoner dlv phrase_parse bso btab = \<lparr>r_dlv = dlv, r_phrase = phrase_parse, r_inst = Some bso, r_signature = btab\<rparr>"

interpretation dlv_ctx: local_reasoner "dlv_reasoner dlv phrase_parse bso btab" ctx bso br e
  for dlv phrase_parse bso btab ctx br e
  by unfold_locales (simp add: dlv_reasoner_def)

end
