(* ===== verification/Join_Odometer.thy ===== *)
theory Join_Odometer
  imports Messages Belief_Combine
begin

text \<open>
  The two functions \<open>StreamingJoiner::join\<close> (\<open>src/mcs/StreamingJoiner.cpp\<close>): one combines one
  belief state per neighbor, the other runs through all choices of one belief state per neighbor
  with a vector of iterators that is advanced like an odometer.
\<close>

section \<open>Definitions\<close>

fun combine_run :: "BeliefStateOffset \<Rightarrow> NewBeliefState \<Rightarrow> NewBeliefState list \<Rightarrow> NewBeliefState option res" where
  "combine_run bso result [] = Inr (Some result)"
| "combine_run bso result (next_bs # it) =
     bind_res (combine result next_bs (bso_starting_offsets bso) (bso_masks bso)) (\<lambda>(ok, result).
       if \<not> ok then Inr None else combine_run bso result it)"

text \<open>The one-shot join; the result is the new belief state, or \<open>None\<close> when the join fails.\<close>

definition join_one :: "BeliefStateOffset option \<Rightarrow> NewBeliefState list \<Rightarrow> NewBeliefState option res" where
  "join_one inst run_it = (case run_it of [] \<Rightarrow> Inl Undefined_Behaviour
     | first_bs # it \<Rightarrow> bind_res (bs_copy first_bs) (\<lambda>result.
         bind_res (bso_instance inst) (\<lambda>bso. combine_run bso result it)))"

text \<open>
  Iterators are positions in the vectors. \<open>advance\<close> is the inner \<open>while\<close> loop; its first argument
  and result is \<open>inc + 1\<close>, so that 0 stands for \<open>inc = -1\<close>.
\<close>

fun advance :: "nat \<Rightarrow> nat list \<Rightarrow> nat list \<Rightarrow> nat \<times> nat list" where
  "advance 0 run_it end_it = (0, run_it)"
| "advance (Suc inc) run_it end_it =
     (let run_it = run_it[inc := run_it ! inc + 1]
      in if run_it ! inc \<noteq> end_it ! inc then (Suc inc, run_it) else advance inc run_it end_it)"

fun deref_run :: "'a list list \<Rightarrow> nat list \<Rightarrow> 'a list res" where
  "deref_run [] [] = Inr []"
| "deref_run (v # vs) (r # rs) = bind_res (vec_at v r) (\<lambda>x. bind_res (deref_run vs rs) (\<lambda>xs. Inr (x # xs)))"
| "deref_run _ _ = Inl Undefined_Behaviour"

fun join_loop :: "nat \<Rightarrow> BeliefStateOffset option \<Rightarrow> qid \<Rightarrow> NewBeliefState list list \<Rightarrow> nat list
    \<Rightarrow> returned list \<Rightarrow> bool \<Rightarrow> (bool \<times> returned list) res" where
  "join_loop 0 inst q input run_it joined_results ret = Inl Out_Of_Fuel"
| "join_loop (Suc fuel) inst q input run_it joined_results ret =
     bind_res (deref_run input run_it) (\<lambda>bss.
     bind_res (join_one inst bss) (\<lambda>r.
       let joined_results = (case r of None \<Rightarrow> joined_results
                             | Some b \<Rightarrow> joined_results @ [rbs_new (Some b) q]);
           ret = (ret \<or> r \<noteq> None);
           n = length input;
           (inc1, run_it) = advance n run_it (map length input);
           run_it = take inc1 run_it @ replicate (n - inc1) 0
       in if inc1 = 0 then Inr (ret, joined_results)
          else join_loop fuel inst q input run_it joined_results ret))"

definition join_all :: "nat \<Rightarrow> BeliefStateOffset option \<Rightarrow> qid \<Rightarrow> NewBeliefState list list
    \<Rightarrow> returned list \<Rightarrow> (bool \<times> returned list) res" where
  "join_all fuel inst q input joined_results =
     (if input = [] then Inr (False, joined_results)
      else join_loop fuel inst q input (replicate (length input) 0) joined_results False)"

section \<open>The order in which the choices are visited\<close>

text \<open>A list is a chain of a partial successor function when each element leads to the next.\<close>

fun chain :: "('a \<Rightarrow> 'a option) \<Rightarrow> 'a list \<Rightarrow> bool" where
  "chain s [] = False"
| "chain s [x] = (s x = None)"
| "chain s (x # y # ys) = (s x = Some y \<and> chain s (y # ys))"

fun succ_run :: "nat list \<Rightarrow> nat list \<Rightarrow> nat list option" where
  "succ_run (m # ms) (r # rs) = (case succ_run ms rs of Some rs' \<Rightarrow> Some (r # rs')
     | None \<Rightarrow> if Suc r < m then Some (Suc r # replicate (length rs) 0) else None)"
| "succ_run _ _ = None"

lemma chain_append:
  assumes "xs \<noteq> []" and "ys \<noteq> []"
    and "\<And>k. Suc k < length xs \<Longrightarrow> s (xs ! k) = Some (xs ! Suc k)"
    and "s (last xs) = Some (hd ys)" and "chain s ys"
  shows "chain s (xs @ ys)"
  using assms
proof (induction xs)
  case (Cons x xs)
  show ?case
  proof (cases xs)
    case Nil
    with Cons.prems show ?thesis by (cases ys) auto
  next
    case (Cons x' xs')
    have "s ((x' # xs') ! k) = Some ((x' # xs') ! Suc k)" if "Suc k < length (x' # xs')" for k
      using Cons.prems(3) [of "Suc k"] that Cons by simp
    moreover have "s x = Some x'" using Cons.prems(3) [of 0] Cons by simp
    ultimately show ?thesis using Cons.IH Cons.prems Cons by simp
  qed
qed simp

lemma chain_of_steps:
  assumes "xs \<noteq> []" and "\<And>k. Suc k < length xs \<Longrightarrow> s (xs ! k) = Some (xs ! Suc k)"
    and "s (last xs) = None"
  shows "chain s xs"
  using assms
proof (induction xs)
  case (Cons x xs)
  show ?case
  proof (cases xs)
    case (Cons x' xs')
    have "s ((x' # xs') ! k) = Some ((x' # xs') ! Suc k)" if "Suc k < length (x' # xs')" for k
      using Cons.prems(2) [of "Suc k"] that Cons by simp
    moreover have "s x = Some x'" using Cons.prems(2) [of 0] Cons by simp
    ultimately show ?thesis using Cons.IH Cons.prems Cons by simp
  qed (use Cons.prems in simp)
qed simp

lemma chain_nth: "chain s xs \<Longrightarrow> Suc k < length xs \<Longrightarrow> s (xs ! k) = Some (xs ! Suc k)"
  by (induction s xs arbitrary: k rule: chain.induct) (auto simp: nth_Cons split: nat.splits)

lemma chain_last: "chain s xs \<Longrightarrow> s (last xs) = None"
  by (induction s xs rule: chain.induct) auto

definition all_runs :: "nat list \<Rightarrow> nat list list" where
  "all_runs ms = product_lists (map (\<lambda>m. [0..<m]) ms)"

lemma all_runs_simps:
  "all_runs [] = [[]]"
  "all_runs (m # ms) = concat (map (\<lambda>r. map (Cons r) (all_runs ms)) [0..<m])"
  by (simp_all add: all_runs_def)

lemma length_in_all_runs: "run \<in> set (all_runs ms) \<Longrightarrow> length run = length ms"
  by (induction ms arbitrary: run) (auto simp: all_runs_simps)

lemma chain_digit:
  assumes L: "chain (succ_run ms) L" "hd L = replicate (length ms) 0"
    "\<And>run. run \<in> set L \<Longrightarrow> length run = length ms" and "k < m"
  shows "chain (succ_run (m # ms)) (concat (map (\<lambda>r. map (Cons r) L) [k..<m]))"
  using assms(4)
proof (induction "m - k" arbitrary: k)
  case (Suc d)
  from L(1) have ne: "L \<noteq> []" by auto
  have step: "succ_run (m # ms) (map (Cons k) L ! i) = Some (map (Cons k) L ! Suc i)"
    if "Suc i < length (map (Cons k) L)" for i
    using chain_nth [OF L(1)] that by simp
  have last: "succ_run (m # ms) (last (map (Cons k) L)) =
      (if Suc k < m then Some (Suc k # replicate (length ms) 0) else None)"
    using ne chain_last [OF L(1)] L(3) [OF last_in_set] by (simp add: last_map)
  show ?case
  proof (cases "Suc k < m")
    case True
    with Suc have IH: "chain (succ_run (m # ms)) (concat (map (\<lambda>r. map (Cons r) L) [Suc k..<m]))"
      by (intro Suc.hyps) auto
    moreover have "hd (concat (map (\<lambda>r. map (Cons r) L) [Suc k..<m])) = Suc k # replicate (length ms) 0"
      using True ne L(2) by (simp add: upt_conv_Cons hd_append hd_map)
    moreover have "concat (map (\<lambda>r. map (Cons r) L) [Suc k..<m]) \<noteq> []"
      using IH by (metis chain.simps(1))
    ultimately have "chain (succ_run (m # ms)) (map (Cons k) L @ concat (map (\<lambda>r. map (Cons r) L) [Suc k..<m]))"
      using step last True ne by (intro chain_append) auto
    with Suc.prems show ?thesis by (simp add: upt_conv_Cons)
  next
    case False
    with Suc.prems have m: "m = Suc k" by simp
    have "chain (succ_run (m # ms)) (map (Cons k) L)"
      using ne step last m by (intro chain_of_steps) auto
    with m show ?thesis by simp
  qed
qed simp

lemma chain_all_runs:
  "list_all (\<lambda>m. 0 < m) ms \<Longrightarrow>
     chain (succ_run ms) (all_runs ms) \<and> hd (all_runs ms) = replicate (length ms) 0"
proof (induction ms)
  case Nil
  then show ?case by (simp add: all_runs_simps)
next
  case (Cons m ms)
  then have IH: "chain (succ_run ms) (all_runs ms)" "hd (all_runs ms) = replicate (length ms) 0"
    and m: "0 < m" by auto
  then have "all_runs ms \<noteq> []" by auto
  then have "hd (all_runs (m # ms)) = replicate (length (m # ms)) 0"
    using m IH(2) by (simp add: all_runs_simps upt_conv_Cons hd_append hd_map)
  with chain_digit [OF IH length_in_all_runs m] show ?case by (simp add: all_runs_simps)
qed

text \<open>The iterator vector moves exactly as \<open>succ_run\<close> says.\<close>

lemma advance_append:
  "n \<le> length rs \<Longrightarrow> length rs = length ms \<Longrightarrow>
     advance (Suc n) (r # rs) (m # ms) =
       (case advance n rs ms of (0, rs') \<Rightarrow> advance 1 (r # rs') (m # ms)
        | (Suc j, rs') \<Rightarrow> (Suc (Suc j), r # rs'))"
proof (induction n arbitrary: rs)
  case (Suc n)
  then show ?case by (subst advance.simps) (simp add: Let_def)
qed simp

lemma length_advance: "advance n rs ms = (j, rs') \<Longrightarrow> length rs' = length rs \<and> j \<le> n"
proof (induction n arbitrary: rs)
  case (Suc n)
  let ?rs = "rs[n := rs ! n + 1]"
  show ?case
  proof (cases "?rs ! n \<noteq> ms ! n")
    case False
    with Suc.prems have "advance n ?rs ms = (j, rs')" by (simp add: Let_def)
    from Suc.IH [OF this] show ?thesis by simp
  qed (use Suc.prems in \<open>auto simp: Let_def\<close>)
qed simp

lemma advance_one:
  "advance 1 (r # rs) (m # ms) = (if Suc r \<noteq> m then (1, Suc r # rs) else (0, Suc r # rs))"
  by (simp add: Let_def)

lemma advance_succ_run:
  assumes "length run = length ms" and "list_all2 (<) run ms"
    and "advance (length ms) run ms = (j, run')"
  shows "(if j = 0 then None else Some (take j run' @ replicate (length ms - j) 0)) = succ_run ms run"
  using assms
proof (induction ms arbitrary: run j run')
  case (Cons m ms)
  then obtain r rs where run: "run = r # rs" by (cases run) auto
  obtain j0 rs' where a: "advance (length ms) rs ms = (j0, rs')" by force
  with Cons run have IH:
    "(if j0 = 0 then None else Some (take j0 rs' @ replicate (length ms - j0) 0)) = succ_run ms rs"
    by auto
  from a Cons.prems run have len: "length rs' = length ms" using length_advance by auto
  have adv: "advance (length (m # ms)) run (m # ms) =
      (case j0 of 0 \<Rightarrow> advance 1 (r # rs') (m # ms) | Suc j \<Rightarrow> (Suc (Suc j), r # rs'))"
    using advance_append [of "length ms" rs ms r m] Cons.prems run a by (simp split: nat.splits)
  show ?case
  proof (cases j0)
    case 0
    then have "(j, run') = (if Suc r \<noteq> m then (1, Suc r # rs') else (0, Suc r # rs'))"
      using adv Cons.prems(3) advance_one by simp
    then show ?thesis using 0 IH Cons.prems run len by (auto split: if_splits)
  next
    case (Suc j1)
    then have "j = Suc (Suc j1)" "run' = r # rs'" using adv Cons.prems(3) by auto
    then show ?thesis using Suc IH [symmetric] run by simp
  qed
qed simp

section \<open>The outcome of a join\<close>

text \<open>
  What the join of one choice yields, and the results of all choices in the order of
  \<open>product_lists\<close>, where the last neighbor varies fastest.
\<close>

definition join_tuple :: "BeliefStateOffset option \<Rightarrow> NewBeliefState list \<Rightarrow> NewBeliefState option" where
  "join_tuple inst bss = (case join_one inst bss of Inr r \<Rightarrow> r | Inl e \<Rightarrow> None)"

definition joins :: "BeliefStateOffset option \<Rightarrow> NewBeliefState list list \<Rightarrow> NewBeliefState list" where
  "joins inst input = List.map_filter (join_tuple inst) (product_lists input)"

lemma deref_all_runs:
  "run \<in> set (all_runs (map length input)) \<Longrightarrow> \<exists>bss. deref_run input run = Inr bss"
  by (induction input arbitrary: run) (fastforce simp: all_runs_simps)+

lemma map_deref_all_runs:
  "map (deref_run input) (all_runs (map length input)) = map Inr (product_lists input)"
proof (induction input)
  case (Cons v vs)
  have "map (deref_run (v # vs) \<circ> Cons r) (all_runs (map length vs)) = map (\<lambda>xs. Inr (v ! r # xs)) (product_lists vs)"
    if "r < length v" for r
  proof -
    have "map (deref_run (v # vs) \<circ> Cons r) (all_runs (map length vs)) =
        map (\<lambda>x. bind_res x (\<lambda>xs. Inr (v ! r # xs))) (map (deref_run vs) (all_runs (map length vs)))"
      using that by simp
    also have "\<dots> = map (\<lambda>xs. Inr (v ! r # xs)) (product_lists vs)"
      unfolding Cons by simp
    finally show ?thesis .
  qed
  then have "map (deref_run (v # vs)) (all_runs (map length (v # vs))) =
      concat (map (\<lambda>r. map (\<lambda>xs. Inr (v ! r # xs)) (product_lists vs)) [0..<length v])"
    by (simp only: all_runs_simps list.map map_concat map_map comp_def)
      (rule arg_cong [where f = concat], rule map_cong, simp_all add: comp_def)
  also have "\<dots> = concat (map (\<lambda>x. map (\<lambda>xs. Inr (x # xs)) (product_lists vs)) (map ((!) v) [0..<length v]))"
    by (simp add: comp_def)
  finally show ?case by (simp add: map_nth map_concat comp_def)
qed (simp add: all_runs_simps)

lemma all_runs_less: "run \<in> set (all_runs ms) \<Longrightarrow> list_all2 (<) run ms"
  by (induction ms arbitrary: run) (auto simp: all_runs_simps)

lemma join_step:
  assumes "deref_run input run = Inr bss" and "is_ok (join_one inst bss)"
    and "length run = length input" and "list_all2 (<) run (map length input)"
  shows "join_loop (Suc fuel) inst q input run acc ret =
    (let r = join_tuple inst bss;
         acc = (case r of None \<Rightarrow> acc | Some b \<Rightarrow> acc @ [rbs_new (Some b) q]);
         ret = (ret \<or> r \<noteq> None)
     in case succ_run (map length input) run of None \<Rightarrow> Inr (ret, acc)
        | Some run' \<Rightarrow> join_loop fuel inst q input run' acc ret)"
proof -
  from assms(2) have one: "join_one inst bss = Inr (join_tuple inst bss)"
    by (auto simp: is_ok_iff join_tuple_def)
  obtain j run' where adv: "advance (length input) run (map length input) = (j, run')" by force
  have "succ_run (map length input) run =
      (if j = 0 then None else Some (take j run' @ replicate (length input - j) 0))"
    using advance_succ_run [of run "map length input" j run', symmetric] assms(3,4) adv by simp
  then show ?thesis using assms(1) one adv by (simp add: Let_def)
qed

lemma join_loop_chain:
  assumes "chain (succ_run (map length input)) L"
    and "\<forall>run\<in>set L. length run = length input \<and> list_all2 (<) run (map length input)"
    and "map (deref_run input) L = map Inr tuples" and "\<forall>t\<in>set tuples. is_ok (join_one inst t)"
    and "length L \<le> fuel"
  shows "join_loop fuel inst q input (hd L) acc ret =
    Inr (ret \<or> List.map_filter (join_tuple inst) tuples \<noteq> [],
         acc @ map (\<lambda>b. rbs_new (Some b) q) (List.map_filter (join_tuple inst) tuples))"
  using assms
proof (induction L arbitrary: fuel acc ret tuples)
  case (Cons run L)
  from Cons.prems(5) obtain f where fuel: "fuel = Suc f" and f: "length L \<le> f" by (cases fuel) auto
  from Cons.prems(3) obtain t ts where tuples: "tuples = t # ts" and t: "deref_run input run = Inr t"
    and ts: "map (deref_run input) L = map Inr ts" by (cases tuples) auto
  have step: "join_loop (Suc f) inst q input run acc ret =
    (let r = join_tuple inst t;
         acc = (case r of None \<Rightarrow> acc | Some b \<Rightarrow> acc @ [rbs_new (Some b) q]);
         ret = (ret \<or> r \<noteq> None)
     in case succ_run (map length input) run of None \<Rightarrow> Inr (ret, acc)
        | Some run' \<Rightarrow> join_loop f inst q input run' acc ret)"
    using Cons.prems t tuples by (intro join_step) auto
  show ?case
  proof (cases L)
    case Nil
    with Cons.prems ts have "succ_run (map length input) run = None" "ts = []" by auto
    then show ?thesis unfolding fuel list.sel(1) step tuples
      by (simp add: List.map_filter_def Let_def split: option.splits)
  next
    case (Cons run' L')
    with Cons.prems have succ: "succ_run (map length input) run = Some (hd L)"
      and ch: "chain (succ_run (map length input)) L" by auto
    have IH: "join_loop f inst q input (hd L) acc ret =
      Inr (ret \<or> List.map_filter (join_tuple inst) ts \<noteq> [],
         acc @ map (\<lambda>b. rbs_new (Some b) q) (List.map_filter (join_tuple inst) ts))" for acc ret
      using Cons.prems ch ts f tuples by (intro Cons.IH) auto
    show ?thesis unfolding fuel list.sel(1) step tuples succ
      by (simp add: IH List.map_filter_def Let_def split: option.splits)
  qed
qed simp

text \<open>Enough fuel is one round per choice.\<close>

lemma length_all_runs: "length (all_runs (map length input)) = length (product_lists input)"
  by (metis length_map map_deref_all_runs)

lemma join_all_correct:
  assumes "input \<noteq> []" and "\<forall>v\<in>set input. v \<noteq> []"
    and "\<forall>t\<in>set (product_lists input). is_ok (join_one inst t)"
    and "length (product_lists input) \<le> fuel"
  shows "join_all fuel inst q input acc =
    Inr (joins inst input \<noteq> [], acc @ map (\<lambda>b. rbs_new (Some b) q) (joins inst input))"
proof -
  let ?L = "all_runs (map length input)"
  from assms(2) have "list_all (\<lambda>m. 0 < m) (map length input)" by (simp add: list_all_iff)
  from chain_all_runs [OF this] have ch: "chain (succ_run (map length input)) ?L"
    and hd: "hd ?L = replicate (length input) 0" by simp_all
  have "\<forall>run\<in>set ?L. length run = length input \<and> list_all2 (<) run (map length input)"
    using length_in_all_runs all_runs_less by fastforce
  from join_loop_chain [OF ch this map_deref_all_runs assms(3), of fuel q acc False] assms(1,4)
  show ?thesis by (simp add: join_all_def joins_def hd length_all_runs)
qed

section \<open>Meaning of a joined state\<close>

definition agreeing :: "'a option list \<Rightarrow> bool" where
  "agreeing xs \<longleftrightarrow> (\<forall>u\<in>set xs. \<forall>v\<in>set xs. compatible u v)"

lemma compatible_simps [simp]:
  "compatible None y" "compatible x None" "compatible (Some u) (Some v) \<longleftrightarrow> u = v"
  by (simp_all add: compatible_def split: option.splits)

lemma compatible_refl [simp]: "compatible x x"
  by (cases x) simp_all

lemma compatible_sym: "compatible x y = compatible y x"
  by (cases x; cases y) auto

lemma agreeing_Cons: "agreeing (x # zs) \<longleftrightarrow> (\<forall>z\<in>set zs. compatible x z) \<and> agreeing zs"
  using compatible_sym by (auto simp: agreeing_def)

lemma agreeing_merge: "agreeing (x # y # zs) \<longleftrightarrow> compatible x y \<and> agreeing (merge x y # zs)"
  by (cases x; cases y) (auto simp: agreeing_Cons merge_def)

lemma agreeing_single: "agreeing [x]"
  by (simp add: agreeing_def)

lemma combine_run_spec:
  assumes "0 < n" "0 < s" and "well_state n s a" and "list_all (well_state n s) bss"
  shows "\<exists>r. combine_run (layout n s) a bss = Inr r \<and>
    (r \<noteq> None \<longleftrightarrow> (\<forall>i<n. agreeing (map (\<lambda>b. ctx_belief s b i) (a # bss)))) \<and>
    (\<forall>b. r = Some b \<longrightarrow> well_state n s b \<and>
       (\<forall>i<n. ctx_belief s b i = foldl merge (ctx_belief s a i) (map (\<lambda>b. ctx_belief s b i) bss)))"
  using assms(3,4)
proof (induction bss arbitrary: a)
  case Nil
  then show ?case by (simp add: agreeing_single)
next
  case (Cons b bss)
  then have b: "wf_bs (block_start s n) b" by (simp add: well_state_def)
  let ?ok = "\<forall>i<n. compatible (ctx_belief s a i) (ctx_belief s b i)"
  obtain r where r: "combine a b (bso_starting_offsets (layout n s)) (bso_masks (layout n s)) = Inr (?ok, r)"
    "well_state n s r"
    "if ?ok then \<forall>i<n. ctx_belief s r i = merge (ctx_belief s a i) (ctx_belief s b i) else r = a"
    by (rule combine_join [OF assms(1,2) Cons.prems(1) b]) blast
  show ?case
  proof (cases ?ok)
    case False
    with r(1) have "combine_run (layout n s) a (b # bss) = Inr None" by auto
    moreover from False have "\<not> (\<forall>i<n. agreeing (map (\<lambda>b. ctx_belief s b i) (a # b # bss)))"
      by (auto simp: agreeing_merge)
    ultimately show ?thesis by blast
  next
    case True
    with r have eq: "\<forall>i<n. ctx_belief s r i = merge (ctx_belief s a i) (ctx_belief s b i)" by simp
    from True r(1) have run: "combine_run (layout n s) a (b # bss) = combine_run (layout n s) r bss" by simp
    from Cons.prems have "list_all (well_state n s) bss" by simp
    from Cons.IH [OF r(2) this] show ?thesis using True eq unfolding run by (simp add: agreeing_merge)
  qed
qed

lemma bs_copy_wf: "wf_bs N a \<Longrightarrow> bs_copy a = Inr a"
  by (simp add: wf_bs_iff bs_copy_def)

lemma bs_copy_well: "well_state n s a \<Longrightarrow> bs_copy a = Inr a"
  unfolding well_state_def by (blast intro: bs_copy_wf)

text \<open>Joining ends without an error on all states of the size of the layout.\<close>

lemma combine_run_ok:
  assumes "0 < n" and "wf_bs (block_start s n) a" and "list_all (wf_bs (block_start s n)) bss"
  shows "is_ok (combine_run (layout n s) a bss)"
  using assms(2,3)
proof (induction bss arbitrary: a)
  case (Cons b bss)
  then have b: "wf_bs (block_start s n) b" by simp
  obtain r where r: "combine a b (bso_starting_offsets (layout n s)) (bso_masks (layout n s)) =
      Inr (if \<forall>j. compared n s a b j \<longrightarrow> bs_view a j = bs_view b j then (True, r) else (False, a))"
    "wf_bs (block_start s n) r"
    by (rule combine_layout [OF Cons.prems(1) b assms(1)]) blast
  with Cons show ?case by simp
qed simp

lemma join_one_ok:
  assumes "0 < n" and "list_all (wf_bs (block_start s n)) bss" and "bss \<noteq> []"
  shows "is_ok (join_one (Some (layout n s)) bss)"
  using assms combine_run_ok [of n s "hd bss" "tl bss"] bs_copy_wf [of "block_start s n" "hd bss"]
  by (cases bss) (auto simp: join_one_def bso_instance_def)

lemma in_product_lists: "t \<in> set (product_lists xss) \<longleftrightarrow> list_all2 (\<lambda>x xs. x \<in> set xs) t xss"
  by (auto simp: product_lists_set)

lemma product_lists_all:
  assumes "list_all (list_all P) xss" and "t \<in> set (product_lists xss)"
  shows "list_all P t \<and> length t = length xss"
proof -
  from assms(2) have "list_all2 (\<lambda>x xs. x \<in> set xs) t xss" by (simp add: in_product_lists)
  then show ?thesis using assms(1) by (induction) (auto simp: list_all_iff)
qed

lemma list_all2_map_filter:
  assumes "\<And>t. t \<in> set L \<Longrightarrow> case f t of None \<Rightarrow> \<not> P t | Some b \<Rightarrow> P t \<and> Q b t"
  shows "list_all2 Q (List.map_filter f L) (filter P L)"
  using assms
proof (induction L)
  case (Cons t L)
  then have "list_all2 Q (List.map_filter f L) (filter P L)" by simp
  with Cons.prems [of t] show ?case by (simp add: List.map_filter_def split: option.splits)
qed (simp add: List.map_filter_def)

text \<open>
  C4. A round of joining: from one package of belief states per neighbor, \<open>join\<close> ends after one
  step per choice and appends, for each choice of one state per neighbor on which all contexts
  agree, the joined state with the query identifier; it reports success exactly when there is one.
  Each joined state assigns to every context what the first of the chosen states that knows the
  context assigns to it.
\<close>

theorem join_all_joins_every_choice:
  assumes "bso_new n s = Inr bso" and "input \<noteq> []" and "\<forall>v\<in>set input. v \<noteq> []"
    and "list_all (list_all (well_state n s)) input"
    and "length (product_lists input) \<le> fuel"
  shows "\<exists>js. join_all fuel (Some bso) q input acc = Inr (js \<noteq> [], acc @ map (\<lambda>b. rbs_new (Some b) q) js) \<and>
    length js = length (filter (\<lambda>t. \<forall>i<n. agreeing (map (\<lambda>b. ctx_belief s b i) t)) (product_lists input)) \<and>
    list_all2 (\<lambda>b t. well_state n s b \<and>
        (\<forall>i<n. ctx_belief s b i = foldl merge None (map (\<lambda>b. ctx_belief s b i) t)))
      js (filter (\<lambda>t. \<forall>i<n. agreeing (map (\<lambda>b. ctx_belief s b i) t)) (product_lists input))"
proof -
  from assms(1) have n: "0 < n" "0 < s" and bso: "bso = layout n s"
    by (auto simp: bso_new_layout split: if_splits)
  let ?ag = "\<lambda>t. \<forall>i<n. agreeing (map (\<lambda>b. ctx_belief s b i) t)"
  let ?sp = "\<lambda>b t. well_state n s b \<and> (\<forall>i<n. ctx_belief s b i = foldl merge None (map (\<lambda>b. ctx_belief s b i) t))"
  have tup: "list_all (well_state n s) t \<and> t \<noteq> []" if "t \<in> set (product_lists input)" for t
    using product_lists_all [OF assms(4) that] assms(2) by auto
  have join: "case join_tuple (Some bso) t of None \<Rightarrow> \<not> ?ag t | Some b \<Rightarrow> ?ag t \<and> ?sp b t"
    if "t \<in> set (product_lists input)" for t
    using combine_run_spec [OF n, of "hd t" "tl t"] tup [OF that]
    by (cases t) (auto simp: join_tuple_def join_one_def bs_copy_well bso_instance_def bso merge_def
        split: option.splits)
  then have all: "list_all2 ?sp (joins (Some bso) input) (filter ?ag (product_lists input))"
    unfolding joins_def by (rule list_all2_map_filter)
  have "\<forall>t\<in>set (product_lists input). is_ok (join_one (Some bso) t)"
    using tup join_one_ok [OF n(1)] by (auto simp: bso well_state_def list_all_iff)
  from join_all_correct [OF assms(2,3) this assms(5)] all list_all2_lengthD [OF all]
  show ?thesis by (intro exI [of _ "joins (Some bso) input"]) auto
qed

theorem join_all_joins_every_choice_witness:
  "\<exists>js. join_all 2 (Some (layout 2 2)) 7
      [[\<lparr>status_bit = [True, True, False, False, False, False],
         value_bit = [True, True, False, False, False, False]\<rparr>],
       [\<lparr>status_bit = [False, False, False, True, True, False],
         value_bit = [False, False, False, True, False, False]\<rparr>]] [] =
    Inr (js \<noteq> [], map (\<lambda>b. rbs_new (Some b) 7) js) \<and> length js = 1"
proof -
  let ?a = "\<lparr>status_bit = [True, True, False, False, False, False],
                value_bit = [True, True, False, False, False, False]\<rparr>"
  let ?b = "\<lparr>status_bit = [False, False, False, True, True, False],
                value_bit = [False, False, False, True, False, False]\<rparr>"
  have 1: "bso_new 2 2 = Inr (layout 2 2)" by (simp add: bso_new_layout)
  note ev = well_state_def wf_bs_def block_start_def blank_unknown_def known_def bs_view_def get_bit_def
    less_Suc_eq numeral_2_eq_2 ctx_belief_def agreeing_def
  have 2: "list_all (list_all (well_state 2 2)) [[?a], [?b]]" by (simp add: ev)
  have 3: "\<forall>i<2. agreeing (map (\<lambda>b. ctx_belief 2 b i) [?a, ?b])" by (simp add: ev)
  from join_all_joins_every_choice [OF 1 _ _ 2, of 2 7 "[]"] 3
  show ?thesis by auto
qed

end
