(* ===== verification/Base_Dispatcher.thy ===== *)
theory Base_Dispatcher
  imports Query_ID
begin

text \<open>
  \<open>NewBaseDispatcher\<close> (\<open>include/mcs/NewBaseDispatcher.h\<close>): the table from identifiers to queue
  offsets that the request, output and joiner dispatchers share.
\<close>

type_synonym id2offset = "qid \<rightharpoonup> qid"

definition registerIdOffset :: "id2offset \<Rightarrow> qid \<Rightarrow> qid \<Rightarrow> id2offset res" where
  "registerIdOffset m x offset =
     (case m x of Some y \<Rightarrow> assertion (offset = y) (Inr m)
      | None \<Rightarrow> Inr (m(x \<mapsto> offset)))"

definition unregisterIdOffset :: "id2offset \<Rightarrow> qid \<Rightarrow> qid \<Rightarrow> id2offset res" where
  "unregisterIdOffset m x offset =
     assertion (m x \<noteq> None) (assertion (m x = Some offset) (Inr (m(x := None))))"

definition get_offset :: "id2offset \<Rightarrow> qid \<Rightarrow> qid res" where
  "get_offset m x = (case m x of None \<Rightarrow> Inl Assertion_Failed | Some y \<Rightarrow> Inr y)"

text \<open>The contract that the clients of a dispatcher rely on.\<close>

locale registration =
  fixes reg unreg :: "'m \<Rightarrow> 'i \<Rightarrow> 'o \<Rightarrow> 'm res" and get :: "'m \<Rightarrow> 'i \<Rightarrow> 'o res"
  assumes reg_free: "\<not> is_ok (get m x) \<Longrightarrow> \<exists>m'. reg m x y = Inr m'"
    and get_reg: "reg m x y = Inr m' \<Longrightarrow> get m' z = (if z = x then Inr y else get m z)"
    and unreg_ok: "get m x = Inr y \<Longrightarrow> \<exists>m'. unreg m x y = Inr m'"
    and get_unreg: "unreg m x y = Inr m' \<Longrightarrow> z \<noteq> x \<Longrightarrow> get m' z = get m z"
    and get_unreg_same: "unreg m x y = Inr m' \<Longrightarrow> \<not> is_ok (get m' x)"
begin

lemma reg_unreg:
  assumes "\<not> is_ok (get m x)"
  shows "\<exists>m' m''. reg m x y = Inr m' \<and> unreg m' x y = Inr m'' \<and>
    (\<forall>z. is_ok (get m'' z) = is_ok (get m z))"
proof -
  from reg_free [OF assms] obtain m' where m': "reg m x y = Inr m'" by blast
  from get_reg [OF this] have "get m' x = Inr y" by simp
  from unreg_ok [OF this] obtain m'' where m'': "unreg m' x y = Inr m''" by blast
  have "is_ok (get m'' z) = is_ok (get m z)" for z
    using get_reg [OF m'] get_unreg [OF m''] get_unreg_same [OF m''] assms
    by (cases "z = x") (auto)
  with m' m'' show ?thesis by blast
qed

text \<open>Registering again with another offset is refused as long as the first one is registered.\<close>

lemma reg_stable: "reg m x y = Inr m' \<Longrightarrow> get m' x = Inr y"
  by (simp add: get_reg)

end

interpretation dispatcher: registration registerIdOffset unregisterIdOffset get_offset
  by unfold_locales
    (auto simp: registerIdOffset_def unregisterIdOffset_def get_offset_def assertion_eq_Inr
      split: option.splits if_splits)

lemma register_fresh: "m x = None \<Longrightarrow> registerIdOffset m x y = Inr (m(x \<mapsto> y))"
  by (simp add: registerIdOffset_def)

lemma unregister_present: "m x = Some y \<Longrightarrow> unregisterIdOffset m x y = Inr (m(x := None))"
  by (simp add: unregisterIdOffset_def)

end
