(* ===== verification/Streaming_Joiner.thy ===== *)
theory Streaming_Joiner
  imports Join_Odometer Base_Dispatcher
begin

unbundle bit_operations_syntax

text \<open>
  The joiners (\<open>src/mcs/BaseJoiner.cpp\<close>, \<open>StreamingJoiner.cpp\<close>, \<open>LeafJoiner.cpp\<close>): a context asks
  its neighbors for packages of belief states and joins them. The streaming joiner pages through
  the neighbors' models with packages of \<open>pack_size\<close> models (0 asks for all models at once).
\<close>

section \<open>State\<close>

record BaseJoiner =
  joiner_offset :: qid
  neighbors :: "NewNeighbor list"
  input_belief_states :: "NewBeliefState list list"
  joined_results :: "returned list"

record StreamingJoiner = BaseJoiner +
  pack_size :: nat
  next_neighbor :: nat
  asking_next :: bool
  pack_count :: "nat list"
  offset2index :: "qid \<rightharpoonup> nat"

text \<open>
  The surroundings of a joiner: the message queues towards and from its neighbors, as two
  functions on a state of the environment. \<open>net_recv\<close> is \<open>None\<close> when no message will arrive.
\<close>

record 'e network =
  net_send :: "'e \<Rightarrow> qid \<Rightarrow> ForwardMessage \<Rightarrow> 'e"
  net_recv :: "'e \<Rightarrow> qid \<Rightarrow> (returned \<times> 'e) option"

record 'e joiner_world =
  sj :: StreamingJoiner
  jd :: id2offset
  env :: 'e

definition BaseJoiner_new :: "NewNeighbor list \<Rightarrow> BaseJoiner" where
  "BaseJoiner_new n = \<lparr>joiner_offset = - 1, neighbors = n,
     input_belief_states = map (\<lambda>i. []) [0..<length n], joined_results = []\<rparr>"

fun insert_offsets :: "nat \<Rightarrow> NewNeighbor list \<Rightarrow> (qid \<rightharpoonup> nat) \<Rightarrow> (qid \<rightharpoonup> nat)" where
  "insert_offsets i [] m = m"
| "insert_offsets i (nb # n) m =
     insert_offsets (i + 1) n
       (case m (neighbor_offset nb) of None \<Rightarrow> m(neighbor_offset nb \<mapsto> i) | Some j \<Rightarrow> m)"

definition StreamingJoiner_new :: "nat \<Rightarrow> NewNeighbor list \<Rightarrow> StreamingJoiner" where
  "StreamingJoiner_new ps n = BaseJoiner.extend (BaseJoiner_new n)
     \<lparr>pack_size = ps, next_neighbor = 0, asking_next = False, pack_count = replicate (length n) 0,
      offset2index = insert_offsets 0 n Map.empty\<rparr>"

text \<open>\<open>registerJoinIn\<close> stores the offset; creating the queue is the message dispatcher's part.\<close>

definition registerJoinIn :: "'z BaseJoiner_scheme \<Rightarrow> qid \<Rightarrow> 'z BaseJoiner_scheme" where
  "registerJoinIn j offset = j\<lparr>joiner_offset := offset\<rparr>"

definition cleanup_input :: "'z BaseJoiner_scheme \<Rightarrow> nat \<Rightarrow> 'z BaseJoiner_scheme res" where
  "cleanup_input j neighbor_index =
     (if neighbor_index < length (input_belief_states j)
      then Inr (j\<lparr>input_belief_states := (input_belief_states j)[neighbor_index := []]\<rparr>)
      else Inl Undefined_Behaviour)"

fun cleanup_upto :: "'z BaseJoiner_scheme \<Rightarrow> nat \<Rightarrow> 'z BaseJoiner_scheme res" where
  "cleanup_upto j 0 = Inr j"
| "cleanup_upto j (Suc i) = bind_res (cleanup_upto j i) (\<lambda>j. cleanup_input j i)"

definition base_reset :: "'z BaseJoiner_scheme \<Rightarrow> 'z BaseJoiner_scheme res" where
  "base_reset j = cleanup_upto (j\<lparr>joined_results := []\<rparr>) (length (neighbors j))"

definition joiner_reset :: "StreamingJoiner \<Rightarrow> StreamingJoiner res" where
  "joiner_reset j = bind_res (base_reset j) (\<lambda>j.
     Inr (j\<lparr>asking_next := False, next_neighbor := 0,
            pack_count := map (\<lambda>c. 0) (pack_count j)\<rparr>))"

section \<open>Asking the neighbors\<close>

definition ask_neighbor :: "'e network \<Rightarrow> 'e joiner_world \<Rightarrow> nat \<Rightarrow> qid \<Rightarrow> NewHistory \<Rightarrow> nat \<Rightarrow> nat
    \<Rightarrow> 'e joiner_world res" where
  "ask_neighbor net w neighbor_index q history k1 k2 =
     bind_res (cleanup_input (sj w) neighbor_index) (\<lambda>j.
     bind_res (vec_at (neighbors j) neighbor_index) (\<lambda>nb.
       let noff = neighbor_offset nb;
           q = set_neighbor_id q (neighbor_id nb);
           q = set_neighbor_offset q noff;
           q = set_joiner_offset q (joiner_offset j)
       in bind_res (registerIdOffset (jd w) q (joiner_offset j)) (\<lambda>d.
          Inr (w\<lparr>sj := j, jd := d,
                 env := net_send net (env w) noff (ForwardMessage_new q history k1 k2)\<rparr>))))"

definition push_input :: "StreamingJoiner \<Rightarrow> nat \<Rightarrow> NewBeliefState \<Rightarrow> StreamingJoiner" where
  "push_input j i bs =
     j\<lparr>input_belief_states := (input_belief_states j)[i := input_belief_states j ! i @ [bs]]\<rparr>"

fun receive_loop :: "nat \<Rightarrow> 'e network \<Rightarrow> 'e joiner_world \<Rightarrow> nat \<Rightarrow> nat \<Rightarrow> (bool \<times> 'e joiner_world) res" where
  "receive_loop 0 net w neighbor_index count_models_read = Inl Out_Of_Fuel"
| "receive_loop (Suc fuel) net w neighbor_index count_models_read =
     (case net_recv net (env w) (joiner_offset (sj w)) of
        None \<Rightarrow> Inl Blocked
      | Some (rbs, e) \<Rightarrow>
        (case belief_state rbs of
           Some bs \<Rightarrow>
             bind_res (vec_at (neighbors (sj w)) neighbor_index) (\<lambda>nb.
               assertion (neighbor_offset nb = neighbor_offset_from_qid (rbs_qid rbs))
                 (receive_loop fuel net (w\<lparr>env := e, sj := push_input (sj w) neighbor_index bs\<rparr>)
                    neighbor_index (count_models_read + 1)))
         | None \<Rightarrow>
             bind_res (unregisterIdOffset (jd w) (rbs_qid rbs) (joiner_offset (sj w))) (\<lambda>d.
               Inr (count_models_read \<noteq> 0, w\<lparr>env := e, jd := d\<rparr>))))"

definition ask_neighbor_and_receive :: "nat \<Rightarrow> 'e network \<Rightarrow> 'e joiner_world \<Rightarrow> nat \<Rightarrow> qid \<Rightarrow> NewHistory
    \<Rightarrow> nat \<Rightarrow> nat \<Rightarrow> (bool \<times> 'e joiner_world) res" where
  "ask_neighbor_and_receive fuel net w neighbor_index fqid history k1 k2 =
     bind_res (ask_neighbor net w neighbor_index fqid history k1 k2) (\<lambda>w.
       receive_loop fuel net w neighbor_index 0)"

text \<open>
  \<open>ask_first_packs\<close>: the first loop asks the neighbors, the second one collects their answers in
  the order of arrival until the mask of the neighbors that have answered is complete. Shifting a
  64-bit word by 64 or more is undefined in C++.
\<close>

fun ask_loop :: "'e network \<Rightarrow> 'e joiner_world \<Rightarrow> qid \<Rightarrow> NewHistory \<Rightarrow> nat list \<Rightarrow> 'e joiner_world res" where
  "ask_loop net w fqid history [] = Inr w"
| "ask_loop net w fqid history (i # is) =
     (let (k1, k2) = (if 0 < pack_size (sj w) then (1, pack_size (sj w)) else (0, 0))
      in bind_res (ask_neighbor net w i fqid history k1 k2) (\<lambda>w.
           ask_loop net w fqid history is))"

definition all_neighbors_returned :: "nat \<Rightarrow> nat \<Rightarrow> 64 word res" where
  "all_neighbors_returned from_neighbor to_neighbor =
     (if 64 \<le> to_neighbor - from_neighbor + 1 \<or> 64 \<le> from_neighbor then Inl Undefined_Behaviour
      else Inr (push_bit from_neighbor (push_bit (to_neighbor - from_neighbor + 1) 1 - 1)))"

fun collect_loop :: "nat \<Rightarrow> 'e network \<Rightarrow> 'e joiner_world \<Rightarrow> qid \<Rightarrow> 64 word \<Rightarrow> 64 word \<Rightarrow> nat list
    \<Rightarrow> (bool \<times> 'e joiner_world) res" where
  "collect_loop 0 net w fqid all_returned marking_neighbors count_models_read = Inl Out_Of_Fuel"
| "collect_loop (Suc fuel) net w fqid all_returned marking_neighbors count_models_read =
     (if marking_neighbors = all_returned then Inr (True, w)
      else case net_recv net (env w) (joiner_offset (sj w)) of
        None \<Rightarrow> Inl Blocked
      | Some (rbs, e) \<Rightarrow>
        (let q = rbs_qid rbs;
             noff = neighbor_offset_from_qid q;
             (neighbor_index, o2i) = (case offset2index (sj w) noff of Some i \<Rightarrow> (i, offset2index (sj w))
                 | None \<Rightarrow> (0, (offset2index (sj w))(noff \<mapsto> 0)));
             w = w\<lparr>env := e, sj := (sj w)\<lparr>offset2index := o2i\<rparr>\<rparr>
         in case belief_state rbs of
           Some bs \<Rightarrow>
             assertion (unset_joiner_offset (unset_neighbor_offset (unset_neighbor_id q)) = fqid)
             (if neighbor_index < length (input_belief_states (sj w)) \<and> neighbor_index < length count_models_read
              then collect_loop fuel net (w\<lparr>sj := push_input (sj w) neighbor_index bs\<rparr>) fqid
                     all_returned marking_neighbors
                     (count_models_read[neighbor_index := count_models_read ! neighbor_index + 1])
              else Inl Undefined_Behaviour)
         | None \<Rightarrow>
             bind_res (unregisterIdOffset (jd w) q (joiner_offset (sj w))) (\<lambda>d.
             bind_res (vec_at count_models_read neighbor_index) (\<lambda>c.
               if c = 0 then Inr (False, w\<lparr>jd := d\<rparr>)
               else if 64 \<le> neighbor_index then Inl Undefined_Behaviour
               else collect_loop fuel net (w\<lparr>jd := d\<rparr>) fqid all_returned
                      (marking_neighbors OR push_bit neighbor_index 1) count_models_read))))"

definition ask_first_packs :: "nat \<Rightarrow> 'e network \<Rightarrow> 'e joiner_world \<Rightarrow> qid \<Rightarrow> NewHistory \<Rightarrow> nat \<Rightarrow> nat
    \<Rightarrow> (bool \<times> 'e joiner_world) res" where
  "ask_first_packs fuel net w fqid history from_neighbor to_neighbor =
     assertion (from_neighbor \<le> to_neighbor \<and> to_neighbor < length (neighbors (sj w)))
     (bind_res (ask_loop net w fqid history [from_neighbor..<to_neighbor + 1]) (\<lambda>w.
      bind_res (all_neighbors_returned from_neighbor to_neighbor) (\<lambda>all_returned.
        collect_loop fuel net w fqid all_returned 0 (replicate (to_neighbor + 1) 0))))"

section \<open>Joining\<close>

definition do_join :: "nat \<Rightarrow> BeliefStateOffset option \<Rightarrow> StreamingJoiner \<Rightarrow> qid \<Rightarrow> (bool \<times> StreamingJoiner) res" where
  "do_join fuel inst j q =
     assertion (list_all (\<lambda>bsv. bsv \<noteq> []) (input_belief_states j))
     (bind_res (join_all fuel inst q (input_belief_states j) (joined_results j)) (\<lambda>(ret, results).
        Inr (ret, j\<lparr>joined_results := results\<rparr>)))"

definition pop_result :: "'e joiner_world \<Rightarrow> (returned \<times> 'e joiner_world) res" where
  "pop_result w = (case joined_results (sj w) of [] \<Rightarrow> Inl Undefined_Behaviour
     | rbs # rest \<Rightarrow> Inr (rbs, w\<lparr>sj := (sj w)\<lparr>joined_results := rest\<rparr>\<rparr>))"

fun next_loop :: "nat \<Rightarrow> 'e network \<Rightarrow> BeliefStateOffset option \<Rightarrow> 'e joiner_world \<Rightarrow> qid \<Rightarrow> NewHistory
    \<Rightarrow> (returned \<times> 'e joiner_world) res" where
  "next_loop 0 net inst w q history = Inl Out_Of_Fuel"
| "next_loop (Suc fuel) net inst w q history =
     (if next_neighbor (sj w) = length (neighbors (sj w))
      then bind_res (joiner_reset (sj w)) (\<lambda>j. Inr (rbs_new None q, w\<lparr>sj := j\<rparr>))
      else
      bind_res (vec_at (pack_count (sj w)) (next_neighbor (sj w))) (\<lambda>c.
        let nn = next_neighbor (sj w);
            pc = sz_add c 1;
            w = w\<lparr>sj := (sj w)\<lparr>pack_count := (pack_count (sj w))[nn := pc]\<rparr>\<rparr>;
            k_one = sz_add (sz_mul pc (pack_size (sj w))) 1;
            k_two = sz_mul (sz_add pc 1) (pack_size (sj w))
        in bind_res (ask_neighbor_and_receive fuel net w nn q history k_one k_two) (\<lambda>(got, w).
           if got then
             bind_res
               (if asking_next (sj w)
                then assertion (0 < nn)
                  (bind_res (ask_first_packs fuel net w q history 0 (nn - 1)) (\<lambda>(ret, w).
                     assertion ret
                     (Inr (w\<lparr>sj := (sj w)\<lparr>pack_count :=
                        replicate nn 0 @ drop nn (pack_count (sj w))\<rparr>\<rparr>))))
                else Inr w)
               (\<lambda>w. bind_res (do_join fuel inst (sj w) q) (\<lambda>(succeeded, j).
                  let w = w\<lparr>sj := j\<lparr>next_neighbor := 0, asking_next := False\<rparr>\<rparr>
                  in if succeeded then pop_result w else next_loop fuel net inst w q history))
           else next_loop fuel net inst
                  (w\<lparr>sj := (sj w)\<lparr>next_neighbor := nn + 1, asking_next := True\<rparr>\<rparr>) q history)))"

definition next_join :: "nat \<Rightarrow> 'e network \<Rightarrow> BeliefStateOffset option \<Rightarrow> 'e joiner_world \<Rightarrow> qid \<Rightarrow> NewHistory
    \<Rightarrow> (returned \<times> 'e joiner_world) res" where
  "next_join fuel net inst w q history =
     (if joined_results (sj w) \<noteq> [] then pop_result w
      else if pack_size (sj w) = 0 then Inr (rbs_new None q, w)
      else next_loop fuel net inst w q history)"

definition first_join :: "nat \<Rightarrow> 'e network \<Rightarrow> BeliefStateOffset option \<Rightarrow> 'e joiner_world \<Rightarrow> qid \<Rightarrow> NewHistory
    \<Rightarrow> (returned \<times> 'e joiner_world) res" where
  "first_join fuel net inst w q history =
     bind_res (joiner_reset (sj w)) (\<lambda>j.
     bind_res (ask_first_packs fuel net (w\<lparr>sj := j\<rparr>) q history 0 (sz_sub (length (neighbors j)) 1)) (\<lambda>(ok, w).
       if \<not> ok then bind_res (joiner_reset (sj w)) (\<lambda>j. Inr (rbs_new None q, w\<lparr>sj := j\<rparr>))
       else
       bind_res (do_join fuel inst (sj w) q) (\<lambda>(succeeded, j).
         let w = w\<lparr>sj := j\<lparr>next_neighbor := 0, asking_next := False\<rparr>\<rparr>
         in if succeeded then pop_result w
            else if 0 < pack_size (sj w) then next_join fuel net inst w q history
            else Inr (rbs_new None q, w))))"

section \<open>Leaf contexts\<close>

definition leaf_first_join :: "BeliefStateOffset option \<Rightarrow> qid \<Rightarrow> returned res" where
  "leaf_first_join inst q = bind_res (bso_instance inst) (\<lambda>bso.
     Inr (rbs_new (Some (bs_new_blocks (bso_no_blocks bso) (bso_size_belief_state bso) False)) q))"

definition leaf_next_join :: "qid \<Rightarrow> returned" where
  "leaf_next_join q = rbs_new None q"

end
