(* ===== verification/Normal_Context.thy ===== *)
theory Normal_Context
  imports Context_Solving Streaming_Joiner
begin

text \<open>
  Contexts at work (\<open>src/mcs/NormalContext.cpp\<close>, \<open>src/mcs/CycleBreaker.cpp\<close>). A normal context joins
  the answers of its neighbors into inputs, guesses the beliefs of the neighbors that it does not
  ask, and computes its models for each input. A cycle breaker guesses its whole input.
\<close>

section \<open>State\<close>

record NormalContext = NewContext +
  is_leaf :: bool
  query_counter :: nat
  nc_neighbors :: "NewNeighbor list"
  guessing_neighbors :: "NewNeighbor list option"

text \<open>The joiner of a context: the virtual functions of \<open>BaseJoiner\<close> are dispatched to one of two classes.\<close>

datatype 'e ctx_joiner = LeafJoiner | StreamingJoiner_in "'e joiner_world"

definition virtual_first_join :: "nat \<Rightarrow> 'e network \<Rightarrow> BeliefStateOffset option \<Rightarrow> 'e ctx_joiner \<Rightarrow> qid \<Rightarrow> NewHistory
    \<Rightarrow> (returned \<times> 'e ctx_joiner) res" where
  "virtual_first_join fuel net inst j q history = (case j of
       LeafJoiner \<Rightarrow> bind_res (leaf_first_join inst q) (\<lambda>r. Inr (r, LeafJoiner))
     | StreamingJoiner_in w \<Rightarrow> bind_res (first_join fuel net inst w q history) (\<lambda>(r, w). Inr (r, StreamingJoiner_in w)))"

definition virtual_next_join :: "nat \<Rightarrow> 'e network \<Rightarrow> BeliefStateOffset option \<Rightarrow> 'e ctx_joiner \<Rightarrow> qid \<Rightarrow> NewHistory
    \<Rightarrow> (returned \<times> 'e ctx_joiner) res" where
  "virtual_next_join fuel net inst j q history = (case j of
       LeafJoiner \<Rightarrow> Inr (leaf_next_join q, LeafJoiner)
     | StreamingJoiner_in w \<Rightarrow> bind_res (next_join fuel net inst w q history) (\<lambda>(r, w). Inr (r, StreamingJoiner_in w)))"

section \<open>Initialization\<close>

text \<open>One neighbor of the loop of \<open>init\<close>: its epsilon bit and the beliefs of its input signature.\<close>

fun mark_beliefs :: "nat \<Rightarrow> nat list \<Rightarrow> Belief list \<Rightarrow> NewBeliefState \<times> NewBeliefState \<Rightarrow> (NewBeliefState \<times> NewBeliefState) res" where
  "mark_beliefs nid starting_offsets [] ts = Inr ts"
| "mark_beliefs nid starting_offsets (b # bs) (guessing, start) =
     bind_res (bs_set_ctx guessing nid (unat (b_address b)) starting_offsets DMCS_TRUE) (\<lambda>guessing.
     bind_res (bs_set_ctx start nid (unat (b_address b)) starting_offsets DMCS_FALSE) (\<lambda>start.
       mark_beliefs nid starting_offsets bs (guessing, start)))"

definition mark_context :: "nat \<Rightarrow> nat list \<Rightarrow> Belief list \<Rightarrow> NewBeliefState \<times> NewBeliefState \<Rightarrow> (NewBeliefState \<times> NewBeliefState) res" where
  "mark_context nid starting_offsets bs ts = (case ts of (guessing, start) \<Rightarrow>
     bind_res (setEpsilon guessing nid starting_offsets) (\<lambda>guessing.
     bind_res (setEpsilon start nid starting_offsets) (\<lambda>start.
       mark_beliefs nid starting_offsets bs (guessing, start))))"

fun init_loop :: "ContextQueryPlanMap \<Rightarrow> nat list \<Rightarrow> NewNeighbor list \<Rightarrow> NewBeliefState \<times> NewBeliefState
    \<Rightarrow> (NewBeliefState \<times> NewBeliefState) res" where
  "init_loop qpm starting_offsets [] ts = Inr ts"
| "init_loop qpm starting_offsets (nb # nbs) ts =
     (let nid = unat (neighbor_id nb) in
      case map_of qpm nid of None \<Rightarrow> Inl Assertion_Failed
      | Some cqp \<Rightarrow>
          bind_res (mark_context nid starting_offsets
              (case groundInputSignature cqp of None \<Rightarrow> [] | Some t \<Rightarrow> bt_getAllByAddress t) ts)
            (init_loop qpm starting_offsets nbs))"

definition NormalContext_init :: "BeliefStateOffset option \<Rightarrow> NormalContext \<Rightarrow> NormalContext res" where
  "NormalContext_init inst cx =
     bind_res (bso_instance inst) (\<lambda>bso.
       case guessing_neighbors cx of
         None \<Rightarrow> Inr (cx\<lparr>total_guessing_input := None, starting_guess := None\<rparr>)
       | Some gnbs \<Rightarrow>
           let new = bs_new_blocks (bso_no_blocks bso) (bso_size_belief_state bso) False in
           bind_res (init_loop (queryplan_map cx) (bso_starting_offsets bso) gnbs (new, new)) (\<lambda>(guessing, start).
             Inr (cx\<lparr>total_guessing_input := Some guessing, starting_guess := Some start\<rparr>)))"

definition NormalContext_new :: "BeliefStateOffset option \<Rightarrow> nat \<Rightarrow> nat \<Rightarrow> ReturnPlanMap \<Rightarrow> ContextQueryPlanMap
    \<Rightarrow> BridgeRuleTable \<Rightarrow> NewNeighbor list \<Rightarrow> NewNeighbor list option \<Rightarrow> NormalContext res" where
  "NormalContext_new inst cid coff rp qpm br nbs gnbs =
     NormalContext_init inst (NewContext.extend (NewContext_new cid coff rp qpm br)
       \<lparr>is_leaf = (nbs = []), query_counter = 0, nc_neighbors = nbs, guessing_neighbors = gnbs\<rparr>)"

text \<open>The loop of \<open>CycleBreaker::init\<close> goes over the query plan; a context without input signature is left out.\<close>

fun cycle_init_loop :: "nat list \<Rightarrow> ContextQueryPlanMap \<Rightarrow> NewBeliefState \<times> NewBeliefState
    \<Rightarrow> (NewBeliefState \<times> NewBeliefState) res" where
  "cycle_init_loop starting_offsets [] ts = Inr ts"
| "cycle_init_loop starting_offsets ((cid, cqp) # qpm) ts =
     bind_res (case groundInputSignature cqp of None \<Rightarrow> Inr ts
               | Some t \<Rightarrow> mark_context cid starting_offsets (bt_getAllByAddress t) ts)
       (cycle_init_loop starting_offsets qpm)"

definition CycleBreaker_init :: "BeliefStateOffset option \<Rightarrow> NewContext \<Rightarrow> NewContext res" where
  "CycleBreaker_init inst cx =
     bind_res (bso_instance inst) (\<lambda>bso.
       let new = bs_new_blocks (bso_no_blocks bso) (bso_size_belief_state bso) False in
       bind_res (cycle_init_loop (bso_starting_offsets bso) (queryplan_map cx) (new, new)) (\<lambda>(guessing, start).
         Inr (cx\<lparr>total_guessing_input := Some guessing, starting_guess := Some start\<rparr>)))"

definition CycleBreaker_new :: "BeliefStateOffset option \<Rightarrow> nat \<Rightarrow> nat \<Rightarrow> ReturnPlanMap \<Rightarrow> ContextQueryPlanMap
    \<Rightarrow> BridgeRuleTable \<Rightarrow> NewContext res" where
  "CycleBreaker_new inst cid coff rp qpm br = CycleBreaker_init inst (NewContext_new cid coff rp qpm br)"

section \<open>Processing an input\<close>

fun some_epsilon :: "NewBeliefState \<Rightarrow> nat list \<Rightarrow> NewNeighbor list \<Rightarrow> bool res" where
  "some_epsilon input starting_offsets [] = Inr False"
| "some_epsilon input starting_offsets (nb # nbs) =
     bind_res (isEpsilon input (unat (neighbor_id nb)) starting_offsets) (\<lambda>eps.
       if eps then Inr True else some_epsilon input starting_offsets nbs)"

definition must_guess :: "BeliefStateOffset option \<Rightarrow> 'z NormalContext_scheme \<Rightarrow> NewBeliefState \<Rightarrow> bool res" where
  "must_guess inst cx input =
     (if total_guessing_input cx = None then Inr False
      else case guessing_neighbors cx of None \<Rightarrow> Inl Undefined_Behaviour
        | Some gnbs \<Rightarrow> bind_res (bso_instance inst) (\<lambda>bso.
            some_epsilon input (bso_starting_offsets bso) gnbs))"

text \<open>
  The loop over the guesses; \<open>mk\<close> makes the input of a guess. It ends after at most as many rounds
  as there are guesses, which is the fuel that it needs.
\<close>

fun guess_loop :: "nat \<Rightarrow> reasoner \<Rightarrow> (NewBeliefState \<Rightarrow> NewBeliefState) \<Rightarrow> 'z NewContext_scheme \<Rightarrow> NewBeliefState \<Rightarrow> nat
    \<Rightarrow> nat \<Rightarrow> nat \<Rightarrow> qid \<Rightarrow> context_world \<Rightarrow> (bool \<times> nat \<times> nat \<times> 'z NewContext_scheme \<times> context_world) res" where
  "guess_loop 0 R mk cx current_guess current_step k1 k2 parent_qid w = Inl Out_Of_Fuel"
| "guess_loop (Suc fuel) R mk cx current_guess current_step k1 k2 parent_qid w =
     bind_res (compute R cx (mk current_guess) k1 k2 parent_qid current_step w) (\<lambda>(computed, k1, k2, cx, w).
       if computed then Inr (True, k1, k2, cx, w)
       else case total_guessing_input cx of None \<Rightarrow> Inl Undefined_Behaviour
         | Some guessing_input \<Rightarrow>
             bind_res (next_guess (r_inst R) current_guess guessing_input) (\<lambda>g. case g of
                 None \<Rightarrow> Inr (False, k1, k2, cx, w)
               | Some g \<Rightarrow> guess_loop fuel R mk cx g (sz_add current_step 1) k1 k2 parent_qid w))"

text \<open>The guess to start with: the starting guess itself, or the one that the cache points to.\<close>

definition first_guess :: "BeliefStateOffset option \<Rightarrow> 'z NewContext_scheme \<Rightarrow> nat \<Rightarrow> NewBeliefState option res" where
  "first_guess inst cx current_step = (case (starting_guess cx, total_guessing_input cx) of
       (Some start, Some guessing_input) \<Rightarrow>
          if current_step = 0 then Inr (Some start) else jump_guess inst start guessing_input current_step
     | _ \<Rightarrow> Inl Undefined_Behaviour)"

definition process_input :: "nat \<Rightarrow> reasoner \<Rightarrow> 'z NormalContext_scheme \<Rightarrow> NewBeliefState \<Rightarrow> qid \<Rightarrow> nat \<Rightarrow> nat \<Rightarrow> context_world
    \<Rightarrow> (bool \<times> nat \<times> nat \<times> 'z NormalContext_scheme \<times> context_world) res" where
  "process_input fuel R cx input parent_qid k1 k2 w =
     bind_res (must_guess (r_inst R) cx input) (\<lambda>guess.
       if guess then
         bind_res (find_position (cache cx) k1) (\<lambda>current_step.
         bind_res (first_guess (r_inst R) cx current_step) (\<lambda>g. case g of
             None \<Rightarrow> Inl Undefined_Behaviour
           | Some g \<Rightarrow> guess_loop fuel R (bs_or input) cx g current_step k1 k2 parent_qid w))
       else compute R cx input k1 k2 parent_qid 0 w)"

section \<open>Processing a request\<close>

fun input_loop :: "nat \<Rightarrow> reasoner \<Rightarrow> 'e network \<Rightarrow> 'z NormalContext_scheme \<Rightarrow> NewBeliefState option \<Rightarrow> qid \<Rightarrow> NewHistory
    \<Rightarrow> nat \<Rightarrow> nat \<Rightarrow> 'e ctx_joiner \<Rightarrow> context_world \<Rightarrow> ('z NormalContext_scheme \<times> 'e ctx_joiner \<times> context_world) res" where
  "input_loop fuel R net cx None parent_qid history k1 k2 j w = Inr (cx, j, w)"
| "input_loop 0 R net cx (Some input) parent_qid history k1 k2 j w = Inl Out_Of_Fuel"
| "input_loop (Suc fuel) R net cx (Some input) parent_qid history k1 k2 j w =
     bind_res (process_input fuel R cx input parent_qid k1 k2 w) (\<lambda>(finished, k1, k2, cx, w).
       if finished then Inr (cx, j, w)
       else let cx = cx\<lparr>query_counter := sz_add (query_counter cx) 1\<rparr>;
                this_qid = query_id_own (of_nat (ctx_id cx)) (of_nat (query_counter cx))
            in bind_res (virtual_next_join fuel net (r_inst R) j this_qid history) (\<lambda>(rbs, j).
                 input_loop fuel R net cx (belief_state rbs) parent_qid history k1 k2 j w))"

definition process_request :: "nat \<Rightarrow> reasoner \<Rightarrow> 'e network \<Rightarrow> 'z NormalContext_scheme \<Rightarrow> qid \<Rightarrow> NewHistory \<Rightarrow> nat \<Rightarrow> nat
    \<Rightarrow> 'e ctx_joiner \<Rightarrow> context_world \<Rightarrow> ('z NormalContext_scheme \<times> 'e ctx_joiner \<times> context_world) res" where
  "process_request fuel R net cx parent_qid history k1 k2 j w =
     assertion (k1 = 0 \<and> k2 = 0 \<or> 0 < k1 \<and> k1 < sz_add k2 1)
     (let cx = cx\<lparr>query_counter := sz_add (query_counter cx) 1\<rparr>;
          this_qid = query_id_own (of_nat (ctx_id cx)) (of_nat (query_counter cx))
      in bind_res (virtual_first_join fuel net (r_inst R) j this_qid history) (\<lambda>(rbs, j).
           input_loop fuel R net cx (belief_state rbs) parent_qid history k1 k2 j w))"

section \<open>The threads\<close>

definition send_end_marker :: "qid \<Rightarrow> context_world \<Rightarrow> context_world" where
  "send_end_marker parent_qid w = w\<lparr>output_mq := output_mq w @ [rbs_new None parent_qid]\<rparr>"

text \<open>
  The loop of \<open>NormalContext::startup\<close> over what arrives in \<open>REQUEST_MQ\<close>. The queues and threads that
  are set up before it are the message dispatcher's part.
\<close>

fun normal_startup :: "nat \<Rightarrow> reasoner \<Rightarrow> 'e network \<Rightarrow> ForwardMessage list \<Rightarrow> 'z NormalContext_scheme \<Rightarrow> 'e ctx_joiner
    \<Rightarrow> context_world \<Rightarrow> ('z NormalContext_scheme \<times> 'e ctx_joiner \<times> context_world) res" where
  "normal_startup fuel R net [] cx j w = Inl Blocked"
| "normal_startup fuel R net (m # request_mq) cx j w =
     (let parent_qid = fm_qid m in
      if is_shutdown parent_qid then Inr (cx, j, w)
      else assertion (fm_k1 m = 0 \<and> fm_k2 m = 0 \<or> 0 < fm_k1 m \<and> fm_k1 m < sz_add (fm_k2 m) 1)
        (assertion (of_nat (ctx_id cx) \<notin> fm_history m)
        (bind_res (process_request fuel R net cx parent_qid (insert (of_nat (ctx_id cx)) (fm_history m)) (fm_k1 m) (fm_k2 m) j w)
          (\<lambda>(cx, j, w). normal_startup fuel R net request_mq cx j (send_end_marker parent_qid w)))))"

text \<open>One request of a cycle breaker, and the loop of its thread over \<open>CYCLE_BREAKER_MQ\<close>.\<close>

definition break_cycle :: "nat \<Rightarrow> reasoner \<Rightarrow> 'z NewContext_scheme \<Rightarrow> qid \<Rightarrow> nat \<Rightarrow> nat \<Rightarrow> context_world
    \<Rightarrow> ('z NewContext_scheme \<times> context_world) res" where
  "break_cycle fuel R cx parent_qid k1 k2 w =
     bind_res (find_position (cache cx) k1) (\<lambda>current_step.
     bind_res (first_guess (r_inst R) cx current_step) (\<lambda>g. case g of
         None \<Rightarrow> Inr (cx, send_end_marker parent_qid w)
       | Some g \<Rightarrow> bind_res (guess_loop fuel R (\<lambda>g. g) cx g current_step k1 k2 parent_qid w) (\<lambda>(_, _, _, cx, w).
           Inr (cx, send_end_marker parent_qid w))))"

fun cycle_startup :: "nat \<Rightarrow> reasoner \<Rightarrow> ForwardMessage list \<Rightarrow> 'z NewContext_scheme \<Rightarrow> context_world
    \<Rightarrow> ('z NewContext_scheme \<times> context_world) res" where
  "cycle_startup fuel R [] cx w = Inl Blocked"
| "cycle_startup fuel R (m # cycle_breaker_mq) cx w =
     (let parent_qid = fm_qid m in
      if is_shutdown parent_qid then Inr (cx, w)
      else assertion (fm_k1 m = 0 \<and> fm_k2 m = 0 \<or> 0 < fm_k1 m \<and> fm_k1 m < sz_add (fm_k2 m) 1)
        (bind_res (break_cycle fuel R cx parent_qid (fm_k1 m) (fm_k2 m) w) (\<lambda>(cx, w).
          cycle_startup fuel R cycle_breaker_mq cx w)))"

section \<open>What is guessed\<close>

definition belief_pos :: "nat \<Rightarrow> nat \<Rightarrow> Belief \<Rightarrow> nat" where
  "belief_pos s nid b = block_start s nid + unat (b_address b)"

text \<open>The guessing input marks the positions \<open>P\<close> and the epsilon bits of their blocks; the starting guess has them false.\<close>

definition marked :: "nat \<Rightarrow> nat \<Rightarrow> nat set \<Rightarrow> NewBeliefState \<times> NewBeliefState \<Rightarrow> bool" where
  "marked n s P ts \<longleftrightarrow> wf_bs (block_start s n) (fst ts) \<and> wf_bs (block_start s n) (snd ts) \<and>
     (\<forall>p. p mod (s + 1) \<noteq> 0 \<longrightarrow> (bs_on (fst ts) p \<longleftrightarrow> p \<in> P) \<and> (p \<in> P \<longrightarrow> bs_view (snd ts) p = DMCS_FALSE)) \<and>
     (\<forall>p\<in>P. bs_on (fst ts) (p - p mod (s + 1)))"

lemma belief_pos_mod: "unat (b_address b) \<le> s \<Longrightarrow> belief_pos s nid b mod (s + 1) = unat (b_address b)"
  unfolding belief_pos_def block_start_def mod_mult_self3 by simp

lemma belief_pos_block: "unat (b_address b) \<le> s \<Longrightarrow> belief_pos s nid b - belief_pos s nid b mod (s + 1) = block_start s nid"
  by (simp only: belief_pos_mod) (simp add: belief_pos_def)

lemma bs_set_ctx_layout:
  "nid < n \<Longrightarrow> unat (b_address b) \<le> s \<Longrightarrow> wf_bs (block_start s n) bs \<Longrightarrow>
   bs_set_ctx bs nid (unat (b_address b)) (bso_starting_offsets (layout n s)) v = bs_set bs (belief_pos s nid b) v"
  using block_end [of nid n s] by (simp add: bs_set_ctx_def belief_pos_def bs_size_wf)

lemma mark_beliefs_marked:
  assumes "marked n s P ts" and "nid < n" and "bs_on (fst ts) (block_start s nid)"
    and "\<forall>b\<in>set bs. unat (b_address b) \<le> s"
  shows "\<exists>ts'. mark_beliefs nid (bso_starting_offsets (layout n s)) bs ts = Inr ts' \<and>
    marked n s (P \<union> belief_pos s nid ` set bs) ts'"
  using assms(1,3,4)
proof (induction bs arbitrary: ts P)
  case (Cons b bs)
  obtain g sg where ts: "ts = (g, sg)" by fastforce
  let ?p = "belief_pos s nid b"
  from Cons.prems have a: "unat (b_address b) \<le> s" and wf: "wf_bs (block_start s n) g" "wf_bs (block_start s n) sg"
    by (simp_all add: ts marked_def)
  have lt: "?p < block_start s n" using block_end [OF assms(2), of s] a by (simp add: belief_pos_def)
  obtain g' where g: "bs_set g ?p DMCS_TRUE = Inr g'" "wf_bs (block_start s n) g'" "bs_view g' = (bs_view g)(?p := DMCS_TRUE)"
    by (rule bs_set_wf [OF wf(1) lt])
  obtain sg' where sg: "bs_set sg ?p DMCS_FALSE = Inr sg'" "wf_bs (block_start s n) sg'" "bs_view sg' = (bs_view sg)(?p := DMCS_FALSE)"
    by (rule bs_set_wf [OF wf(2) lt])
  have on: "bs_on g' p \<longleftrightarrow> bs_on g p \<or> p = ?p" for p by (simp add: bs_on_def g(3))
  have "marked n s (insert ?p P) (g', sg')"
    using Cons.prems(1,2) belief_pos_block [OF a, of nid] g(2) sg(2)
    unfolding marked_def ts fst_conv snd_conv on sg(3) by simp
  moreover have "bs_on g' (block_start s nid)" using Cons.prems(2) by (simp add: on ts)
  ultimately obtain ts' where "mark_beliefs nid (bso_starting_offsets (layout n s)) bs (g', sg') = Inr ts'"
    "marked n s (insert ?p P \<union> belief_pos s nid ` set bs) ts'"
    using Cons.IH [of "insert ?p P" "(g', sg')"] Cons.prems(3) by auto
  then show ?case using g(1) sg(1) by (simp add: ts bs_set_ctx_layout assms(2) a wf)
qed simp

lemma mark_context_marked:
  assumes "marked n s P ts" and "nid < n" and "\<forall>b\<in>set bs. unat (b_address b) \<le> s"
  shows "\<exists>ts'. mark_context nid (bso_starting_offsets (layout n s)) bs ts = Inr ts' \<and>
    marked n s (P \<union> belief_pos s nid ` set bs) ts'"
proof -
  obtain g sg where ts: "ts = (g, sg)" by fastforce
  from assms(1) have wf: "wf_bs (block_start s n) g" "wf_bs (block_start s n) sg" by (simp_all add: ts marked_def)
  have off: "nid < length (bso_starting_offsets (layout n s))" "bso_starting_offsets (layout n s) ! nid < block_start s n"
    "bso_starting_offsets (layout n s) ! nid = block_start s nid" using assms(2) by simp_all
  obtain g' where g: "setEpsilon g nid (bso_starting_offsets (layout n s)) = Inr g'" "wf_bs (block_start s n) g'"
    "bs_view g' = (bs_view g)(block_start s nid := DMCS_TRUE)"
    using setEpsilon_wf [OF wf(1) off(1,2)] off(3) by metis
  obtain sg' where sg: "setEpsilon sg nid (bso_starting_offsets (layout n s)) = Inr sg'" "wf_bs (block_start s n) sg'"
    "bs_view sg' = (bs_view sg)(block_start s nid := DMCS_TRUE)"
    using setEpsilon_wf [OF wf(2) off(1,2)] off(3) by metis
  have on: "bs_on g' p \<longleftrightarrow> bs_on g p \<or> p = block_start s nid" for p by (simp add: bs_on_def g(3))
  have m: "block_start s nid mod (s + 1) = 0" unfolding block_start_def by (rule mod_mult_self2_is_0)
  have "marked n s P (g', sg')"
    using assms(1) g(2) sg(2) m unfolding marked_def ts fst_conv snd_conv on sg(3) by auto
  from mark_beliefs_marked [OF this assms(2) _ assms(3)] on g(1) sg(1) show ?thesis
    by (simp add: mark_context_def ts)
qed

lemma marked_new: "marked n s {} (bs_new_blocks n s False, bs_new_blocks n s False)"
  using wf_bs_new_blocks [of n s False] by (simp add: marked_def bs_on_def block_start_def)

lemma marked_guess_start:
  assumes "marked n s P (g, sg)" and "0 < n"
  shows "guess_start n s g sg \<and> set (guess_positions s g (getFirst g)) = {p \<in> P. p mod (s + 1) \<noteq> 0}"
proof -
  from assms(1) have wf: "wf_bs (block_start s n) g" "wf_bs (block_start s n) sg"
    and on: "p mod (s + 1) \<noteq> 0 \<Longrightarrow> bs_on g p \<longleftrightarrow> p \<in> P" and eps: "p \<in> P \<Longrightarrow> bs_on g (p - p mod (s + 1))"
    and f: "p mod (s + 1) \<noteq> 0 \<Longrightarrow> p \<in> P \<Longrightarrow> bs_view sg p = DMCS_FALSE" for p
    by (auto simp: marked_def)
  have first: "getFirst g mod (s + 1) = 0"
  proof (rule ccontr)
    assume m: "getFirst g mod (s + 1) \<noteq> 0"
    then have o: "bs_on g (getFirst g)" "\<forall>j<getFirst g. \<not> bs_on g j" using getFirst_cases [of g] by auto
    then have "bs_on g (getFirst g - getFirst g mod (s + 1))" using on [OF m] eps by blast
    moreover have "getFirst g - getFirst g mod (s + 1) < getFirst g"
      using m by (metis diff_less mod_by_0 mod_0 neq0_conv)
    ultimately show False using o(2) by blast
  qed
  have "getFirst g < p" if "bs_on g p" "p mod (s + 1) \<noteq> 0" for p
  proof (rule ccontr)
    assume "\<not> getFirst g < p"
    with getFirst_cases [of g] that(1) have "p = getFirst g" by (meson linorder_neqE_nat)
    with first that(2) show False by simp
  qed
  then have "set (guess_positions s g (getFirst g)) = {p. bs_on g p \<and> p mod (s + 1) \<noteq> 0}"
    using bst.on_lt [OF wf_eq_sized [OF wf(1)]] by (auto simp: guess_positions_def Suc_le_eq)
  with on have ps: "set (guess_positions s g (getFirst g)) = {p \<in> P. p mod (s + 1) \<noteq> 0}" by auto
  with wf first f assms(2) show ?thesis by (simp add: guess_start_def)
qed

text \<open>The positions that a normal context guesses: the input signatures of the neighbors it does not ask.\<close>

definition plan_beliefs :: "ContextQueryPlanMap \<Rightarrow> nat \<Rightarrow> Belief list" where
  "plan_beliefs qpm nid = (case map_of qpm nid of None \<Rightarrow> [] | Some cqp \<Rightarrow>
     (case groundInputSignature cqp of None \<Rightarrow> [] | Some t \<Rightarrow> bt_getAllByAddress t))"

definition guessed_positions :: "nat \<Rightarrow> ContextQueryPlanMap \<Rightarrow> nat list \<Rightarrow> nat set" where
  "guessed_positions s qpm nids = (\<Union>nid\<in>set nids. belief_pos s nid ` set (plan_beliefs qpm nid))"

definition planned :: "nat \<Rightarrow> nat \<Rightarrow> ContextQueryPlanMap \<Rightarrow> nat \<Rightarrow> bool" where
  "planned n s qpm nid \<longleftrightarrow> nid < n \<and> map_of qpm nid \<noteq> None \<and> (\<forall>b\<in>set (plan_beliefs qpm nid). unat (b_address b) \<le> s)"

lemma init_loop_marked:
  assumes "marked n s P ts" and "\<forall>nb\<in>set nbs. planned n s qpm (unat (neighbor_id nb))"
  shows "\<exists>ts'. init_loop qpm (bso_starting_offsets (layout n s)) nbs ts = Inr ts' \<and>
    marked n s (P \<union> guessed_positions s qpm (map (\<lambda>nb. unat (neighbor_id nb)) nbs)) ts'"
  using assms
proof (induction nbs arbitrary: ts P)
  case (Cons nb nbs)
  let ?nid = "unat (neighbor_id nb)"
  from Cons.prems(2) obtain cqp where nid: "?nid < n" "map_of qpm ?nid = Some cqp"
    "\<forall>b\<in>set (plan_beliefs qpm ?nid). unat (b_address b) \<le> s" by (auto simp: planned_def)
  from mark_context_marked [OF Cons.prems(1) nid(1,3)] obtain ts1 where
    ts1: "mark_context ?nid (bso_starting_offsets (layout n s)) (plan_beliefs qpm ?nid) ts = Inr ts1"
    "marked n s (P \<union> belief_pos s ?nid ` set (plan_beliefs qpm ?nid)) ts1" by blast
  from Cons.IH [OF ts1(2)] Cons.prems(2) obtain ts2 where
    "init_loop qpm (bso_starting_offsets (layout n s)) nbs ts1 = Inr ts2"
    "marked n s (P \<union> belief_pos s ?nid ` set (plan_beliefs qpm ?nid) \<union>
       guessed_positions s qpm (map (\<lambda>nb. unat (neighbor_id nb)) nbs)) ts2" by auto
  with ts1(1) nid(2) show ?case by (simp add: plan_beliefs_def guessed_positions_def Un_assoc)
qed (simp add: guessed_positions_def)

text \<open>
  C34. Construction of a normal context: what it will guess are exactly the beliefs in the input signatures of its
  guessing neighbors, all of them false in the starting guess, and both states are as the enumeration
  of guesses needs them.
\<close>

theorem NormalContext_new_guesses:
  assumes "0 < n" and "\<forall>nb\<in>set gnbs. planned n s qpm (unat (neighbor_id nb))"
  shows "\<exists>cx g sg. NormalContext_new (Some (layout n s)) cid coff rp qpm br nbs (Some gnbs) = Inr cx \<and>
    total_guessing_input cx = Some g \<and> starting_guess cx = Some sg \<and> guess_start n s g sg \<and>
    set (guess_positions s g (getFirst g)) =
      {p \<in> guessed_positions s qpm (map (\<lambda>nb. unat (neighbor_id nb)) gnbs). p mod (s + 1) \<noteq> 0}"
proof -
  from init_loop_marked [OF marked_new assms(2)] obtain g sg where
    "init_loop qpm (bso_starting_offsets (layout n s)) gnbs (bs_new_blocks n s False, bs_new_blocks n s False) = Inr (g, sg)"
    "marked n s (guessed_positions s qpm (map (\<lambda>nb. unat (neighbor_id nb)) gnbs)) (g, sg)" by auto
  with marked_guess_start [OF this(2) assms(1)] show ?thesis
    by (simp add: NormalContext_new_def NormalContext_init_def bso_instance_def NewContext.defs NewContext_new_def)
qed

theorem NormalContext_new_guesses_witness:
  "\<exists>cx g sg. NormalContext_new (Some (layout 2 3)) 0 0 Map.empty
       [(1, ContextQueryPlan_new\<lparr>groundInputSignature := Some \<lparr>bt_container =
          [\<lparr>b_address = 2, b_kind = 0x40000001, b_text = ''p''\<rparr>], nextAddress = 0\<rparr>\<rparr>)] [] [] (Some [\<lparr>neighbor_id = 1, neighbor_offset = 0, nb_hostname = [], nb_port = []\<rparr>]) = Inr cx \<and>
    total_guessing_input cx = Some g \<and> starting_guess cx = Some sg \<and> guess_start 2 3 g sg \<and>
    set (guess_positions 3 g (getFirst g)) = {6}"
proof -
  let ?qpm = "[(1::nat, ContextQueryPlan_new\<lparr>groundInputSignature := Some \<lparr>bt_container =
          [\<lparr>b_address = 2, b_kind = 0x40000001, b_text = ''p''\<rparr>], nextAddress = 0\<rparr>\<rparr>)]"
  let ?nb = "\<lparr>neighbor_id = 1, neighbor_offset = 0, nb_hostname = [], nb_port = []\<rparr>"
  have p: "\<forall>nb\<in>set [?nb]. planned 2 3 ?qpm (unat (neighbor_id nb))" by (simp add: planned_def plan_beliefs_def bt_getAllByAddress_def)
  have "{q \<in> guessed_positions 3 ?qpm (map (\<lambda>nb. unat (neighbor_id nb)) [?nb]). q mod (3 + 1) \<noteq> 0} = {6}"
    by (auto simp: guessed_positions_def plan_beliefs_def bt_getAllByAddress_def belief_pos_def block_start_def)
  with NormalContext_new_guesses [OF _ p, of 0 0 Map.empty "[]" "[]"] show ?thesis by simp
qed

end
