(* ===== verification/Context_Answers.thy ===== *)
theory Context_Answers
  imports Normal_Context
begin

text \<open>
  What contexts answer: the models that a context sends for an input, over all guesses, and the
  role of the cache of guesses.
\<close>

section \<open>The guesses\<close>

text \<open>The guesses that \<open>next_guess\<close> runs through, the first one included.\<close>

fun guess_chain :: "BeliefStateOffset option \<Rightarrow> NewBeliefState \<Rightarrow> NewBeliefState list \<Rightarrow> bool" where
  "guess_chain inst t [] = False"
| "guess_chain inst t [g] = (next_guess inst g t = Inr None)"
| "guess_chain inst t (g # g' # gs) = (next_guess inst g t = Inr (Some g') \<and> guess_chain inst t (g' # gs))"

text \<open>What the loop over the guesses does to the cache, given the numbers of models per guess.\<close>

fun cache_run :: "CachePosition \<Rightarrow> nat \<Rightarrow> nat \<Rightarrow> nat \<Rightarrow> nat list \<Rightarrow> CachePosition res" where
  "cache_run c step k1 k2 [] = Inr c"
| "cache_run c step k1 k2 (len # lens) =
     bind_res (if 0 < step \<and> len < k1 then update_cache c step len else Inr c) (\<lambda>c.
       if satisfied_by k1 k2 len then Inr c
       else case next_request k1 k2 len of (a, b) \<Rightarrow> cache_run c (step + 1) a b lens)"

context local_reasoner
begin

abbreviation served :: "'z NewContext_scheme \<Rightarrow> qid \<Rightarrow> NewBeliefState \<Rightarrow> bool" where
  "served cx q iface \<equiv> ctx_id cx = ctx \<and> bridge_rules cx = br \<and> return_plan cx (invoker_from_qid q) = Some iface"

abbreviation can_solve :: "nat \<Rightarrow> NewBeliefState \<Rightarrow> bool" where
  "can_solve \<equiv> solvable R bso ctx br e"

text \<open>One round of the loop over the guesses.\<close>

lemma guess_loop_step:
  assumes cx: "served cx q iface" "total_guessing_input cx = Some t" and w: "world_ok e w"
    and s: "can_solve k2 (mk g)" and k: "good_request k1 k2" and n: "next_request k1 k2 (length (models (mk g))) = (a, b)"
    and g: "next_guess (r_inst R) g t = Inr r"
  shows "\<exists>w1. guess_loop (Suc f) R mk cx g step k1 k2 q w =
      bind_res (if 0 < step \<and> length (models (mk g)) < k1 then update_cache (cache cx) step (length (models (mk g))) else Inr (cache cx))
        (\<lambda>c. if satisfied_by k1 k2 (length (models (mk g))) then Inr (True, a, b, cx\<lparr>cache := c\<rparr>, w1)
          else case r of None \<Rightarrow> Inr (False, a, b, cx\<lparr>cache := c\<rparr>, w1)
            | Some g' \<Rightarrow> guess_loop f R mk (cx\<lparr>cache := c\<rparr>) g' (sz_add step 1) a b q w1) \<and>
    world_ok e w1 \<and> answers q (map (\<lambda>m. bs_and m iface) (requested k1 k2 (models (mk g)))) w w1"
proof -
  let ?upd = "if 0 < step \<and> length (models (mk g)) < k1 then update_cache (cache cx) step (length (models (mk g))) else Inr (cache cx)"
  from compute_ok [OF _ _ _ w s k n, of cx q iface step] cx(1) obtain w1 where
    w1: "compute R cx (mk g) k1 k2 q step w =
      bind_res ?upd (\<lambda>c. Inr (satisfied_by k1 k2 (length (models (mk g))), a, b, cx\<lparr>cache := c\<rparr>, w1))"
    "world_ok e w1" "answers q (map (\<lambda>m. bs_and m iface) (requested k1 k2 (models (mk g)))) w w1" by blast
  have "guess_loop (Suc f) R mk cx g step k1 k2 q w =
      bind_res ?upd (\<lambda>c. if satisfied_by k1 k2 (length (models (mk g))) then Inr (True, a, b, cx\<lparr>cache := c\<rparr>, w1)
          else case r of None \<Rightarrow> Inr (False, a, b, cx\<lparr>cache := c\<rparr>, w1)
            | Some g' \<Rightarrow> guess_loop f R mk (cx\<lparr>cache := c\<rparr>) g' (sz_add step 1) a b q w1)"
  proof (cases ?upd)
    case (Inl x)
    show ?thesis unfolding guess_loop.simps w1(1) Inl by simp
  next
    case (Inr c)
    show ?thesis unfolding guess_loop.simps w1(1) Inr using cx(2) g by (simp del: One_nat_def)
  qed
  with w1(2,3) show ?thesis by blast
qed

lemma guess_loop_ok:
  assumes "served cx q iface" and "total_guessing_input cx = Some t" and "world_ok e w"
    and "\<forall>g'\<in>set (g # gs). can_solve k2 (mk g')" and "good_request k1 k2"
    and "guess_chain (r_inst R) t (g # gs)" and "length gs < fuel" and "step + length gs < SIZE_T"
    and "mss = map (\<lambda>g. models (mk g)) (g # gs)"
  shows "\<exists>a b w'. guess_loop fuel R mk cx g step k1 k2 q w =
      bind_res (cache_run (cache cx) step k1 k2 (map length mss))
        (\<lambda>c. Inr (satisfied_by k1 k2 (length (concat mss)), a, b, cx\<lparr>cache := c\<rparr>, w')) \<and>
    (\<not> satisfied_by k1 k2 (length (concat mss)) \<longrightarrow> next_request k1 k2 (length (concat mss)) = (a, b)) \<and>
    (is_ok (cache_run (cache cx) step k1 k2 (map length mss)) \<longrightarrow>
       world_ok e w' \<and> answers q (map (\<lambda>m. bs_and m iface) (requested k1 k2 (concat mss))) w w')"
  using assms
proof (induction gs arbitrary: cx g step k1 k2 w fuel mss)
  case Nil
  then obtain f where fuel: "fuel = Suc f" by (cases fuel) auto
  obtain a b where n: "next_request k1 k2 (length (models (mk g))) = (a, b)" by fastforce
  have mss: "mss = [models (mk g)]" using Nil.prems(9) by simp
  from guess_loop_step [where mk = mk and g = g and r = None and f = f and step = step, OF Nil.prems(1,2,3) _ Nil.prems(5) n] Nil.prems(4,6)
  show ?case unfolding fuel mss using n
    by (cases "if 0 < step \<and> length (models (mk g)) < k1 then update_cache (cache cx) step (length (models (mk g))) else Inr (cache cx)") auto
next
  case (Cons g1 gs)
  then obtain f where fuel: "fuel = Suc f" by (cases fuel) auto
  let ?ms = "models (mk g)" and ?mss = "map (\<lambda>g. models (mk g)) (g1 # gs)"
  let ?upd = "if 0 < step \<and> length ?ms < k1 then update_cache (cache cx) step (length ?ms) else Inr (cache cx)"
  have mss: "mss = ?ms # ?mss" using Cons.prems(9) by simp
  have g: "next_guess (r_inst R) g t = Inr (Some g1)" "guess_chain (r_inst R) t (g1 # gs)" using Cons.prems(6) by simp_all
  have step: "sz_add step 1 = step + 1" using Cons.prems(8) by (simp add: sz_add_small)
  obtain a b where n: "next_request k1 k2 (length ?ms) = (a, b)" by fastforce
  have "can_solve k2 (mk g)" using Cons.prems(4) by simp
  from guess_loop_step [where mk = mk and g = g and f = f and step = step, OF Cons.prems(1,2,3) this Cons.prems(5) n g(1)] obtain w1 where
    w1: "guess_loop fuel R mk cx g step k1 k2 q w = bind_res ?upd (\<lambda>c. if satisfied_by k1 k2 (length ?ms)
        then Inr (True, a, b, cx\<lparr>cache := c\<rparr>, w1) else guess_loop f R mk (cx\<lparr>cache := c\<rparr>) g1 (step + 1) a b q w1)"
    "world_ok e w1" "answers q (map (\<lambda>m. bs_and m iface) (requested k1 k2 ?ms)) w w1"
    unfolding fuel step option.case by blast
  have run: "cache_run (cache cx) step k1 k2 (map length mss) = bind_res ?upd (\<lambda>c. if satisfied_by k1 k2 (length ?ms)
        then Inr c else cache_run c (step + 1) a b (map length ?mss))" unfolding mss using n by simp
  note req = requested_append [OF Cons.prems(5) n, of "concat ?mss"]
  note add = next_request_add [OF Cons.prems(5) _ n, of "length (concat ?mss)"]
  have mss_len: "length (concat mss) = length ?ms + length (concat ?mss)" "concat mss = ?ms @ concat ?mss" by (simp_all add: mss)
  show ?case
  proof (cases "?upd")
    case (Inl x)
    then show ?thesis unfolding w1(1) run by (auto intro: prod.exhaust)
  next
    case (Inr c)
    show ?thesis
    proof (cases "satisfied_by k1 k2 (length ?ms)")
      case True
      then have "satisfied_by k1 k2 (length (concat mss))" by (auto simp: mss_len satisfied_by_def)
      with True w1(2,3) req show ?thesis unfolding w1(1) run Inr mss_len(2)
        by (intro exI [of _ a] exI [of _ b] exI [of _ w1]) simp
    next
      case False
      have "served (cx\<lparr>cache := c\<rparr>) q iface" "total_guessing_input (cx\<lparr>cache := c\<rparr>) = Some t"
        "\<forall>g'\<in>set (g1 # gs). can_solve b (mk g')" "length gs < f" "step + 1 + length gs < SIZE_T"
        using Cons.prems fuel solvable_next [OF Cons.prems(5) n] by auto
      from Cons.IH [OF this(1,2) w1(2) this(3) next_request_good [OF Cons.prems(5) n] g(2) this(4,5) refl]
      obtain a' b' w' where r: "guess_loop f R mk (cx\<lparr>cache := c\<rparr>) g1 (step + 1) a b q w1 =
          bind_res (cache_run c (step + 1) a b (map length ?mss))
            (\<lambda>c. Inr (satisfied_by a b (length (concat ?mss)), a', b', cx\<lparr>cache := c\<rparr>, w'))"
        "\<not> satisfied_by a b (length (concat ?mss)) \<longrightarrow> next_request a b (length (concat ?mss)) = (a', b')"
        "is_ok (cache_run c (step + 1) a b (map length ?mss)) \<longrightarrow>
           world_ok e w' \<and> answers q (map (\<lambda>m. bs_and m iface) (requested a b (concat ?mss))) w1 w'" by auto
      have ans: "is_ok (cache_run c (step + 1) a b (map length ?mss)) \<longrightarrow>
          world_ok e w' \<and> answers q (map (\<lambda>m. bs_and m iface) (requested k1 k2 (concat mss))) w w'"
        using r(3) answers_trans [OF w1(3)] req False unfolding mss_len(2) by simp
      show ?thesis unfolding w1(1) run Inr bind_res_simps if_not_P [OF False] r(1) mss_len(1)
        using r(2) ans add False by (intro exI [of _ a'] exI [of _ b'] exI [of _ w'] conjI) (simp_all add: mss_len(2))
    qed
  qed
qed

end

section \<open>The chain of all guesses\<close>

definition all_guesses :: "nat \<Rightarrow> nat \<Rightarrow> NewBeliefState \<Rightarrow> NewBeliefState \<Rightarrow> NewBeliefState list" where
  "all_guesses n s g sg = map (\<lambda>k. case iterate_guess (Some (layout n s)) g k sg of Inr (Some c) \<Rightarrow> c | _ \<Rightarrow> sg)
     [0..<2 ^ length (guess_positions s g (getFirst g))]"

lemma nth_all_guesses:
  assumes "guess_start n s g sg" and "k < length (all_guesses n s g sg)"
  shows "iterate_guess (Some (layout n s)) g k sg = Inr (Some (all_guesses n s g sg ! k)) \<and>
    wf_bs (block_start s n) (all_guesses n s g sg ! k)"
  using assms(2) iterate_guess_number [OF assms(1) refl, of k] by (auto simp: all_guesses_def)

lemma length_all_guesses [simp]: "length (all_guesses n s g sg) = 2 ^ length (guess_positions s g (getFirst g))"
  by (simp add: all_guesses_def)

lemma all_guesses_next:
  assumes "guess_start n s g sg" and "k < length (all_guesses n s g sg)"
  shows "next_guess (Some (layout n s)) (all_guesses n s g sg ! k) g =
    Inr (if Suc k < length (all_guesses n s g sg) then Some (all_guesses n s g sg ! Suc k) else None)"
proof -
  have "iterate_guess (Some (layout n s)) g (Suc k) sg = next_guess (Some (layout n s)) (all_guesses n s g sg ! k) g"
    using nth_all_guesses [OF assms] by simp
  moreover have "iterate_guess (Some (layout n s)) g (Suc k) sg =
      Inr (if Suc k < length (all_guesses n s g sg) then Some (all_guesses n s g sg ! Suc k) else None)"
    using nth_all_guesses [OF assms(1), of "Suc k"] iterate_guess_number [OF assms(1) refl, of "Suc k"] assms(2)
    by (cases "Suc k < length (all_guesses n s g sg)") simp_all
  ultimately show ?thesis by simp
qed

lemma guess_chain_nth:
  "xs \<noteq> [] \<Longrightarrow> (\<And>k. k < length xs \<Longrightarrow> next_guess inst (xs ! k) t =
     Inr (if Suc k < length xs then Some (xs ! Suc k) else None)) \<Longrightarrow> guess_chain inst t xs"
proof (induction inst t xs rule: guess_chain.induct)
  case (2 inst t g)
  from "2.prems"(2) [of 0] show ?case by simp
next
  case (3 inst t g g' gs)
  from "3.prems"(2) [of 0] "3.prems"(2) [of "Suc k" for k] "3.IH" show ?case by simp
qed simp

lemma all_guesses_chain:
  assumes "guess_start n s g sg" and "k < length (all_guesses n s g sg)"
  shows "guess_chain (Some (layout n s)) g (drop k (all_guesses n s g sg))"
  using assms(2) all_guesses_next [OF assms(1)] by (intro guess_chain_nth) (auto simp: less_diff_conv add.commute)

lemma first_guess_nth:
  assumes "guess_start n s g sg" and "total_guessing_input cx = Some g" and "starting_guess cx = Some sg"
  shows "first_guess (Some (layout n s)) cx k =
    Inr (if k < length (all_guesses n s g sg) then Some (all_guesses n s g sg ! k) else None)"
proof -
  have "jump_guess (Some (layout n s)) sg g 0 = Inr (Some sg)" by (simp add: jump_guess_def bso_instance_def)
  then have "first_guess (Some (layout n s)) cx k = iterate_guess (Some (layout n s)) g k sg"
    using assms(2,3) jump_guess_iterates [OF assms(1), of k] by (auto simp: first_guess_def)
  with nth_all_guesses [OF assms(1), of k] iterate_guess_number [OF assms(1) refl, of k] show ?thesis
    by (cases "k < length (all_guesses n s g sg)") simp_all
qed

section \<open>Processing an input\<close>

definition input_models :: "BeliefStateOffset option \<Rightarrow> (NewBeliefState \<Rightarrow> NewBeliefState list) \<Rightarrow> NewBeliefState list
    \<Rightarrow> 'z NormalContext_scheme \<Rightarrow> NewBeliefState \<Rightarrow> NewBeliefState list list" where
  "input_models inst models guesses cx input = (case must_guess inst cx input of
       Inr True \<Rightarrow> map (\<lambda>g. models (bs_or input g)) guesses | _ \<Rightarrow> [models input])"

context local_reasoner
begin

text \<open>The loop of the guesses from the one that the cache points to.\<close>

lemma process_guesses:
  assumes cx: "served cx q iface" "total_guessing_input cx = Some g" "starting_guess cx = Some sg"
    and g: "guess_start n s g sg" "bso = layout n s" and must: "must_guess (r_inst R) cx input = Inr True"
    and w: "world_ok e w" and k: "good_request k1 k2"
    and pos: "find_position (cache cx) k1 = Inr p" "p < length (all_guesses n s g sg)"
    and s: "\<forall>g'\<in>set (all_guesses n s g sg). can_solve k2 (bs_or input g')"
    and len: "length (all_guesses n s g sg) \<le> fuel" "length (all_guesses n s g sg) < SIZE_T"
    and mss: "mss = map (\<lambda>g. models (bs_or input g)) (drop p (all_guesses n s g sg))"
  shows "\<exists>a b w'. process_input fuel R cx input q k1 k2 w =
      bind_res (cache_run (cache cx) p k1 k2 (map length mss))
        (\<lambda>c. Inr (satisfied_by k1 k2 (length (concat mss)), a, b, cx\<lparr>cache := c\<rparr>, w')) \<and>
    (\<not> satisfied_by k1 k2 (length (concat mss)) \<longrightarrow> next_request k1 k2 (length (concat mss)) = (a, b)) \<and>
    (is_ok (cache_run (cache cx) p k1 k2 (map length mss)) \<longrightarrow>
       world_ok e w' \<and> answers q (map (\<lambda>m. bs_and m iface) (requested k1 k2 (concat mss))) w w')"
proof -
  let ?gs = "all_guesses n s g sg"
  have d: "drop p ?gs = ?gs ! p # drop (Suc p) ?gs" using pos(2) by (simp add: Cons_nth_drop_Suc)
  have i: "r_inst R = Some (layout n s)" using inst g(2) by simp
  have p: "process_input fuel R cx input q k1 k2 w = guess_loop fuel R (bs_or input) cx (?gs ! p) p k1 k2 q w"
    using must pos first_guess_nth [OF g(1) cx(2,3), of p] i by (simp add: process_input_def)
  have "\<forall>g'\<in>set (?gs ! p # drop (Suc p) ?gs). can_solve k2 (bs_or input g')"
    using s pos(2) by (auto dest: in_set_dropD)
  moreover have "guess_chain (r_inst R) g (?gs ! p # drop (Suc p) ?gs)"
    using all_guesses_chain [OF g(1) pos(2)] d i by simp
  ultimately show ?thesis unfolding p mss d
    using cx(1,2) w k len pos(2) by (intro guess_loop_ok) auto
qed

text \<open>
  Inputs that need no guess, or a request for all models that finds the cache empty; the latter is
  the case in which the cache does not get in the way.
\<close>

definition ready_input :: "'z NormalContext_scheme \<Rightarrow> NewBeliefState list \<Rightarrow> nat \<Rightarrow> nat \<Rightarrow> NewBeliefState \<Rightarrow> bool" where
  "ready_input cx guesses k1 k2 input \<longleftrightarrow>
     must_guess (r_inst R) cx input = Inr False \<and> can_solve k2 input \<or>
     must_guess (r_inst R) cx input = Inr True \<and> k1 = 0 \<and> k2 = 0 \<and> mark (cache cx) = [] \<and>
     (\<forall>g'\<in>set guesses. can_solve k2 (bs_or input g')) \<and> length guesses < SIZE_T \<and>
     (\<exists>n s g sg. guess_start n s g sg \<and> bso = layout n s \<and> total_guessing_input cx = Some g \<and>
        starting_guess cx = Some sg \<and> guesses = all_guesses n s g sg)"

lemma must_guess_counter [simp]: "must_guess inst (cx\<lparr>query_counter := c\<rparr>) input = must_guess inst cx input"
  by (simp add: must_guess_def)

lemma ready_input_counter [simp]: "ready_input (cx\<lparr>query_counter := c\<rparr>) gs k1 k2 input = ready_input cx gs k1 k2 input"
  by (simp add: ready_input_def)

lemma input_models_counter [simp]:
  "input_models inst ms gs (cx\<lparr>query_counter := c\<rparr>) input = input_models inst ms gs cx input"
  by (simp add: input_models_def)

lemma cache_run_all: "cache_run c step 0 0 lens = Inr c"
  by (induction lens arbitrary: step) (simp_all add: satisfied_by_def next_request_def)

lemma process_input_ok:
  assumes cx: "served cx q iface" and w: "world_ok e w" and k: "good_request k1 k2"
    and r: "ready_input cx guesses k1 k2 input" and fuel: "length guesses \<le> fuel"
    and ms: "ms = concat (input_models (r_inst R) models guesses cx input)"
  shows "\<exists>a b w'. process_input fuel R cx input q k1 k2 w = Inr (satisfied_by k1 k2 (length ms), a, b, cx, w') \<and>
    (\<not> satisfied_by k1 k2 (length ms) \<longrightarrow> next_request k1 k2 (length ms) = (a, b)) \<and>
    world_ok e w' \<and> answers q (map (\<lambda>m. bs_and m iface) (requested k1 k2 ms)) w w'"
  using r unfolding ready_input_def
proof (elim disjE conjE exE)
  assume no: "must_guess (r_inst R) cx input = Inr False" and s: "can_solve k2 input"
  obtain a b where n: "next_request k1 k2 (length (models input)) = (a, b)" by fastforce
  from compute_ok [OF _ _ _ w s k n, of cx q iface 0] cx no ms n show ?thesis
    by (auto simp: process_input_def input_models_def)
next
  fix n s g sg
  assume h: "must_guess (r_inst R) cx input = Inr True" "k1 = 0" "k2 = 0" "mark (cache cx) = []"
    "\<forall>g'\<in>set guesses. can_solve k2 (bs_or input g')" "length guesses < SIZE_T" "guess_start n s g sg" "bso = layout n s"
    "total_guessing_input cx = Some g" "starting_guess cx = Some sg" "guesses = all_guesses n s g sg"
  have pos: "find_position (cache cx) k1 = Inr 0" "0 < length (all_guesses n s g sg)" using h(4) by (simp_all add: find_position_def)
  have m: "concat (map (\<lambda>g. models (bs_or input g)) (drop 0 (all_guesses n s g sg))) = ms"
    using ms h(1,11) by (simp add: input_models_def)
  from process_guesses [OF cx h(9,10,7,8,1) w k pos _ _ _ refl, of fuel] h(5,6,11) fuel
  show ?thesis unfolding m by (simp add: h(2,3) cache_run_all)
qed

end

section \<open>Processing a request\<close>

text \<open>
  What a context relies on of its joiner: it delivers the inputs \<open>ins\<close> one after the other, then a
  null pointer; \<open>ready\<close> is the state between requests and \<open>rest\<close> the state with inputs still to come.
  After an enumeration without any input the joiner is ready again only if it is \<open>settled\<close>.
\<close>

locale input_source =
  fixes net :: "'e network" and inst :: "BeliefStateOffset option" and ins :: "NewBeliefState list" and need :: nat
    and ready :: "'e ctx_joiner \<Rightarrow> bool" and rest :: "'e ctx_joiner \<Rightarrow> NewBeliefState list \<Rightarrow> bool" and settled :: bool
  assumes first_law: "ready j \<Longrightarrow> need \<le> fuel \<Longrightarrow> bare_qid q \<Longrightarrow>
      \<exists>r j'. virtual_first_join fuel net inst j q h = Inr (r, j') \<and> belief_state r = head_of ins \<and>
        (ins \<noteq> [] \<longrightarrow> rest j' (tl ins)) \<and> (ins = [] \<longrightarrow> settled \<longrightarrow> ready j')"
    and next_law: "rest j xs \<Longrightarrow> need \<le> fuel \<Longrightarrow> bare_qid q \<Longrightarrow>
      \<exists>r j'. virtual_next_join fuel net inst j q h = Inr (r, j') \<and> belief_state r = head_of xs \<and>
        (xs \<noteq> [] \<longrightarrow> rest j' (tl xs)) \<and> (xs = [] \<longrightarrow> ready j')"
    and rest_ready: "rest j xs \<Longrightarrow> ready j"

interpretation leaf: input_source net "Some bso" "[bs_new_blocks (bso_no_blocks bso) (bso_size_belief_state bso) False]" 0
  "\<lambda>j. j = LeafJoiner" "\<lambda>j xs. j = LeafJoiner \<and> xs = []" True
  for net bso
  by unfold_locales
    (auto simp: virtual_first_join_def virtual_next_join_def leaf_first_join_def leaf_next_join_def bso_instance_def rbs_new_def)

locale context_service = local_reasoner R ctx bso br e + input_source net "Some bso" ins need ready rest settled
  for R :: reasoner and ctx :: nat and bso :: BeliefStateOffset and br :: BridgeRuleTable and e :: Evaluator
    and net :: "'e network" and ins :: "NewBeliefState list" and need :: nat
    and ready :: "'e ctx_joiner \<Rightarrow> bool" and rest :: "'e ctx_joiner \<Rightarrow> NewBeliefState list \<Rightarrow> bool" and settled :: bool
begin

abbreviation input_ms :: "'z NormalContext_scheme \<Rightarrow> NewBeliefState list \<Rightarrow> NewBeliefState \<Rightarrow> NewBeliefState list" where
  "input_ms cx guesses input \<equiv> concat (input_models (r_inst R) models guesses cx input)"

lemma own_qid_bare:
  "ctx < 2 ^ 10 \<Longrightarrow> k < 2 ^ 24 \<Longrightarrow> bare_qid (query_id_own (of_nat ctx) (of_nat k))"
  by (intro query_id_own_bare fits_of_nat) simp_all

lemma ready_input_next:
  "good_request k1 k2 \<Longrightarrow> ready_input cx gs k1 k2 i \<Longrightarrow> next_request k1 k2 l = (a, b) \<Longrightarrow> ready_input cx gs a b i"
  unfolding ready_input_def using solvable_next [of k1 k2 l a b] by (elim disjE conjE) (auto simp: next_request_def)

text \<open>One round of the loop over the inputs.\<close>

lemma input_loop_step:
  assumes cx: "served cx q iface" and "world_ok e w" and "good_request k1 k2"
    and "ready_input cx guesses k1 k2 input" and r: "rest j xs" and f: "max need (length guesses) \<le> f"
    and c: "query_counter cx + 1 < 2 ^ 24" and ms: "ms = input_ms cx guesses input" and small: "ctx < 2 ^ 10"
  shows "\<exists>w1. world_ok e w1 \<and> answers q (map (\<lambda>m. bs_and m iface) (requested k1 k2 ms)) w w1 \<and>
    (satisfied_by k1 k2 (length ms) \<longrightarrow> input_loop (Suc f) R net cx (Some input) q h k1 k2 j w = Inr (cx, j, w1)) \<and>
    (\<not> satisfied_by k1 k2 (length ms) \<longrightarrow> (\<exists>a b j1. next_request k1 k2 (length ms) = (a, b) \<and>
       input_loop (Suc f) R net cx (Some input) q h k1 k2 j w =
         input_loop f R net (cx\<lparr>query_counter := query_counter cx + 1\<rparr>) (head_of xs) q h a b j1 w1 \<and>
       (xs \<noteq> [] \<longrightarrow> rest j1 (tl xs)) \<and> (xs = [] \<longrightarrow> ready j1)))"
proof -
  have f': "length guesses \<le> f" "need \<le> f" using f by simp_all
  have c': "sz_add (query_counter cx) 1 = query_counter cx + 1" using c by (intro sz_add_small) (simp add: SIZE_T_def)
  from process_input_ok [OF assms(1-4) f'(1) ms] obtain a b w1 where
    p: "process_input f R cx input q k1 k2 w = Inr (satisfied_by k1 k2 (length ms), a, b, cx, w1)"
    "\<not> satisfied_by k1 k2 (length ms) \<longrightarrow> next_request k1 k2 (length ms) = (a, b)"
    "world_ok e w1" "answers q (map (\<lambda>m. bs_and m iface) (requested k1 k2 ms)) w w1" by blast
  from next_law [OF r f'(2) own_qid_bare [OF small c], of h] obtain rb j1 where
    "virtual_next_join f net (Some bso) j (query_id_own (of_nat ctx) (of_nat (query_counter cx + 1))) h = Inr (rb, j1)"
    "belief_state rb = head_of xs" "xs \<noteq> [] \<longrightarrow> rest j1 (tl xs)" "xs = [] \<longrightarrow> ready j1" by blast
  with p cx inst c' show ?thesis by (intro exI [of _ w1]) (auto simp: Let_def)
qed

lemma input_loop_ok:
  assumes "served cx q iface" and "world_ok e w" and "good_request k1 k2"
    and "\<forall>i\<in>set (input # xs). ready_input cx guesses k1 k2 i"
    and "rest j xs" and "max need (length guesses) + length xs < fuel" and "query_counter cx + length xs + 1 < 2 ^ 24"
    and "ms = concat (map (input_ms cx guesses) (input # xs))" and small: "ctx < 2 ^ 10"
  shows "\<exists>c j' w'. input_loop fuel R net cx (Some input) q h k1 k2 j w = Inr (cx\<lparr>query_counter := c\<rparr>, j', w') \<and>
    c \<le> query_counter cx + length xs + 1 \<and> ready j' \<and> world_ok e w' \<and>
    answers q (map (\<lambda>m. bs_and m iface) (requested k1 k2 ms)) w w'"
  using assms(1-8)
proof (induction xs arbitrary: cx input w k1 k2 j fuel ms)
  case (Nil cx input)
  obtain f where f: "fuel = Suc f" "max need (length guesses) \<le> f"
    by (rule that [of "fuel - 1"]) (use Nil.prems(6) in \<open>linarith+\<close>)
  have ms: "ms = input_ms cx guesses input" using Nil.prems(8) by simp
  have "ready_input cx guesses k1 k2 input" "query_counter cx + 1 < 2 ^ 24" using Nil.prems(4,7) by simp_all
  from input_loop_step [OF Nil.prems(1-3) this(1) Nil.prems(5) f(2) this(2) ms small, of h] obtain w1 where
    w1: "world_ok e w1" "answers q (map (\<lambda>m. bs_and m iface) (requested k1 k2 ms)) w w1"
    "satisfied_by k1 k2 (length ms) \<longrightarrow> input_loop fuel R net cx (Some input) q h k1 k2 j w = Inr (cx, j, w1)"
    "\<not> satisfied_by k1 k2 (length ms) \<longrightarrow> (\<exists>j1. input_loop fuel R net cx (Some input) q h k1 k2 j w =
       Inr (cx\<lparr>query_counter := query_counter cx + 1\<rparr>, j1, w1) \<and> ready j1)"
    unfolding f(1) head_of_simps input_loop.simps(1) by blast
  show ?case
  proof (cases "satisfied_by k1 k2 (length ms)")
    case True
    with w1 rest_ready [OF Nil.prems(5)] show ?thesis
      by (intro exI [of _ "query_counter cx"] exI [of _ j] exI [of _ w1]) simp
  next
    case False
    with w1 show ?thesis by (auto intro!: exI [of _ "query_counter cx + 1"])
  qed
next
  case (Cons x xs cx input)
  let ?cx = "cx\<lparr>query_counter := query_counter cx + 1\<rparr>" and ?ms = "input_ms cx guesses input"
  let ?rest = "concat (map (input_ms cx guesses) (x # xs))"
  obtain f where f: "fuel = Suc f" "max need (length guesses) \<le> f"
    by (rule that [of "fuel - 1"]) (use Cons.prems(6) in \<open>linarith+\<close>)
  have ms: "ms = ?ms @ ?rest" using Cons.prems(8) by simp
  obtain a b where n: "next_request k1 k2 (length ?ms) = (a, b)" by fastforce
  note split = requested_append [OF Cons.prems(3) n, of ?rest]
  have "ready_input cx guesses k1 k2 input" "query_counter cx + 1 < 2 ^ 24" using Cons.prems(4,7) by simp_all
  from input_loop_step [OF Cons.prems(1-3) this(1) Cons.prems(5) f(2) this(2) refl small, of h] obtain w1 where
    w1: "world_ok e w1" "answers q (map (\<lambda>m. bs_and m iface) (requested k1 k2 ?ms)) w w1"
    "satisfied_by k1 k2 (length ?ms) \<longrightarrow> input_loop fuel R net cx (Some input) q h k1 k2 j w = Inr (cx, j, w1)"
    "\<not> satisfied_by k1 k2 (length ?ms) \<longrightarrow> (\<exists>j1. input_loop fuel R net cx (Some input) q h k1 k2 j w =
       input_loop f R net ?cx (Some x) q h a b j1 w1 \<and> rest j1 xs)"
    unfolding f(1) n head_of_simps list.sel prod.inject by blast
  show ?case
  proof (cases "satisfied_by k1 k2 (length ?ms)")
    case True
    with w1 rest_ready [OF Cons.prems(5)] split show ?thesis unfolding ms
      by (intro exI [of _ "query_counter cx"] exI [of _ j] exI [of _ w1]) simp
  next
    case False
    with w1(4) obtain j1 where loop: "input_loop fuel R net cx (Some input) q h k1 k2 j w = input_loop f R net ?cx (Some x) q h a b j1 w1"
      and r: "rest j1 xs" by auto
    have "served ?cx q iface" "\<forall>i\<in>set (x # xs). ready_input ?cx guesses a b i"
      "max need (length guesses) + length xs < f" "query_counter ?cx + length xs + 1 < 2 ^ 24"
      using Cons.prems f(1) ready_input_next [OF Cons.prems(3) _ n] by auto
    from Cons.IH [OF this(1) w1(1) next_request_good [OF Cons.prems(3) n] this(2) r this(3,4) refl]
    obtain d j' w' where l: "input_loop f R net ?cx (Some x) q h a b j1 w1 = Inr (cx\<lparr>query_counter := d\<rparr>, j', w')"
      "d \<le> query_counter cx + 1 + length xs + 1" "ready j'" "world_ok e w'"
      "answers q (map (\<lambda>m. bs_and m iface) (requested a b ?rest)) w1 w'" by auto
    have "answers q (map (\<lambda>m. bs_and m iface) (requested k1 k2 ms)) w w'"
      using answers_trans [OF w1(2) l(5)] split False by (simp add: ms)
    with l loop show ?thesis by (intro exI [of _ d] exI [of _ j'] exI [of _ w']) simp
  qed
qed

lemma process_request_ok:
  assumes cx: "served cx q iface" and "world_ok e w" and "good_request k1 k2" and "k2 + 1 < SIZE_T"
    and "\<forall>i\<in>set ins. ready_input cx guesses k1 k2 i" and "ready j"
    and "max need (length guesses) + length ins < fuel" and "query_counter cx + length ins + 1 < 2 ^ 24"
    and small: "ctx < 2 ^ 10"
  shows "\<exists>c j' w'. process_request fuel R net cx q h k1 k2 j w = Inr (cx\<lparr>query_counter := c\<rparr>, j', w') \<and>
    c \<le> query_counter cx + length ins + 1 \<and> (ins = [] \<longrightarrow> settled \<longrightarrow> ready j') \<and> (ins \<noteq> [] \<longrightarrow> ready j') \<and> world_ok e w' \<and>
    answers q (map (\<lambda>m. bs_and m iface) (requested k1 k2 (concat (map (input_ms cx guesses) ins)))) w w'"
proof -
  let ?cx = "cx\<lparr>query_counter := query_counter cx + 1\<rparr>"
  have c: "sz_add (query_counter cx) 1 = query_counter cx + 1" using assms(8) by (intro sz_add_small) (simp add: SIZE_T_def)
  have k: "k1 = 0 \<and> k2 = 0 \<or> 0 < k1 \<and> k1 < sz_add k2 1" using assms(3,4) by (auto simp: good_request_def sz_add_small)
  have "bare_qid (query_id_own (of_nat ctx) (of_nat (query_counter cx + 1)))"
    by (rule own_qid_bare [OF small]) (use assms(8) in simp)
  moreover have "need \<le> fuel" using assms(7) by simp
  ultimately obtain r j1 where
    r: "virtual_first_join fuel net (Some bso) j (query_id_own (of_nat ctx) (of_nat (query_counter cx + 1))) h = Inr (r, j1)"
    "belief_state r = head_of ins" "ins \<noteq> [] \<longrightarrow> rest j1 (tl ins)" "ins = [] \<longrightarrow> settled \<longrightarrow> ready j1"
    using first_law [OF assms(6), of fuel _ h] by blast
  have pr: "process_request fuel R net cx q h k1 k2 j w = input_loop fuel R net ?cx (head_of ins) q h k1 k2 j1 w"
    using k c r(1,2) cx inst by (simp add: process_request_def Let_def)
  show ?thesis
  proof (cases ins)
    case Nil
    with r pr assms(2) show ?thesis
      by (intro exI [of _ "query_counter cx + 1"] exI [of _ j1] exI [of _ w])
        (simp add: world_ok_def answers_Nil requested_def model_range_def)
  next
    case (Cons x xs)
    with r(3) have "rest j1 xs" by simp
    from input_loop_ok [OF _ assms(2,3) _ this _ _ refl small, of ?cx q iface x guesses fuel h] cx assms(5,7,8) Cons obtain c j' w' where
      "input_loop fuel R net ?cx (Some x) q h k1 k2 j1 w = Inr (cx\<lparr>query_counter := c\<rparr>, j', w')"
      "c \<le> query_counter cx + 1 + length xs + 1" "ready j'" "world_ok e w'"
      "answers q (map (\<lambda>m. bs_and m iface) (requested k1 k2 (concat (map (input_ms cx guesses) (x # xs))))) w w'" by auto
    with pr Cons show ?thesis by (intro exI [of _ c] exI [of _ j'] exI [of _ w']) simp
  qed
qed

end

section \<open>The thread of a context\<close>

text \<open>
  The messages sent in reply to a sequence of requests: for each its answers, in new objects, and
  the end marker.
\<close>

definition reply_messages :: "qid \<Rightarrow> addr list \<Rightarrow> addr ReturnedBeliefState list" where
  "reply_messages q as = map (\<lambda>a. rbs_new (Some a) q) as @ [rbs_new None q]"

definition replies :: "(qid \<times> NewBeliefState list) list \<Rightarrow> context_world \<Rightarrow> context_world \<Rightarrow> bool" where
  "replies rs w w' \<longleftrightarrow> (\<exists>ass. list_all2 (\<lambda>(q, vs) as. length as = length vs) rs ass \<and>
     output_mq w' = output_mq w @ concat (map2 (\<lambda>(q, vs) as. reply_messages q as) rs ass) \<and>
     news (est (ew w)) (est (ew w')) (concat ass) (concat (map snd rs)))"

lemma replies_Nil: "world_ok e w \<Longrightarrow> replies [] w w"
  by (simp add: replies_def world_ok_def news_Nil)

lemma replies_Cons:
  assumes "answers q vs w w1" and "replies rs (send_end_marker q w1) w2"
  shows "replies ((q, vs) # rs) w w2"
proof -
  from assms(1) obtain as where as: "output_mq w1 = output_mq w @ map (\<lambda>a. rbs_new (Some a) q) as"
    "news (est (ew w)) (est (ew w1)) as vs" by (auto simp: answers_def)
  from assms(2) obtain ass where ass: "list_all2 (\<lambda>(q, vs) as. length as = length vs) rs ass"
    "output_mq w2 = output_mq w1 @ rbs_new None q # concat (map2 (\<lambda>(q, vs) as. reply_messages q as) rs ass)"
    "news (est (ew w1)) (est (ew w2)) (concat ass) (concat (map snd rs))"
    by (auto simp: replies_def send_end_marker_def)
  have "length as = length vs" using as(2) by (simp add: news_def) (metis length_map)
  with as ass show ?thesis unfolding replies_def
    by (intro exI [of _ "as # ass"]) (simp add: reply_messages_def [of q] news_trans)
qed

lemma world_ok_marker [simp]: "world_ok e (send_end_marker q w) = world_ok e w"
  by (simp add: world_ok_def send_end_marker_def)

context context_service
begin

text \<open>A request that the context may get: not a shutdown, a proper range, and no cycle.\<close>

definition request_ok :: "'z NormalContext_scheme \<Rightarrow> NewBeliefState list \<Rightarrow> ForwardMessage \<Rightarrow> bool" where
  "request_ok cx guesses m \<longleftrightarrow> \<not> is_shutdown (fm_qid m) \<and> good_request (fm_k1 m) (fm_k2 m) \<and> fm_k2 m + 1 < SIZE_T \<and>
     of_nat ctx \<notin> fm_history m \<and> return_plan cx (invoker_from_qid (fm_qid m)) \<noteq> None \<and>
     (\<forall>i\<in>set ins. ready_input cx guesses (fm_k1 m) (fm_k2 m) i)"

definition reply_to :: "'z NormalContext_scheme \<Rightarrow> NewBeliefState list \<Rightarrow> ForwardMessage \<Rightarrow> qid \<times> NewBeliefState list" where
  "reply_to cx guesses m = (fm_qid m, map (\<lambda>v. bs_and v (the (return_plan cx (invoker_from_qid (fm_qid m)))))
     (requested (fm_k1 m) (fm_k2 m) (concat (map (input_ms cx guesses) ins))))"

lemma reply_to_counter [simp]: "reply_to (cx\<lparr>query_counter := c\<rparr>) guesses m = reply_to cx guesses m"
  by (simp add: reply_to_def)

lemma request_ok_counter [simp]: "request_ok (cx\<lparr>query_counter := c\<rparr>) guesses m = request_ok cx guesses m"
  by (simp add: request_ok_def)

lemma normal_startup_ok:
  assumes "ctx_id cx = ctx" and "bridge_rules cx = br" and "\<forall>m\<in>set ms. request_ok cx guesses m" and "world_ok e w"
    and "ready j" and "settled \<or> ins \<noteq> []" and "max need (length guesses) + length ins < fuel"
    and "query_counter cx + length ms * (length ins + 1) < 2 ^ 24" and "is_shutdown (fm_qid stop)"
    and small: "ctx < 2 ^ 10"
  shows "\<exists>c j' w'. normal_startup fuel R net (ms @ stop # mq) cx j w = Inr (cx\<lparr>query_counter := c\<rparr>, j', w') \<and>
    ready j' \<and> world_ok e w' \<and> replies (map (reply_to cx guesses) ms) w w'"
  using assms(1-5,8)
proof (induction ms arbitrary: cx w j)
  case Nil
  with assms(9) show ?case by (auto simp: Let_def replies_Nil intro!: exI [of _ "query_counter cx"])
next
  case (Cons m ms)
  from Cons.prems(3) have m: "\<not> is_shutdown (fm_qid m)" "good_request (fm_k1 m) (fm_k2 m)" "fm_k2 m + 1 < SIZE_T"
    "of_nat ctx \<notin> fm_history m" "\<forall>i\<in>set ins. ready_input cx guesses (fm_k1 m) (fm_k2 m) i" by (simp_all add: request_ok_def)
  from Cons.prems(3) obtain iface where i: "return_plan cx (invoker_from_qid (fm_qid m)) = Some iface"
    by (auto simp: request_ok_def)
  have k: "fm_k1 m = 0 \<and> fm_k2 m = 0 \<or> 0 < fm_k1 m \<and> fm_k1 m < sz_add (fm_k2 m) 1"
    using m(2,3) by (auto simp: good_request_def sz_add_small)
  have c: "query_counter cx + length ins + 1 < 2 ^ 24" using Cons.prems(6) by simp
  have sv: "served cx (fm_qid m) iface" using Cons.prems(1,2) i by simp
  have v: "snd (reply_to cx guesses m) = map (\<lambda>v. bs_and v iface) (requested (fm_k1 m) (fm_k2 m) (concat (map (input_ms cx guesses) ins)))"
    by (simp add: reply_to_def i)
  from process_request_ok [OF sv Cons.prems(4) m(2,3,5) Cons.prems(5) assms(7) c small, of "insert (of_nat ctx) (fm_history m)"] assms(6)
  obtain d j1 w1 where r: "process_request fuel R net cx (fm_qid m) (insert (of_nat ctx) (fm_history m)) (fm_k1 m) (fm_k2 m) j w =
      Inr (cx\<lparr>query_counter := d\<rparr>, j1, w1)"
    "d \<le> query_counter cx + length ins + 1" "ready j1" "world_ok e w1"
    "answers (fm_qid m) (snd (reply_to cx guesses m)) w w1" unfolding v by blast
  have "\<exists>c j' w'. normal_startup fuel R net (ms @ stop # mq) (cx\<lparr>query_counter := d\<rparr>) j1 (send_end_marker (fm_qid m) w1) =
      Inr (cx\<lparr>query_counter := c\<rparr>, j', w') \<and> ready j' \<and> world_ok e w' \<and>
      replies (map (reply_to cx guesses) ms) (send_end_marker (fm_qid m) w1) w'"
    using Cons.IH [of "cx\<lparr>query_counter := d\<rparr>" "send_end_marker (fm_qid m) w1" j1] Cons.prems r by simp
  moreover have "reply_to cx guesses m = (fm_qid m, snd (reply_to cx guesses m))" by (simp add: reply_to_def)
  ultimately show ?case using m(1,4) k r(1) Cons.prems(1) replies_Cons [OF r(5)]
    by (simp add: Let_def) (metis (no_types, lifting))
qed

end

end
