(* ===== verification/Context_Properties.thy ===== *)
theory Context_Properties
  imports Context_Answers
begin

text \<open>
  Properties of whole contexts: what a leaf context answers to a sequence of requests, what a context
  that guesses sends, and what the cache of guesses does to requests for a range of models.
\<close>

section \<open>Leaf contexts\<close>

abbreviation blank :: "BeliefStateOffset \<Rightarrow> NewBeliefState" where
  "blank bso \<equiv> bs_new_blocks (bso_no_blocks bso) (bso_size_belief_state bso) False"

abbreviation dlv_models :: "solver \<Rightarrow> recognizer \<Rightarrow> BeliefStateOffset \<Rightarrow> BeliefTable \<Rightarrow> nat \<Rightarrow> BridgeRuleTable \<Rightarrow> Evaluator
    \<Rightarrow> NewBeliefState \<Rightarrow> NewBeliefState list" where
  "dlv_models dlv pp bso btab ctx br e \<equiv> local_models (dlv_reasoner dlv pp bso btab) bso ctx br e"

abbreviation dlv_solvable :: "solver \<Rightarrow> recognizer \<Rightarrow> BeliefStateOffset \<Rightarrow> BeliefTable \<Rightarrow> nat \<Rightarrow> BridgeRuleTable \<Rightarrow> Evaluator
    \<Rightarrow> nat \<Rightarrow> NewBeliefState \<Rightarrow> bool" where
  "dlv_solvable dlv pp bso btab ctx br e \<equiv>
     solvable (dlv_reasoner dlv pp bso btab) bso ctx br e"

interpretation leaf_ctx: context_service "dlv_reasoner dlv pp bso btab" ctx bso br e net "[blank bso]" 0 "\<lambda>j. j = LeafJoiner" "\<lambda>j xs. j = LeafJoiner \<and> xs = []" True
  for dlv pp bso btab ctx br e net
  by unfold_locales

text \<open>
  The thread of a leaf context serves every request for which the evaluator's object is used for one
  model, and ends at the shutdown request: for each request, exactly the models with the requested numbers are sent, projected to the interface of the
  invoking context, in new objects and in order, and then the end marker.
\<close>

theorem leaf_thread_serves:
  assumes "ctx_id cx = ctx" and "bridge_rules cx = br" and "ctx < 2 ^ 10" and "total_guessing_input cx = None"
    and "\<forall>m\<in>set ms. \<not> is_shutdown (fm_qid m) \<and> good_request (fm_k1 m) (fm_k2 m) \<and> fm_k2 m + 1 < SIZE_T \<and>
           of_nat ctx \<notin> fm_history m \<and> return_plan cx (invoker_from_qid (fm_qid m)) = Some (iface m)"
    and "\<forall>m\<in>set ms. dlv_solvable dlv pp bso btab ctx br e (fm_k2 m) (blank bso)" and "world_ok e w" and "1 < fuel"
    and "query_counter cx + length ms * 2 < 2 ^ 24" and "is_shutdown (fm_qid stop)"
  shows "\<exists>c w'. normal_startup fuel (dlv_reasoner dlv pp bso btab) net (ms @ stop # mq) cx LeafJoiner w =
      Inr (cx\<lparr>query_counter := c\<rparr>, LeafJoiner, w') \<and>
    replies (map (\<lambda>m. (fm_qid m, map (\<lambda>v. bs_and v (iface m))
      (requested (fm_k1 m) (fm_k2 m) (dlv_models dlv pp bso btab ctx br e (blank bso))))) ms) w w'"
proof -
  have g: "must_guess (r_inst (dlv_reasoner dlv pp bso btab)) cx i = Inr False" for i
    using assms(4) by (simp add: must_guess_def)
  have r: "dlv_ctx.ready_input dlv pp bso btab ctx br e cx [] (fm_k1 m) (fm_k2 m) (blank bso)" if "m \<in> set ms" for m
    using that g assms(6) by (simp add: dlv_ctx.ready_input_def)
  have rq: "\<forall>m\<in>set ms. leaf_ctx.request_ok dlv pp bso btab ctx br e cx [] m"
    using assms(5) r by (simp add: leaf_ctx.request_ok_def)
  have "leaf_ctx.reply_to dlv pp bso btab ctx br e cx [] m = (fm_qid m, map (\<lambda>v. bs_and v (iface m))
      (requested (fm_k1 m) (fm_k2 m) (dlv_models dlv pp bso btab ctx br e (blank bso))))" if "m \<in> set ms" for m
    using that assms(5) g by (simp add: leaf_ctx.reply_to_def input_models_def)
  then have "map (leaf_ctx.reply_to dlv pp bso btab ctx br e cx []) ms = map (\<lambda>m. (fm_qid m, map (\<lambda>v. bs_and v (iface m))
      (requested (fm_k1 m) (fm_k2 m) (dlv_models dlv pp bso btab ctx br e (blank bso))))) ms" by simp
  with leaf_ctx.normal_startup_ok [OF assms(1,2) rq assms(7) refl _ _ _ assms(10,3), of fuel net mq] assms(8,9)
  show ?thesis by auto
qed

section \<open>A small system\<close>

text \<open>
  Two contexts with two beliefs each. Context 1 has a bridge rule that makes \<open>h\<close> true when the second
  belief of context 0 is true; its knowledge base has one answer set without \<open>h\<close> and none with it.
\<close>

abbreviation demo_bso :: BeliefStateOffset where
  "demo_bso \<equiv> layout 2 2"

definition demo_signature :: BeliefTable where
  "demo_signature = \<lparr>bt_container = [\<lparr>b_address = 1, b_kind = 0x40000001, b_text = ''h''\<rparr>], nextAddress = 0\<rparr>"

definition demo_rules :: BridgeRuleTable where
  "demo_rules = [\<lparr>br_kind = 0x33000000, br_head = \<lparr>kind = 0x40000001, address = 1\<rparr>,
     br_body = [\<lparr>kind = 0x40000000, address = 2\<rparr>]\<rparr>]"

definition demo_dlv :: solver where
  "demo_dlv options program = (if program = ''p.'' then [''{}''] else [])"

definition demo_parse :: recognizer where
  "demo_parse line = ([], True)"

definition demo_eval :: Evaluator where
  "demo_eval = \<lparr>local_kb = ''p.'', includeFacts = True, arguments = [], models_counter = 0\<rparr>"

definition demo_guessing :: NewBeliefState where
  "demo_guessing = \<lparr>status_bit = [True, True, True, False, False, False], value_bit = [True, True, True, False, False, False]\<rparr>"

definition demo_start :: NewBeliefState where
  "demo_start = \<lparr>status_bit = [True, True, True, False, False, False], value_bit = [True, False, False, False, False, False]\<rparr>"

definition demo_ctx :: NormalContext where
  "demo_ctx = \<lparr>ctx_id = 1, ctx_offset = 0, cache = CachePosition_new, return_plan = (\<lambda>c. Some demo_start), queryplan_map = [],
     bridge_rules = demo_rules, total_guessing_input = None, starting_guess = None, is_leaf = True, query_counter = 0,
     nc_neighbors = [], guessing_neighbors = None\<rparr>"

definition demo_world :: context_world where
  "demo_world = \<lparr>ew = \<lparr>ev = demo_eval, est = \<lparr>mem = Map.empty, next_addr = 0\<rparr>, eval_out = []\<rparr>, output_mq = []\<rparr>"

lemmas demo_defs = demo_ctx_def demo_world_def

abbreviation demo_inputs :: "NewBeliefState list" where
  "demo_inputs \<equiv> blank demo_bso # map (bs_or (blank demo_bso)) (all_guesses 2 2 demo_guessing demo_start) @
     all_guesses 2 2 demo_guessing demo_start"

lemma demo_lines:
  "map (local_lines (dlv_reasoner demo_dlv demo_parse demo_bso demo_signature) 1 demo_rules demo_eval) demo_inputs =
     map Inr ([[''{}'']] @ [[''{}''], [''{}''], [], []] @ [[''{}''], [''{}''], [], []])"
  by code_simp

lemma demo_agree:
  "map (\<lambda>i. consistent_with (line_state demo_parse demo_bso demo_signature 1 ''{}'') i 1 (bso_starting_offsets demo_bso)) demo_inputs =
     replicate 9 (Inr True)"
  by code_simp

lemma demo_good: "line_good demo_parse demo_bso demo_signature 1 ''{}''"
  by code_simp

abbreviation demo_reasoner :: reasoner where
  "demo_reasoner \<equiv> dlv_reasoner demo_dlv demo_parse demo_bso demo_signature"

abbreviation demo_models :: "NewBeliefState \<Rightarrow> NewBeliefState list" where
  "demo_models \<equiv> dlv_models demo_dlv demo_parse demo_bso demo_signature 1 demo_rules demo_eval"

lemma demo_answer_lines [simp]: "answer_lines [''{}''] = [''{}'']"
  by (simp add: cost_line_def)

lemma demo_solvable:
  assumes "i \<in> set demo_inputs"
  shows "dlv_solvable demo_dlv demo_parse demo_bso demo_signature 1 demo_rules demo_eval k2 i"
proof -
  have "local_lines demo_reasoner 1 demo_rules demo_eval i \<in>
      set (map (local_lines demo_reasoner 1 demo_rules demo_eval) demo_inputs)" unfolding set_map by (rule imageI [OF assms])
  then have l: "local_lines demo_reasoner 1 demo_rules demo_eval i = Inr [''{}''] \<or>
      local_lines demo_reasoner 1 demo_rules demo_eval i = Inr []" unfolding demo_lines by auto
  have "consistent_with (line_state demo_parse demo_bso demo_signature 1 ''{}'') i 1 (bso_starting_offsets demo_bso) \<in>
      set (map (\<lambda>i. consistent_with (line_state demo_parse demo_bso demo_signature 1 ''{}'') i 1 (bso_starting_offsets demo_bso)) demo_inputs)"
    unfolding set_map by (rule imageI [OF assms])
  then have "comparable demo_bso 1 i (line_state demo_parse demo_bso demo_signature 1 ''{}'')"
    unfolding demo_agree by (simp add: comparable_def)
  with l demo_good show ?thesis by (auto simp: solvable_def lines_ok_def one_object_def SIZE_T_def dlv_reasoner_def)
qed

text \<open>The numbers of models for the four guesses.\<close>

lemma demo_counts:
  "map (\<lambda>g. length (demo_models (bs_or (blank demo_bso) g))) (all_guesses 2 2 demo_guessing demo_start) = [1, 1, 0, 0]"
  "map (\<lambda>g. length (demo_models g)) (all_guesses 2 2 demo_guessing demo_start) = [1, 1, 0, 0]"
  "length (demo_models (blank demo_bso)) = 1"
  by code_simp+

lemma demo_world_ok: "world_ok demo_eval demo_world"
  by (simp add: world_ok_def demo_world_def store_ok_def demo_eval_def)

lemma demo_guess_start: "guess_start 2 2 demo_guessing demo_start"
proof -
  have "guess_positions 2 demo_guessing (getFirst demo_guessing) = [1, 2]" "getFirst demo_guessing = 0"
    "bs_view demo_start 1 = DMCS_FALSE" "bs_view demo_start 2 = DMCS_FALSE" by code_simp+
  moreover have "wf_bs (block_start 2 2) demo_guessing" "wf_bs (block_start 2 2) demo_start"
    by (simp_all add: wf_bs_def block_start_def demo_guessing_def demo_start_def)
  ultimately show ?thesis by (simp add: guess_start_def)
qed

abbreviation demo_request :: "qid \<Rightarrow> nat \<Rightarrow> nat \<Rightarrow> ForwardMessage" where
  "demo_request q k1 k2 \<equiv> \<lparr>fm_qid = q, fm_k1 = k1, fm_k2 = k2, fm_history = {}\<rparr>"

abbreviation demo_net :: "unit network" where
  "demo_net \<equiv> \<lparr>net_send = (\<lambda>e q m. e), net_recv = (\<lambda>e q. None)\<rparr>"

theorem leaf_thread_serves_witness:
  "\<exists>c w'. normal_startup 2 demo_reasoner demo_net
       ([demo_request (query_id_own 0 1) 1 4, demo_request (query_id_own 0 2) 0 0] @ demo_request shutdown_query_id 0 0 # [])
       demo_ctx LeafJoiner demo_world = Inr (demo_ctx\<lparr>query_counter := c\<rparr>, LeafJoiner, w') \<and>
     length (output_mq w') = 4"
proof -
  let ?ms = "[demo_request (query_id_own 0 1) 1 4, demo_request (query_id_own 0 2) 0 0]"
  have sh: "\<not> is_shutdown (query_id_own 0 1)" "\<not> is_shutdown (query_id_own 0 2)" "is_shutdown shutdown_query_id"
    using query_id_own_request [of 0 1] query_id_own_request [of 0 2] is_shutdown_shutdown by (simp_all add: fits_def)
  have m: "\<forall>m\<in>set ?ms. \<not> is_shutdown (fm_qid m) \<and> good_request (fm_k1 m) (fm_k2 m) \<and> fm_k2 m + 1 < SIZE_T \<and>
      of_nat 1 \<notin> fm_history m \<and> return_plan demo_ctx (invoker_from_qid (fm_qid m)) = Some demo_start"
    using sh by (simp add: good_request_def demo_ctx_def SIZE_T_def)
  have s: "\<forall>m\<in>set ?ms. dlv_solvable demo_dlv demo_parse demo_bso demo_signature 1 demo_rules demo_eval (fm_k2 m) (blank demo_bso)"
    by (intro ballI demo_solvable) simp
  have c: "ctx_id demo_ctx = 1" "bridge_rules demo_ctx = demo_rules" "(1::nat) < 2 ^ 10" "total_guessing_input demo_ctx = None"
    "(1::nat) < 2" "query_counter demo_ctx + length ?ms * 2 < 2 ^ 24" "is_shutdown (fm_qid (demo_request shutdown_query_id 0 0))"
    using sh by (simp_all add: demo_ctx_def)
  obtain c w' where n: "normal_startup 2 demo_reasoner demo_net
      (?ms @ demo_request shutdown_query_id 0 0 # []) demo_ctx LeafJoiner demo_world = Inr (demo_ctx\<lparr>query_counter := c\<rparr>, LeafJoiner, w')"
    and r: "replies (map (\<lambda>m. (fm_qid m, map (\<lambda>v. bs_and v demo_start)
      (requested (fm_k1 m) (fm_k2 m) (demo_models (blank demo_bso))))) ?ms) demo_world w'"
    using leaf_thread_serves [OF c(1-4) m s demo_world_ok c(5-7), of demo_net "[]"]
    by blast
  obtain v where "demo_models (blank demo_bso) = [v]"
    using demo_counts(3) by (cases "demo_models (blank demo_bso)") auto
  with r have "length (output_mq w') = 4"
    by (auto simp: replies_def requested_def model_range_def reply_messages_def demo_world_def list_all2_Cons1)
  with n show ?thesis by blast
qed

section \<open>Guessing\<close>

text \<open>
  C17. A normal context that has to guess and whose knowledge base has at most one answer set for each guess, asked for
  all models with an empty cache, sends its models under the input extended by every guess, one guess after the
  other.
\<close>

theorem process_input_all_guesses:
  assumes "ctx_id cx = ctx" and "bridge_rules cx = br" and "return_plan cx (invoker_from_qid q) = Some iface"
    and "total_guessing_input cx = Some g" and "starting_guess cx = Some sg" and "guess_start n s g sg"
    and "must_guess (Some (layout n s)) cx input = Inr True" and "mark (cache cx) = []" and "world_ok e w"
    and "\<forall>g'\<in>set (all_guesses n s g sg). dlv_solvable dlv pp (layout n s) btab ctx br e 0 (bs_or input g')"
    and "2 ^ length (guess_positions s g (getFirst g)) \<le> fuel" and "fuel < SIZE_T"
  shows "\<exists>w'. process_input fuel (dlv_reasoner dlv pp (layout n s) btab) cx input q 0 0 w = Inr (False, 0, 0, cx, w') \<and>
    answers q (map (\<lambda>m. bs_and m iface) (concat (map (\<lambda>g'. dlv_models dlv pp (layout n s) btab ctx br e (bs_or input g'))
      (all_guesses n s g sg)))) w w'"
proof -
  have i: "r_inst (dlv_reasoner dlv pp (layout n s) btab) = Some (layout n s)" by (simp add: dlv_reasoner_def)
  have "dlv_ctx.ready_input dlv pp (layout n s) btab ctx br e cx (all_guesses n s g sg) 0 0 input"
    unfolding dlv_ctx.ready_input_def i using assms by auto
  from dlv_ctx.process_input_ok [OF _ assms(9) _ this _ refl, of q iface fuel] assms(1-3,7,11) i show ?thesis
    by (auto simp: good_request_def satisfied_by_def next_request_def requested_def input_models_def)
qed

text \<open>The context of the small system with a neighbor to guess.\<close>

definition demo_guesser :: NormalContext where
  "demo_guesser = demo_ctx\<lparr>total_guessing_input := Some demo_guessing, starting_guess := Some demo_start,
     guessing_neighbors := Some [\<lparr>neighbor_id = 0, neighbor_offset = 0, nb_hostname = [], nb_port = []\<rparr>]\<rparr>"

lemma demo_guesser_simps [simp]:
  "ctx_id demo_guesser = 1" "bridge_rules demo_guesser = demo_rules" "return_plan demo_guesser c = Some demo_start"
  "total_guessing_input demo_guesser = Some demo_guessing" "starting_guess demo_guesser = Some demo_start"
  "mark (cache demo_guesser) = []" "cache demo_guesser = CachePosition_new"
  by (simp_all add: demo_guesser_def demo_ctx_def CachePosition_new_def)

lemma demo_must_guess: "must_guess (Some (layout 2 2)) demo_guesser (blank demo_bso) = Inr True"
  by code_simp

lemma demo_solvable_guesses:
  "\<forall>g\<in>set (all_guesses 2 2 demo_guessing demo_start).
     dlv_solvable demo_dlv demo_parse (layout 2 2) demo_signature 1 demo_rules demo_eval k2 (bs_or (blank demo_bso) g)"
  "\<forall>g\<in>set (all_guesses 2 2 demo_guessing demo_start).
     dlv_solvable demo_dlv demo_parse (layout 2 2) demo_signature 1 demo_rules demo_eval k2 g"
  using demo_solvable by simp_all

lemma demo_number: "length (guess_positions 2 demo_guessing (getFirst demo_guessing)) = 2"
  by code_simp

theorem process_input_all_guesses_witness:
  "\<exists>w'. process_input 4 demo_reasoner demo_guesser (blank demo_bso) 7 0 0 demo_world = Inr (False, 0, 0, demo_guesser, w') \<and>
     length (output_mq w') = 2"
proof -
  obtain w' where w': "process_input 4 demo_reasoner demo_guesser (blank demo_bso) 7 0 0 demo_world = Inr (False, 0, 0, demo_guesser, w')"
    "answers 7 (map (\<lambda>m. bs_and m demo_start) (concat (map (\<lambda>g. demo_models (bs_or (blank demo_bso) g))
      (all_guesses 2 2 demo_guessing demo_start)))) demo_world w'"
    using process_input_all_guesses [OF _ _ _ _ _ demo_guess_start demo_must_guess _ demo_world_ok demo_solvable_guesses(1), of 7 demo_start 4]
      demo_number by (auto simp: SIZE_T_def CachePosition_new_def)
  have "length (concat (map (\<lambda>g. demo_models (bs_or (blank demo_bso) g)) (all_guesses 2 2 demo_guessing demo_start))) = 2"
    unfolding length_concat map_map comp_def demo_counts(1) by simp
  with w' show ?thesis by (auto simp: answers_def news_def demo_world_def dest!: arg_cong [where f = length])
qed

section \<open>The cache of guesses\<close>

text \<open>The cache lags behind once a guess other than the first has sent models.\<close>

lemma cache_run_lagging:
  "length (mark c) + 1 < step \<Longrightarrow> sum_list xs < k2 \<Longrightarrow> cache_run c step 1 k2 (xs @ 0 # ys) = Inl Assertion_Failed"
proof (induction xs arbitrary: step k2)
  case (Cons x xs)
  show ?case
  proof (cases "x = 0")
    case False
    with Cons.prems have "next_request 1 k2 x = (1, k2 - x)" "\<not> satisfied_by 1 k2 x" by (simp_all add: next_request_def satisfied_by_def)
    with False Cons.IH [of "step + 1" "k2 - x"] Cons.prems show ?thesis by simp
  qed (use Cons.prems in \<open>simp add: update_cache_def\<close>)
qed (simp add: update_cache_def)

lemma cache_run_missed:
  "0 < step \<Longrightarrow> length (mark c) + 1 = step \<Longrightarrow> 0 < k1 \<Longrightarrow> k1 \<le> sum_list xs \<Longrightarrow> sum_list xs < k2 \<Longrightarrow>
   cache_run c step k1 k2 (xs @ 0 # ys) = Inl Assertion_Failed"
proof (induction xs arbitrary: c step k1 k2)
  case (Cons x xs)
  then have ns: "\<not> satisfied_by k1 k2 x" by (simp add: satisfied_by_def)
  show ?case
  proof (cases "x < k1")
    case True
    obtain c' where c': "update_cache c step x = Inr c'" "length (mark c') + 1 = step + 1"
      using Cons.prems(2) by (cases "mark c = []") (auto simp: update_cache_def)
    have "next_request k1 k2 x = (k1 - x, k2 - x)" using True Cons.prems by (simp add: next_request_def)
    with True ns c' Cons.IH [of "step + 1" c' "k1 - x" "k2 - x"] Cons.prems show ?thesis by simp
  next
    case False
    then have "next_request k1 k2 x = (1, k2 - x)" using Cons.prems by (simp add: next_request_def)
    with False ns cache_run_lagging [of c "step + 1" xs "k2 - x" ys] Cons.prems show ?thesis by simp
  qed
qed simp

lemma cache_run_fails:
  assumes "mark c = []" and "0 < k1" and "0 < sum_list xs" and "k1 \<le> l0 + sum_list xs" and "l0 + sum_list xs < k2"
  shows "cache_run c 0 k1 k2 (l0 # xs @ 0 # ys) = Inl Assertion_Failed"
proof -
  have "\<not> satisfied_by k1 k2 l0" using assms by (simp add: satisfied_by_def)
  moreover have "next_request k1 k2 l0 = (if l0 < k1 then k1 - l0 else 1, k2 - l0)" using assms by (simp add: next_request_def)
  moreover have "cache_run c 1 (if l0 < k1 then k1 - l0 else 1) (k2 - l0) (xs @ 0 # ys) = Inl Assertion_Failed"
    using assms by (intro cache_run_missed) auto
  ultimately show ?thesis by simp
qed

text \<open>
  C32. A request for a range of models over guesses can stop the program: starting with an empty cache, when a guess
  after the first one sends models, and a later guess has no models before the request is satisfied,
  the assertion of \<open>update_cache\<close> fails. (The knowledge base has at most one answer set for each guess.)
\<close>

theorem cache_assertion_fails:
  assumes "ctx_id cx = ctx" and "bridge_rules cx = br" and "return_plan cx (invoker_from_qid q) = Some iface"
    and "total_guessing_input cx = Some g" and "starting_guess cx = Some sg" and "guess_start n s g sg"
    and "must_guess (Some (layout n s)) cx input = Inr True" and "mark (cache cx) = []" and "world_ok e w"
    and "\<forall>g'\<in>set (all_guesses n s g sg). dlv_solvable dlv pp (layout n s) btab ctx br e k2 (bs_or input g')"
    and "2 ^ length (guess_positions s g (getFirst g)) \<le> fuel" and "fuel < SIZE_T"
    and "map (\<lambda>g'. length (dlv_models dlv pp (layout n s) btab ctx br e (bs_or input g'))) (all_guesses n s g sg) = l0 # xs @ 0 # ys"
    and "0 < sum_list xs" and "k1 \<le> l0 + sum_list xs" and "l0 + sum_list xs < k2" and "0 < k1" and "k2 < SIZE_T"
  shows "process_input fuel (dlv_reasoner dlv pp (layout n s) btab) cx input q k1 k2 w = Inl Assertion_Failed"
proof -
  have i: "r_inst (dlv_reasoner dlv pp (layout n s) btab) = Some (layout n s)" by (simp add: dlv_reasoner_def)
  have k: "good_request k1 k2" using assms(15-18) by (simp add: good_request_def)
  have "map length (map (\<lambda>g'. dlv_models dlv pp (layout n s) btab ctx br e (bs_or input g')) (drop 0 (all_guesses n s g sg))) = l0 # xs @ 0 # ys"
    using assms(13) by (simp add: comp_def)
  then have "cache_run (cache cx) 0 k1 k2 (map length (map (\<lambda>g'. dlv_models dlv pp (layout n s) btab ctx br e (bs_or input g'))
      (drop 0 (all_guesses n s g sg)))) = Inl Assertion_Failed"
    using cache_run_fails [OF assms(8,17,14,15,16)] by simp
  with dlv_ctx.process_guesses [OF _ assms(4-6) refl _ assms(9) k _ _ assms(10) _ _ refl, of q iface 0 fuel] assms(1-3,7,8,11,12) i
  show ?thesis by (auto simp: find_position_def)
qed

theorem cache_assertion_fails_witness:
  "process_input 4 demo_reasoner demo_guesser (blank demo_bso) 7 1 5 demo_world = Inl Assertion_Failed"
proof -
  have "map (\<lambda>g'. length (dlv_models demo_dlv demo_parse (layout 2 2) demo_signature 1 demo_rules demo_eval (bs_or (blank demo_bso) g')))
      (all_guesses 2 2 demo_guessing demo_start) = 1 # [1] @ 0 # [0]" using demo_counts(1) by simp
  from cache_assertion_fails [OF _ _ _ _ _ demo_guess_start demo_must_guess _ demo_world_ok demo_solvable_guesses(1) _ _ this, of 7 demo_start 4 1 5]
  show ?thesis using demo_number by (simp add: SIZE_T_def CachePosition_new_def)
qed



section \<open>Breaking cycles\<close>

text \<open>
  C20. A cycle breaker whose knowledge base has at most one answer set for each guess, asked for all models with an
  empty cache, sends the models under every guess of its whole input and then the end marker.
\<close>

theorem break_cycle_all_guesses:
  assumes "ctx_id cx = ctx" and "bridge_rules cx = br" and "return_plan cx (invoker_from_qid q) = Some iface"
    and "total_guessing_input cx = Some g" and "starting_guess cx = Some sg" and "guess_start n s g sg"
    and "mark (cache cx) = []" and "world_ok e w"
    and "\<forall>g'\<in>set (all_guesses n s g sg). dlv_solvable dlv pp (layout n s) btab ctx br e 0 g'"
    and "2 ^ length (guess_positions s g (getFirst g)) \<le> fuel" and "fuel < SIZE_T"
  shows "\<exists>w'. break_cycle fuel (dlv_reasoner dlv pp (layout n s) btab) cx q 0 0 w = Inr (cx, w') \<and>
    replies [(q, map (\<lambda>m. bs_and m iface) (concat (map (dlv_models dlv pp (layout n s) btab ctx br e) (all_guesses n s g sg))))] w w'"
proof -
  let ?gs = "all_guesses n s g sg"
  have i: "r_inst (dlv_reasoner dlv pp (layout n s) btab) = Some (layout n s)" by (simp add: dlv_reasoner_def)
  have pos: "0 < length ?gs" by simp
  then have gs: "?gs = ?gs ! 0 # drop 1 ?gs" by (metis Cons_nth_drop_Suc One_nat_def drop0)
  have ch: "guess_chain (r_inst (dlv_reasoner dlv pp (layout n s) btab)) g (?gs ! 0 # drop 1 ?gs)"
    using all_guesses_chain [OF assms(6) pos] gs i by (metis drop0)
  have s: "\<forall>g'\<in>set (?gs ! 0 # drop 1 ?gs). dlv_solvable dlv pp (layout n s) btab ctx br e 0 g'" using assms(9) gs by metis
  have len: "length (drop 1 ?gs) < fuel" "0 + length (drop 1 ?gs) < SIZE_T" using assms(10,11) pos unfolding length_drop length_all_guesses by linarith+
  have sv: "ctx_id cx = ctx \<and> bridge_rules cx = br \<and> return_plan cx (invoker_from_qid q) = Some iface" using assms(1-3) by simp
  from dlv_ctx.guess_loop_ok [where mk = "\<lambda>g. g", OF sv assms(4,8) s _ ch len refl, of 0] obtain w' a b where
    w': "guess_loop fuel (dlv_reasoner dlv pp (layout n s) btab) (\<lambda>g. g) cx (?gs ! 0) 0 0 0 q w = Inr (False, a, b, cx, w')"
    "world_ok e w'" "answers q (map (\<lambda>m. bs_and m iface) (concat (map (dlv_models dlv pp (layout n s) btab ctx br e) ?gs))) w w'"
    unfolding gs [symmetric] by (auto simp: dlv_ctx.cache_run_all good_request_def satisfied_by_def requested_def)
  have fg: "first_guess (Some (layout n s)) cx 0 = Inr (Some (?gs ! 0))"
    using first_guess_nth [OF assms(6,4,5), of 0] pos by simp
  have "break_cycle fuel (dlv_reasoner dlv pp (layout n s) btab) cx q 0 0 w = Inr (cx, send_end_marker q w')"
    using assms(7) fg w'(1) i by (simp add: break_cycle_def find_position_def)
  with replies_Cons [OF w'(3) replies_Nil, of e] w'(2) show ?thesis by auto
qed

theorem break_cycle_all_guesses_witness:
  "\<exists>w'. break_cycle 4 demo_reasoner demo_guesser 7 0 0 demo_world = Inr (demo_guesser, w') \<and> length (output_mq w') = 3"
proof -
  obtain w' where w': "break_cycle 4 demo_reasoner demo_guesser 7 0 0 demo_world = Inr (demo_guesser, w')"
    "replies [(7, map (\<lambda>m. bs_and m demo_start) (concat (map demo_models (all_guesses 2 2 demo_guessing demo_start))))] demo_world w'"
    using break_cycle_all_guesses [OF _ _ _ _ _ demo_guess_start _ demo_world_ok demo_solvable_guesses(2), of demo_guesser 7 demo_start 4]
      demo_number by (auto simp: SIZE_T_def CachePosition_new_def)
  have "length (concat (map demo_models (all_guesses 2 2 demo_guessing demo_start))) = 2"
    unfolding length_concat map_map comp_def demo_counts(2) by simp
  with w' show ?thesis by (auto simp: replies_def reply_messages_def demo_world_def list_all2_Cons1)
qed

end
