(* ===== verification/Joiner_Contract.thy ===== *)
theory Joiner_Contract
  imports Streaming_Joiner
begin

unbundle bit_operations_syntax

text \<open>
  The contract between a streaming joiner and its neighbors, and what asking them achieves under
  it: the packages arrive, whatever the order in which the neighbors' answers interleave.
\<close>

section \<open>Well-formed joiners\<close>

definition nbs_ok :: "NewNeighbor list \<Rightarrow> qid \<Rightarrow> bool" where
  "nbs_ok nbs joff \<longleftrightarrow> nbs \<noteq> [] \<and> length nbs < 64 \<and> distinct (map neighbor_offset nbs) \<and> fits 6 joff \<and>
     list_all (\<lambda>nb. fits 10 (neighbor_id nb) \<and> fits 10 (neighbor_offset nb)) nbs"

definition joiner_ok :: "NewNeighbor list \<Rightarrow> qid \<Rightarrow> StreamingJoiner \<Rightarrow> bool" where
  "joiner_ok nbs joff j \<longleftrightarrow> neighbors j = nbs \<and> joiner_offset j = joff \<and>
     length (input_belief_states j) = length nbs \<and> length (pack_count j) = length nbs \<and>
     (\<forall>i<length nbs. offset2index j (neighbor_offset (nbs ! i)) = Some i)"

definition fwd :: "NewNeighbor list \<Rightarrow> qid \<Rightarrow> qid \<Rightarrow> nat \<Rightarrow> qid" where
  "fwd nbs joff q i = forward_qid q (neighbor_id (nbs ! i)) (neighbor_offset (nbs ! i)) joff"

definition fresh :: "NewNeighbor list \<Rightarrow> qid \<Rightarrow> qid \<Rightarrow> id2offset \<Rightarrow> bool" where
  "fresh nbs joff q m \<longleftrightarrow> (\<forall>i<length nbs. m (fwd nbs joff q i) = None)"

abbreviation noff :: "NewNeighbor list \<Rightarrow> nat \<Rightarrow> qid" where
  "noff nbs i \<equiv> neighbor_offset (nbs ! i)"

lemma noff_inj:
  "nbs_ok nbs joff \<Longrightarrow> i < length nbs \<Longrightarrow> j < length nbs \<Longrightarrow> noff nbs i = noff nbs j \<longleftrightarrow> i = j"
  using nth_eq_iff_index_eq [of "map neighbor_offset nbs" i j] by (simp add: nbs_ok_def)

lemma fwd_simps:
  assumes "nbs_ok nbs joff" and "bare_qid q" and "i < length nbs"
  shows "neighbor_offset_from_qid (fwd nbs joff q i) = noff nbs i \<and>
    unset_joiner_offset (unset_neighbor_offset (unset_neighbor_id (fwd nbs joff q i))) = q"
  using assms forward_qid_simps [of q "neighbor_id (nbs ! i)" "noff nbs i" joff]
  by (simp add: fwd_def nbs_ok_def list_all_length)

lemma fwd_inj:
  assumes "nbs_ok nbs joff" and "bare_qid q" and "i < length nbs" and "j < length nbs"
  shows "fwd nbs joff q i = fwd nbs joff q j \<longleftrightarrow> i = j"
  using fwd_simps [OF assms(1,2,3)] fwd_simps [OF assms(1,2,4)] noff_inj [OF assms(1,3,4)] by auto


lemma StreamingJoiner_new_ok:
  assumes "nbs_ok nbs joff"
  shows "joiner_ok nbs joff (registerJoinIn (StreamingJoiner_new ps nbs) joff)"
proof -
  have keep: "insert_offsets k ns m x = m x" if "m x \<noteq> None" for k ns m x
    using that by (induction k ns m rule: insert_offsets.induct) (auto split: option.splits)
  have "insert_offsets k ns m (neighbor_offset (ns ! i)) = Some (k + i)"
    if "distinct (map neighbor_offset ns)" "\<forall>nb\<in>set ns. m (neighbor_offset nb) = None" "i < length ns"
    for k ns m i
    using that
  proof (induction ns arbitrary: k m i)
    case (Cons nb ns)
    show ?case
    proof (cases i)
      case (Suc i')
      have "insert_offsets (Suc k) ns (m(neighbor_offset nb \<mapsto> k)) (neighbor_offset (ns ! i')) = Some (Suc k + i')"
        using Cons.prems Suc by (intro Cons.IH) (auto simp: image_iff)
      with Suc Cons.prems show ?thesis by simp
    qed (use Cons.prems in \<open>simp add: keep\<close>)
  qed simp
  from this [of nbs Map.empty _ 0] assms show ?thesis
    by (simp add: joiner_ok_def registerJoinIn_def StreamingJoiner_new_def BaseJoiner_new_def
        BaseJoiner.defs nbs_ok_def)
qed

section \<open>The contract\<close>

text \<open>
  What the other side of the queues promises: a request leads to the package asked for, closed by a
  null pointer, all with the request's identifier; answers of one neighbor arrive in order; a
  receive waits only as long as nothing is pending. \<open>pending\<close> lists the answers that are on the way
  from each neighbor, \<open>packs\<close> the models that a neighbor answers a request with.
\<close>

definition answer :: "NewBeliefState list \<Rightarrow> qid \<Rightarrow> returned list" where
  "answer bss q = map (\<lambda>b. rbs_new (Some b) q) bss @ [rbs_new None q]"

lemma answer_simps [simp]:
  "answer [] q = [rbs_new None q]"
  "answer (b # bss) q = rbs_new (Some b) q # answer bss q"
  "answer bss q \<noteq> []"
  by (simp_all add: answer_def)

locale neighbor_service =
  fixes net :: "'e network" and joff :: qid and pending :: "'e \<Rightarrow> qid \<Rightarrow> returned list"
    and packs :: "qid \<Rightarrow> nat \<Rightarrow> nat \<Rightarrow> NewBeliefState list"
  assumes pending_send: "pending (net_send net e off m) =
      (pending e)(off := pending e off @ answer (packs off (fm_k1 m) (fm_k2 m)) (fm_qid m))"
    and recv_some: "net_recv net e joff = Some (r, e') \<Longrightarrow>
      \<exists>off rest. pending e off = r # rest \<and> pending e' = (pending e)(off := rest)"
    and recv_none: "net_recv net e joff = None \<Longrightarrow> pending e off = []"
begin

definition quiet :: "'e \<Rightarrow> bool" where
  "quiet e \<longleftrightarrow> (\<forall>off. pending e off = [])"

lemma recv_pending:
  assumes "pending e off \<noteq> []"
  obtains r e' off' rest where "net_recv net e joff = Some (r, e')"
    and "pending e off' = r # rest" and "pending e' = (pending e)(off' := rest)"
proof -
  from assms recv_none [of e off] obtain r e' where r: "net_recv net e joff = Some (r, e')" by fastforce
  from recv_some [OF r] r that show thesis by blast
qed

lemma ask_neighbor_ok:
  assumes "joiner_ok nbs joff (sj w)" and "i < length nbs" and "jd w (fwd nbs joff q i) = None"
  shows "ask_neighbor net w i q h a b =
    Inr (w\<lparr>sj := (sj w)\<lparr>input_belief_states := (input_belief_states (sj w))[i := []]\<rparr>,
           jd := (jd w)(fwd nbs joff q i \<mapsto> joff),
           env := net_send net (env w) (noff nbs i) (ForwardMessage_new (fwd nbs joff q i) h a b)\<rparr>)"
  using assms by (simp add: ask_neighbor_def cleanup_input_def joiner_ok_def register_fresh fwd_def
      forward_qid_def Let_def)

lemma receive_loop_ok:
  assumes "joiner_ok nbs joff (sj w)" and "nbs_ok nbs joff" and "bare_qid q" and "i < length nbs"
    and "jd w (fwd nbs joff q i) = Some joff"
    and "pending (env w) = (\<lambda>_. [])(noff nbs i := answer bss (fwd nbs joff q i))"
    and "length bss < fuel"
  shows "\<exists>e. receive_loop fuel net w i c = Inr (c + length bss \<noteq> 0,
      w\<lparr>sj := (sj w)\<lparr>input_belief_states := (input_belief_states (sj w))[i := input_belief_states (sj w) ! i @ bss]\<rparr>,
        jd := (jd w)(fwd nbs joff q i := None), env := e\<rparr>) \<and> quiet e"
  using assms(1,5,6,7)
proof (induction bss arbitrary: w c fuel)
  case Nil
  then obtain f where fuel: "fuel = Suc f" by (cases fuel) auto
  from Nil have "pending (env w) (noff nbs i) \<noteq> []" by simp
  then obtain r e' off' rest where r: "net_recv net (env w) joff = Some (r, e')"
    and p: "pending (env w) off' = r # rest" "pending e' = (pending (env w))(off' := rest)"
    by (rule recv_pending)
  from p Nil have "off' = noff nbs i" "r = rbs_new None (fwd nbs joff q i)" "rest = []"
    by (auto split: if_splits)
  with p Nil have "quiet e'" by (auto simp: quiet_def)
  with r \<open>r = _\<close> fuel Nil show ?case
    by (cases w) (auto simp: joiner_ok_def unregister_present fun_upd_def intro!: exI [of _ e'])
next
  case (Cons b bss)
  then obtain f where fuel: "fuel = Suc f" by (cases fuel) auto
  from Cons have "pending (env w) (noff nbs i) \<noteq> []" by simp
  then obtain r e' off' rest where r: "net_recv net (env w) joff = Some (r, e')"
    and p: "pending (env w) off' = r # rest" "pending e' = (pending (env w))(off' := rest)"
    by (rule recv_pending)
  from p Cons have off': "off' = noff nbs i" and rr: "r = rbs_new (Some b) (fwd nbs joff q i)"
    and rest: "rest = answer bss (fwd nbs joff q i)"
    by (auto split: if_splits)
  let ?w = "w\<lparr>env := e', sj := push_input (sj w) i b\<rparr>"
  have "\<exists>e. receive_loop f net ?w i (c + 1) = Inr (c + 1 + length bss \<noteq> 0,
      ?w\<lparr>sj := (sj ?w)\<lparr>input_belief_states := (input_belief_states (sj ?w))[i := input_belief_states (sj ?w) ! i @ bss]\<rparr>,
        jd := (jd ?w)(fwd nbs joff q i := None), env := e\<rparr>) \<and> quiet e"
    using Cons.prems fuel p off' rest
    by (intro Cons.IH) (auto simp: joiner_ok_def push_input_def)
  then obtain e where "quiet e" and "receive_loop f net ?w i (c + 1) = Inr (c + 1 + length bss \<noteq> 0,
      ?w\<lparr>sj := (sj ?w)\<lparr>input_belief_states := (input_belief_states (sj ?w))[i := input_belief_states (sj ?w) ! i @ bss]\<rparr>,
        jd := (jd ?w)(fwd nbs joff q i := None), env := e\<rparr>)" by blast
  with r rr fuel Cons.prems assms(4) fwd_simps [OF assms(2,3,4)] show ?case
    by (intro exI [of _ e], cases w) (simp add: joiner_ok_def push_input_def fun_upd_def)
qed

lemma ask_neighbor_and_receive_ok:
  assumes j: "joiner_ok nbs joff (sj w)" and nbs: "nbs_ok nbs joff" "bare_qid q" "i < length nbs"
    and "fresh nbs joff q (jd w)" and "quiet (env w)"
    and "length (packs (noff nbs i) a b) < fuel"
  shows "\<exists>e. ask_neighbor_and_receive fuel net w i q h a b = Inr (packs (noff nbs i) a b \<noteq> [],
      w\<lparr>sj := (sj w)\<lparr>input_belief_states := (input_belief_states (sj w))[i := packs (noff nbs i) a b]\<rparr>,
        env := e\<rparr>) \<and> quiet e"
proof -
  let ?w = "w\<lparr>sj := (sj w)\<lparr>input_belief_states := (input_belief_states (sj w))[i := []]\<rparr>,
           jd := (jd w)(fwd nbs joff q i \<mapsto> joff),
           env := net_send net (env w) (noff nbs i) (ForwardMessage_new (fwd nbs joff q i) h a b)\<rparr>"
  from assms have fr: "jd w (fwd nbs joff q i) = None" by (simp add: fresh_def)
  from j have len: "i < length (input_belief_states (sj w))" using nbs by (simp add: joiner_ok_def)
  have "\<exists>e. receive_loop fuel net ?w i 0 = Inr (0 + length (packs (noff nbs i) a b) \<noteq> 0,
      ?w\<lparr>sj := (sj ?w)\<lparr>input_belief_states := (input_belief_states (sj ?w))
           [i := input_belief_states (sj ?w) ! i @ packs (noff nbs i) a b]\<rparr>,
        jd := (jd ?w)(fwd nbs joff q i := None), env := e\<rparr>) \<and> quiet e"
    using assms by (intro receive_loop_ok)
      (auto simp: joiner_ok_def pending_send quiet_def ForwardMessage_new_def)
  moreover have "(jd w)(fwd nbs joff q i := None) = jd w" using fr by auto
  ultimately show ?thesis
    using len by (simp add: ask_neighbor_and_receive_def ask_neighbor_ok [OF j nbs(3) fr])
qed

section \<open>Collecting the first packages\<close>

definition first_pack :: "nat \<Rightarrow> qid \<Rightarrow> NewBeliefState list" where
  "first_pack ps off = (if 0 < ps then packs off 1 ps else packs off 0 0)"

lemma ask_loop_ok:
  assumes nbs: "nbs_ok nbs joff" "bare_qid q"
    and "joiner_ok nbs joff (sj w)" and "distinct is" and "set is \<subseteq> {..<length nbs}"
    and "\<forall>i\<in>set is. jd w (fwd nbs joff q i) = None"
  shows "\<exists>w'. ask_loop net w q h is = Inr w' \<and>
    sj w' = (sj w)\<lparr>input_belief_states := map (\<lambda>i. if i \<in> set is then [] else input_belief_states (sj w) ! i) [0..<length nbs]\<rparr> \<and>
    jd w' = (\<lambda>x. if x \<in> fwd nbs joff q ` set is then Some joff else jd w x) \<and>
    (\<forall>i<length nbs. pending (env w') (noff nbs i) = pending (env w) (noff nbs i) @
       (if i \<in> set is then answer (first_pack (pack_size (sj w)) (noff nbs i)) (fwd nbs joff q i) else [])) \<and>
    (\<forall>off. off \<notin> noff nbs ` {..<length nbs} \<longrightarrow> pending (env w') off = pending (env w) off)"
  using assms(3-6)
proof (induction "is" arbitrary: w)
  case Nil
  then have "map ((!) (input_belief_states (sj w))) [0..<length nbs] = input_belief_states (sj w)"
    by (metis joiner_ok_def map_nth)
  then show ?case by simp
next
  case (Cons i "is")
  define a b where "a = (if 0 < pack_size (sj w) then 1 else 0 :: nat)" and "b = pack_size (sj w)"
  have fp: "packs (noff nbs i) a b = first_pack (pack_size (sj w)) (noff nbs i)"
    by (simp add: first_pack_def a_def b_def)
  let ?w = "w\<lparr>sj := (sj w)\<lparr>input_belief_states := (input_belief_states (sj w))[i := []]\<rparr>,
           jd := (jd w)(fwd nbs joff q i \<mapsto> joff),
           env := net_send net (env w) (noff nbs i) (ForwardMessage_new (fwd nbs joff q i) h a b)\<rparr>"
  have i: "i < length nbs" and i_is: "i \<notin> set is" using Cons.prems by auto
  have "ask_neighbor net w i q h a b = Inr ?w"
    using Cons.prems by (intro ask_neighbor_ok) auto
  moreover have "(if 0 < pack_size (sj w) then (1, pack_size (sj w)) else (0, 0)) = (a, b)"
    by (simp add: a_def b_def)
  ultimately have step: "ask_loop net w q h (i # is) = ask_loop net ?w q h is" by simp
  have other: "fwd nbs joff q k \<noteq> fwd nbs joff q i" if "k \<in> set is" for k
    using that fwd_inj [OF nbs, of k i] Cons.prems by auto
  have "joiner_ok nbs joff (sj ?w)" using Cons.prems by (simp add: joiner_ok_def)
  moreover have "\<forall>k\<in>set is. jd ?w (fwd nbs joff q k) = None" using Cons.prems other by simp
  ultimately obtain w' where w': "ask_loop net ?w q h is = Inr w'"
    "sj w' = (sj ?w)\<lparr>input_belief_states := map (\<lambda>k. if k \<in> set is then [] else input_belief_states (sj ?w) ! k) [0..<length nbs]\<rparr>"
    "jd w' = (\<lambda>x. if x \<in> fwd nbs joff q ` set is then Some joff else jd ?w x)"
    "\<forall>k<length nbs. pending (env w') (noff nbs k) = pending (env ?w) (noff nbs k) @
       (if k \<in> set is then answer (first_pack (pack_size (sj ?w)) (noff nbs k)) (fwd nbs joff q k) else [])"
    "\<forall>off. off \<notin> noff nbs ` {..<length nbs} \<longrightarrow> pending (env w') off = pending (env ?w) off"
    using Cons.IH [of ?w] Cons.prems by auto
  have "sj w' = (sj w)\<lparr>input_belief_states := map (\<lambda>k. if k \<in> set (i # is) then [] else input_belief_states (sj w) ! k) [0..<length nbs]\<rparr>"
    unfolding w'(2) using Cons.prems by (simp add: joiner_ok_def nth_list_update cong: map_cong)
  moreover have "jd w' = (\<lambda>x. if x \<in> fwd nbs joff q ` set (i # is) then Some joff else jd w x)"
    unfolding w'(3) by (auto simp: fun_eq_iff)
  moreover have "\<forall>k<length nbs. pending (env w') (noff nbs k) = pending (env w) (noff nbs k) @
       (if k \<in> set (i # is) then answer (first_pack (pack_size (sj w)) (noff nbs k)) (fwd nbs joff q k) else [])"
  proof (intro allI impI)
    fix k assume k: "k < length nbs"
    show "pending (env w') (noff nbs k) = pending (env w) (noff nbs k) @
       (if k \<in> set (i # is) then answer (first_pack (pack_size (sj w)) (noff nbs k)) (fwd nbs joff q k) else [])"
      using w'(4) [rule_format, OF k] noff_inj [OF nbs(1) k i] i_is fp
      by (auto simp: pending_send ForwardMessage_new_def)
  qed
  moreover have "\<forall>off. off \<notin> noff nbs ` {..<length nbs} \<longrightarrow> pending (env w') off = pending (env w) off"
    using w'(5) i by (auto simp: pending_send)
  ultimately show ?case unfolding step using w'(1) by (intro exI [of _ w'] conjI) assumption+
qed

text \<open>
  The state of the collecting loop: \<open>I\<close> are the neighbors that were asked for the packages \<open>P\<close>, \<open>M\<close>
  those that have answered completely, \<open>rest\<close> what is still to come from each of the others.
\<close>

definition collecting :: "NewNeighbor list \<Rightarrow> qid \<Rightarrow> nat set \<Rightarrow> (nat \<Rightarrow> NewBeliefState list) \<Rightarrow>
    'e joiner_world \<Rightarrow> (nat \<Rightarrow> NewBeliefState list) \<Rightarrow> nat set \<Rightarrow> nat list \<Rightarrow> bool" where
  "collecting nbs q I P w rest M cnt \<longleftrightarrow> joiner_ok nbs joff (sj w) \<and> M \<subseteq> I \<and> I \<subseteq> {..<length nbs} \<and>
     (\<forall>i<length nbs. pending (env w) (noff nbs i) = (if i \<in> I - M then answer (rest i) (fwd nbs joff q i) else [])) \<and>
     (\<forall>off. off \<notin> noff nbs ` {..<length nbs} \<longrightarrow> pending (env w) off = []) \<and>
     (\<forall>i\<in>I. input_belief_states (sj w) ! i @ rest i = P i \<and> cnt ! i = length (input_belief_states (sj w) ! i) \<and>
        i < length cnt) \<and>
     (\<forall>i\<in>M. rest i = [] \<and> P i \<noteq> []) \<and> (\<forall>i\<in>I - M. jd w (fwd nbs joff q i) = Some joff)"

text \<open>The next message comes from some neighbor that has not answered completely.\<close>

lemma collecting_recv:
  assumes "nbs_ok nbs joff" and c: "collecting nbs q I P w rest M cnt" and "M \<noteq> I"
  obtains i r e where "net_recv net (env w) joff = Some (r, e)" and "i \<in> I - M"
    and "r # pending e (noff nbs i) = answer (rest i) (fwd nbs joff q i)"
    and "pending e = (pending (env w))(noff nbs i := pending e (noff nbs i))"
proof -
  from c \<open>M \<noteq> I\<close> obtain k where k: "k \<in> I - M" "k < length nbs" by (auto simp: collecting_def)
  with c have "pending (env w) (noff nbs k) \<noteq> []" by (simp add: collecting_def)
  then obtain r e off tl where r: "net_recv net (env w) joff = Some (r, e)"
    and p: "pending (env w) off = r # tl" "pending e = (pending (env w))(off := tl)"
    by (rule recv_pending)
  from p(1) c obtain i where i: "i < length nbs" "off = noff nbs i"
    unfolding collecting_def by (metis imageE lessThan_iff list.distinct(1))
  with p(1) c have "i \<in> I - M" "r # tl = answer (rest i) (fwd nbs joff q i)"
    unfolding collecting_def by (metis list.distinct(1))+
  with r p i show thesis by (intro that [of r e i]) auto
qed

lemma collecting_body:
  assumes nbs: "nbs_ok nbs joff" and c: "collecting nbs q I P w rest M cnt"
    and i: "i \<in> I - M" "rest i = b # bs"
    and e: "pending e = (pending (env w))(noff nbs i := answer bs (fwd nbs joff q i))"
  shows "collecting nbs q I P (w\<lparr>env := e, sj := push_input (sj w) i b\<rparr>) (rest(i := bs)) M
    (cnt[i := cnt ! i + 1])"
proof -
  from c i have il: "i < length nbs" and ic: "i < length cnt" by (auto simp: collecting_def)
  have len: "length (input_belief_states (sj w)) = length nbs" using c by (simp add: collecting_def joiner_ok_def)
  have "pending e (noff nbs k) = (if k \<in> I - M then answer ((rest(i := bs)) k) (fwd nbs joff q k) else [])"
    if "k < length nbs" for k
    using c i that noff_inj [OF nbs that il] unfolding e by (auto simp: collecting_def)
  moreover have "pending e off = []" if "off \<notin> noff nbs ` {..<length nbs}" for off
    using c that il unfolding e by (auto simp: collecting_def)
  ultimately show ?thesis
    using c i ic il len by (auto simp: collecting_def joiner_ok_def push_input_def nth_list_update)
qed

lemma collecting_null:
  assumes nbs: "nbs_ok nbs joff" "bare_qid q" and c: "collecting nbs q I P w rest M cnt"
    and i: "i \<in> I - M" "rest i = []" "P i \<noteq> []"
    and e: "pending e = (pending (env w))(noff nbs i := [])"
  shows "collecting nbs q I P (w\<lparr>env := e, jd := (jd w)(fwd nbs joff q i := None)\<rparr>) rest (insert i M) cnt"
proof -
  from c i have il: "i < length nbs" by (auto simp: collecting_def)
  have "pending e (noff nbs k) = (if k \<in> I - insert i M then answer (rest k) (fwd nbs joff q k) else [])"
    if "k < length nbs" for k
    using c i that noff_inj [OF nbs(1) that il] unfolding e by (auto simp: collecting_def)
  moreover have "pending e off = []" if "off \<notin> noff nbs ` {..<length nbs}" for off
    using c that il unfolding e by (auto simp: collecting_def)
  moreover have "fwd nbs joff q k \<noteq> fwd nbs joff q i" if "k \<in> I - insert i M" for k
    using that fwd_inj [OF nbs, of k i] c il by (auto simp: collecting_def)
  ultimately show ?thesis
    using c i by (auto simp: collecting_def)
qed

lemma collecting_done:
  assumes "nbs_ok nbs joff" and c: "collecting nbs q I P w rest I cnt"
  shows "quiet (env w) \<and> sj w = (sj w)\<lparr>input_belief_states :=
      map (\<lambda>i. if i \<in> I then P i else input_belief_states (sj w) ! i) [0..<length nbs]\<rparr>"
proof
  show "quiet (env w)" unfolding quiet_def
  proof
    fix off
    show "pending (env w) off = []"
      using c by (cases "off \<in> noff nbs ` {..<length nbs}") (auto simp: collecting_def)
  qed
  have "map (\<lambda>i. if i \<in> I then P i else input_belief_states (sj w) ! i) [0..<length nbs] = input_belief_states (sj w)"
  proof (rule nth_equalityI)
    show "map (\<lambda>i. if i \<in> I then P i else input_belief_states (sj w) ! i) [0..<length nbs] ! k =
        input_belief_states (sj w) ! k" if "k < length (map (\<lambda>i. if i \<in> I then P i else input_belief_states (sj w) ! i) [0..<length nbs])" for k
      using that c by (auto simp: collecting_def)
  qed (use c in \<open>simp add: collecting_def joiner_ok_def\<close>)
  then show "sj w = (sj w)\<lparr>input_belief_states :=
      map (\<lambda>i. if i \<in> I then P i else input_belief_states (sj w) ! i) [0..<length nbs]\<rparr>" by simp
qed

lemma record_same [simp]: "j\<lparr>offset2index := offset2index j\<rparr> = (j :: StreamingJoiner)"
  by (cases j) simp

lemma collect_loop_step:
  assumes nbs: "nbs_ok nbs joff" "bare_qid q" and c: "collecting nbs q I P w rest M cnt"
    and i: "i \<in> I - M" and mark: "marking \<noteq> all_ret"
    and recv: "net_recv net (env w) joff = Some (r, e)"
    and pend: "r # pending e (noff nbs i) = answer (rest i) (fwd nbs joff q i)"
  shows "collect_loop (Suc fuel) net w q all_ret marking cnt =
    (case rest i of
       b # bs \<Rightarrow> collect_loop fuel net (w\<lparr>env := e, sj := push_input (sj w) i b\<rparr>) q all_ret marking (cnt[i := cnt ! i + 1])
     | [] \<Rightarrow> if P i = [] then Inr (False, w\<lparr>env := e, jd := (jd w)(fwd nbs joff q i := None)\<rparr>)
         else collect_loop fuel net (w\<lparr>env := e, jd := (jd w)(fwd nbs joff q i := None)\<rparr>) q all_ret
                (marking OR push_bit i 1) cnt)"
proof -
  from c i have il: "i < length nbs" "i < length cnt" "i < length (input_belief_states (sj w))"
    and o: "offset2index (sj w) (noff nbs i) = Some i" "joiner_offset (sj w) = joff"
    and P: "input_belief_states (sj w) ! i @ rest i = P i" "cnt ! i = length (input_belief_states (sj w) ! i)"
    and jdi: "jd w (fwd nbs joff q i) = Some joff"
    by (auto simp: collecting_def joiner_ok_def)
  have i64: "i < 64" using nbs(1) il by (simp add: nbs_ok_def)
  note f = fwd_simps [OF nbs il(1)]
  show ?thesis
  proof (cases "rest i")
    case Nil
    with pend have r: "r = rbs_new None (fwd nbs joff q i)" by simp
    with Nil P have "(cnt ! i = 0) = (P i = [])" by auto
    then show ?thesis using mark recv r f o il i64 jdi Nil
      by (simp add: Let_def unregister_present)
  next
    case (Cons b bs)
    with pend have r: "r = rbs_new (Some b) (fwd nbs joff q i)" by simp
    then show ?thesis using mark recv f o il Cons by (simp add: Let_def)
  qed
qed

definition to_come :: "nat set \<Rightarrow> (nat \<Rightarrow> NewBeliefState list) \<Rightarrow> nat" where
  "to_come I rest = (\<Sum>i\<in>I. Suc (length (rest i)))"

lemma to_come_body:
  "finite I \<Longrightarrow> i \<in> I \<Longrightarrow> rest i = b # bs \<Longrightarrow> to_come I rest = Suc (to_come I (rest(i := bs)))"
  by (simp add: to_come_def sum.remove)

lemma to_come_null:
  "finite I \<Longrightarrow> i \<in> I \<Longrightarrow> rest i = [] \<Longrightarrow> to_come I rest = Suc (to_come (I - {i}) rest)"
  by (simp add: to_come_def sum.remove)

definition collected :: "NewNeighbor list \<Rightarrow> qid \<Rightarrow> nat set \<Rightarrow> (nat \<Rightarrow> NewBeliefState list) \<Rightarrow>
    'e joiner_world \<Rightarrow> nat set \<Rightarrow> 'e joiner_world \<Rightarrow> bool" where
  "collected nbs q I P w J w' \<longleftrightarrow>
    ((\<forall>i\<in>I. P i \<noteq> []) \<longrightarrow>
      sj w' = (sj w)\<lparr>input_belief_states := map (\<lambda>i. if i \<in> I then P i else input_belief_states (sj w) ! i) [0..<length nbs]\<rparr> \<and>
      jd w' = (\<lambda>x. if x \<in> fwd nbs joff q ` J then None else jd w x) \<and> quiet (env w')) \<and>
    (\<exists>inp. length inp = length nbs \<and> sj w' = (sj w)\<lparr>input_belief_states := inp\<rparr>)"

lemma collected_stop:
  "\<lbrakk>length (input_belief_states (sj w)) = length nbs; i \<in> I; P i = []; sj w' = sj w\<rbrakk> \<Longrightarrow> collected nbs q I P w J w'"
  by (auto simp: collected_def intro!: exI [of _ "input_belief_states (sj w)"])

lemma collected_null:
  assumes "collected nbs q I P (w\<lparr>env := e, jd := (jd w)(fwd nbs joff q i := None)\<rparr>) (I - insert i M) w'"
    and "i \<in> I - M"
  shows "collected nbs q I P w (I - M) w'"
proof -
  let ?w = "w\<lparr>env := e, jd := (jd w)(fwd nbs joff q i := None)\<rparr>"
  have "(\<lambda>x. if x \<in> fwd nbs joff q ` (I - insert i M) then None else jd ?w x) =
        (\<lambda>x. if x \<in> fwd nbs joff q ` (I - M) then None else jd w x)"
    using assms(2) by (auto simp: fun_eq_iff)
  moreover have "sj ?w = sj w" by simp
  ultimately show ?thesis using assms(1) unfolding collected_def by (simp only:) blast
qed

lemma collected_body:
  assumes "collected nbs q I P (w\<lparr>env := e, sj := push_input (sj w) i b\<rparr>) J w'" and "i \<in> I"
    and "length (input_belief_states (sj w)) = length nbs"
  shows "collected nbs q I P w J w'"
proof -
  have "map (\<lambda>k. if k \<in> I then P k else input_belief_states (push_input (sj w) i b) ! k) [0..<length nbs] =
      map (\<lambda>k. if k \<in> I then P k else input_belief_states (sj w) ! k) [0..<length nbs]"
    using assms(2,3) by (intro map_cong refl) (auto simp: push_input_def intro!: nth_list_update_neq)
  moreover have "(push_input (sj w) i b)\<lparr>input_belief_states := inp\<rparr> = (sj w)\<lparr>input_belief_states := inp\<rparr>" for inp
    by (simp add: push_input_def)
  moreover have sjw: "sj (w\<lparr>env := e, sj := push_input (sj w) i b\<rparr>) = push_input (sj w) i b"
    and jdw: "jd (w\<lparr>env := e, sj := push_input (sj w) i b\<rparr>) = jd w" by simp_all
  ultimately show ?thesis using assms(1) unfolding collected_def sjw jdw by (simp only:) blast
qed

lemma mark_bit:
  assumes "i < 64" and "\<And>k. bit m k \<longleftrightarrow> k \<in> M"
  shows "bit (m OR push_bit i 1 :: 64 word) k \<longleftrightarrow> k \<in> insert i M"
proof -
  from assms(1) have "bit (push_bit i 1 :: 64 word) k \<longleftrightarrow> k = i" by (auto simp: bit_simps)
  then show ?thesis using assms(2) [of k] by (auto simp: bit_or_iff)
qed

lemma mark_complete:
  assumes "\<And>k. bit a k \<longleftrightarrow> k \<in> I" and "\<And>k. bit (m :: 64 word) k \<longleftrightarrow> k \<in> M"
  shows "m = a \<longleftrightarrow> M = I"
proof
  assume "m = a"
  then have "k \<in> M \<longleftrightarrow> k \<in> I" for k using assms(1) [of k] assms(2) [of k] by simp
  then show "M = I" by blast
qed (use assms in \<open>simp add: bit_eq_iff\<close>)

lemma collect_loop_ok:
  assumes nbs: "nbs_ok nbs joff" "bare_qid q"
    and all: "\<And>k. bit all_ret k \<longleftrightarrow> k \<in> I"
    and "collecting nbs q I P w rest M cnt" and "\<And>k. bit marking k \<longleftrightarrow> k \<in> M"
    and "to_come (I - M) rest < fuel"
  shows "\<exists>w'. collect_loop fuel net w q all_ret marking cnt = Inr (\<forall>i\<in>I. P i \<noteq> [], w') \<and>
    collected nbs q I P w (I - M) w'"
  using assms(4-6)
proof (induction fuel arbitrary: w rest M cnt marking)
  case (Suc fuel)
  note c = Suc.prems(1)
  from c have fin: "finite (I - M)" by (auto simp: collecting_def intro: finite_subset)
  have len: "length (input_belief_states (sj w)) = length nbs"
    using c by (simp add: collecting_def joiner_ok_def)
  show ?case
  proof (cases "M = I")
    case True
    with c have "\<forall>i\<in>I. P i \<noteq> []" by (auto simp: collecting_def)
    moreover from collecting_done [OF nbs(1)] c True have "collected nbs q I P w (I - M) w"
      unfolding collected_def by (auto intro!: exI [of _ "input_belief_states (sj w)"] simp: len)
    ultimately show ?thesis using mark_complete [OF all Suc.prems(2)] True
      by (intro exI [of _ w]) simp
  next
    case False
    obtain i r e where recv: "net_recv net (env w) joff = Some (r, e)" and i: "i \<in> I - M"
      and pend: "r # pending e (noff nbs i) = answer (rest i) (fwd nbs joff q i)"
      and e: "pending e = (pending (env w))(noff nbs i := pending e (noff nbs i))"
      by (rule collecting_recv [OF nbs(1) c False])
    from i c nbs(1) have i64: "i < 64" by (auto simp: collecting_def nbs_ok_def)
    have ne: "marking \<noteq> all_ret" using mark_complete [OF all Suc.prems(2)] False by simp
    note step = collect_loop_step [OF nbs c i ne recv pend, of fuel]
    show ?thesis
    proof (cases "rest i")
      case Nil
      with pend e have e': "pending e = (pending (env w))(noff nbs i := [])" by simp
      show ?thesis
      proof (cases "P i = []")
        case True
        with i have "\<not> (\<forall>i\<in>I. P i \<noteq> [])" by auto
        moreover have "collected nbs q I P w (I - M) (w\<lparr>env := e, jd := (jd w)(fwd nbs joff q i := None)\<rparr>)"
          using i True by (intro collected_stop [OF len, of i]) auto
        ultimately show ?thesis using step Nil True by (intro exI conjI) auto
      next
        case False
        have "I - insert i M = I - M - {i}" by blast
        then have "to_come (I - insert i M) rest < fuel"
          using to_come_null [of "I - M" i rest, OF fin i Nil] Suc.prems(3) by simp
        from Suc.IH [OF collecting_null [OF nbs c i Nil False e'] mark_bit [OF i64 Suc.prems(2)] this]
        show ?thesis unfolding step using Nil False collected_null [OF _ i] by auto
      qed
    next
      case (Cons b bs)
      with pend e have e': "pending e = (pending (env w))(noff nbs i := answer bs (fwd nbs joff q i))" by simp
      have "to_come (I - M) (rest(i := bs)) < fuel"
        using to_come_body [of "I - M" i rest, OF fin i Cons] Suc.prems(3) by simp
      from Suc.IH [OF collecting_body [OF nbs(1) c i Cons e'] Suc.prems(2) this]
      show ?thesis unfolding step using Cons i collected_body [OF _ _ len] by auto
    qed
  qed
qed simp

lemma all_neighbors_returned_bits:
  assumes "a \<le> b" and "b < 63"
  shows "\<exists>m. all_neighbors_returned a b = Inr m \<and> (\<forall>k. bit m k \<longleftrightarrow> a \<le> k \<and> k \<le> b)"
proof -
  let ?m = "push_bit a (mask (b - a + 1)) :: 64 word"
  have "bit ?m k \<longleftrightarrow> a \<le> k \<and> k \<le> b" for k
    using assms by (auto simp: bit_simps)
  moreover have "all_neighbors_returned a b = Inr ?m"
    using assms by (simp add: all_neighbors_returned_def mask_eq_exp_minus_1)
  ultimately show ?thesis by blast
qed

lemma ask_first_packs_ok:
  assumes nbs: "nbs_ok nbs joff" "bare_qid q" and j: "joiner_ok nbs joff (sj w)"
    and "fresh nbs joff q (jd w)" and "quiet (env w)" and ab: "a \<le> b" "b < length nbs"
    and P: "P = (\<lambda>i. first_pack (pack_size (sj w)) (noff nbs i))" and "to_come {a..b} P < fuel"
  shows "\<exists>w'. ask_first_packs fuel net w q h a b = Inr (\<forall>i\<in>{a..b}. P i \<noteq> [], w') \<and>
    collected nbs q {a..b} P w {} w'"
proof -
  let ?is = "[a..<b + 1]"
  have is_ab: "set ?is = {a..b}" by auto
  from ab nbs(1) have b63: "b < 63" by (simp add: nbs_ok_def)
  have "\<exists>w1. ask_loop net w q h ?is = Inr w1 \<and>
    sj w1 = (sj w)\<lparr>input_belief_states := map (\<lambda>i. if i \<in> set ?is then [] else input_belief_states (sj w) ! i) [0..<length nbs]\<rparr> \<and>
    jd w1 = (\<lambda>x. if x \<in> fwd nbs joff q ` set ?is then Some joff else jd w x) \<and>
    (\<forall>i<length nbs. pending (env w1) (noff nbs i) = pending (env w) (noff nbs i) @
       (if i \<in> set ?is then answer (first_pack (pack_size (sj w)) (noff nbs i)) (fwd nbs joff q i) else [])) \<and>
    (\<forall>off. off \<notin> noff nbs ` {..<length nbs} \<longrightarrow> pending (env w1) off = pending (env w) off)"
    using assms by (intro ask_loop_ok) (auto simp: fresh_def)
  then obtain w1 where ask: "ask_loop net w q h ?is = Inr w1"
    and sj1: "sj w1 = (sj w)\<lparr>input_belief_states := map (\<lambda>i. if i \<in> {a..b} then [] else input_belief_states (sj w) ! i) [0..<length nbs]\<rparr>"
    and jd1: "jd w1 = (\<lambda>x. if x \<in> fwd nbs joff q ` {a..b} then Some joff else jd w x)"
    and p1: "\<forall>i<length nbs. pending (env w1) (noff nbs i) = (if i \<in> {a..b} then answer (P i) (fwd nbs joff q i) else [])"
    and p1': "\<forall>off. off \<notin> noff nbs ` {..<length nbs} \<longrightarrow> pending (env w1) off = []"
    unfolding is_ab P using assms(5) by (auto simp: quiet_def)
  have zero: "replicate (b + 1) 0 ! i = 0" if "i \<le> b" for i :: nat using that by (simp del: replicate_Suc)
  have c: "collecting nbs q {a..b} P w1 P {} (replicate (b + 1) 0)"
    using j ab p1 p1' zero by (auto simp: collecting_def sj1 jd1 joiner_ok_def simp del: replicate_Suc)
  obtain m where m: "all_neighbors_returned a b = Inr m" "\<And>k. bit m k \<longleftrightarrow> k \<in> {a..b}"
    using all_neighbors_returned_bits [OF ab(1) b63] by auto
  have "to_come ({a..b} - {}) P < fuel" using assms(9) by simp
  from collect_loop_ok [OF nbs m(2) c _ this, of 0] obtain w' where
    w': "collect_loop fuel net w1 q m 0 (replicate (b + 1) 0) = Inr (\<forall>i\<in>{a..b}. P i \<noteq> [], w')"
    and col: "collected nbs q {a..b} P w1 {a..b} w'"
    by auto
  have "(\<lambda>x. if x \<in> fwd nbs joff q ` {a..b} then None else jd w1 x) = jd w"
    using assms(4) ab by (auto simp: jd1 fresh_def fun_eq_iff)
  moreover have "map (\<lambda>i. if i \<in> {a..b} then P i else input_belief_states (sj w1) ! i) [0..<length nbs] =
      map (\<lambda>i. if i \<in> {a..b} then P i else input_belief_states (sj w) ! i) [0..<length nbs]"
    by (auto simp: sj1)
  ultimately have "collected nbs q {a..b} P w {} w'"
    using col unfolding collected_def by (simp add: sj1)
  moreover have "ask_first_packs fuel net w q h a b = Inr (\<forall>i\<in>{a..b}. P i \<noteq> [], w')"
    using ask m(1) w' ab j by (simp add: ask_first_packs_def joiner_ok_def)
  ultimately show ?thesis by blast
qed

end

end
