(* ===== verification/Joiner_Paging.thy ===== *)
theory Joiner_Paging
  imports Joiner_Contract
begin

text \<open>
  The streaming joiner pages through all combinations of packages: \<open>first_join\<close> and the calls of
  \<open>next_join\<close> that follow return the join of every choice of one model per neighbor, and then the
  null pointer that ends the enumeration.
\<close>

declare next_loop.simps(2) [simp del]

section \<open>The order of the package numbers\<close>

text \<open>The successor of a vector of package numbers: the first neighbor varies fastest.\<close>

fun succ_first :: "nat list \<Rightarrow> nat list \<Rightarrow> nat list option" where
  "succ_first (m # ms) (c # cs) =
     (if Suc c < m then Some (Suc c # cs) else map_option ((#) 0) (succ_first ms cs))"
| "succ_first _ _ = None"

lemma succ_run_snoc:
  "length ms = length rs \<Longrightarrow> succ_run (ms @ [m]) (rs @ [r]) =
     (if Suc r < m then Some (rs @ [Suc r]) else map_option (\<lambda>xs. xs @ [0]) (succ_run ms rs))"
proof (induction ms rs rule: list_induct2)
  case (Cons m' ms r' rs)
  then show ?case by (auto simp: replicate_append_same split: option.splits)
qed simp

lemma succ_first_rev:
  "length ms = length c \<Longrightarrow> succ_first ms c = map_option rev (succ_run (rev ms) (rev c))"
proof (induction ms c rule: list_induct2)
  case (Cons m ms c cs)
  then show ?case by (simp add: succ_run_snoc option.map_comp comp_def)
qed simp

lemma chain_map:
  "chain s L \<Longrightarrow> (\<And>x. x \<in> set L \<Longrightarrow> s' (f x) = map_option f (s x)) \<Longrightarrow> chain s' (map f L)"
  by (induction s L rule: chain.induct) auto

definition all_counts :: "nat list \<Rightarrow> nat list list" where
  "all_counts ms = map rev (all_runs (rev ms))"

lemma chain_all_counts:
  assumes "list_all (\<lambda>m. 0 < m) ms"
  shows "chain (succ_first ms) (all_counts ms) \<and> hd (all_counts ms) = replicate (length ms) 0"
proof
  from assms have "list_all (\<lambda>m. 0 < m) (rev ms)" by (simp add: list_all_iff)
  note ch = chain_all_runs [OF this]
  show "chain (succ_first ms) (all_counts ms)" unfolding all_counts_def
  proof (rule chain_map [OF conjunct1 [OF ch]])
    fix x assume "x \<in> set (all_runs (rev ms))"
    then have "length ms = length (rev x)" using length_in_all_runs by fastforce
    then show "succ_first ms (rev x) = map_option rev (succ_run (rev ms) x)"
      by (simp add: succ_first_rev)
  qed
  from ch have "all_runs (rev ms) \<noteq> []" by auto
  with ch show "hd (all_counts ms) = replicate (length ms) 0"
    by (simp add: all_counts_def hd_map rev_replicate)
qed

lemma in_all_counts: "c \<in> set (all_counts ms) \<longleftrightarrow> list_all2 (<) c ms"
proof -
  have "run \<in> set (all_runs xs) \<longleftrightarrow> list_all2 (<) run xs" for run xs
    by (simp add: all_runs_def in_product_lists list_all2_map2)
  then show ?thesis by (auto simp: all_counts_def image_iff list_all2_rev1 intro!: bexI [of _ "rev c"])
qed

text \<open>The position at which the successor differs, as the joiner searches for it.\<close>

lemma succ_first_find:
  "length ms = length c \<Longrightarrow> succ_first ms c =
     (case find (\<lambda>i. Suc (c ! i) < ms ! i) [0..<length ms] of None \<Rightarrow> None
      | Some m \<Rightarrow> Some (replicate m 0 @ Suc (c ! m) # drop (Suc m) c))"
proof (induction ms c rule: list_induct2)
  case (Cons m ms c cs)
  have find_Suc: "find P (map Suc xs) = map_option Suc (find (\<lambda>i. P (Suc i)) xs)" for P xs
    by (induction xs) auto
  have "[0..<length (m # ms)] = 0 # map Suc [0..<length ms]"
    by (simp add: upt_conv_Cons map_Suc_upt del: upt_Suc)
  then show ?case using Cons by (auto simp: find_Suc split: option.splits simp del: upt_Suc)
qed simp

section \<open>Neighbors that answer with ranges of their models\<close>

text \<open>
  A request for the models \<open>a\<close> to \<open>b\<close> is answered with those models, in any order and possibly
  without repetitions; a request for 0 to 0 with all models.
\<close>

locale paging = neighbor_service net joff pending packs
  for net :: "'e network" and joff :: qid and pending :: "'e \<Rightarrow> qid \<Rightarrow> returned list"
    and packs :: "qid \<Rightarrow> nat \<Rightarrow> nat \<Rightarrow> NewBeliefState list" +
  fixes nbs :: "NewNeighbor list" and ps :: nat and models :: "qid \<Rightarrow> NewBeliefState list"
    and n s maxlen :: nat
  assumes nbs: "nbs_ok nbs joff"
    and packs_range: "nb \<in> set nbs \<Longrightarrow> 0 < a \<Longrightarrow>
      set (packs (neighbor_offset nb) a b) = set (model_range a b (models (neighbor_offset nb)))"
    and packs_all: "nb \<in> set nbs \<Longrightarrow> set (packs (neighbor_offset nb) 0 0) = set (models (neighbor_offset nb))"
    and packs_len: "nb \<in> set nbs \<Longrightarrow> length (packs (neighbor_offset nb) a b) \<le> maxlen"
    and small: "nb \<in> set nbs \<Longrightarrow> length (models (neighbor_offset nb)) + 2 * ps < SIZE_T"
    and layout_pos: "0 < n" "0 < s"
    and models_well: "nb \<in> set nbs \<Longrightarrow> bs \<in> set (models (neighbor_offset nb)) \<Longrightarrow> wf_bs (block_start s n) bs"
begin

abbreviation N :: nat where "N \<equiv> length nbs"
abbreviation M :: "nat \<Rightarrow> NewBeliefState list" where "M i \<equiv> models (noff nbs i)"
abbreviation inst :: "BeliefStateOffset option" where "inst \<equiv> Some (layout n s)"

definition pack :: "nat \<Rightarrow> nat \<Rightarrow> NewBeliefState list" where
  "pack i k = (if ps = 0 then packs (noff nbs i) 0 0 else packs (noff nbs i) (k * ps + 1) ((k + 1) * ps))"

definition np :: "nat \<Rightarrow> nat" where
  "np i = (if ps = 0 then (if M i = [] then 0 else 1) else (length (M i) + ps - 1) div ps)"

abbreviation nps :: "nat list" where "nps \<equiv> map np [0..<N]"

definition packs_of :: "nat list \<Rightarrow> NewBeliefState list list" where
  "packs_of c = map (\<lambda>i. pack i (c ! i)) [0..<N]"

definition J :: "nat list \<Rightarrow> NewBeliefState list" where
  "J c = joins inst (packs_of c)"

lemma first_pack_pack: "first_pack ps (noff nbs i) = pack i 0"
  by (simp add: first_pack_def pack_def)

lemma set_pack:
  assumes "i < N" and "0 < ps"
  shows "set (pack i k) = set (take ps (drop (k * ps) (M i)))"
  using packs_range [of "nbs ! i" "k * ps + 1" "(k + 1) * ps"] assms
  by (simp add: pack_def model_range_def)

lemma less_np: "0 < ps \<Longrightarrow> k < np i \<longleftrightarrow> k * ps < length (M i)"
proof -
  assume ps: "0 < ps"
  have "k < (L + ps - 1) div ps \<longleftrightarrow> k * ps < L" for L
    using ps by (simp add: less_eq_div_iff_mult_less_eq Suc_le_eq [symmetric] del: Suc_le_eq) auto
  with ps show ?thesis by (simp add: np_def)
qed

lemma set_pack_all: "i < N \<Longrightarrow> ps = 0 \<Longrightarrow> set (pack i k) = set (M i)"
  unfolding pack_def using packs_all [of "nbs ! i"] by simp

lemma np_all: "ps = 0 \<Longrightarrow> np i = (if M i = [] then 0 else 1)"
  unfolding np_def by simp

lemma pack_nonempty: "i < N \<Longrightarrow> 0 < ps \<Longrightarrow> pack i k \<noteq> [] \<longleftrightarrow> k < np i"
  using set_pack [of i k] by (subst set_empty [symmetric]) (auto simp: less_np)

lemma pack0_nonempty: "i < N \<Longrightarrow> pack i 0 \<noteq> [] \<longleftrightarrow> 0 < np i"
proof (cases "0 < ps")
  case False
  assume "i < N"
  with set_pack_all [of i 0] False have "pack i 0 = [] \<longleftrightarrow> M i = []"
    by (metis gr0I set_empty)
  with np_all [of i] False show ?thesis by auto
qed (simp add: pack_nonempty)

lemma np_pos: "0 < np i \<longleftrightarrow> M i \<noteq> []"
  using less_np [of 0 i] np_all [of i] by (cases "0 < ps") auto

lemma pack_sub: "i < N \<Longrightarrow> set (pack i k) \<subseteq> set (M i)"
  using set_pack [of i k] set_pack_all [of i k]
  by (cases "0 < ps") (auto dest: in_set_takeD in_set_dropD)

lemma pack_len: "i < N \<Longrightarrow> length (pack i k) \<le> maxlen"
  by (simp add: pack_def packs_len)

section \<open>States of the joiner\<close>

text \<open>
  Between two calls: the vector \<open>c\<close> of package numbers says which packages are loaded, and the
  results \<open>rs\<close> of joining them are waiting. \<open>scan\<close> is the state inside the loop of \<open>next_join\<close>,
  when the neighbors before \<open>k\<close> have been found to have no further package.
\<close>

definition at_rest :: "'e joiner_world \<Rightarrow> bool" where
  "at_rest w \<longleftrightarrow> joiner_ok nbs joff (sj w) \<and> pack_size (sj w) = ps \<and> quiet (env w) \<and>
     (\<forall>q. bare_qid q \<longrightarrow> fresh nbs joff q (jd w))"

definition state :: "'e joiner_world \<Rightarrow> nat list \<Rightarrow> NewBeliefState list \<Rightarrow> bool" where
  "state w c rs \<longleftrightarrow> at_rest w \<and> pack_count (sj w) = c \<and> input_belief_states (sj w) = packs_of c \<and>
     next_neighbor (sj w) = 0 \<and> \<not> asking_next (sj w) \<and>
     map belief_state (joined_results (sj w)) = map Some rs \<and> list_all2 (<) c nps"

definition scan :: "'e joiner_world \<Rightarrow> nat list \<Rightarrow> nat \<Rightarrow> bool" where
  "scan w c k \<longleftrightarrow> at_rest w \<and> next_neighbor (sj w) = k \<and> asking_next (sj w) = (0 < k) \<and> joined_results (sj w) = [] \<and>
     list_all2 (<) c nps \<and> k \<le> N \<and>
     (\<forall>i. k \<le> i \<and> i < N \<longrightarrow> pack_count (sj w) ! i = c ! i \<and> input_belief_states (sj w) ! i = pack i (c ! i)) \<and>
     (\<forall>i<k. \<not> Suc (c ! i) < np i)"

definition loaded :: "'e joiner_world \<Rightarrow> nat list \<Rightarrow> bool" where
  "loaded w c \<longleftrightarrow> at_rest w \<and> pack_count (sj w) = c \<and> input_belief_states (sj w) = packs_of c \<and>
     joined_results (sj w) = [] \<and> list_all2 (<) c nps"

definition after_join :: "nat \<Rightarrow> qid \<Rightarrow> NewHistory \<Rightarrow> 'e joiner_world \<Rightarrow> (returned \<times> 'e joiner_world) res" where
  "after_join fuel q h w = bind_res (do_join fuel inst (sj w) q) (\<lambda>(succeeded, j).
     let w = w\<lparr>sj := j\<lparr>next_neighbor := 0, asking_next := False\<rparr>\<rparr>
     in if succeeded then pop_result w else next_loop fuel net inst w q h)"

definition B :: nat where
  "B = Suc maxlen ^ N + N * Suc (Suc maxlen) + 1"

lemma B_bounds:
  assumes "B \<le> fuel"
  shows "maxlen < fuel" and "N * Suc maxlen < fuel" and "Suc maxlen ^ N \<le> fuel"
proof -
  have "Suc (Suc maxlen) \<le> N * Suc (Suc maxlen)"
    using nbs by (cases nbs) (simp_all add: nbs_ok_def)
  moreover have "N * Suc maxlen \<le> N * Suc (Suc maxlen)" by simp
  ultimately show "maxlen < fuel" "N * Suc maxlen < fuel" "Suc maxlen ^ N \<le> fuel"
    using assms unfolding B_def by linarith+
qed

lemma nps_less: "list_all2 (<) c nps \<longleftrightarrow> length c = N \<and> (\<forall>i<N. c ! i < np i)"
  by (auto simp: list_all2_conv_all_nth)

lemma counts_small:
  assumes "i < N" and "c < np i" and "0 < ps"
  shows "sz_add c 1 = Suc c \<and> sz_add (sz_mul (Suc c) ps) 1 = Suc c * ps + 1 \<and>
    sz_mul (sz_add (Suc c) 1) ps = (Suc c + 1) * ps"
proof -
  have small': "length (M i) + 2 * ps < SIZE_T" using small [of "nbs ! i"] assms(1) by simp
  from assms(2,3) have "c * ps < length (M i)" by (simp add: less_np)
  with small' have "c * ps + 2 * ps < SIZE_T" by simp
  then have b: "Suc (Suc c) * ps < SIZE_T" by (simp add: add.assoc)
  moreover have "Suc c * ps + 1 \<le> Suc (Suc c) * ps" using assms(3) by simp
  moreover have "Suc (Suc c) \<le> Suc (Suc c) * ps" using assms(3) by (metis One_nat_def Suc_leI mult_le_mono2 mult_1_right)
  ultimately have "Suc c * ps + 1 < SIZE_T" "Suc (Suc c) < SIZE_T" by linarith+
  with b show ?thesis by (simp add: sz_add_small sz_mul_small)
qed

lemma joiner_ok_upd:
  "joiner_ok nbs joff j \<Longrightarrow> length inp = N \<Longrightarrow> length pc = N \<Longrightarrow>
     joiner_ok nbs joff (j\<lparr>input_belief_states := inp, pack_count := pc\<rparr>)"
  by (simp add: joiner_ok_def)

text \<open>One round of the loop: asking neighbor \<open>k\<close> for its next package.\<close>

lemma ask_next:
  assumes "scan w c k" and "k < N" and "0 < ps" and "maxlen < fuel" and bare: "bare_qid q"
  shows "\<exists>e. quiet e \<and> ask_neighbor_and_receive fuel net
      (w\<lparr>sj := (sj w)\<lparr>pack_count := (pack_count (sj w))[k := Suc (c ! k)]\<rparr>\<rparr>) k q h
      (Suc (c ! k) * ps + 1) ((Suc (c ! k) + 1) * ps) =
    Inr (Suc (c ! k) < np k,
      w\<lparr>sj := (sj w)\<lparr>pack_count := (pack_count (sj w))[k := Suc (c ! k)],
                     input_belief_states := (input_belief_states (sj w))[k := pack k (Suc (c ! k))]\<rparr>,
        env := e\<rparr>)"
proof -
  let ?w = "w\<lparr>sj := (sj w)\<lparr>pack_count := (pack_count (sj w))[k := Suc (c ! k)]\<rparr>\<rparr>"
  let ?p = "packs (noff nbs k) (Suc (c ! k) * ps + 1) ((Suc (c ! k) + 1) * ps)"
  have p: "?p = pack k (Suc (c ! k))" using assms(3) by (simp add: pack_def)
  have "joiner_ok nbs joff (sj ?w)" "fresh nbs joff q (jd ?w)" "quiet (env ?w)"
    using assms(1) bare by (simp_all add: scan_def at_rest_def joiner_ok_def)
  moreover have "length ?p < fuel" unfolding p using pack_len [OF assms(2)] assms(4) le_less_trans by blast
  ultimately obtain e where "quiet e" "ask_neighbor_and_receive fuel net ?w k q h
      (Suc (c ! k) * ps + 1) ((Suc (c ! k) + 1) * ps) = Inr (?p \<noteq> [],
      ?w\<lparr>sj := (sj ?w)\<lparr>input_belief_states := (input_belief_states (sj ?w))[k := ?p]\<rparr>, env := e\<rparr>)"
    using ask_neighbor_and_receive_ok [OF _ nbs bare assms(2)] by blast
  moreover have "?p \<noteq> [] \<longleftrightarrow> Suc (c ! k) < np k" unfolding p using assms(2,3) by (rule pack_nonempty)
  ultimately show ?thesis unfolding p by (cases w) auto
qed

lemma scan_empty:
  assumes sc: "scan w c k" and k: "k < N" "\<not> Suc (c ! k) < np k" and ps: "0 < ps" and fuel: "maxlen < fuel"
    and bare: "bare_qid q"
  shows "\<exists>w'. next_loop (Suc fuel) net inst w q h = next_loop fuel net inst w' q h \<and> scan w' c (Suc k)"
proof -
  from sc have ck: "c ! k < np k" using k(1) by (simp add: scan_def nps_less)
  note cs = counts_small [OF k(1) ck ps]
  obtain e where e: "quiet e" "ask_neighbor_and_receive fuel net
      (w\<lparr>sj := (sj w)\<lparr>pack_count := (pack_count (sj w))[k := Suc (c ! k)]\<rparr>\<rparr>) k q h
      (Suc (c ! k) * ps + 1) ((Suc (c ! k) + 1) * ps) =
    Inr (False,
      w\<lparr>sj := (sj w)\<lparr>pack_count := (pack_count (sj w))[k := Suc (c ! k)],
                     input_belief_states := (input_belief_states (sj w))[k := pack k (Suc (c ! k))]\<rparr>,
        env := e\<rparr>)"
    using ask_next [OF sc k(1) ps fuel bare, of h] k(2) by auto
  let ?w = "w\<lparr>env := e, sj := (sj w)\<lparr>pack_count := (pack_count (sj w))[k := Suc (c ! k)],
                     input_belief_states := (input_belief_states (sj w))[k := pack k (Suc (c ! k))],
                     next_neighbor := Suc k, asking_next := True\<rparr>\<rparr>"
  have pc: "vec_at (pack_count (sj w)) k = Inr (c ! k)" "neighbors (sj w) = nbs" "pack_size (sj w) = ps"
    "next_neighbor (sj w) = k"
    using sc k(1) by (simp_all add: scan_def at_rest_def joiner_ok_def)
  have "next_loop (Suc fuel) net inst w q h = next_loop fuel net inst ?w q h"
    using pc e(2) cs k(1) by (simp add: next_loop.simps Let_def)
  moreover have "scan ?w c (Suc k)"
    using sc k e(1) by (auto simp: scan_def at_rest_def joiner_ok_def less_Suc_eq)
  ultimately show ?thesis by blast
qed

definition next_c :: "nat list \<Rightarrow> nat \<Rightarrow> nat list" where
  "next_c c k = replicate k 0 @ Suc (c ! k) # drop (Suc k) c"

lemma nth_next_c:
  "k < length c \<Longrightarrow> i < length c \<Longrightarrow>
     next_c c k ! i = (if i < k then 0 else if i = k then Suc (c ! k) else c ! i)"
  by (auto simp: next_c_def nth_append nth_Cons')

lemma length_next_c: "k < length c \<Longrightarrow> length (next_c c k) = length c"
  by (simp add: next_c_def)

lemma first_packs_bound: "k \<le> N \<Longrightarrow> to_come {0..<k} (\<lambda>i. pack i 0) \<le> N * Suc maxlen"
proof -
  assume k: "k \<le> N"
  have "to_come {0..<k} (\<lambda>i. pack i 0) \<le> (\<Sum>i\<in>{0..<k}. Suc maxlen)"
    unfolding to_come_def using k by (intro sum_mono) (simp add: pack_len)
  also have "\<dots> \<le> N * Suc maxlen" using mult_le_mono1 [OF k, of "Suc maxlen"] by simp
  finally show ?thesis .
qed

lemma reload_first:
  assumes r: "at_rest w" and k: "0 < k" "k < N" and pos: "\<forall>i<N. 0 < np i" and fuel: "N * Suc maxlen < fuel"
    and bare: "bare_qid q"
  shows "\<exists>w'. ask_first_packs fuel net w q h 0 (k - 1) = Inr (True, w') \<and> quiet (env w') \<and> jd w' = jd w \<and>
    sj w' = (sj w)\<lparr>input_belief_states := map (\<lambda>i. if i < k then pack i 0 else input_belief_states (sj w) ! i) [0..<N]\<rparr>"
proof -
  have set: "{0..k - 1} = {0..<k}" using k by auto
  have fp: "(\<lambda>i. first_pack (pack_size (sj w)) (noff nbs i)) = (\<lambda>i. pack i 0)"
    using r by (simp add: at_rest_def first_pack_pack)
  have "\<exists>w'. ask_first_packs fuel net w q h 0 (k - 1) = Inr (\<forall>i\<in>{0..k - 1}. pack i 0 \<noteq> [], w') \<and>
      collected nbs q {0..k - 1} (\<lambda>i. pack i 0) w {} w'"
  proof (rule ask_first_packs_ok [OF nbs bare])
    show "to_come {0..k - 1} (\<lambda>i. pack i 0) < fuel"
      unfolding set using first_packs_bound [of k] k fuel by simp
  qed (use r k fp bare in \<open>simp_all add: at_rest_def\<close>)
  moreover have "\<forall>i\<in>{0..<k}. pack i 0 \<noteq> []" using pos k pack0_nonempty by auto
  ultimately show ?thesis unfolding set collected_def atLeastLessThan_iff by auto
qed

lemma scan_full:
  assumes sc: "scan w c k" and k: "k < N" "Suc (c ! k) < np k" and ps: "0 < ps" and fuel: "B \<le> fuel"
    and bare: "bare_qid q"
  shows "\<exists>w'. next_loop (Suc fuel) net inst w q h = after_join fuel q h w' \<and> loaded w' (next_c c k)"
proof -
  from sc have c: "length c = N" "\<forall>i<N. c ! i < np i" by (simp_all add: scan_def nps_less)
  note cs = counts_small [OF k(1) c(2) [rule_format, OF k(1)] ps]
  note f = B_bounds [OF fuel]
  obtain e where e: "quiet e" "ask_neighbor_and_receive fuel net
      (w\<lparr>sj := (sj w)\<lparr>pack_count := (pack_count (sj w))[k := Suc (c ! k)]\<rparr>\<rparr>) k q h
      (Suc (c ! k) * ps + 1) ((Suc (c ! k) + 1) * ps) =
    Inr (True,
      w\<lparr>sj := (sj w)\<lparr>pack_count := (pack_count (sj w))[k := Suc (c ! k)],
                     input_belief_states := (input_belief_states (sj w))[k := pack k (Suc (c ! k))]\<rparr>,
        env := e\<rparr>)"
    using ask_next [OF sc k(1) ps f(1) bare, of h] k(2) by auto
  define w1 where "w1 = w\<lparr>sj := (sj w)\<lparr>pack_count := (pack_count (sj w))[k := Suc (c ! k)],
                     input_belief_states := (input_belief_states (sj w))[k := pack k (Suc (c ! k))]\<rparr>,
        env := e\<rparr>"
  have pc: "vec_at (pack_count (sj w)) k = Inr (c ! k)" "neighbors (sj w) = nbs" "pack_size (sj w) = ps"
    "next_neighbor (sj w) = k" "asking_next (sj w) = (0 < k)"
    using sc k(1) by (simp_all add: scan_def at_rest_def joiner_ok_def)
  have r1: "at_rest w1" using sc e(1) by (simp add: w1_def scan_def at_rest_def joiner_ok_def)
  have a1: "asking_next (sj w1) = (0 < k)" using pc by (simp add: w1_def)
  have in1: "input_belief_states (sj w1) ! i = pack i (next_c c k ! i)" if "k \<le> i" "i < N" for i
    using that sc k c by (auto simp: w1_def scan_def at_rest_def joiner_ok_def nth_next_c)
  have pc1: "drop k (pack_count (sj w1)) = Suc (c ! k) # drop (Suc k) c"
  proof (rule nth_equalityI)
    show "length (drop k (pack_count (sj w1))) = length (Suc (c ! k) # drop (Suc k) c)"
      using r1 c k by (simp add: at_rest_def joiner_ok_def)
    show "drop k (pack_count (sj w1)) ! i = (Suc (c ! k) # drop (Suc k) c) ! i"
      if "i < length (drop k (pack_count (sj w1)))" for i
      using that sc k c r1 by (cases i) (auto simp: w1_def scan_def at_rest_def joiner_ok_def)
  qed
  have nc: "list_all2 (<) (next_c c k) nps"
    using c k by (auto simp: nps_less length_next_c nth_next_c) (metis gr_zeroI less_trans not_less_zero)
  have jr: "joined_results (sj w1) = []" using sc by (simp add: w1_def scan_def)
  have loop: "next_loop (Suc fuel) net inst w q h =
      bind_res (if 0 < k then
        bind_res (ask_first_packs fuel net w1 q h 0 (k - 1)) (\<lambda>(ret, w).
          assertion ret (Inr (w\<lparr>sj := (sj w)\<lparr>pack_count := replicate k 0 @ drop k (pack_count (sj w))\<rparr>\<rparr>)))
        else Inr w1) (after_join fuel q h)"
    using pc e(2) cs k(1) a1 by (simp add: next_loop.simps Let_def after_join_def [abs_def] flip: w1_def)
  show ?thesis
  proof (cases "0 < k")
    case False
    then have "k = 0" by simp
    then have "loaded w1 (next_c c k)"
      using r1 jr nc in1 pc1 r1 c
      by (auto simp: loaded_def packs_of_def next_c_def at_rest_def joiner_ok_def intro!: nth_equalityI)
    with loop False show ?thesis by auto
  next
    case True
    have pos: "\<forall>i<N. 0 < np i" using c by (metis gr_zeroI not_less_zero)
    from reload_first [OF r1 True k(1) pos f(2) bare, of h] obtain w2 where
      w2: "ask_first_packs fuel net w1 q h 0 (k - 1) = Inr (True, w2)" "quiet (env w2)" "jd w2 = jd w1"
      "sj w2 = (sj w1)\<lparr>input_belief_states := map (\<lambda>i. if i < k then pack i 0 else input_belief_states (sj w1) ! i) [0..<N]\<rparr>"
      by blast
    let ?w = "w2\<lparr>sj := (sj w2)\<lparr>pack_count := replicate k 0 @ drop k (pack_count (sj w2))\<rparr>\<rparr>"
    have "map (\<lambda>i. if i < k then pack i 0 else input_belief_states (sj w1) ! i) [0..<N] = packs_of (next_c c k)"
      using in1 k c by (auto simp: packs_of_def nth_next_c)
    moreover have "at_rest ?w" using r1 w2 k by (simp add: at_rest_def joiner_ok_def)
    ultimately have "loaded ?w (next_c c k)"
      using w2 jr nc pc1 by (simp add: loaded_def next_c_def)
    with loop True w2(1) show ?thesis by auto
  qed
qed

section \<open>Joining the loaded packages\<close>

lemma length_product_lists_le:
  "\<forall>xs\<in>set xss. length xs \<le> b \<Longrightarrow> length (product_lists xss) \<le> Suc b ^ length xss"
proof (induction xss)
  case (Cons xs xss)
  have "length (product_lists (xs # xss)) = length xs * length (product_lists xss)"
    by (simp add: length_concat comp_def sum_list_triv)
  also have "\<dots> \<le> Suc b * Suc b ^ length xss" using Cons by (intro mult_le_mono) auto
  finally show ?case by simp
qed simp

lemma packs_of_well: "list_all (list_all (wf_bs (block_start s n))) (packs_of c)"
  using pack_sub models_well [OF nth_mem] by (fastforce simp: packs_of_def list_all_iff)

lemma packs_of_nonempty:
  assumes "list_all2 (<) c nps" and "0 < ps \<or> c = replicate N 0"
  shows "\<forall>v\<in>set (packs_of c). v \<noteq> []"
proof
  fix v assume "v \<in> set (packs_of c)"
  then obtain i where i: "i < N" "v = pack i (c ! i)" by (auto simp: packs_of_def)
  with assms show "v \<noteq> []" using pack_nonempty [of i] pack0_nonempty [of i] by (auto simp: nps_less)
qed

lemma do_join_ok:
  assumes w: "loaded w c" and c: "0 < ps \<or> c = replicate N 0" and fuel: "B \<le> fuel"
  shows "do_join fuel inst (sj w) q =
    Inr (J c \<noteq> [], (sj w)\<lparr>joined_results := map (\<lambda>b. rbs_new (Some b) q) (J c)\<rparr>)"
proof -
  from w have inp: "input_belief_states (sj w) = packs_of c" and cn: "list_all2 (<) c nps"
    and jr: "joined_results (sj w) = []" by (simp_all add: loaded_def)
  note ne = packs_of_nonempty [OF cn c]
  have "packs_of c \<noteq> []" using nbs by (simp add: packs_of_def nbs_ok_def)
  moreover have "\<forall>t\<in>set (product_lists (packs_of c)). is_ok (join_one inst t)"
  proof
    fix t assume "t \<in> set (product_lists (packs_of c))"
    from product_lists_all [OF packs_of_well this] show "is_ok (join_one inst t)"
      using nbs by (intro join_one_ok [OF layout_pos(1)]) (auto simp: packs_of_def nbs_ok_def)
  qed
  moreover have "length (product_lists (packs_of c)) \<le> Suc maxlen ^ N"
    using length_product_lists_le [of "packs_of c" maxlen] pack_len by (auto simp: packs_of_def)
  ultimately have "join_all fuel inst q (packs_of c) [] =
      Inr (J c \<noteq> [], map (\<lambda>b. rbs_new (Some b) q) (J c))"
    using join_all_correct [of "packs_of c" inst fuel q "[]"] ne B_bounds(3) [OF fuel] by (simp add: J_def)
  then show ?thesis using ne by (simp add: do_join_def inp jr list_all_iff)
qed

lemma after_join_ok:
  assumes w: "loaded w c" and c: "0 < ps \<or> c = replicate N 0" and fuel: "B \<le> fuel"
  shows "case J c of
      [] \<Rightarrow> (\<exists>w'. after_join fuel q h w = next_loop fuel net inst w' q h \<and> state w' c [])
    | r # rs \<Rightarrow> (\<exists>w'. after_join fuel q h w = Inr (rbs_new (Some r) q, w') \<and> state w' c rs)"
proof -
  let ?w = "\<lambda>rs. w\<lparr>sj := (sj w)\<lparr>joined_results := map (\<lambda>b. rbs_new (Some b) q) rs, next_neighbor := 0, asking_next := False\<rparr>\<rparr>"
  have st: "state (?w rs) c rs" for rs
    using w by (auto simp: state_def loaded_def at_rest_def joiner_ok_def)
  show ?thesis
  proof (cases "J c")
    case Nil
    with do_join_ok [OF assms] have "after_join fuel q h w = next_loop fuel net inst (?w []) q h"
      by (simp add: after_join_def)
    with st [of "[]"] Nil show ?thesis by (simp only: list.case) blast
  next
    case (Cons r rs)
    with do_join_ok [OF assms] have "after_join fuel q h w = Inr (rbs_new (Some r) q, ?w rs)"
      by (simp add: after_join_def pop_result_def)
    with st Cons show ?thesis by auto
  qed
qed

lemma cleanup_upto_ok:
  "k \<le> length (input_belief_states j) \<Longrightarrow> \<exists>inp. cleanup_upto j k = Inr (j\<lparr>input_belief_states := inp\<rparr>) \<and>
     length inp = length (input_belief_states j)"
proof (induction k)
  case 0
  then show ?case by (auto intro!: exI [of _ "input_belief_states j"])
next
  case (Suc k)
  then show ?case by (auto simp: cleanup_input_def)
qed

lemma joiner_reset_ok:
  assumes "joiner_ok nbs joff j"
  shows "\<exists>inp. length inp = N \<and> joiner_reset j = Inr (j\<lparr>joined_results := [], input_belief_states := inp,
     asking_next := False, next_neighbor := 0, pack_count := replicate N 0\<rparr>)"
proof -
  from assms have "length (neighbors j) \<le> length (input_belief_states (j\<lparr>joined_results := []\<rparr>))"
    by (simp add: joiner_ok_def)
  from cleanup_upto_ok [OF this] show ?thesis
    using assms by (auto simp: joiner_reset_def base_reset_def joiner_ok_def map_replicate_const)
qed

lemma reset_at_rest:
  assumes "at_rest w"
  shows "\<exists>j. joiner_reset (sj w) = Inr j \<and> at_rest (w\<lparr>sj := j\<rparr>)"
proof -
  from assms have "joiner_ok nbs joff (sj w)" by (simp add: at_rest_def)
  from joiner_reset_ok [OF this] assms show ?thesis by (auto simp: at_rest_def joiner_ok_def)
qed

section \<open>The whole enumeration\<close>

abbreviation nxt :: "nat list \<Rightarrow> nat list option" where
  "nxt \<equiv> succ_first nps"

lemma nxt_find:
  "length c = N \<Longrightarrow> nxt c = (case find (\<lambda>i. Suc (c ! i) < np i) [0..<N] of None \<Rightarrow> None | Some m \<Rightarrow> Some (next_c c m))"
proof -
  assume c: "length c = N"
  have "find (\<lambda>i. Suc (c ! i) < nps ! i) [0..<N] = find (\<lambda>i. Suc (c ! i) < np i) [0..<N]"
    by (rule find_cong) auto
  with c show ?thesis using succ_first_find [of nps c] by (simp add: next_c_def split: option.splits)
qed

lemma scan_result:
  assumes "scan w c k" and "0 < ps" and "B + Suc (N - k) \<le> fuel" and bare: "bare_qid q"
  shows "case find (\<lambda>i. Suc (c ! i) < np i) [k..<N] of
      None \<Rightarrow> (\<exists>w'. next_loop fuel net inst w q h = Inr (rbs_new None q, w') \<and> at_rest w')
    | Some m \<Rightarrow> (\<exists>w' f. next_loop fuel net inst w q h = after_join f q h w' \<and> loaded w' (next_c c m) \<and>
        fuel - Suc (N - k) \<le> f)"
  using assms(1,3)
proof (induction "N - k" arbitrary: k w fuel)
  case 0
  then have k: "k = N" by (simp add: scan_def)
  from 0 obtain f where f: "fuel = Suc f" by (cases fuel) auto
  have "joiner_ok nbs joff (sj w)" "next_neighbor (sj w) = length (neighbors (sj w))"
    using 0 k by (simp_all add: scan_def at_rest_def joiner_ok_def)
  with reset_at_rest [of w] 0 show ?case using k f by (auto simp: next_loop.simps scan_def)
next
  case (Suc d)
  then have k: "k < N" by simp
  from Suc obtain f where f: "fuel = Suc f" and fB: "B \<le> f" by (cases fuel) auto
  show ?case
  proof (cases "Suc (c ! k) < np k")
    case True
    moreover have "fuel - Suc (N - k) \<le> f" using f by simp
    ultimately show ?thesis using scan_full [OF Suc.prems(1) k True assms(2) fB bare, of h] k f
      by (auto simp: upt_conv_Cons)
  next
    case False
    from scan_empty [OF Suc.prems(1) k False assms(2) B_bounds(1) [OF fB] bare, of h]
    obtain w' where w': "next_loop fuel net inst w q h = next_loop f net inst w' q h" "scan w' c (Suc k)"
      unfolding f by blast
    have "d = N - Suc k" using Suc.hyps(2) by simp
    moreover have "B + Suc (N - Suc k) \<le> f" using Suc.prems(2) k f by simp
    ultimately have IH: "case find (\<lambda>i. Suc (c ! i) < np i) [Suc k..<N] of
        None \<Rightarrow> (\<exists>w''. next_loop f net inst w' q h = Inr (rbs_new None q, w'') \<and> at_rest w'')
      | Some m \<Rightarrow> (\<exists>w'' f'. next_loop f net inst w' q h = after_join f' q h w'' \<and> loaded w'' (next_c c m) \<and>
          f - Suc (N - Suc k) \<le> f')"
      using Suc.hyps(1) [of "Suc k" w' f] w'(2) by simp
    have eq: "fuel - Suc (N - k) = f - Suc (N - Suc k)" using f k by simp
    have fnd: "find (\<lambda>i. Suc (c ! i) < np i) [k..<N] = find (\<lambda>i. Suc (c ! i) < np i) [Suc k..<N]"
      using False k by (simp add: upt_conv_Cons)
    show ?thesis unfolding fnd w'(1) eq by (rule IH)
  qed
qed

text \<open>The results that the joiner still has to deliver.\<close>

definition remaining :: "nat \<Rightarrow> 'e joiner_world \<Rightarrow> NewBeliefState list \<Rightarrow> bool" where
  "remaining t w out \<longleftrightarrow> (\<exists>c L rs. chain nxt (c # L) \<and> state w c rs \<and> length L \<le> t \<and>
     out = rs @ concat (map J L) \<and> (0 < ps \<or> c = replicate N 0))"

lemma next_loop_ok:
  assumes "state w c []" and "chain nxt (c # L)" and "0 < ps" and "B + Suc N * Suc (length L) \<le> fuel"
    and bare: "bare_qid q"
  shows "\<exists>w'. next_loop fuel net inst w q h = Inr (rbs_new (head_of (concat (map J L))) q, w') \<and>
    (concat (map J L) \<noteq> [] \<longrightarrow> remaining (length L) w' (tl (concat (map J L)))) \<and>
    (concat (map J L) = [] \<longrightarrow> at_rest w')"
  using assms(1,2,4)
proof (induction L arbitrary: w c fuel)
  case Nil
  then have len: "length c = N" by (simp add: state_def nps_less)
  have sc: "scan w c 0" using Nil by (auto simp: scan_def state_def at_rest_def packs_of_def)
  have "find (\<lambda>i. Suc (c ! i) < np i) [0..<N] = None"
    using Nil.prems(2) nxt_find [OF len] by (auto split: option.splits)
  with scan_result [OF sc assms(3) _ bare, of fuel h] Nil.prems(3) show ?case by (auto simp: head_of_def)
next
  case (Cons c' L)
  then have len: "length c = N" by (simp add: state_def nps_less)
  have sc: "scan w c 0" using Cons.prems by (auto simp: scan_def state_def at_rest_def packs_of_def)
  from Cons.prems(2) have "nxt c = Some c'" and ch: "chain nxt (c' # L)" by auto
  then obtain m where m: "find (\<lambda>i. Suc (c ! i) < np i) [0..<N] = Some m" "c' = next_c c m"
    using nxt_find [OF len] by (auto split: option.splits)
  have "B + Suc (N - 0) \<le> fuel" using Cons.prems(3) by simp
  from scan_result [OF sc assms(3) this bare, of h] m obtain w1 f where
    w1: "next_loop fuel net inst w q h = after_join f q h w1" "loaded w1 c'" "fuel - Suc N \<le> f" by auto
  have f: "B + Suc N * Suc (length L) \<le> f" using w1(3) Cons.prems(3) by simp
  then have fB: "B \<le> f" by linarith
  note aj = after_join_ok [OF w1(2) disjI1 [OF assms(3)] fB, of q h]
  show ?case
  proof (cases "J c'")
    case Nil
    with aj obtain w2 where "after_join f q h w1 = next_loop f net inst w2 q h" "state w2 c' []" by auto
    with Cons.IH [OF _ ch f] w1(1) Nil show ?thesis
      by (auto simp: remaining_def intro: le_SucI) (metis le_SucI)
  next
    case (Cons r rs)
    with aj obtain w2 where w2: "after_join f q h w1 = Inr (rbs_new (Some r) q, w2)" "state w2 c' rs" by auto
    have "remaining (length (c' # L)) w2 (rs @ concat (map J L))"
      unfolding remaining_def using ch w2(2) assms(3) by (auto intro!: exI [of _ c'] exI [of _ L])
    with w2 w1(1) Cons show ?thesis by (auto simp: head_of_def)
  qed
qed

lemma next_join_ok:
  assumes "remaining t w out" and "B + Suc N * Suc t \<le> fuel" and bare: "bare_qid q"
  shows "\<exists>r w'. next_join fuel net inst w q h = Inr (r, w') \<and> belief_state r = head_of out \<and>
    (out \<noteq> [] \<longrightarrow> remaining t w' (tl out)) \<and> (out = [] \<longrightarrow> at_rest w')"
proof -
  from assms(1) obtain c L rs where L: "chain nxt (c # L)" "state w c rs" "length L \<le> t"
    "out = rs @ concat (map J L)" "0 < ps \<or> c = replicate N 0" by (auto simp: remaining_def)
  show ?thesis
  proof (cases rs)
    case (Cons r rs')
    with L(2) obtain x xs where x: "joined_results (sj w) = x # xs" "belief_state x = Some r"
      "map belief_state xs = map Some rs'" by (auto simp: state_def Cons_eq_map_conv map_eq_Cons_conv)
    let ?w = "w\<lparr>sj := (sj w)\<lparr>joined_results := xs\<rparr>\<rparr>"
    have "next_join fuel net inst w q h = Inr (x, ?w)"
      using x by (simp add: next_join_def pop_result_def)
    moreover have "state ?w c rs'"
      using L(2) x(3) by (auto simp: state_def at_rest_def joiner_ok_def)
    ultimately show ?thesis using L Cons x(2) by (auto simp: remaining_def head_of_def)
  next
    case Nil
    show ?thesis
    proof (cases "0 < ps")
      case True
      have "B + Suc N * Suc (length L) \<le> fuel"
        using assms(2) L(3) by (meson add_left_mono le_trans mult_le_mono2 Suc_le_mono)
      with next_loop_ok [OF _ L(1) True this bare] L Nil True show ?thesis
        by (fastforce simp: next_join_def state_def at_rest_def remaining_def intro: le_trans)
    next
      case False
      then have "np i \<le> 1" for i using np_all [of i] by auto
      then have "\<not> Suc x < np i" for i x by (metis One_nat_def Suc_less_eq less_le_trans not_less_zero)
      then have "find (\<lambda>i. Suc (c ! i) < np i) [0..<N] = None" by (simp add: find_None_iff)
      then have "nxt c = None" using L(2) nxt_find [of c] by (simp add: state_def nps_less)
      with L(1) have "L = []" by (cases L) auto
      moreover have "next_join fuel net inst w q h = Inr (rbs_new None q, w)"
        using L(2) Nil False by (simp add: next_join_def state_def at_rest_def)
      moreover have "at_rest w" using L(2) by (simp add: state_def)
      ultimately show ?thesis using L Nil by (auto simp: head_of_def)
    qed
  qed
qed

lemma results_commute:
  "(j :: StreamingJoiner)\<lparr>next_neighbor := a, asking_next := b, joined_results := r\<rparr> =
     j\<lparr>joined_results := r, next_neighbor := a, asking_next := b\<rparr>"
  by (cases j) simp

text \<open>Everything that the joiner delivers, in its order.\<close>

definition all_joins :: "NewBeliefState list" where
  "all_joins = (if \<exists>i<N. M i = [] then [] else concat (map J (all_counts nps)))"

definition total :: nat where
  "total = length (all_counts nps)"

lemma first_join_ok:
  assumes r: "at_rest w" and fuel: "B + Suc N * Suc total \<le> fuel" and bare: "bare_qid q"
  shows "\<exists>r w'. first_join fuel net inst w q h = Inr (r, w') \<and> belief_state r = head_of all_joins \<and>
    (all_joins \<noteq> [] \<longrightarrow> remaining total w' (tl all_joins)) \<and>
    (all_joins = [] \<longrightarrow> (\<forall>i<N. M i \<noteq> []) \<longrightarrow> at_rest w')"
proof -
  from r have j: "joiner_ok nbs joff (sj w)" by (simp add: at_rest_def)
  from joiner_reset_ok [OF j] obtain inp where inp: "length inp = N"
    and reset: "joiner_reset (sj w) = Inr ((sj w)\<lparr>joined_results := [], input_belief_states := inp,
     asking_next := False, next_neighbor := 0, pack_count := replicate N 0\<rparr>)" by blast
  define w1 where "w1 = w\<lparr>sj := (sj w)\<lparr>joined_results := [], input_belief_states := inp,
     asking_next := False, next_neighbor := 0, pack_count := replicate N 0\<rparr>\<rparr>"
  have r1: "at_rest w1" using r inp by (simp add: w1_def at_rest_def joiner_ok_def)
  have N: "0 < N" "N < SIZE_T" using nbs by (auto simp: nbs_ok_def SIZE_T_def)
  have N1: "sz_sub (length (neighbors (sj w))) 1 = N - 1"
    using sz_sub_small [of 1 N] N r by (simp add: at_rest_def joiner_ok_def)
  have fB: "B \<le> fuel" using fuel by simp
  have set: "{0..N - 1} = {0..<N}" using atLeastLessThanSuc_atLeastAtMost [of 0 "N - 1"] N(1) by simp
  have "\<exists>w'. ask_first_packs fuel net w1 q h 0 (N - 1) = Inr (\<forall>i\<in>{0..N - 1}. pack i 0 \<noteq> [], w') \<and>
      collected nbs q {0..N - 1} (\<lambda>i. pack i 0) w1 {} w'"
  proof (rule ask_first_packs_ok [OF nbs bare])
    show "to_come {0..N - 1} (\<lambda>i. pack i 0) < fuel"
      unfolding set using first_packs_bound [of N] B_bounds(2) [OF fB] by simp
  qed (use r1 N bare in \<open>simp_all add: at_rest_def first_pack_pack\<close>)
  then obtain w2 where w2: "ask_first_packs fuel net w1 q h 0 (N - 1) = Inr (\<forall>i\<in>{0..<N}. pack i 0 \<noteq> [], w2)"
    and col: "collected nbs q {0..<N} (\<lambda>i. pack i 0) w1 {} w2" unfolding set by blast
  have pos: "pack i 0 \<noteq> [] \<longleftrightarrow> M i \<noteq> []" if "i < N" for i
    using pack0_nonempty [OF that] np_pos [of i] by simp
  have fj: "first_join fuel net inst w q h = bind_res (Inr (\<forall>i\<in>{0..<N}. pack i 0 \<noteq> [], w2)) (\<lambda>(ok, w).
       if \<not> ok then bind_res (joiner_reset (sj w)) (\<lambda>j. Inr (rbs_new None q, w\<lparr>sj := j\<rparr>))
       else
       bind_res (do_join fuel inst (sj w) q) (\<lambda>(succeeded, j).
         let w = w\<lparr>sj := j\<lparr>next_neighbor := 0, asking_next := False\<rparr>\<rparr>
         in if succeeded then pop_result w
            else if 0 < pack_size (sj w) then next_join fuel net inst w q h
            else Inr (rbs_new None q, w)))"
    using w2 N1 by (simp add: first_join_def reset flip: w1_def)
  show ?thesis
  proof (cases "\<exists>i<N. M i = []")
    case True
    then have no: "\<not> (\<forall>i\<in>{0..<N}. pack i 0 \<noteq> [])" using pos by auto
    from col have "joiner_ok nbs joff (sj w2)"
      using r1 by (auto simp: collected_def at_rest_def joiner_ok_def)
    with joiner_reset_ok [of "sj w2"] no True show ?thesis
      unfolding fj by (auto simp: all_joins_def head_of_def)
  next
    case False
    then have yes: "\<forall>i\<in>{0..<N}. pack i 0 \<noteq> []" using pos by auto
    let ?c = "replicate N 0"
    have c: "list_all2 (<) ?c nps" using False np_pos by (simp add: nps_less)
    have sj2: "sj w2 = (sj w1)\<lparr>input_belief_states := packs_of ?c\<rparr>" "jd w2 = jd w1" "quiet (env w2)"
      using col yes by (auto simp: collected_def packs_of_def cong: map_cong)
    have w2l: "loaded w2 ?c"
      using r1 sj2 c by (simp add: loaded_def at_rest_def joiner_ok_def) (simp add: w1_def packs_of_def)
    have ch: "chain nxt (all_counts nps)" and hd: "hd (all_counts nps) = ?c"
      using chain_all_counts [of nps] False np_pos by (auto simp: list_all_iff)
    obtain L where L: "all_counts nps = ?c # L" using ch hd by (cases "all_counts nps") auto
    have aj: "all_joins = J ?c @ concat (map J L)" using False by (auto simp: all_joins_def L)
    have LT: "length L \<le> total" by (simp add: total_def L)
    let ?w = "\<lambda>rs. w2\<lparr>sj := (sj w2)\<lparr>joined_results := map (\<lambda>b. rbs_new (Some b) q) rs, next_neighbor := 0, asking_next := False\<rparr>\<rparr>"
    have st: "state (?w rs) ?c rs" for rs
      using w2l by (auto simp: state_def loaded_def at_rest_def joiner_ok_def)
    have rem: "remaining total (?w rs) (rs @ concat (map J L))" for rs
      unfolding remaining_def using ch L st LT by auto
    note dj = do_join_ok [OF w2l disjI2 [OF refl] fB, of q]
    show ?thesis
    proof (cases "J ?c")
      case (Cons r rs)
      with rem [of rs] dj yes show ?thesis
        unfolding fj aj by (auto simp: pop_result_def head_of_def results_commute)
    next
      case Nil
      note nj = next_join_ok [OF rem [of "[]"] fuel bare, of h]
      show ?thesis
      proof (cases "0 < ps")
        case True
        have "pack_size (sj w2) = ps" using w2l by (simp add: loaded_def at_rest_def)
        with nj dj yes Nil True show ?thesis unfolding fj aj by auto
      next
        case False
        have "pack_size (sj w2) = ps" using w2l by (simp add: loaded_def at_rest_def)
        with nj dj yes Nil False show ?thesis unfolding fj aj
          by (simp add: next_join_def)
      qed
    qed
  qed
qed

text \<open>Which states these are: the successful joins of one model of each neighbor.\<close>

lemma in_some_pack:
  assumes "i < N" and "b \<in> set (M i)"
  shows "\<exists>k<np i. b \<in> set (pack i k)"
proof (cases "0 < ps")
  case True
  from assms(2) obtain j where j: "j < length (M i)" "M i ! j = b" by (auto simp: in_set_conv_nth)
  define k where "k = j div ps"
  have le: "k * ps \<le> j" by (simp add: k_def)
  moreover have "j < k * ps + ps" unfolding k_def using True dividend_less_div_times [of ps j] by (simp add: add.commute)
  ultimately have "take ps (drop (k * ps) (M i)) ! (j - k * ps) = b"
    "j - k * ps < length (take ps (drop (k * ps) (M i)))" using j by auto
  then have "b \<in> set (take ps (drop (k * ps) (M i)))" by (metis nth_mem)
  moreover have "k < np i" using True j le by (simp add: less_np)
  ultimately show ?thesis using set_pack [OF assms(1) True] by auto
next
  case False
  with set_pack_all [OF assms(1)] np_all [of i] assms(2) show ?thesis
    by (intro exI [of _ 0]) auto
qed

lemma in_J: "r \<in> set (J c) \<longleftrightarrow> (\<exists>t\<in>set (product_lists (packs_of c)). join_tuple inst t = Some r)"
proof -
  have "r \<in> set (List.map_filter f xs) \<longleftrightarrow> (\<exists>t\<in>set xs. f t = Some r)" for f :: "NewBeliefState list \<Rightarrow> _" and xs
    by (induction xs) (auto simp: List.map_filter_def)
  then show ?thesis by (simp add: J_def joins_def)
qed

lemma in_product_map:
  "t \<in> set (product_lists (map f [0..<N])) \<longleftrightarrow> length t = N \<and> (\<forall>i<N. t ! i \<in> set (f i))"
  by (auto simp: in_product_lists list_all2_conv_all_nth)

lemma set_all_joins:
  "set all_joins = {r. \<exists>t\<in>set (product_lists (map M [0..<N])). join_tuple inst t = Some r}"
proof (intro equalityI subsetI)
  fix r assume "r \<in> set all_joins"
  then obtain c where "r \<in> set (J c)" by (auto simp: all_joins_def split: if_splits)
  then obtain t where t: "t \<in> set (product_lists (packs_of c))" "join_tuple inst t = Some r"
    by (auto simp: in_J)
  then have "t \<in> set (product_lists (map M [0..<N]))"
    using pack_sub by (fastforce simp: packs_of_def in_product_map)
  with t(2) show "r \<in> {r. \<exists>t\<in>set (product_lists (map M [0..<N])). join_tuple inst t = Some r}" by blast
next
  fix r assume "r \<in> {r. \<exists>t\<in>set (product_lists (map M [0..<N])). join_tuple inst t = Some r}"
  then obtain t where t: "length t = N" "\<forall>i<N. t ! i \<in> set (M i)" "join_tuple inst t = Some r"
    by (auto simp: in_product_map)
  then have "\<forall>i. \<exists>k. i < N \<longrightarrow> k < np i \<and> t ! i \<in> set (pack i k)" using in_some_pack by blast
  then obtain f where f: "i < N \<Longrightarrow> f i < np i \<and> t ! i \<in> set (pack i (f i))" for i by metis
  let ?c = "map f [0..<N]"
  have "?c \<in> set (all_counts nps)" using f by (simp add: in_all_counts nps_less)
  moreover have "r \<in> set (J ?c)" using t f by (auto simp: in_J packs_of_def in_product_map)
  moreover have "\<not> (\<exists>i<N. M i = [])" using t(2) by (metis empty_iff list.set(1))
  ultimately show "r \<in> set all_joins" by (auto simp: all_joins_def)
qed

end

end
