(* ===== verification/Neighbor_Wire.thy ===== *)
theory Neighbor_Wire
  imports Joiner_Paging Output_Order
begin

text \<open>
  Neighbors at the other end of the wire: a neighbor answers a request for a range of its models with the
  package that its output thread makes of them, and the answers of different neighbors arrive in
  any interleaving. With this the contract of the streaming joiner is fulfilled.
\<close>

section \<open>Packages\<close>

text \<open>The package of an output thread for the answers \<open>vs\<close> to one request: sorted, without duplicates.\<close>

definition reply_package :: "NewBeliefState list \<Rightarrow> qid \<Rightarrow> returned list" where
  "reply_package vs q = dedup rbs_eq (list_sort my_compare (map (\<lambda>v. rbs_new (Some v) q) vs @ [rbs_new None q]))"

definition sorted_states :: "NewBeliefState list \<Rightarrow> NewBeliefState list" where
  "sorted_states vs = dedup bs_eq (list_sort bs_less vs)"

lemma my_compare_same: "my_compare (rbs_new (Some a) q) (rbs_new (Some b) q) = bs_less a b"
  "my_compare (rbs_new (Some a) q) (rbs_new None q)" "\<not> my_compare (rbs_new None q) r"
  by (simp_all add: my_compare_def rbs_new_def)

lemma insert_by_answer:
  "insert_by my_compare (rbs_new (Some v) q) (map (\<lambda>v. rbs_new (Some v) q) vs @ [rbs_new None q]) =
     map (\<lambda>v. rbs_new (Some v) q) (insert_by bs_less v vs) @ [rbs_new None q]"
  by (induction vs) (simp_all add: my_compare_same)

lemma dedup_answer:
  "dedup rbs_eq (map (\<lambda>v. rbs_new (Some v) q) vs @ [rbs_new None q]) =
     map (\<lambda>v. rbs_new (Some v) q) (dedup bs_eq vs) @ [rbs_new None q]"
  by (induction vs rule: dedup_list_induct) (simp_all add: rbs_eq_def rbs_new_def)

lemma reply_package_answer: "reply_package vs q = answer (sorted_states vs) q"
proof -
  have "list_sort my_compare (map (\<lambda>v. rbs_new (Some v) q) vs @ [rbs_new None q]) =
      map (\<lambda>v. rbs_new (Some v) q) (list_sort bs_less vs) @ [rbs_new None q]"
    by (induction vs) (simp_all add: list_sort_def insert_by_answer)
  then show ?thesis by (simp add: reply_package_def dedup_answer sorted_states_def answer_def)
qed

lemma length_dedup: "length (dedup eq xs) \<le> length xs"
  by (induction eq xs rule: dedup.induct) auto

lemma length_sorted_states: "length (sorted_states vs) \<le> length vs"
proof -
  have "length (list_sort bs_less vs) = length vs" by (metis mset_list_sort size_mset)
  then show ?thesis using length_dedup [of bs_eq "list_sort bs_less vs"] by (simp add: sorted_states_def)
qed

lemma set_sorted_states:
  assumes "\<forall>v\<in>set vs. wf_bs n v"
  shows "set (sorted_states vs) = set vs"
proof -
  have "set (dedup bs_eq xs) = set xs" if "\<forall>v\<in>set xs. wf_bs n v" for xs
    using that by (induction xs rule: dedup_list_induct) (auto simp: bs_eq_wf)
  with assms show ?thesis by (simp add: sorted_states_def)
qed

section \<open>The wire\<close>

text \<open>
  What is on its way to the joiner, with the neighbor that sent it. The next message to arrive is the
  first one of some neighbor; \<open>choices\<close> decides of which.
\<close>

record wire_state =
  wire :: "(qid \<times> returned) list"
  choices :: "nat list"

fun take_first :: "qid \<Rightarrow> (qid \<times> returned) list \<Rightarrow> (returned \<times> (qid \<times> returned) list) option" where
  "take_first off [] = None"
| "take_first off ((o', r) # w) =
     (if o' = off then Some (r, w) else map_option (\<lambda>(r', w'). (r', (o', r) # w')) (take_first off w))"

definition wire_send :: "(qid \<Rightarrow> NewBeliefState list) \<Rightarrow> wire_state \<Rightarrow> qid \<Rightarrow> ForwardMessage \<Rightarrow> wire_state" where
  "wire_send models e off m = e\<lparr>wire := wire e @
     map (Pair off) (reply_package (requested (fm_k1 m) (fm_k2 m) (models off)) (fm_qid m))\<rparr>"

definition wire_recv :: "wire_state \<Rightarrow> qid \<Rightarrow> (returned \<times> wire_state) option" where
  "wire_recv e joff = (if wire e = [] then None
     else let i = (case choices e of [] \<Rightarrow> 0 | c # _ \<Rightarrow> c) mod length (wire e)
          in case take_first (fst (wire e ! i)) (wire e) of None \<Rightarrow> None
             | Some (r, w) \<Rightarrow> Some (r, \<lparr>wire = w, choices = tl (choices e)\<rparr>))"

definition wire_net :: "(qid \<Rightarrow> NewBeliefState list) \<Rightarrow> wire_state network" where
  "wire_net models = \<lparr>net_send = wire_send models, net_recv = wire_recv\<rparr>"

definition on_wire :: "wire_state \<Rightarrow> qid \<Rightarrow> returned list" where
  "on_wire e off = map snd (filter (\<lambda>x. fst x = off) (wire e))"

lemma take_first_some:
  "take_first off w = Some (r, w') \<Longrightarrow> map snd (filter (\<lambda>x. fst x = off) w) = r # map snd (filter (\<lambda>x. fst x = off) w') \<and>
     (\<forall>p. p \<noteq> off \<longrightarrow> filter (\<lambda>x. fst x = p) w' = filter (\<lambda>x. fst x = p) w)"
  by (induction off w arbitrary: w' rule: take_first.induct) (auto split: if_splits)

lemma take_first_in: "off \<in> fst ` set w \<Longrightarrow> take_first off w \<noteq> None"
  by (induction off w rule: take_first.induct) auto

interpretation wire_service: neighbor_service "wire_net models" joff on_wire
  "\<lambda>off k1 k2. sorted_states (requested k1 k2 (models off))"
  for models joff
proof
  show "on_wire (net_send (wire_net models) e off m) = (on_wire e)(off := on_wire e off @
      answer (sorted_states (requested (fm_k1 m) (fm_k2 m) (models off))) (fm_qid m))" for e off m
    by (auto simp: on_wire_def wire_net_def wire_send_def reply_package_answer fun_eq_iff comp_def)
next
  fix e r e'
  assume "net_recv (wire_net models) e joff = Some (r, e')"
  then obtain off w where "take_first off (wire e) = Some (r, w)" "wire e' = w"
    by (auto simp: wire_net_def wire_recv_def Let_def split: if_splits option.splits)
  with take_first_some [of off "wire e" r w]
  show "\<exists>off rest. on_wire e off = r # rest \<and> on_wire e' = (on_wire e)(off := rest)"
    by (intro exI [of _ off] exI [of _ "on_wire e' off"]) (auto simp: on_wire_def fun_eq_iff)
next
  fix e off
  assume n: "net_recv (wire_net models) e joff = None"
  have "wire e = []"
  proof (rule ccontr)
    assume w: "wire e \<noteq> []"
    let ?i = "(case choices e of [] \<Rightarrow> 0 | c # _ \<Rightarrow> c) mod length (wire e)"
    from w have "?i < length (wire e)" by simp
    then have "fst (wire e ! ?i) \<in> fst ` set (wire e)" by simp
    from take_first_in [OF this] n w show False
      by (auto simp: wire_net_def wire_recv_def Let_def split: option.splits)
  qed
  then show "on_wire e off = []" by (simp add: on_wire_def)
qed

section \<open>A joiner and its neighbors\<close>

record wiring =
  w_nbs :: "NewNeighbor list"
  w_joff :: qid
  w_ps :: nat
  w_models :: "qid \<Rightarrow> NewBeliefState list"
  w_n :: nat
  w_s :: nat

definition wiring_ok :: "wiring \<Rightarrow> bool" where
  "wiring_ok c \<longleftrightarrow> nbs_ok (w_nbs c) (w_joff c) \<and> 0 < w_n c \<and> 0 < w_s c \<and>
     (\<forall>nb\<in>set (w_nbs c). length (w_models c (neighbor_offset nb)) + 2 * w_ps c < SIZE_T \<and>
        (\<forall>bs\<in>set (w_models c (neighbor_offset nb)). wf_bs (block_start (w_s c) (w_n c)) bs))"

text \<open>Every wiring made sound: one that is not in order is replaced by a single silent neighbor.\<close>

definition sound :: "wiring \<Rightarrow> wiring" where
  "sound c = (if wiring_ok c then c
     else \<lparr>w_nbs = [\<lparr>neighbor_id = 0, neighbor_offset = 0, nb_hostname = [], nb_port = []\<rparr>], w_joff = 0, w_ps = 0,
       w_models = (\<lambda>off. []), w_n = 1, w_s = 1\<rparr>)"

lemma sound_ok: "wiring_ok (sound c)"
  by (simp add: sound_def wiring_ok_def nbs_ok_def fits_def)

definition w_max :: "wiring \<Rightarrow> nat" where
  "w_max c = sum_list (map (\<lambda>nb. length (w_models c (neighbor_offset nb))) (w_nbs c))"

abbreviation w_packs :: "wiring \<Rightarrow> qid \<Rightarrow> nat \<Rightarrow> nat \<Rightarrow> NewBeliefState list" where
  "w_packs c \<equiv> \<lambda>off k1 k2. sorted_states (requested k1 k2 (w_models c off))"

lemma set_requested: "set (requested k1 k2 xs) \<subseteq> set xs"
  by (auto simp: requested_def model_range_def dest: in_set_takeD in_set_dropD)

lemma w_packs_set:
  assumes "wiring_ok c" and "nb \<in> set (w_nbs c)"
  shows "set (w_packs c (neighbor_offset nb) a b) = set (requested a b (w_models c (neighbor_offset nb)))"
proof (rule set_sorted_states)
  show "\<forall>v\<in>set (requested a b (w_models c (neighbor_offset nb))). wf_bs (block_start (w_s c) (w_n c)) v"
    using assms set_requested [of a b "w_models c (neighbor_offset nb)"] by (auto simp: wiring_ok_def)
qed

lemma w_packs_length:
  assumes "nb \<in> set (w_nbs c)"
  shows "length (w_packs c (neighbor_offset nb) a b) \<le> w_max c"
proof -
  have "length (w_packs c (neighbor_offset nb) a b) \<le> length (requested a b (w_models c (neighbor_offset nb)))"
    by (rule length_sorted_states)
  also have "\<dots> \<le> length (w_models c (neighbor_offset nb))" by (auto simp: requested_def model_range_def)
  also have "\<dots> \<le> w_max c" unfolding w_max_def using assms by (intro member_le_sum_list) auto
  finally show ?thesis .
qed

interpretation wire_pages: paging "wire_net (w_models (sound c))" "w_joff (sound c)" on_wire "w_packs (sound c)"
  "w_nbs (sound c)" "w_ps (sound c)" "w_models (sound c)" "w_n (sound c)" "w_s (sound c)" "w_max (sound c)"
  for c
proof unfold_locales
  fix nb a b
  assume nb: "nb \<in> set (w_nbs (sound c))"
  note set = w_packs_set [OF sound_ok nb]
  show "0 < a \<Longrightarrow> set (w_packs (sound c) (neighbor_offset nb) a b) = set (model_range a b (w_models (sound c) (neighbor_offset nb)))"
    unfolding set by (simp add: requested_def)
  show "set (w_packs (sound c) (neighbor_offset nb) 0 0) = set (w_models (sound c) (neighbor_offset nb))"
    unfolding set by (simp add: requested_def)
  show "length (w_packs (sound c) (neighbor_offset nb) a b) \<le> w_max (sound c)" by (rule w_packs_length [OF nb])
qed (use sound_ok [of c] in \<open>auto simp: wiring_ok_def\<close>)

end
