(* ===== verification/Context_Network.thy ===== *)
theory Context_Network
  imports Context_Properties Neighbor_Wire
begin

text \<open>
  A context, its streaming joiner and its neighbors together: the joiner delivers the inputs that a
  context relies on, and the context answers with its models under every join of its neighbors'
  answers.
\<close>

sublocale paging \<subseteq> joins: input_source net "Some (layout n s)" all_joins "B + Suc N * Suc total"
  "\<lambda>j. \<exists>w. j = StreamingJoiner_in w \<and> at_rest w" "\<lambda>j xs. \<exists>w. j = StreamingJoiner_in w \<and> remaining total w xs"
  "\<forall>i<N. M i \<noteq> []"
proof
  fix j fuel q h
  assume "\<exists>w. j = StreamingJoiner_in w \<and> at_rest w" "B + Suc N * Suc total \<le> fuel" "bare_qid q"
  then obtain w where w: "j = StreamingJoiner_in w" "at_rest w" "B + Suc N * Suc total \<le> fuel" "bare_qid q" by blast
  from first_join_ok [OF w(2-4), of h] obtain r w' where
    "first_join fuel net (Some (layout n s)) w q h = Inr (r, w')" "belief_state r = head_of all_joins"
    "all_joins \<noteq> [] \<longrightarrow> remaining total w' (tl all_joins)" "all_joins = [] \<longrightarrow> (\<forall>i<N. M i \<noteq> []) \<longrightarrow> at_rest w'" by blast
  with w(1) show "\<exists>r j'. virtual_first_join fuel net (Some (layout n s)) j q h = Inr (r, j') \<and> belief_state r = head_of all_joins \<and>
      (all_joins \<noteq> [] \<longrightarrow> (\<exists>w. j' = StreamingJoiner_in w \<and> remaining total w (tl all_joins))) \<and>
      (all_joins = [] \<longrightarrow> (\<forall>i<N. M i \<noteq> []) \<longrightarrow> (\<exists>w. j' = StreamingJoiner_in w \<and> at_rest w))"
    by (intro exI [of _ r] exI [of _ "StreamingJoiner_in w'"]) (simp add: virtual_first_join_def)
next
  fix j xs fuel q h
  assume "\<exists>w. j = StreamingJoiner_in w \<and> remaining total w xs" "B + Suc N * Suc total \<le> fuel" "bare_qid q"
  then obtain w where w: "j = StreamingJoiner_in w" "remaining total w xs" "B + Suc N * Suc total \<le> fuel" "bare_qid q" by blast
  from next_join_ok [OF w(2-4), of h] obtain r w' where
    "next_join fuel net (Some (layout n s)) w q h = Inr (r, w')" "belief_state r = head_of xs"
    "xs \<noteq> [] \<longrightarrow> remaining total w' (tl xs)" "xs = [] \<longrightarrow> at_rest w'" by blast
  with w(1) show "\<exists>r j'. virtual_next_join fuel net (Some (layout n s)) j q h = Inr (r, j') \<and> belief_state r = head_of xs \<and>
      (xs \<noteq> [] \<longrightarrow> (\<exists>w. j' = StreamingJoiner_in w \<and> remaining total w (tl xs))) \<and>
      (xs = [] \<longrightarrow> (\<exists>w. j' = StreamingJoiner_in w \<and> at_rest w))"
    by (intro exI [of _ r] exI [of _ "StreamingJoiner_in w'"]) (simp add: virtual_next_join_def)
next
  fix j xs
  assume "\<exists>w. j = StreamingJoiner_in w \<and> remaining total w xs"
  then show "\<exists>w. j = StreamingJoiner_in w \<and> at_rest w" by (auto simp: remaining_def state_def)
qed

abbreviation wired_layout :: "wiring \<Rightarrow> BeliefStateOffset" where
  "wired_layout c \<equiv> layout (w_n (sound c)) (w_s (sound c))"

interpretation wired_ctx: context_service "dlv_reasoner dlv pp (wired_layout c) btab" ctx "wired_layout c" br e "wire_net (w_models (sound c))" "wire_pages.all_joins c"
  "wire_pages.B c + Suc (length (w_nbs (sound c))) * Suc (wire_pages.total c)"
  "\<lambda>j. \<exists>w. j = StreamingJoiner_in w \<and> wire_pages.at_rest c w"
  "\<lambda>j xs. \<exists>w. j = StreamingJoiner_in w \<and> wire_pages.remaining c (wire_pages.total c) w xs"
  "\<forall>i<length (w_nbs (sound c)). w_models (sound c) (noff (w_nbs (sound c)) i) \<noteq> []"
  for dlv pp c btab ctx br e
  by unfold_locales

section \<open>A context over its neighbors\<close>

text \<open>The joiner as the constructor of the context makes it, nothing on the wire, and what it will deliver.\<close>

definition wired_start :: "wiring \<Rightarrow> nat list \<Rightarrow> wire_state ctx_joiner" where
  "wired_start c ch = StreamingJoiner_in \<lparr>sj = registerJoinIn (StreamingJoiner_new (w_ps c) (w_nbs c)) (w_joff c),
     jd = Map.empty, env = \<lparr>wire = [], choices = ch\<rparr>\<rparr>"

definition wired_joins :: "wiring \<Rightarrow> NewBeliefState list" where
  "wired_joins c = wire_pages.all_joins c"

definition wired_fuel :: "wiring \<Rightarrow> nat" where
  "wired_fuel c = wire_pages.B c + Suc (length (w_nbs c)) * Suc (wire_pages.total c) + length (wired_joins c)"

lemma sound_id: "wiring_ok c \<Longrightarrow> sound c = c"
  by (simp add: sound_def)

lemma wired_start_rest:
  assumes "wiring_ok c"
  shows "\<exists>w. wired_start c ch = StreamingJoiner_in w \<and> wire_pages.at_rest c w"
proof -
  have "nbs_ok (w_nbs c) (w_joff c)" using assms by (simp add: wiring_ok_def)
  from StreamingJoiner_new_ok [OF this, of "w_ps c"] show ?thesis
    unfolding wired_start_def wire_pages.at_rest_def
    by (auto simp: sound_id [OF assms] wire_service.quiet_def on_wire_def fresh_def
        registerJoinIn_def StreamingJoiner_new_def BaseJoiner.defs)
qed

lemma set_wired_joins:
  assumes "wiring_ok c"
  shows "set (wired_joins c) = {r. \<exists>t\<in>set (product_lists (map (\<lambda>nb. w_models c (neighbor_offset nb)) (w_nbs c))).
     join_tuple (Some (layout (w_n c) (w_s c))) t = Some r}"
proof -
  have "map (\<lambda>i. w_models c (noff (w_nbs c) i)) [0..<length (w_nbs c)] = map (\<lambda>nb. w_models c (neighbor_offset nb)) (w_nbs c)"
    by (rule nth_equalityI) simp_all
  then show ?thesis using wire_pages.set_all_joins [of c] by (simp add: wired_joins_def sound_id [OF assms])
qed


text \<open>The small system: context 1 asks context 0, which has one model.\<close>

definition demo_wiring :: wiring where
  "demo_wiring = \<lparr>w_nbs = [\<lparr>neighbor_id = 0, neighbor_offset = 0, nb_hostname = [], nb_port = []\<rparr>], w_joff = 0, w_ps = 0,
     w_models = (\<lambda>off. [demo_start]), w_n = 2, w_s = 2\<rparr>"

lemma demo_wiring_simps [simp]:
  "w_nbs demo_wiring = [\<lparr>neighbor_id = 0, neighbor_offset = 0, nb_hostname = [], nb_port = []\<rparr>]" "w_joff demo_wiring = 0"
  "w_ps demo_wiring = 0" "w_models demo_wiring off = [demo_start]" "w_n demo_wiring = 2" "w_s demo_wiring = 2"
  by (simp_all add: demo_wiring_def)

lemma demo_wiring_ok: "wiring_ok demo_wiring"
proof -
  have "bs_view demo_start 0 = DMCS_TRUE" "bs_view demo_start 3 = DMCS_UNDEF" "bs_view demo_start 4 = DMCS_UNDEF" by code_simp+
  then have "blank_unknown 2 2 demo_start"
    by (auto simp: blank_unknown_def known_def block_start_def less_2_cases_iff)
  then show ?thesis
    by (simp add: wiring_ok_def nbs_ok_def fits_def SIZE_T_def well_state_def wf_bs_def block_start_def) (simp add: demo_start_def)
qed

lemma demo_joins: "wired_joins demo_wiring = [demo_start]"
proof -
  have "joins (Some demo_bso) [sorted_states [demo_start]] = [demo_start]" by code_simp
  moreover have "all_counts [1] = [[0]]" by code_simp
  moreover have "requested 0 0 [demo_start] = [demo_start]" by (simp add: requested_def)
  ultimately show ?thesis
    unfolding wired_joins_def wire_pages.all_joins_def wire_pages.J_def wire_pages.packs_of_def wire_pages.pack_def wire_pages.np_def
    by (simp add: sound_id [OF demo_wiring_ok])
qed


end
