(* ===== verification/Plan_Grammars.thy ===== *)
theory Plan_Grammars
  imports Query_Plan Joiner_Contract
begin

unbundle bit_operations_syntax

text \<open>
  The actions of the grammars for bridge rules (\<open>include/parser/BridgeRuleGrammar.tcc\<close>,
  \<open>BridgeRuleGrammar.hpp\<close>) and for return plans (\<open>include/parser/ReturnPlanGrammar.tcc\<close>,
  \<open>ReturnPlanGrammar.hpp\<close>). As for query plans, what Boost.Spirit has recognized is the input.
\<close>

section \<open>Bridge rules\<close>

record BridgeRuleGrammarSemantics =
  m_QueryPlan :: ContextQueryPlanMap
  brg_CtxID :: nat
  m_BridgeRules :: BridgeRuleTable
  m_Neighbors :: "NewNeighbor list"
  m_NeighborOffset :: nat
  m_NeighborIDs :: "nat set"

definition BridgeRuleGrammarSemantics_new :: "ContextQueryPlanMap \<Rightarrow> nat \<Rightarrow> BridgeRuleGrammarSemantics" where
  "BridgeRuleGrammarSemantics_new qp ctx_id = \<lparr>m_QueryPlan = qp, brg_CtxID = ctx_id, m_BridgeRules = [], m_Neighbors = [],
     m_NeighborOffset = 0, m_NeighborIDs = {}\<rparr>"

text \<open>All terms but the last are followed by a comma, the last one by the closing parenthesis.\<close>

definition passPredToBelief :: "string \<Rightarrow> string list \<Rightarrow> string" where
  "passPredToBelief pred_name terms = (if terms = [] then pred_name
     else pred_name @ ''('' @ concat (map (\<lambda>t. t @ '','') (butlast terms)) @ last terms @ '')'')"

definition passIdentToBelief :: "string \<Rightarrow> string" where
  "passIdentToBelief source = source"

fun nat_text :: "nat \<Rightarrow> string" where
  "nat_text n = (if n < 10 then [char_of (48 + n)] else nat_text (n div 10) @ [char_of (48 + n mod 10)])"

declare nat_text.simps [simp del]

definition int_text :: "int \<Rightarrow> string" where
  "int_text i = (if i < 0 then ''-'' @ nat_text (nat (- i)) else nat_text (nat i))"

definition signature_of :: "BeliefTable option \<Rightarrow> string \<Rightarrow> ID res" where
  "signature_of sig belief = (case sig of None \<Rightarrow> Inl Undefined_Behaviour | Some t \<Rightarrow> Inr (bt_getIDByString t belief))"

definition getBridgeAtom :: "nat \<Rightarrow> string \<Rightarrow> BridgeRuleGrammarSemantics \<Rightarrow> (ID \<times> BridgeRuleGrammarSemantics) res" where
  "getBridgeAtom ctx_id belief mgr = (case map_of (m_QueryPlan mgr) ctx_id of None \<Rightarrow> Inl Undefined_Behaviour
     | Some qp \<Rightarrow>
       if ctx_id = brg_CtxID mgr then bind_res (signature_of (localSignature qp) belief) (\<lambda>x. Inr (x, mgr))
       else bind_res (signature_of (groundInputSignature qp) belief) (\<lambda>x.
         if ctx_id \<in> m_NeighborIDs mgr then Inr (x, mgr)
         else Inr (x, mgr\<lparr>m_NeighborIDs := insert ctx_id (m_NeighborIDs mgr),
           m_Neighbors := m_Neighbors mgr @ [\<lparr>neighbor_id = of_nat ctx_id, neighbor_offset = of_nat (m_NeighborOffset mgr),
             nb_hostname = cqp_hostname qp, nb_port = int_text (cqp_port qp)\<rparr>],
           m_NeighborOffset := sz_add (m_NeighborOffset mgr) 1\<rparr>)))"

definition getBridgeLiteral :: "bool \<Rightarrow> ID \<Rightarrow> ID res" where
  "getBridgeLiteral naf x = literalFromBelief x naf"

definition getBridgeRule :: "string \<Rightarrow> ID list \<Rightarrow> BridgeRuleGrammarSemantics \<Rightarrow> BridgeRuleGrammarSemantics res" where
  "getBridgeRule head body mgr = (case map_of (m_QueryPlan mgr) (brg_CtxID mgr) of None \<Rightarrow> Inl Undefined_Behaviour
     | Some qp \<Rightarrow> bind_res (signature_of (localSignature qp) head) (\<lambda>head_id.
         bind_res (BridgeRule_new (MAINKIND_RULE OR SUBKIND_RULE_BRIDGE_RULE) head_id body) (\<lambda>r.
         bind_res (br_storeAndGetID (m_BridgeRules mgr) r) (\<lambda>(t, _). Inr (mgr\<lparr>m_BridgeRules := t\<rparr>)))))"

text \<open>A recognized belief, literal and rule; the actions of a rule run from left to right.\<close>

type_synonym belief_source = "string \<times> string list"
type_synonym literal_source = "bool \<times> nat \<times> belief_source"
type_synonym rule_source = "belief_source \<times> literal_source list"

definition belief_text :: "belief_source \<Rightarrow> string" where
  "belief_text b = (case b of (p, []) \<Rightarrow> passIdentToBelief p | (p, ts) \<Rightarrow> passPredToBelief p ts)"

fun bridge_literals :: "literal_source list \<Rightarrow> BridgeRuleGrammarSemantics \<Rightarrow> (ID list \<times> BridgeRuleGrammarSemantics) res" where
  "bridge_literals [] mgr = Inr ([], mgr)"
| "bridge_literals ((naf, ctx_id, b) # ls) mgr =
     bind_res (getBridgeAtom ctx_id (belief_text b) mgr) (\<lambda>(x, mgr).
     bind_res (getBridgeLiteral naf x) (\<lambda>x.
     bind_res (bridge_literals ls mgr) (\<lambda>(xs, mgr). Inr (x # xs, mgr))))"

fun parse_rules :: "rule_source list \<Rightarrow> BridgeRuleGrammarSemantics \<Rightarrow> BridgeRuleGrammarSemantics res" where
  "parse_rules [] mgr = Inr mgr"
| "parse_rules ((head, body) # rs) mgr =
     bind_res (bridge_literals body mgr) (\<lambda>(xs, mgr).
     bind_res (getBridgeRule (belief_text head) xs mgr) (parse_rules rs))"

section \<open>Return plans\<close>

record ReturnPlanGrammarSemantics =
  rp_result :: "(qid \<rightharpoonup> NewBeliefState) option"
  m_CurrentParentID :: qid
  m_CurrentBeliefState :: "NewBeliefState option"

definition ReturnPlanGrammarSemantics_new :: ReturnPlanGrammarSemantics where
  "ReturnPlanGrammarSemantics_new = \<lparr>rp_result = None, m_CurrentParentID = 0, m_CurrentBeliefState = None\<rparr>"

definition getCurrentParentID :: "BeliefStateOffset option \<Rightarrow> qid \<Rightarrow> ReturnPlanGrammarSemantics \<Rightarrow> ReturnPlanGrammarSemantics res" where
  "getCurrentParentID inst source mgr = bind_res (bso_instance inst) (\<lambda>bso.
     bind_res (setEpsilon_all (bs_new_blocks (bso_no_blocks bso) (bso_size_belief_state bso) False) (bso_starting_offsets bso)) (\<lambda>bs.
       Inr (mgr\<lparr>m_CurrentParentID := source, m_CurrentBeliefState := Some bs\<rparr>)))"

fun activate_loop :: "BeliefStateOffset \<Rightarrow> nat \<Rightarrow> nat list \<Rightarrow> NewBeliefState \<Rightarrow> NewBeliefState res" where
  "activate_loop bso ctx_id [] bs = Inr bs"
| "activate_loop bso ctx_id (i # is) bs =
     bind_res (bs_set_ctx bs ctx_id i (bso_starting_offsets bso) DMCS_TRUE) (activate_loop bso ctx_id is)"

definition activateBits :: "BeliefStateOffset option \<Rightarrow> nat \<Rightarrow> nat list \<Rightarrow> ReturnPlanGrammarSemantics \<Rightarrow> ReturnPlanGrammarSemantics res" where
  "activateBits inst ctx_id local_ids mgr = bind_res (bso_instance inst) (\<lambda>bso.
     case m_CurrentBeliefState mgr of None \<Rightarrow> (if local_ids = [] then Inr mgr else Inl Undefined_Behaviour)
     | Some bs \<Rightarrow> bind_res (activate_loop bso ctx_id local_ids bs) (\<lambda>bs. Inr (mgr\<lparr>m_CurrentBeliefState := Some bs\<rparr>)))"

definition rp_insertIntoMap :: "ReturnPlanGrammarSemantics \<Rightarrow> ReturnPlanGrammarSemantics res" where
  "rp_insertIntoMap mgr =
     (let rpm = (case rp_result mgr of None \<Rightarrow> Map.empty | Some m \<Rightarrow> m)
      in case rpm (m_CurrentParentID mgr) of
           Some _ \<Rightarrow> Inr (mgr\<lparr>rp_result := Some rpm\<rparr>)
         | None \<Rightarrow> (case m_CurrentBeliefState mgr of None \<Rightarrow> Inl Undefined_Behaviour
             | Some bs \<Rightarrow> Inr (mgr\<lparr>rp_result := Some (rpm(m_CurrentParentID mgr \<mapsto> bs))\<rparr>)))"

fun activate_all :: "BeliefStateOffset option \<Rightarrow> (nat \<times> nat list) list \<Rightarrow> ReturnPlanGrammarSemantics \<Rightarrow> ReturnPlanGrammarSemantics res" where
  "activate_all inst [] mgr = Inr mgr"
| "activate_all inst ((ctx_id, ids) # bs) mgr = bind_res (activateBits inst ctx_id ids mgr) (activate_all inst bs)"

fun parse_return_plans :: "BeliefStateOffset option \<Rightarrow> (qid \<times> (nat \<times> nat list) list) list \<Rightarrow> ReturnPlanGrammarSemantics
    \<Rightarrow> ReturnPlanGrammarSemantics res" where
  "parse_return_plans inst [] mgr = Inr mgr"
| "parse_return_plans inst ((parent, bs) # rps) mgr =
     bind_res (getCurrentParentID inst parent mgr) (\<lambda>mgr.
     bind_res (activate_all inst bs mgr) (\<lambda>mgr.
     bind_res (rp_insertIntoMap mgr) (parse_return_plans inst rps)))"

section \<open>Texts of beliefs\<close>

text \<open>
  The two grammars write the text of an atom in the same way, so a belief of a bridge rule is found in the
  signature that the query plan gives it.
\<close>

theorem belief_text_agrees:
  "tuple_text (p # ts) = Inr (belief_text (p, ts))"
proof (cases "ts = []")
  case False
  then obtain us u where ts: "ts = us @ [u]" by (cases ts rule: rev_cases) auto
  let ?x = "p @ ''('' @ concat (map (\<lambda>t. t @ '','') us) @ u"
  have "p @ ''('' @ concat (map (\<lambda>t. t @ '','') ts) = ?x @ [CHR '','']" by (simp add: ts)
  moreover have "(?x @ [c])[length (?x @ [c]) - 1 := d] = ?x @ [d]" for c d by (simp add: list_update_append1 list_update_append)
  ultimately have "tuple_text (p # ts) = Inr (?x @ '')'')" by (simp only: tuple_text_def list.case False if_False Let_def)
  moreover have "belief_text (p, ts) = passPredToBelief p ts" using False by (cases ts) (simp_all add: belief_text_def)
  then have "belief_text (p, ts) = ?x @ '')''" by (simp add: passPredToBelief_def ts)
  ultimately show ?thesis by simp
qed (simp add: tuple_text_def belief_text_def passIdentToBelief_def)

section \<open>The neighbors of a context\<close>

text \<open>The neighbors found so far, numbered in the order in which the rules mention them.\<close>

definition numbered :: "BridgeRuleGrammarSemantics \<Rightarrow> bool" where
  "numbered mgr \<longleftrightarrow> m_NeighborOffset mgr = length (m_Neighbors mgr) \<and>
     map neighbor_offset (m_Neighbors mgr) = map of_nat [0..<length (m_Neighbors mgr)] \<and>
     (\<exists>cs. map neighbor_id (m_Neighbors mgr) = map of_nat cs \<and> distinct cs \<and> set cs = m_NeighborIDs mgr) \<and>
     m_NeighborIDs mgr \<subseteq> {..<2 ^ 10}"

definition foreign :: "nat \<Rightarrow> literal_source list \<Rightarrow> nat set" where
  "foreign ctx ls = (\<lambda>(naf, c, b). c) ` set ls - {ctx}"

abbreviation small_plan :: "ContextQueryPlanMap \<Rightarrow> bool" where
  "small_plan qpm \<equiv> \<forall>c\<in>dom (map_of qpm). c < 2 ^ 10"

lemma numbered_length: "numbered mgr \<Longrightarrow> length (m_Neighbors mgr) \<le> 2 ^ 10"
proof -
  assume "numbered mgr"
  then obtain cs where cs: "map neighbor_id (m_Neighbors mgr) = map of_nat cs" "distinct cs" "set cs \<subseteq> {..<2 ^ 10}"
    by (auto simp: numbered_def)
  then have "length cs = card (set cs)" by (simp add: distinct_card)
  also have "\<dots> \<le> card {..<2 ^ 10 :: nat}" using cs(3) by (rule card_mono [OF finite_lessThan])
  finally show ?thesis using arg_cong [OF cs(1), of length] by simp
qed

lemma numbered_ids:
  assumes "numbered mgr"
  shows "distinct (map neighbor_id (m_Neighbors mgr))"
    and "(\<lambda>nb. unat (neighbor_id nb)) ` set (m_Neighbors mgr) = m_NeighborIDs mgr"
proof -
  from assms obtain cs where cs: "map neighbor_id (m_Neighbors mgr) = map of_nat cs" "distinct cs"
    "set cs = m_NeighborIDs mgr" "set cs \<subseteq> {..<2 ^ 10}" by (auto simp: numbered_def)
  have u: "unat (of_nat c :: qid) = c" if "c < 2 ^ 10" for c using that by (simp add: unat_of_nat)
  have "map (\<lambda>nb. unat (neighbor_id nb)) (m_Neighbors mgr) = map unat (map neighbor_id (m_Neighbors mgr))" by simp
  also have "\<dots> = cs" unfolding cs(1) using cs(4) u by (simp add: map_idI subset_iff)
  finally have ids: "map (\<lambda>nb. unat (neighbor_id nb)) (m_Neighbors mgr) = cs" .
  from arg_cong [OF ids, of set] cs(3) show "(\<lambda>nb. unat (neighbor_id nb)) ` set (m_Neighbors mgr) = m_NeighborIDs mgr" by simp
  have "distinct (map unat (map neighbor_id (m_Neighbors mgr)))" using ids cs(2) by (simp add: comp_def)
  then show "distinct (map neighbor_id (m_Neighbors mgr))" by (rule distinct_map [THEN iffD1, THEN conjunct1])
qed

lemma getBridgeAtom_numbered:
  assumes "getBridgeAtom c b mgr = Inr (x, mgr')" and "numbered mgr" and "small_plan (m_QueryPlan mgr)"
  shows "numbered mgr' \<and> m_QueryPlan mgr' = m_QueryPlan mgr \<and> brg_CtxID mgr' = brg_CtxID mgr \<and>
    m_NeighborIDs mgr' = m_NeighborIDs mgr \<union> ({c} - {brg_CtxID mgr})"
proof -
  from assms(1) obtain qp where qp: "map_of (m_QueryPlan mgr) c = Some qp"
    by (auto simp: getBridgeAtom_def split: option.splits)
  with assms(3) have c: "c < 2 ^ 10" by auto
  show ?thesis
  proof (cases "c = brg_CtxID mgr \<or> c \<in> m_NeighborIDs mgr")
    case True
    with assms(1,2) qp show ?thesis by (auto simp: getBridgeAtom_def bind_res_eq_Inr split: if_splits)
  next
    case False
    from assms(2) obtain cs where cs: "map neighbor_id (m_Neighbors mgr) = map of_nat cs" "distinct cs" "set cs = m_NeighborIDs mgr"
      by (auto simp: numbered_def)
    have "sz_add (m_NeighborOffset mgr) 1 = m_NeighborOffset mgr + 1"
      using assms(2) numbered_length [OF assms(2)] by (intro sz_add_small) (simp add: numbered_def SIZE_T_def)
    then have mgr': "mgr' = mgr\<lparr>m_NeighborIDs := insert c (m_NeighborIDs mgr),
        m_Neighbors := m_Neighbors mgr @ [\<lparr>neighbor_id = of_nat c, neighbor_offset = of_nat (m_NeighborOffset mgr),
          nb_hostname = cqp_hostname qp, nb_port = int_text (cqp_port qp)\<rparr>],
        m_NeighborOffset := m_NeighborOffset mgr + 1\<rparr>"
      using assms(1) qp False by (auto simp: getBridgeAtom_def bind_res_eq_Inr)
    have "\<exists>ds. map neighbor_id (m_Neighbors mgr') = map of_nat ds \<and> distinct ds \<and> set ds = m_NeighborIDs mgr'"
      using cs False by (intro exI [of _ "cs @ [c]"]) (simp add: mgr')
    with assms(2) c False show ?thesis by (auto simp: numbered_def mgr')
  qed
qed

lemma bridge_literals_numbered:
  assumes "bridge_literals ls mgr = Inr (xs, mgr')" and "numbered mgr" and "small_plan (m_QueryPlan mgr)"
  shows "numbered mgr' \<and> m_QueryPlan mgr' = m_QueryPlan mgr \<and> brg_CtxID mgr' = brg_CtxID mgr \<and>
    m_NeighborIDs mgr' = m_NeighborIDs mgr \<union> foreign (brg_CtxID mgr) ls"
  using assms
proof (induction ls arbitrary: mgr xs)
  case (Cons l ls)
  obtain naf c b where l: "l = (naf, c, b)" by (cases l)
  from Cons.prems(1) obtain x mgr1 ys where 1: "getBridgeAtom c (belief_text b) mgr = Inr (x, mgr1)"
    "bridge_literals ls mgr1 = Inr (ys, mgr')" by (auto simp: l bind_res_eq_Inr)
  note a = getBridgeAtom_numbered [OF 1(1) Cons.prems(2,3)]
  with Cons.IH [OF 1(2)] Cons.prems(3) show ?case by (auto simp: l foreign_def)
qed (simp add: foreign_def)

lemma numbered_rules [simp]: "numbered (mgr\<lparr>m_BridgeRules := t\<rparr>) = numbered mgr"
  by (simp add: numbered_def)

lemma parse_rules_numbered:
  assumes "parse_rules rs mgr = Inr mgr'" and "numbered mgr" and "small_plan (m_QueryPlan mgr)"
  shows "numbered mgr' \<and> m_NeighborIDs mgr' = m_NeighborIDs mgr \<union> (\<Union>(h, b)\<in>set rs. foreign (brg_CtxID mgr) b)"
  using assms
proof (induction rs arbitrary: mgr)
  case (Cons r rs)
  obtain h b where r: "r = (h, b)" by fastforce
  from Cons.prems(1) obtain xs mgr1 mgr2 where 1: "bridge_literals b mgr = Inr (xs, mgr1)"
    "getBridgeRule (belief_text h) xs mgr1 = Inr mgr2" "parse_rules rs mgr2 = Inr mgr'" by (auto simp: r bind_res_eq_Inr)
  note a = bridge_literals_numbered [OF 1(1) Cons.prems(2,3)]
  from 1(2) obtain t where "mgr2 = mgr1\<lparr>m_BridgeRules := t\<rparr>"
    by (auto simp: getBridgeRule_def bind_res_eq_Inr split: option.splits)
  with a Cons.prems(3) have m2: "numbered mgr2" "small_plan (m_QueryPlan mgr2)" "brg_CtxID mgr2 = brg_CtxID mgr"
    "m_NeighborIDs mgr2 = m_NeighborIDs mgr1" by simp_all
  from Cons.IH [OF 1(3) m2(1,2)] m2(3,4) a show ?case by (auto simp: r)
qed simp

text \<open>
  C36. The neighbors of a context are the other contexts that its bridge rules mention, each once, and
  are numbered 0, 1, and so on: this is the shape of neighbor list that the joiner's contract asks for.
\<close>

theorem bridge_rules_number_neighbors:
  assumes "parse_rules rs (BridgeRuleGrammarSemantics_new qpm ctx) = Inr mgr" and "\<forall>c\<in>dom (map_of qpm). c < 2 ^ 10"
  shows "map neighbor_offset (m_Neighbors mgr) = map of_nat [0..<length (m_Neighbors mgr)] \<and>
    distinct (map neighbor_id (m_Neighbors mgr)) \<and>
    (\<lambda>nb. unat (neighbor_id nb)) ` set (m_Neighbors mgr) = (\<Union>(h, b)\<in>set rs. foreign ctx b) \<and>
    (m_Neighbors mgr \<noteq> [] \<and> length (m_Neighbors mgr) < 64 \<and> fits 6 joff \<longrightarrow> nbs_ok (m_Neighbors mgr) joff)"
proof -
  let ?nbs = "m_Neighbors mgr"
  have "numbered (BridgeRuleGrammarSemantics_new qpm ctx)" by (simp add: numbered_def BridgeRuleGrammarSemantics_new_def)
  from parse_rules_numbered [OF assms(1) this] assms(2) have n: "numbered mgr"
    "m_NeighborIDs mgr = (\<Union>(h, b)\<in>set rs. foreign ctx b)" by (simp_all add: BridgeRuleGrammarSemantics_new_def)
  from n(1) have off: "map neighbor_offset ?nbs = map of_nat [0..<length ?nbs]"
    and small: "m_NeighborIDs mgr \<subseteq> {..<2 ^ 10}" by (auto simp: numbered_def)
  note ids = numbered_ids [OF n(1)]
  have "unat (of_nat c :: qid) = c" if "c < 2 ^ 10" for c using that by (simp add: unat_of_nat)
  then have inj: "inj_on (of_nat :: nat \<Rightarrow> qid) {..<2 ^ 10}" by (metis inj_onI lessThan_iff)
  have "length ?nbs \<le> 2 ^ 10" by (rule numbered_length [OF n(1)])
  then have "distinct (map neighbor_offset ?nbs)" unfolding off distinct_map
    by (intro conjI inj_on_subset [OF inj]) auto
  moreover have "fits 10 (neighbor_id nb)" if "nb \<in> set ?nbs" for nb
    using that ids(2) small by (force simp: fits_def)
  moreover have "fits 10 (neighbor_offset nb)" if "nb \<in> set ?nbs" "length ?nbs < 64" for nb
  proof -
    have "neighbor_offset nb \<in> set (map of_nat [0..<length ?nbs])" unfolding off [symmetric] using that(1) by simp
    with that(2) show ?thesis by (auto intro!: fits_of_nat)
  qed
  ultimately show ?thesis using off ids n(2) by (auto simp: nbs_ok_def list_all_iff)
qed

text \<open>Two rules of context 1 that mention the contexts 2 and 0.\<close>

theorem bridge_rules_number_neighbors_witness:
  "\<exists>mgr. parse_rules [((''h'', []), [(False, 2, (''p'', [''a''])), (True, 0, (''q'', []))])]
       (BridgeRuleGrammarSemantics_new
         [(0, ContextQueryPlan_new\<lparr>groundInputSignature := Some (signature_table 0 [(1, [''q''])])\<rparr>),
          (1, ContextQueryPlan_new\<lparr>localSignature := Some (signature_table 1 [(1, [''h''])])\<rparr>),
          (2, ContextQueryPlan_new\<lparr>groundInputSignature := Some (signature_table 2 [(1, [''p'', ''a''])])\<rparr>)] 1) = Inr mgr \<and>
     map neighbor_offset (m_Neighbors mgr) = [0, 1] \<and> (\<lambda>nb. unat (neighbor_id nb)) ` set (m_Neighbors mgr) = {0, 2}"
proof -
  let ?rs = "[((''h'', []), [(False, 2, (''p'', [''a''])), (True, 0, (''q'', []))])]"
  let ?qpm = "[(0, ContextQueryPlan_new\<lparr>groundInputSignature := Some (signature_table 0 [(1, [''q''])])\<rparr>),
          (1, ContextQueryPlan_new\<lparr>localSignature := Some (signature_table 1 [(1, [''h''])])\<rparr>),
          (2, ContextQueryPlan_new\<lparr>groundInputSignature := Some (signature_table 2 [(1, [''p'', ''a''])])\<rparr>)]"
  have "is_ok (parse_rules ?rs (BridgeRuleGrammarSemantics_new ?qpm 1)) \<and>
      length (m_Neighbors (projr (parse_rules ?rs (BridgeRuleGrammarSemantics_new ?qpm 1)))) = 2"
    by (simp add: BridgeRuleGrammarSemantics_new_def getBridgeAtom_def getBridgeLiteral_def getBridgeRule_def signature_of_def
        bt_getIDByString_def signature_table_def signature_text_def tuple_text_def belief_text_def passPredToBelief_def passIdentToBelief_def
        literalFromBelief_def nafLiteralFromBelief_def posLiteralFromBelief_def isBelief_def b_id_def Belief_new_at_def kind_consts
        BridgeRule_new_def br_storeAndGetID_def is_bridge_rule_kind_def isBridgeRule_def isRule_def sz_add_def SIZE_T_def ContextQueryPlan_new_def)
  then obtain mgr where m: "parse_rules ?rs (BridgeRuleGrammarSemantics_new ?qpm 1) = Inr mgr" "length (m_Neighbors mgr) = 2"
    by (auto simp: is_ok_iff)
  have "\<forall>c\<in>dom (map_of ?qpm). c < (2 ^ 10 :: nat)" by (auto split: if_splits)
  from bridge_rules_number_neighbors [OF m(1) this] m show ?thesis by (auto simp: foreign_def upt_rec)
qed

section \<open>The interface to an invoking context\<close>

lemma setEpsilon_upto_view:
  assumes "wf_bs (block_start s n) bs" and "\<forall>i\<in>set is. i < n"
  shows "\<exists>bs'. setEpsilon_upto is (bso_starting_offsets (layout n s)) bs = Inr bs' \<and> wf_bs (block_start s n) bs' \<and>
    (\<forall>p. bs_view bs' p = (if p \<in> block_start s ` set is then DMCS_TRUE else bs_view bs p))"
  using assms
proof (induction "is" arbitrary: bs)
  case (Cons i "is")
  then have i: "i < n" by simp
  obtain b where b: "setEpsilon bs i (bso_starting_offsets (layout n s)) = Inr b" "wf_bs (block_start s n) b"
    "bs_view b = (bs_view bs)(bso_starting_offsets (layout n s) ! i := DMCS_TRUE)"
    by (rule setEpsilon_wf [OF Cons.prems(1), of i "bso_starting_offsets (layout n s)"]) (use i in simp, use i in simp, blast)
  from Cons.IH [OF b(2)] Cons.prems(2) b i show ?case by auto
qed simp

lemma activate_loop_view:
  assumes "wf_bs (block_start s n) bs" and "c < n" and "\<forall>i\<in>set ids. i \<le> s"
  shows "\<exists>bs'. activate_loop (layout n s) c ids bs = Inr bs' \<and> wf_bs (block_start s n) bs' \<and>
    (\<forall>p. bs_view bs' p = (if p \<in> (\<lambda>i. block_start s c + i) ` set ids then DMCS_TRUE else bs_view bs p))"
  using assms(1,3)
proof (induction ids arbitrary: bs)
  case (Cons i ids)
  have lt: "block_start s c + i < block_start s n" using block_end [OF assms(2), of s] Cons.prems(2) by simp
  obtain b where b: "bs_set bs (block_start s c + i) DMCS_TRUE = Inr b" "wf_bs (block_start s n) b"
    "bs_view b = (bs_view bs)(block_start s c + i := DMCS_TRUE)" by (rule bs_set_wf [OF Cons.prems(1) lt])
  have "bs_set_ctx bs c i (bso_starting_offsets (layout n s)) DMCS_TRUE = Inr b"
    using b(1) lt assms(2) Cons.prems(1) by (simp add: bs_set_ctx_def)
  with Cons.IH [OF b(2)] Cons.prems(2) b show ?case by auto
qed simp

definition activated :: "nat \<Rightarrow> (nat \<times> nat list) list \<Rightarrow> nat set" where
  "activated s bs = (\<Union>(c, ids)\<in>set bs. (\<lambda>i. block_start s c + i) ` set ids)"

lemma activate_all_view:
  assumes "m_CurrentBeliefState mgr = Some b" and "wf_bs (block_start s n) b" and "\<forall>(c, ids)\<in>set bs. c < n \<and> (\<forall>i\<in>set ids. i \<le> s)"
  shows "\<exists>b'. activate_all (Some (layout n s)) bs mgr = Inr (mgr\<lparr>m_CurrentBeliefState := Some b'\<rparr>) \<and> wf_bs (block_start s n) b' \<and>
    (\<forall>p. bs_view b' p = (if p \<in> activated s bs then DMCS_TRUE else bs_view b p))"
  using assms
proof (induction bs arbitrary: mgr b)
  case Nil
  then show ?case by (intro exI [of _ b]) (simp add: activated_def)
next
  case (Cons x bs)
  obtain c ids where x: "x = (c, ids)" by fastforce
  with Cons.prems(3) have "c < n" "\<forall>i\<in>set ids. i \<le> s" by auto
  from activate_loop_view [OF Cons.prems(2) this] obtain b1 where
    b1: "activate_loop (layout n s) c ids b = Inr b1" "wf_bs (block_start s n) b1"
    "\<forall>p. bs_view b1 p = (if p \<in> (\<lambda>i. block_start s c + i) ` set ids then DMCS_TRUE else bs_view b p)" by blast
  have "activateBits (Some (layout n s)) c ids mgr = Inr (mgr\<lparr>m_CurrentBeliefState := Some b1\<rparr>)"
    using Cons.prems(1) b1(1) by (simp add: activateBits_def bso_instance_def)
  moreover from Cons.IH [of "mgr\<lparr>m_CurrentBeliefState := Some b1\<rparr>" b1] b1(2) Cons.prems(3) obtain b' where
    "activate_all (Some (layout n s)) bs (mgr\<lparr>m_CurrentBeliefState := Some b1\<rparr>) = Inr (mgr\<lparr>m_CurrentBeliefState := Some b'\<rparr>)"
    "wf_bs (block_start s n) b'" "\<forall>p. bs_view b' p = (if p \<in> activated s bs then DMCS_TRUE else bs_view b1 p)" by auto
  ultimately show ?case using b1(3) by (intro exI [of _ b']) (auto simp: x activated_def)
qed

lemma read_return_plan:
  assumes "\<forall>(c, ids)\<in>set bs. c < n \<and> (\<forall>i\<in>set ids. i \<le> s)"
  shows "\<exists>iface. bind_res (getCurrentParentID (Some (layout n s)) parent mgr) (activate_all (Some (layout n s)) bs) =
      Inr (mgr\<lparr>m_CurrentParentID := parent, m_CurrentBeliefState := Some iface\<rparr>) \<and> wf_bs (block_start s n) iface \<and>
    (\<forall>p. bs_view iface p = (if p \<in> block_start s ` {..<n} \<or> p \<in> activated s bs then DMCS_TRUE else DMCS_UNDEF))"
proof -
  have "wf_bs (block_start s n) (bs_new_blocks n s False)" by (simp only: block_start_def wf_bs_new_blocks)
  from setEpsilon_upto_view [OF this, of "[0..<n]"] obtain b where
    b: "setEpsilon_all (bs_new_blocks n s False) (bso_starting_offsets (layout n s)) = Inr b" "wf_bs (block_start s n) b"
    "\<forall>p. bs_view b p = (if p \<in> block_start s ` {..<n} then DMCS_TRUE else DMCS_UNDEF)"
    by (auto simp: setEpsilon_all_def atLeast0LessThan)
  let ?mgr = "mgr\<lparr>m_CurrentParentID := parent, m_CurrentBeliefState := Some b\<rparr>"
  have g: "getCurrentParentID (Some (layout n s)) parent mgr = Inr ?mgr"
    using b(1) by (simp add: getCurrentParentID_def bso_instance_def)
  from activate_all_view [of ?mgr b s n bs] b(2) assms obtain iface where
    "activate_all (Some (layout n s)) bs ?mgr = Inr (?mgr\<lparr>m_CurrentBeliefState := Some iface\<rparr>)" "wf_bs (block_start s n) iface"
    "\<forall>p. bs_view iface p = (if p \<in> activated s bs then DMCS_TRUE else bs_view b p)" by auto
  then show ?thesis using g b(3) by (intro exI [of _ iface]) simp
qed

text \<open>
  C37. A return plan gives each invoking context an interface that keeps exactly the epsilon bits of
  all contexts and the listed beliefs: projecting a belief state to it (the operator \<open>&\<close> with which a
  context restricts its answers) leaves those as they are and forgets everything else.
\<close>

theorem return_plan_interface:
  assumes "0 < n" and "\<forall>(c, ids)\<in>set bs. c < n \<and> (\<forall>i\<in>set ids. i \<le> s)"
    and "wf_bs (block_start s n) v"
  shows "\<exists>mgr rpm iface. parse_return_plans (Some (layout n s)) [(parent, bs)] ReturnPlanGrammarSemantics_new = Inr mgr \<and>
    rp_result mgr = Some rpm \<and> rpm parent = Some iface \<and>
    (\<forall>p. bs_view (bs_and v iface) p =
       (if p \<in> block_start s ` {..<n} \<or> p \<in> activated s bs then bs_view v p else DMCS_UNDEF))"
proof -
  obtain iface where i: "bind_res (getCurrentParentID (Some (layout n s)) parent ReturnPlanGrammarSemantics_new) (activate_all (Some (layout n s)) bs) =
      Inr (ReturnPlanGrammarSemantics_new\<lparr>m_CurrentParentID := parent, m_CurrentBeliefState := Some iface\<rparr>)" "wf_bs (block_start s n) iface"
    "\<forall>p. bs_view iface p = (if p \<in> block_start s ` {..<n} \<or> p \<in> activated s bs then DMCS_TRUE else DMCS_UNDEF)"
    using read_return_plan [OF assms(2)] by blast
  have "bs_view (bs_and v iface) p = (if bs_view iface p = DMCS_TRUE then bs_view v p else DMCS_UNDEF)"
    if "bs_view iface p \<in> {DMCS_TRUE, DMCS_UNDEF}" for p
    using that assms(3) i(2) by (auto simp: bs_view_def bs_and_def wf_bs_iff bs_simps split: if_splits)
  with i(3) have "\<forall>p. bs_view (bs_and v iface) p =
       (if p \<in> block_start s ` {..<n} \<or> p \<in> activated s bs then bs_view v p else DMCS_UNDEF)" by simp
  with i(1) show ?thesis by (auto simp: rp_insertIntoMap_def ReturnPlanGrammarSemantics_new_def bind_res_eq_Inr)
qed

theorem return_plan_interface_witness:
  "\<exists>mgr rpm iface. parse_return_plans (Some (layout 2 3)) [(7, [(1, [2])])] ReturnPlanGrammarSemantics_new = Inr mgr \<and>
     rp_result mgr = Some rpm \<and> rpm 7 = Some iface \<and> bs_view (bs_and (bs_new_blocks 2 3 False) iface) 6 = DMCS_UNDEF"
proof -
  have "wf_bs (block_start 3 2) (bs_new_blocks 2 3 False)" by (simp only: block_start_def wf_bs_new_blocks)
  from return_plan_interface [OF _ _ this, of "[(1, [2])]" 7] show ?thesis by fastforce
qed

end
