(* ===== verification/Message_Queue.thy ===== *)
theory Message_Queue
  imports Dmcs_Prelude
begin

text \<open>
  \<open>ConcurrentMessageQueue\<close> (\<open>include/network/ConcurrentMessageQueue.h\<close>): a bounded queue of memory
  blocks that several threads use under one mutex and one condition variable. The code between
  acquiring the mutex (or returning from a wait) and releasing it (or waiting again) is one step; which
  thread runs next, and which waiting thread a notification wakes, is not determined.
\<close>

section \<open>The queue\<close>

type_synonym bytes = "8 word list"

text \<open>A block is the copy that \<open>pushBlock\<close> makes of the sender's buffer; its field \<open>s\<close> is its length.\<close>

record ConcurrentMessageQueue =
  cmq_q :: "bytes list"
  cmq_n :: nat
  enq :: nat
  deq :: nat

definition CMQ_default :: ConcurrentMessageQueue where
  "CMQ_default = \<lparr>cmq_q = [], cmq_n = 1, enq = 0, deq = 0\<rparr>"

definition CMQ_new :: "nat \<Rightarrow> ConcurrentMessageQueue" where
  "CMQ_new capacity = \<lparr>cmq_q = [], cmq_n = (if 0 < capacity then capacity else 1), enq = 0, deq = 0\<rparr>"

definition CMQ_copy :: "ConcurrentMessageQueue \<Rightarrow> ConcurrentMessageQueue" where
  "CMQ_copy q = \<lparr>cmq_q = [], cmq_n = cmq_n q, enq = 0, deq = 0\<rparr>"

definition cmq_empty :: "ConcurrentMessageQueue \<Rightarrow> bool" where
  "cmq_empty q \<longleftrightarrow> cmq_q q = []"

text \<open>The member function \<open>size\<close> returns the capacity, converted to \<open>bool\<close>.\<close>

definition cmq_size :: "ConcurrentMessageQueue \<Rightarrow> bool" where
  "cmq_size q \<longleftrightarrow> cmq_n q \<noteq> 0"

definition pushBlock :: "bytes \<Rightarrow> ConcurrentMessageQueue \<Rightarrow> ConcurrentMessageQueue" where
  "pushBlock buf q = q\<lparr>cmq_q := cmq_q q @ [buf]\<rparr>"

text \<open>
  \<open>popBlock\<close> writes the first block into the buffer \<open>buf\<close>, cut to the buffer's size, and returns the
  block's size.
\<close>

definition popBlock :: "bytes \<Rightarrow> ConcurrentMessageQueue \<Rightarrow> (bytes \<times> nat \<times> ConcurrentMessageQueue) res" where
  "popBlock buf q = (case cmq_q q of [] \<Rightarrow> Inl Undefined_Behaviour
     | b # bs \<Rightarrow> assertion (0 < length b)
         (Inr (if length b \<le> length buf then b @ drop (length b) buf else take (length buf) b, length b, q\<lparr>cmq_q := bs\<rparr>)))"

section \<open>Steps of a thread\<close>

text \<open>
  Where a thread is: before or after an operation, waiting at the condition variable, woken by a
  notification, or woken because the time of a timed operation is over.
\<close>

datatype pc = Ready | Waiting | Signalled | Expired

text \<open>The functions that notify say whether they call \<open>notify_one\<close>.\<close>

definition notifyConsumer :: "ConcurrentMessageQueue \<Rightarrow> bool" where
  "notifyConsumer q \<longleftrightarrow> 0 < deq q"

definition notifyProducer :: "ConcurrentMessageQueue \<Rightarrow> bool" where
  "notifyProducer q \<longleftrightarrow> 0 < enq q"

definition leave_enq :: "pc \<Rightarrow> ConcurrentMessageQueue \<Rightarrow> ConcurrentMessageQueue" where
  "leave_enq at q = (if at = Ready then q else q\<lparr>enq := sz_sub (enq q) 1\<rparr>)"

definition leave_deq :: "pc \<Rightarrow> ConcurrentMessageQueue \<Rightarrow> ConcurrentMessageQueue" where
  "leave_deq at q = (if at = Ready then q else q\<lparr>deq := sz_sub (deq q) 1\<rparr>)"

text \<open>
  The waiting loops, from their start or from the return of \<open>wait\<close>: whether they wait (again), whether
  they notify, and for the timed ones whether the time was not over.
\<close>

definition waitOnCapacity :: "pc \<Rightarrow> ConcurrentMessageQueue \<Rightarrow> bool \<times> bool \<times> ConcurrentMessageQueue" where
  "waitOnCapacity at q = (let q = leave_enq at q in
     if cmq_n q = length (cmq_q q) then (True, False, q\<lparr>enq := sz_add (enq q) 1\<rparr>) else (False, notifyConsumer q, q))"

definition waitOnEmpty :: "pc \<Rightarrow> ConcurrentMessageQueue \<Rightarrow> bool \<times> bool \<times> ConcurrentMessageQueue" where
  "waitOnEmpty at q = (let q = leave_deq at q in
     if cmq_q q = [] then (True, False, q\<lparr>deq := sz_add (deq q) 1\<rparr>) else (False, notifyProducer q, q))"

definition waitOnTimedCapacity :: "pc \<Rightarrow> ConcurrentMessageQueue \<Rightarrow> bool \<times> bool \<times> bool \<times> ConcurrentMessageQueue" where
  "waitOnTimedCapacity at q = (let q = leave_enq at q; no_timeout = (at \<noteq> Expired) in
     if cmq_n q = length (cmq_q q) \<and> no_timeout then (True, no_timeout, False, q\<lparr>enq := sz_add (enq q) 1\<rparr>)
     else (False, no_timeout, notifyConsumer q, q))"

definition waitOnTimedEmpty :: "pc \<Rightarrow> ConcurrentMessageQueue \<Rightarrow> bool \<times> bool \<times> bool \<times> ConcurrentMessageQueue" where
  "waitOnTimedEmpty at q = (let q = leave_deq at q; no_timeout = (at \<noteq> Expired) in
     if cmq_q q = [] \<and> no_timeout then (True, no_timeout, False, q\<lparr>deq := sz_add (deq q) 1\<rparr>)
     else (False, no_timeout, notifyProducer q, q))"

text \<open>
  The operations, each with the caller's buffer. A step of one ends waiting, or returns: whether it
  was done, and for a receive the buffer and \<open>recvd\<close>.
\<close>

datatype operation =
    Send bytes | Try_Send bytes | Timed_Send bytes
  | Receive bytes | Try_Receive bytes | Timed_Receive bytes

datatype outcome = Blocks | Returns bool bytes nat

definition send :: "bytes \<Rightarrow> pc \<Rightarrow> ConcurrentMessageQueue \<Rightarrow> (outcome \<times> bool \<times> ConcurrentMessageQueue) res" where
  "send buf at q = assertion (buf \<noteq> []) (case waitOnCapacity at q of (blocks, notify, q) \<Rightarrow>
     Inr (if blocks then (Blocks, False, q) else (Returns True [] 0, notify, pushBlock buf q)))"

definition try_send :: "bytes \<Rightarrow> ConcurrentMessageQueue \<Rightarrow> (outcome \<times> bool \<times> ConcurrentMessageQueue) res" where
  "try_send buf q = assertion (buf \<noteq> []) (Inr (if length (cmq_q q) < cmq_n q
     then let q = pushBlock buf q in (Returns True [] 0, notifyConsumer q, q)
     else (Returns False [] 0, False, q)))"

definition timed_send :: "bytes \<Rightarrow> pc \<Rightarrow> ConcurrentMessageQueue \<Rightarrow> (outcome \<times> bool \<times> ConcurrentMessageQueue) res" where
  "timed_send buf at q = assertion (buf \<noteq> []) (case waitOnTimedCapacity at q of (blocks, no_timeout, notify, q) \<Rightarrow>
     Inr (if blocks then (Blocks, False, q)
          else if no_timeout then (Returns True [] 0, notify, pushBlock buf q)
          else (Returns False [] 0, notify, q)))"

definition receive :: "bytes \<Rightarrow> pc \<Rightarrow> ConcurrentMessageQueue \<Rightarrow> (outcome \<times> bool \<times> ConcurrentMessageQueue) res" where
  "receive buf at q = assertion (buf \<noteq> []) (case waitOnEmpty at q of (blocks, notify, q) \<Rightarrow>
     if blocks then Inr (Blocks, False, q)
     else bind_res (popBlock buf q) (\<lambda>(buf, recvd, q). Inr (Returns True buf recvd, notify, q)))"

definition try_receive :: "bytes \<Rightarrow> ConcurrentMessageQueue \<Rightarrow> (outcome \<times> bool \<times> ConcurrentMessageQueue) res" where
  "try_receive buf q = assertion (buf \<noteq> []) (if cmq_q q \<noteq> []
     then bind_res (popBlock buf q) (\<lambda>(buf, recvd, q). Inr (Returns True buf recvd, notifyProducer q, q))
     else Inr (Returns False buf 0, False, q))"

definition timed_receive :: "bytes \<Rightarrow> pc \<Rightarrow> ConcurrentMessageQueue \<Rightarrow> (outcome \<times> bool \<times> ConcurrentMessageQueue) res" where
  "timed_receive buf at q = assertion (buf \<noteq> []) (case waitOnTimedEmpty at q of (blocks, no_timeout, notify, q) \<Rightarrow>
     if blocks then Inr (Blocks, False, q)
     else if no_timeout then bind_res (popBlock buf q) (\<lambda>(buf, recvd, q). Inr (Returns True buf recvd, notify, q))
     else Inr (Returns False buf 0, notify, q))"

fun perform :: "operation \<Rightarrow> pc \<Rightarrow> ConcurrentMessageQueue \<Rightarrow> (outcome \<times> bool \<times> ConcurrentMessageQueue) res" where
  "perform (Send buf) at q = send buf at q"
| "perform (Try_Send buf) at q = try_send buf q"
| "perform (Timed_Send buf) at q = timed_send buf at q"
| "perform (Receive buf) at q = receive buf at q"
| "perform (Try_Receive buf) at q = try_receive buf q"
| "perform (Timed_Receive buf) at q = timed_receive buf at q"

section \<open>Threads\<close>

record qthread =
  t_pc :: pc
  t_prog :: "operation list"
  t_log :: "(bool \<times> bytes \<times> nat) list"

text \<open>The blocks that went into the queue and came out of it so far are kept to state properties.\<close>

record qsystem =
  the_queue :: ConcurrentMessageQueue
  threads :: "qthread list"
  sent :: "bytes list"
  received :: "bytes list"

fun is_send :: "operation \<Rightarrow> bool" where
  "is_send (Send b) = True"
| "is_send (Try_Send b) = True"
| "is_send (Timed_Send b) = True"
| "is_send _ = False"

fun op_buf :: "operation \<Rightarrow> bytes" where
  "op_buf (Send b) = b"
| "op_buf (Try_Send b) = b"
| "op_buf (Timed_Send b) = b"
| "op_buf (Receive b) = b"
| "op_buf (Try_Receive b) = b"
| "op_buf (Timed_Receive b) = b"

fun can_wait :: "operation \<Rightarrow> bool" where
  "can_wait (Try_Send b) = False"
| "can_wait (Try_Receive b) = False"
| "can_wait _ = True"

fun is_timed :: "operation \<Rightarrow> bool" where
  "is_timed (Timed_Send b) = True"
| "is_timed (Timed_Receive b) = True"
| "is_timed _ = False"

fun after :: "outcome \<Rightarrow> qthread \<Rightarrow> qthread" where
  "after Blocks t = t\<lparr>t_pc := Waiting\<rparr>"
| "after (Returns done buf recvd) t = t\<lparr>t_pc := Ready, t_prog := tl (t_prog t), t_log := t_log t @ [(done, buf, recvd)]\<rparr>"

text \<open>\<open>notify_one\<close>: some waiting thread, if there is one, is woken.\<close>

definition signal :: "bool \<Rightarrow> nat option \<Rightarrow> qthread list \<Rightarrow> qthread list option" where
  "signal notify c ts = (if notify \<and> (\<exists>t\<in>set ts. t_pc t = Waiting)
     then (case c of None \<Rightarrow> None
       | Some j \<Rightarrow> if j < length ts \<and> t_pc (ts ! j) = Waiting then Some (ts[j := (ts ! j)\<lparr>t_pc := Signalled\<rparr>]) else None)
     else if c = None then Some ts else None)"

text \<open>
  What can happen: a thread does a step, and its notification goes to the given thread; the time of
  a timed wait is over; a wait returns for no reason.
\<close>

datatype event = Run nat "nat option" | Expire nat | Spurious nat

definition log_sent :: "operation \<Rightarrow> outcome \<Rightarrow> bytes list" where
  "log_sent p out = (case out of Returns True b r \<Rightarrow> if is_send p then [op_buf p] else [] | _ \<Rightarrow> [])"

definition log_received :: "operation \<Rightarrow> outcome \<Rightarrow> ConcurrentMessageQueue \<Rightarrow> bytes list" where
  "log_received p out q = (case out of Returns True b r \<Rightarrow> if is_send p then [] else [hd (cmq_q q)] | _ \<Rightarrow> [])"

fun fire :: "event \<Rightarrow> qsystem \<Rightarrow> qsystem res option" where
  "fire (Run i c) s = (if i < length (threads s) \<and> t_prog (threads s ! i) \<noteq> [] \<and> t_pc (threads s ! i) \<noteq> Waiting
     then let t = threads s ! i; p = hd (t_prog t) in
       case perform p (t_pc t) (the_queue s) of
         Inl e \<Rightarrow> Some (Inl e)
       | Inr (out, notify, q) \<Rightarrow> map_option (\<lambda>ts. Inr \<lparr>the_queue = q, threads = ts,
             sent = sent s @ log_sent p out, received = received s @ log_received p out (the_queue s)\<rparr>)
           (signal notify c ((threads s)[i := after out t]))
     else None)"
| "fire (Expire i) s = (if i < length (threads s) \<and> t_pc (threads s ! i) = Waiting \<and> t_prog (threads s ! i) \<noteq> [] \<and>
       is_timed (hd (t_prog (threads s ! i)))
     then Some (Inr (s\<lparr>threads := (threads s)[i := (threads s ! i)\<lparr>t_pc := Expired\<rparr>]\<rparr>)) else None)"
| "fire (Spurious i) s = (if i < length (threads s) \<and> t_pc (threads s ! i) = Waiting
     then Some (Inr (s\<lparr>threads := (threads s)[i := (threads s ! i)\<lparr>t_pc := Signalled\<rparr>]\<rparr>)) else None)"

inductive qstep :: "qsystem \<Rightarrow> qsystem \<Rightarrow> bool" where
  fires: "fire ev s = Some (Inr s') \<Longrightarrow> qstep s s'"

fun new_thread :: "operation list \<Rightarrow> qthread" where
  "new_thread prog = \<lparr>t_pc = Ready, t_prog = prog, t_log = []\<rparr>"

definition start :: "nat \<Rightarrow> operation list list \<Rightarrow> qsystem" where
  "start capacity progs = \<lparr>the_queue = CMQ_new capacity, threads = map new_thread progs, sent = [], received = []\<rparr>"

section \<open>The invariant\<close>

definition in_wait :: "bool \<Rightarrow> qthread \<Rightarrow> bool" where
  "in_wait producer t \<longleftrightarrow> t_pc t \<noteq> Ready \<and> is_send (hd (t_prog t)) = producer"

definition waiters :: "bool \<Rightarrow> qthread list \<Rightarrow> nat" where
  "waiters producer ts = length (filter (in_wait producer) ts)"

definition thread_ok :: "qthread \<Rightarrow> bool" where
  "thread_ok t \<longleftrightarrow> (t_pc t \<noteq> Ready \<longrightarrow> t_prog t \<noteq> [] \<and> can_wait (hd (t_prog t))) \<and> (\<forall>p\<in>set (t_prog t). op_buf p \<noteq> [])"

definition blocks_ok :: "ConcurrentMessageQueue \<Rightarrow> bool" where
  "blocks_ok q \<longleftrightarrow> 0 < cmq_n q \<and> length (cmq_q q) \<le> cmq_n q \<and> (\<forall>b\<in>set (cmq_q q). b \<noteq> [])"

definition queue_inv :: "qsystem \<Rightarrow> bool" where
  "queue_inv s \<longleftrightarrow> blocks_ok (the_queue s) \<and> sent s = received s @ cmq_q (the_queue s) \<and>
     enq (the_queue s) = waiters True (threads s) \<and> deq (the_queue s) = waiters False (threads s) \<and>
     length (threads s) < SIZE_T \<and> (\<forall>t\<in>set (threads s). thread_ok t)"

lemma waiters_update:
  assumes "i < length ts"
  shows "waiters b (ts[i := t]) + of_bool (in_wait b (ts ! i)) = waiters b ts + of_bool (in_wait b t)"
  using assms
proof (induction ts arbitrary: i)
  case (Cons u ts)
  then show ?case by (cases i) (auto simp: waiters_def)
qed simp

lemma waiters_le: "waiters b ts \<le> length ts"
  by (simp add: waiters_def)

lemma waiters_pos: "i < length ts \<Longrightarrow> in_wait b (ts ! i) \<Longrightarrow> 0 < waiters b ts"
  by (auto simp: waiters_def filter_empty_conv intro!: bexI [of _ "ts ! i"])

text \<open>What a step of an operation does to the queue.\<close>

lemmas perform_defs = send_def try_send_def timed_send_def receive_def try_receive_def timed_receive_def
  waitOnCapacity_def waitOnEmpty_def waitOnTimedCapacity_def waitOnTimedEmpty_def leave_enq_def leave_deq_def
  pushBlock_def popBlock_def Let_def

lemma sz_sub_add [simp]: "0 < x \<Longrightarrow> x < SIZE_T \<Longrightarrow> sz_sub x (Suc 0) = x - 1" "Suc x < SIZE_T \<Longrightarrow> sz_add x (Suc 0) = Suc x"
  by (simp_all add: sz_sub_small sz_add_small)

lemma perform_ok:
  assumes q: "blocks_ok q" and p: "op_buf p \<noteq> []" "at \<noteq> Ready \<longrightarrow> can_wait p"
    and b: "enq q + of_bool (at = Ready) < SIZE_T" "deq q + of_bool (at = Ready) < SIZE_T"
    and w: "at \<noteq> Ready \<longrightarrow> is_send p \<longrightarrow> 0 < enq q" "at \<noteq> Ready \<longrightarrow> \<not> is_send p \<longrightarrow> 0 < deq q"
  shows "\<exists>out notify q'. perform p at q = Inr (out, notify, q') \<and> blocks_ok q' \<and>
    cmq_q q @ log_sent p out = log_received p out q @ cmq_q q' \<and>
    enq q' + of_bool (at \<noteq> Ready \<and> is_send p) = enq q + of_bool (out = Blocks \<and> is_send p) \<and>
    deq q' + of_bool (at \<noteq> Ready \<and> \<not> is_send p) = deq q + of_bool (out = Blocks \<and> \<not> is_send p) \<and>
    (out = Blocks \<longrightarrow> can_wait p)"
proof (cases "at = Ready")
  case True
  then show ?thesis using q p b
    by (cases p; cases "cmq_q q")
      (auto simp: perform_defs blocks_ok_def log_sent_def log_received_def)
next
  case False
  then show ?thesis using q p b w
    by (cases p; cases "cmq_q q")
      (auto simp: perform_defs blocks_ok_def log_sent_def log_received_def)
qed

text \<open>Waking a waiting thread changes nothing that the invariant speaks of.\<close>

lemma wake_keeps:
  assumes "j < length ts" and "t_pc (ts ! j) = Waiting" and "at \<noteq> Ready" and "\<forall>t\<in>set ts. thread_ok t"
  shows "waiters b (ts[j := (ts ! j)\<lparr>t_pc := at\<rparr>]) = waiters b ts" "\<forall>t\<in>set (ts[j := (ts ! j)\<lparr>t_pc := at\<rparr>]). thread_ok t"
proof -
  have "in_wait b ((ts ! j)\<lparr>t_pc := at\<rparr>) = in_wait b (ts ! j)" using assms by (simp add: in_wait_def)
  with waiters_update [OF assms(1), of b "(ts ! j)\<lparr>t_pc := at\<rparr>"]
  show "waiters b (ts[j := (ts ! j)\<lparr>t_pc := at\<rparr>]) = waiters b ts" by simp
  have "thread_ok (ts ! j)" using assms(1,4) by simp
  then have "thread_ok ((ts ! j)\<lparr>t_pc := at\<rparr>)" using assms(2) by (simp add: thread_ok_def)
  with assms(4) show "\<forall>t\<in>set (ts[j := (ts ! j)\<lparr>t_pc := at\<rparr>]). thread_ok t"
    using set_update_subset_insert [of ts j "(ts ! j)\<lparr>t_pc := at\<rparr>"] by blast
qed

lemma signal_keeps:
  assumes "signal notify c ts = Some ts'" and "\<forall>t\<in>set ts. thread_ok t"
  shows "waiters b ts' = waiters b ts \<and> length ts' = length ts \<and> (\<forall>t\<in>set ts'. thread_ok t)"
  using assms wake_keeps [OF _ _ _ assms(2), where at = Signalled]
  by (auto simp: signal_def split: if_splits option.splits)

lemma after_ok:
  assumes "thread_ok t" and "t_prog t \<noteq> []" and "out = Blocks \<longrightarrow> can_wait (hd (t_prog t))"
  shows "thread_ok (after out t)"
  using assms by (cases out) (auto simp: thread_ok_def dest: list.set_sel(2))

lemma in_wait_after:
  "in_wait b (after out t) \<longleftrightarrow> out = Blocks \<and> is_send (hd (t_prog t)) = b"
  by (cases out) (auto simp: in_wait_def)

text \<open>A step of a thread in a state that satisfies the invariant is no error, and keeps the invariant.\<close>

lemma run_perform:
  assumes inv: "queue_inv s" and i: "i < length (threads s)" "t_prog (threads s ! i) \<noteq> []"
  defines "t \<equiv> threads s ! i" and "p \<equiv> hd (t_prog (threads s ! i))"
  obtains out notify q where "perform p (t_pc t) (the_queue s) = Inr (out, notify, q)" "blocks_ok q"
    "cmq_q (the_queue s) @ log_sent p out = log_received p out (the_queue s) @ cmq_q q"
    "enq q = waiters True ((threads s)[i := after out t])" "deq q = waiters False ((threads s)[i := after out t])"
    "\<forall>t\<in>set ((threads s)[i := after out t]). thread_ok t"
proof -
  from inv have q: "blocks_ok (the_queue s)" and e: "enq (the_queue s) = waiters True (threads s)"
    and d: "deq (the_queue s) = waiters False (threads s)" and l: "length (threads s) < SIZE_T"
    and ok: "\<forall>t\<in>set (threads s). thread_ok t" by (simp_all add: queue_inv_def)
  have t: "thread_ok t" using ok i unfolding t_def by simp
  have p: "op_buf p \<noteq> []" "t_pc t \<noteq> Ready \<longrightarrow> can_wait p" using t i(2) by (auto simp: thread_ok_def p_def t_def)
  have w: "waiters b (threads s) + of_bool (t_pc t = Ready) \<le> length (threads s)" for b
    using waiters_update [OF i(1), of b "t\<lparr>t_pc := Waiting, t_prog := [if b then Send [] else Receive []]\<rparr>"]
      waiters_le [of b "(threads s)[i := t\<lparr>t_pc := Waiting, t_prog := [if b then Send [] else Receive []]\<rparr>]"]
      waiters_le [of b "threads s"]
    by (auto simp: in_wait_def t_def of_bool_def split: if_splits)
  have b: "enq (the_queue s) + of_bool (t_pc t = Ready) < SIZE_T" "deq (the_queue s) + of_bool (t_pc t = Ready) < SIZE_T"
    using w [of True] w [of False] l e d by linarith+
  have pos: "0 < waiters (is_send p) (threads s)" if "t_pc t \<noteq> Ready"
    using that waiters_pos [OF i(1), of "is_send p"] by (simp add: in_wait_def p_def t_def)
  with e d have "t_pc t \<noteq> Ready \<longrightarrow> is_send p \<longrightarrow> 0 < enq (the_queue s)" "t_pc t \<noteq> Ready \<longrightarrow> \<not> is_send p \<longrightarrow> 0 < deq (the_queue s)"
    by auto
  from perform_ok [OF q p b this] obtain out notify q' where
    o: "perform p (t_pc t) (the_queue s) = Inr (out, notify, q')" "blocks_ok q'"
    "cmq_q (the_queue s) @ log_sent p out = log_received p out (the_queue s) @ cmq_q q'"
    "enq q' + of_bool (t_pc t \<noteq> Ready \<and> is_send p) = enq (the_queue s) + of_bool (out = Blocks \<and> is_send p)"
    "deq q' + of_bool (t_pc t \<noteq> Ready \<and> \<not> is_send p) = deq (the_queue s) + of_bool (out = Blocks \<and> \<not> is_send p)"
    "out = Blocks \<longrightarrow> can_wait p" by blast
  have iw: "in_wait True (threads s ! i) \<longleftrightarrow> t_pc t \<noteq> Ready \<and> is_send p" "in_wait False (threads s ! i) \<longleftrightarrow> t_pc t \<noteq> Ready \<and> \<not> is_send p"
    "in_wait True (after out t) \<longleftrightarrow> out = Blocks \<and> is_send p" "in_wait False (after out t) \<longleftrightarrow> out = Blocks \<and> \<not> is_send p"
    unfolding in_wait_after by (auto simp: in_wait_def t_def p_def)
  have "enq q' = waiters True ((threads s)[i := after out t])" "deq q' = waiters False ((threads s)[i := after out t])"
    using waiters_update [OF i(1), of True "after out t"] waiters_update [OF i(1), of False "after out t"] o(4,5) e d unfolding iw
    by linarith+
  moreover have "thread_ok (after out t)" using after_ok [OF t] i(2) o(6) by (simp add: t_def p_def)
  then have "\<forall>t\<in>set ((threads s)[i := after out t]). thread_ok t"
    using ok set_update_subset_insert [of "threads s" i "after out t"] by blast
  ultimately show thesis using that o(1-3) by blast
qed

lemma fire_ok: "queue_inv s \<Longrightarrow> fire ev s \<noteq> Some (Inl e)"
proof (cases ev)
  case (Run i c)
  assume inv: "queue_inv s"
  show ?thesis
  proof (cases "i < length (threads s) \<and> t_prog (threads s ! i) \<noteq> []")
    case True
    with run_perform [OF inv] obtain out notify q where
      "perform (hd (t_prog (threads s ! i))) (t_pc (threads s ! i)) (the_queue s) = Inr (out, notify, q)" by metis
    then show ?thesis using Run by (auto simp: Let_def)
  qed (auto simp: Run)
qed auto

lemma fire_keeps:
  assumes inv: "queue_inv s" and f: "fire ev s = Some (Inr s')"
  shows "queue_inv s' \<and> cmq_n (the_queue s') = cmq_n (the_queue s)"
proof -
  have keep: "\<forall>t\<in>set (threads s). thread_ok t" using inv by (simp add: queue_inv_def)
  show ?thesis
  proof (cases ev)
    case (Run i c)
    with f have i: "i < length (threads s)" "t_prog (threads s ! i) \<noteq> []" by (auto split: if_splits)
    obtain out notify q where o: "perform (hd (t_prog (threads s ! i))) (t_pc (threads s ! i)) (the_queue s) = Inr (out, notify, q)"
      "blocks_ok q"
      "cmq_q (the_queue s) @ log_sent (hd (t_prog (threads s ! i))) out = log_received (hd (t_prog (threads s ! i))) out (the_queue s) @ cmq_q q"
      "enq q = waiters True ((threads s)[i := after out (threads s ! i)])" "deq q = waiters False ((threads s)[i := after out (threads s ! i)])"
      "\<forall>t\<in>set ((threads s)[i := after out (threads s ! i)]). thread_ok t"
      by (rule run_perform [OF inv i])
    with f Run obtain ts where ts: "signal notify c ((threads s)[i := after out (threads s ! i)]) = Some ts"
      and s': "s' = \<lparr>the_queue = q, threads = ts, sent = sent s @ log_sent (hd (t_prog (threads s ! i))) out,
        received = received s @ log_received (hd (t_prog (threads s ! i))) out (the_queue s)\<rparr>"
      by (auto simp: Let_def split: if_splits)
    have n: "perform p at x = Inr (out, notify, y) \<Longrightarrow> cmq_n y = cmq_n x" for p at x y
      by (cases p) (auto simp: perform_defs assertion_eq_Inr bind_res_eq_Inr split: if_splits list.splits)
    from signal_keeps [OF ts o(6)] o n [OF o(1)] inv show ?thesis by (simp add: s' queue_inv_def)
  next
    case (Expire i)
    with f inv wake_keeps [OF _ _ _ keep, where at = Expired] show ?thesis by (auto simp: queue_inv_def split: if_splits)
  next
    case (Spurious i)
    with f inv wake_keeps [OF _ _ _ keep, where at = Signalled] show ?thesis by (auto simp: queue_inv_def split: if_splits)
  qed
qed

lemma start_inv:
  assumes "length progs < SIZE_T" and "\<forall>prog\<in>set progs. \<forall>p\<in>set prog. op_buf p \<noteq> []"
  shows "queue_inv (start capacity progs)"
  using assms by (auto simp: queue_inv_def start_def CMQ_new_def blocks_ok_def waiters_def in_wait_def thread_ok_def filter_empty_conv)

text \<open>
  C7. A queue that any number of threads use, in any interleaving and with any choice of woken threads: what has
  been received is at every moment the first part of what has been sent, in the same order, and the rest is in
  the queue, at most its capacity; the two counters are the numbers of threads that wait to send and
  to receive; and no assertion fails.
\<close>

theorem queue_is_fifo:
  assumes "qstep\<^sup>*\<^sup>* (start capacity progs) s" and "length progs < SIZE_T"
    and "\<forall>prog\<in>set progs. \<forall>p\<in>set prog. op_buf p \<noteq> []"
  shows "sent s = received s @ cmq_q (the_queue s) \<and> length (cmq_q (the_queue s)) \<le> max capacity 1 \<and>
    enq (the_queue s) = length (filter (in_wait True) (threads s)) \<and>
    deq (the_queue s) = length (filter (in_wait False) (threads s)) \<and>
    (\<forall>ev e. fire ev s \<noteq> Some (Inl e))"
proof -
  from assms(1) have "queue_inv s \<and> cmq_n (the_queue s) = max capacity 1"
  proof (induction rule: rtranclp_induct)
    case base
    with start_inv [OF assms(2,3)] show ?case by (simp add: start_def CMQ_new_def max_def)
  next
    case (step s s')
    from step(2) obtain ev where "fire ev s = Some (Inr s')" by (auto elim: qstep.cases)
    with fire_keeps step.IH show ?case by metis
  qed
  with fire_ok show ?thesis by (auto simp: queue_inv_def blocks_ok_def waiters_def)
qed

fun run_events :: "event list \<Rightarrow> qsystem \<Rightarrow> qsystem option" where
  "run_events [] s = Some s"
| "run_events (ev # evs) s = (case fire ev s of Some (Inr s') \<Rightarrow> run_events evs s' | _ \<Rightarrow> None)"

lemma run_events_steps: "run_events evs s = Some s' \<Longrightarrow> qstep\<^sup>*\<^sup>* s s'"
proof (induction evs arbitrary: s)
  case (Cons ev evs)
  then obtain s1 where "fire ev s = Some (Inr s1)" "run_events evs s1 = Some s'"
    by (auto split: option.splits sum.splits)
  with Cons.IH show ?case by (meson converse_rtranclp_into_rtranclp fires)
qed simp

text \<open>
  Two senders and one receiver on a queue for one block. The second block of the first sender and
  the block of the second sender find the queue full; the receiver takes the first block, wakes the
  first sender and waits for the next block. The first sender's notification wakes the second sender,
  which finds the queue full again.
\<close>

definition lost_progs :: "operation list list" where
  "lost_progs = [[Send [1], Send [2]], [Send [3]], [Receive [0], Receive [0], Receive [0]]]"

definition lost_schedule :: "event list" where
  "lost_schedule = [Run 0 None, Run 0 None, Run 1 None, Run 2 (Some 0), Run 2 None, Run 0 (Some 1), Run 1 None]"

definition lost_state :: qsystem where
  "lost_state = \<lparr>the_queue = \<lparr>cmq_q = [[2]], cmq_n = 1, enq = 1, deq = 1\<rparr>,
     threads = [\<lparr>t_pc = Ready, t_prog = [], t_log = [(True, [], 0), (True, [], 0)]\<rparr>,
       \<lparr>t_pc = Waiting, t_prog = [Send [3]], t_log = []\<rparr>,
       \<lparr>t_pc = Waiting, t_prog = [Receive [0], Receive [0]], t_log = [(True, [1], 1)]\<rparr>],
     sent = [[1], [2]], received = [[1]]\<rparr>"

lemma lost_run: "run_events lost_schedule (start 1 lost_progs) = Some lost_state"
  by (simp add: lost_schedule_def lost_progs_def lost_state_def start_def CMQ_new_def perform_defs signal_def notifyConsumer_def
      notifyProducer_def log_sent_def log_received_def) (simp add: sz_add_def sz_sub_def SIZE_T_def)

text \<open>
  C38. A notification can be lost: the one condition variable serves both kinds of waiting threads and
  \<open>notify_one\<close> may wake a sender in place of the receiver. There is a run after which a receiver waits although
  the queue has a block, a sender waits, and no thread will ever run again unless a wait returns for no reason.
\<close>

theorem wakeup_can_be_lost:
  "\<exists>s. qstep\<^sup>*\<^sup>* (start 1 [[Send [1], Send [2]], [Send [3]], [Receive [0], Receive [0], Receive [0]]]) s \<and>
     cmq_q (the_queue s) = [[2]] \<and> t_pc (threads s ! 2) = Waiting \<and> t_prog (threads s ! 2) = [Receive [0], Receive [0]] \<and>
     t_pc (threads s ! 1) = Waiting \<and> (\<forall>i c. fire (Run i c) s = None \<and> fire (Expire i) s = None)"
proof -
  have t: "t_prog (threads lost_state ! i) = [] \<or> t_pc (threads lost_state ! i) = Waiting \<and> \<not> is_timed (hd (t_prog (threads lost_state ! i)))"
    if "i < length (threads lost_state)" for i
    using that by (auto simp: lost_state_def less_Suc_eq)
  have "fire (Run i c) lost_state = None \<and> fire (Expire i) lost_state = None" for i c using t [of i] by auto
  moreover have "qstep\<^sup>*\<^sup>* (start 1 lost_progs) lost_state" by (rule run_events_steps [OF lost_run])
  ultimately show ?thesis by (intro exI [of _ lost_state]) (simp add: lost_progs_def lost_state_def)
qed

theorem queue_is_fifo_witness:
  "\<exists>s. qstep\<^sup>*\<^sup>* (start 1 lost_progs) s \<and> received s = [[1]] \<and> sent s = [[1], [2]] \<and> enq (the_queue s) = 1 \<and>
     (\<forall>ev e. fire ev s \<noteq> Some (Inl e))"
proof -
  have s: "qstep\<^sup>*\<^sup>* (start 1 lost_progs) lost_state" by (rule run_events_steps [OF lost_run])
  have "length lost_progs < SIZE_T" "\<forall>prog\<in>set lost_progs. \<forall>p\<in>set prog. op_buf p \<noteq> []"
    by (simp_all add: lost_progs_def SIZE_T_def)
  from queue_is_fifo [OF s this] s show ?thesis by (intro exI [of _ lost_state]) (auto simp: lost_state_def)
qed

section \<open>One sender and one receiver\<close>

text \<open>Every step of a thread uses up something: an operation, or the readiness of a thread.\<close>

definition readiness :: "qthread \<Rightarrow> nat" where
  "readiness t = 3 * length (t_prog t) + (case t_pc t of Ready \<Rightarrow> 2 | Waiting \<Rightarrow> 0 | _ \<Rightarrow> 1)"

definition work :: "qthread list \<Rightarrow> nat" where
  "work ts = sum_list (map readiness ts)"

lemma work_update: "i < length ts \<Longrightarrow> work (ts[i := t]) + readiness (ts ! i) = work ts + readiness t"
proof (induction ts arbitrary: i)
  case (Cons u ts)
  then show ?case by (cases i) (auto simp: work_def)
qed simp

lemma signal_work:
  assumes "signal notify c ts = Some ts'"
  shows "work ts' \<le> work ts + of_bool notify"
proof (cases "ts' = ts")
  case False
  with assms obtain j where "j < length ts" "t_pc (ts ! j) = Waiting" "ts' = ts[j := (ts ! j)\<lparr>t_pc := Signalled\<rparr>]" notify
    by (auto simp: signal_def split: if_splits option.splits)
  with work_update [of j ts "(ts ! j)\<lparr>t_pc := Signalled\<rparr>"] show ?thesis by (simp add: readiness_def)
qed simp

lemma blocks_no_notify: "perform p at q = Inr (Blocks, notify, q') \<Longrightarrow> \<not> notify"
  by (cases p) (auto simp: perform_defs assertion_eq_Inr bind_res_eq_Inr split: if_splits list.splits)

lemma run_uses_work:
  assumes "fire (Run i c) s = Some (Inr s')"
  shows "work (threads s') < work (threads s)"
proof -
  let ?t = "threads s ! i"
  from assms obtain out notify q where i: "i < length (threads s)" "t_prog ?t \<noteq> []" "t_pc ?t \<noteq> Waiting"
    and p: "perform (hd (t_prog ?t)) (t_pc ?t) (the_queue s) = Inr (out, notify, q)"
    and sg: "signal notify c ((threads s)[i := after out ?t]) = Some (threads s')"
    by (auto simp: Let_def split: if_splits sum.splits)
  have "out = Blocks \<longrightarrow> \<not> notify" using blocks_no_notify p by blast
  then have "readiness (after out ?t) + of_bool notify < readiness ?t"
    using i(2,3) by (cases out; cases "t_pc ?t"; cases "t_prog ?t") (auto simp: readiness_def)
  with signal_work [OF sg] work_update [OF i(1), of "after out ?t"] show ?thesis by linarith
qed

text \<open>
  The state of one sender and one receiver: they never wait at the same time, a waiting sender has
  found the queue full and a waiting receiver has found it empty.
\<close>

fun blocking :: "bool \<Rightarrow> operation \<Rightarrow> bool" where
  "blocking True (Send b) = True"
| "blocking False (Receive b) = True"
| "blocking _ _ = False"

definition spsc :: "bytes list \<Rightarrow> qsystem \<Rightarrow> bool" where
  "spsc ms s \<longleftrightarrow> (\<exists>p c. threads s = [p, c] \<and> list_all (blocking True) (t_prog p) \<and> list_all (blocking False) (t_prog c) \<and>
     length (t_prog c) = length (t_prog p) + length (cmq_q (the_queue s)) \<and> sent s @ map op_buf (t_prog p) = ms \<and>
     (t_pc p = Waiting \<longrightarrow> length (cmq_q (the_queue s)) = cmq_n (the_queue s)) \<and>
     (t_pc c = Waiting \<longrightarrow> cmq_q (the_queue s) = []))"

lemma spsc_counts:
  assumes "queue_inv s" and "threads s = [p, c]" and "list_all (blocking True) (t_prog p)" and "list_all (blocking False) (t_prog c)"
  shows "enq (the_queue s) = of_bool (t_pc p \<noteq> Ready)" "deq (the_queue s) = of_bool (t_pc c \<noteq> Ready)"
proof -
  have "thread_ok p" "thread_ok c" using assms(1,2) by (simp_all add: queue_inv_def)
  then have "t_pc p \<noteq> Ready \<longrightarrow> is_send (hd (t_prog p))" "t_pc c \<noteq> Ready \<longrightarrow> \<not> is_send (hd (t_prog c))"
    using assms(3,4) by (auto simp: thread_ok_def neq_Nil_conv elim!: blocking.elims)
  with assms(1,2) show "enq (the_queue s) = of_bool (t_pc p \<noteq> Ready)" "deq (the_queue s) = of_bool (t_pc c \<noteq> Ready)"
    by (auto simp: queue_inv_def waiters_def in_wait_def)
qed

lemma signal_pair:
  assumes "signal notify ch [p, c] = Some ts"
  shows "t_pc p \<noteq> Waiting \<Longrightarrow> ts = (if notify \<and> t_pc c = Waiting then [p, c\<lparr>t_pc := Signalled\<rparr>] else [p, c])"
    "t_pc c \<noteq> Waiting \<Longrightarrow> ts = (if notify \<and> t_pc p = Waiting then [p\<lparr>t_pc := Signalled\<rparr>, c] else [p, c])"
  using assms by (auto simp: signal_def less_Suc_eq split: if_splits option.splits)

lemma signal_total: "\<exists>ch ts'. signal notify ch ts = Some ts'"
proof (cases "notify \<and> (\<exists>t\<in>set ts. t_pc t = Waiting)")
  case True
  then obtain j where "j < length ts" "t_pc (ts ! j) = Waiting" by (auto simp: in_set_conv_nth)
  with True show ?thesis by (intro exI [of _ "Some j"]) (auto simp: signal_def)
qed (auto simp: signal_def)

text \<open>One step of the sender, and one of the receiver.\<close>

lemma spsc_send:
  assumes inv: "queue_inv s" and sp: "spsc ms s" and f: "fire (Run 0 ch) s = Some (Inr s')"
  shows "spsc ms s'"
proof -
  from sp obtain p c where t: "threads s = [p, c]" "list_all (blocking True) (t_prog p)" "list_all (blocking False) (t_prog c)"
    "length (t_prog c) = length (t_prog p) + length (cmq_q (the_queue s))" "sent s @ map op_buf (t_prog p) = ms"
    and w: "t_pc c = Waiting \<longrightarrow> cmq_q (the_queue s) = []" by (auto simp: spsc_def)
  note cs = spsc_counts [OF inv t(1-3)]
  from f t(1) obtain x prog where pr: "t_prog p = x # prog" and p: "t_pc p \<noteq> Waiting" by (cases "t_prog p") (auto split: if_splits)
  then obtain b where x: "x = Send b" using t(2) by (cases x) auto
  have b: "b \<noteq> []" using inv t(1) pr x by (auto simp: queue_inv_def thread_ok_def)
  have n: "0 < cmq_n (the_queue s)" using inv by (simp add: queue_inv_def blocks_ok_def)
  show ?thesis
  proof (cases "cmq_n (the_queue s) = length (cmq_q (the_queue s))")
    case True
    with f t pr x b p w n show ?thesis
      by (auto simp: spsc_def perform_defs log_sent_def log_received_def dest!: signal_pair(2) split: if_splits)
  next
    case False
    with f t pr x b p cs w show ?thesis
      by (auto simp: spsc_def perform_defs notifyConsumer_def log_sent_def log_received_def dest!: signal_pair(1) split: if_splits)
  qed
qed

lemma spsc_receive:
  assumes inv: "queue_inv s" and sp: "spsc ms s" and f: "fire (Run 1 ch) s = Some (Inr s')"
  shows "spsc ms s'"
proof -
  from sp obtain p c where t: "threads s = [p, c]" "list_all (blocking True) (t_prog p)" "list_all (blocking False) (t_prog c)"
    "length (t_prog c) = length (t_prog p) + length (cmq_q (the_queue s))" "sent s @ map op_buf (t_prog p) = ms"
    and w: "t_pc p = Waiting \<longrightarrow> length (cmq_q (the_queue s)) = cmq_n (the_queue s)" by (auto simp: spsc_def)
  note cs = spsc_counts [OF inv t(1-3)]
  from f t(1) obtain x prog where pr: "t_prog c = x # prog" and c: "t_pc c \<noteq> Waiting" by (cases "t_prog c") (auto split: if_splits)
  then obtain b where x: "x = Receive b" using t(3) by (cases x) auto
  have b: "b \<noteq> []" using inv t(1) pr x by (auto simp: queue_inv_def thread_ok_def)
  have n: "0 < cmq_n (the_queue s)" "\<forall>b\<in>set (cmq_q (the_queue s)). b \<noteq> []" using inv by (simp_all add: queue_inv_def blocks_ok_def)
  show ?thesis
  proof (cases "cmq_q (the_queue s)")
    case Nil
    with f t pr x b c w n(1) show ?thesis
      by (auto simp: spsc_def perform_defs log_sent_def log_received_def dest!: signal_pair(1) split: if_splits)
  next
    case (Cons y ys)
    with n(2) have y: "y \<noteq> []" by simp
    from Cons f t pr x b c cs w y show ?thesis
      by (auto simp: spsc_def perform_defs notifyProducer_def log_sent_def log_received_def dest!: signal_pair(2) split: if_splits)
  qed
qed

lemma spsc_run:
  assumes "queue_inv s" and "spsc ms s" and "run_events evs s = Some s'" and "\<forall>ev\<in>set evs. \<exists>i c. ev = Run i c"
  shows "queue_inv s' \<and> spsc ms s' \<and> length evs + work (threads s') \<le> work (threads s)"
  using assms
proof (induction evs arbitrary: s)
  case (Cons ev evs)
  then obtain i c s1 where ev: "ev = Run i c" and f: "fire (Run i c) s = Some (Inr s1)" "run_events evs s1 = Some s'"
    by (auto split: option.splits sum.splits)
  from f(1) Cons.prems(2) have "i = 0 \<or> i = 1" by (auto simp: spsc_def split: if_splits)
  then have "spsc ms s1" using spsc_send [OF Cons.prems(1,2)] spsc_receive [OF Cons.prems(1,2)] f(1) by auto
  with Cons.IH [of s1] fire_keeps [OF Cons.prems(1) f(1)] f(2) run_uses_work [OF f(1)] Cons.prems(4) show ?case by simp
qed simp

lemma run_none_idle:
  assumes "queue_inv s" and "\<forall>i c. fire (Run i c) s = None" and "i < length (threads s)"
  shows "t_prog (threads s ! i) = [] \<or> t_pc (threads s ! i) = Waiting"
proof (rule ccontr)
  assume a: "\<not> (t_prog (threads s ! i) = [] \<or> t_pc (threads s ! i) = Waiting)"
  with run_perform [OF assms(1,3)] obtain out notify q where
    p: "perform (hd (t_prog (threads s ! i))) (t_pc (threads s ! i)) (the_queue s) = Inr (out, notify, q)" by metis
  obtain ch ts where "signal notify ch ((threads s)[i := after out (threads s ! i)]) = Some ts"
    using signal_total by blast
  with a p assms(3) have "fire (Run i ch) s \<noteq> None" by (simp add: Let_def)
  with assms(2) [rule_format, of i ch] show False by contradiction
qed

lemma spsc_stopped:
  assumes "queue_inv s" and "spsc ms s" and "\<forall>i c. fire (Run i c) s = None"
  shows "received s = ms \<and> (\<forall>t\<in>set (threads s). t_prog t = [])"
proof -
  from assms(2) obtain p c where t: "threads s = [p, c]" 
    "length (t_prog c) = length (t_prog p) + length (cmq_q (the_queue s))" "sent s @ map op_buf (t_prog p) = ms"
    "t_pc p = Waiting \<longrightarrow> length (cmq_q (the_queue s)) = cmq_n (the_queue s)" "t_pc c = Waiting \<longrightarrow> cmq_q (the_queue s) = []"
    by (auto simp: spsc_def)
  have idle: "t_prog p = [] \<or> t_pc p = Waiting" "t_prog c = [] \<or> t_pc c = Waiting"
    using run_none_idle [OF assms(1,3), of 0] run_none_idle [OF assms(1,3), of 1] t(1) by simp_all
  have n: "0 < cmq_n (the_queue s)" using assms(1) by (simp add: queue_inv_def blocks_ok_def)
  have pq: "t_prog p = []"
  proof (rule ccontr)
    assume a: "t_prog p \<noteq> []"
    with idle(1) t(4) n have "cmq_q (the_queue s) \<noteq> []" by auto
    moreover have "t_prog c \<noteq> []" using a t(2) by auto
    ultimately show False using idle(2) t(5) by auto
  qed
  moreover have cq: "t_prog c = []" using idle(2) t(2,5) pq by (metis list.size(3) add_0 length_0_conv)
  ultimately show ?thesis using t(1-3) assms(1) by (simp add: queue_inv_def)
qed

text \<open>
  C27. One sender and one receiver of equally many blocks never lose a notification: every run of the two threads
  ends after at most \<open>6 * length ms + 4\<close> steps, and when it cannot go on, everything has been sent and
  received, in order.
\<close>

theorem one_sender_one_receiver:
  assumes "run_events evs (start capacity [map Send ms, map Receive bufs]) = Some s"
    and "\<forall>ev\<in>set evs. \<exists>i c. ev = Run i c" and "length bufs = length ms" and "[] \<notin> set ms" and "[] \<notin> set bufs"
  shows "length evs \<le> 6 * length ms + 4 \<and>
    ((\<forall>i c. fire (Run i c) s = None) \<longrightarrow> received s = ms \<and> (\<forall>t\<in>set (threads s). t_prog t = []))"
proof -
  let ?s = "start capacity [map Send ms, map Receive bufs]"
  have i: "queue_inv ?s" by (rule start_inv) (use assms(4,5) in \<open>auto simp: SIZE_T_def\<close>)
  have sp: "spsc ms ?s" using assms(3) by (auto simp: spsc_def start_def CMQ_new_def list_all_iff comp_def)
  from spsc_run [OF i sp assms(1,2)] have inv: "queue_inv s" "spsc ms s" "length evs \<le> work (threads ?s)" by auto
  have "work (threads ?s) = 6 * length ms + 4" using assms(3) by (simp add: work_def start_def readiness_def)
  with inv(3) have "length evs \<le> 6 * length ms + 4" by (simp only:)
  with spsc_stopped [OF inv(1,2)] show ?thesis by blast
qed

theorem one_sender_one_receiver_witness:
  "\<exists>s. run_events [Run 1 None, Run 0 (Some 1), Run 1 None] (start 1 [map Send [[1]], map Receive [[0]]]) = Some s \<and> received s = [[1]]"
proof -
  let ?evs = "[Run 1 None, Run 0 (Some 1), Run 1 None]"
  let ?s = "\<lparr>the_queue = \<lparr>cmq_q = [], cmq_n = 1, enq = 0, deq = 0\<rparr>,
     threads = [\<lparr>t_pc = Ready, t_prog = [], t_log = [(True, [], 0)]\<rparr>, \<lparr>t_pc = Ready, t_prog = [], t_log = [(True, [1], 1)]\<rparr>],
     sent = [[1]], received = [[1]]\<rparr>"
  have r: "run_events ?evs (start 1 [map Send [[1]], map Receive [[0]]]) = Some ?s"
    by (simp add: start_def CMQ_new_def perform_defs signal_def notifyConsumer_def notifyProducer_def log_sent_def log_received_def)
      (simp add: sz_add_def sz_sub_def SIZE_T_def)
  have stop: "\<forall>i c. fire (Run i c) ?s = None"
    by (auto simp: less_Suc_eq nth_Cons')
  have a: "\<forall>ev\<in>set ?evs. \<exists>i c. ev = Run i c" "length [[0 :: 8 word]] = length [[1 :: 8 word]]" "[] \<notin> set [[1 :: 8 word]]" "[] \<notin> set [[0 :: 8 word]]"
    by simp_all
  have "received ?s = [[1]]"
    by (rule conjunct1 [OF mp [OF conjunct2 [OF one_sender_one_receiver [OF r a]] stop]])
  with r show ?thesis by blast
qed

end
