(* ===== verification/Message_Dispatcher.thy ===== *)
theory Message_Dispatcher
  imports Message_Queue
begin

unbundle bit_operations_syntax

text \<open>
  \<open>NewConcurrentMessageDispatcher\<close>: the table of all message queues of a server, and sending and receiving
  of pointers through them.
\<close>

section \<open>Pointers as blocks\<close>

text \<open>
  A message is sent by copying the eight bytes of its pointer into the queue; the bytes of a pointer
  are those of a little-endian machine.
\<close>

type_synonym ptr = "64 word"

definition ptr_bytes :: "ptr \<Rightarrow> bytes" where
  "ptr_bytes p = map (\<lambda>i. ucast (drop_bit (8 * i) p)) [0..<8]"

fun bytes_ptr :: "bytes \<Rightarrow> ptr" where
  "bytes_ptr [] = 0"
| "bytes_ptr (b # bs) = ucast b OR push_bit 8 (bytes_ptr bs)"

lemma length_ptr_bytes [simp]: "length (ptr_bytes p) = 8"
  by (simp add: ptr_bytes_def)

lemma ptr_bytes_Nil [simp]: "ptr_bytes p \<noteq> []"
  by (metis length_ptr_bytes list.size(3) zero_neq_numeral)

lemma bit_bytes_ptr:
  "bit (bytes_ptr bs) k \<longleftrightarrow> k < 64 \<and> k div 8 < length bs \<and> bit (bs ! (k div 8)) (k mod 8)"
proof (induction bs arbitrary: k)
  case (Cons b bs)
  show ?case
  proof (cases "k < 8")
    case True
    then show ?thesis by (simp add: bit_simps)
  next
    case False
    then obtain j where k: "k = 8 + j" using le_Suc_ex not_less by blast
    have "bit b n \<Longrightarrow> n < 8" for n using bit_imp_le_length [of b n] by simp
    with False have nb: "\<not> bit b k" by auto
    have d: "k div 8 = Suc (j div 8)" "k mod 8 = j mod 8" by (simp_all add: k)
    have "bit (bytes_ptr (b # bs)) k \<longleftrightarrow> k < 64 \<and> bit (bytes_ptr bs) j"
      using nb False by (auto simp: bit_simps k)
    then show ?thesis using Cons.IH [of j] unfolding d by (auto simp: k)
  qed
qed simp

lemma bytes_ptr_bytes [simp]: "bytes_ptr (ptr_bytes p) = p"
proof (rule bit_word_eqI)
  fix k assume "k < LENGTH(64)"
  then have k: "k < 64" "k div 8 < 8" by auto
  have "k mod 8 < 8" by simp
  then show "bit (bytes_ptr (ptr_bytes p)) k = bit p k"
    using k by (simp add: bit_bytes_ptr ptr_bytes_def bit_simps)
qed

lemma ptr_bytes_inj [simp]: "ptr_bytes p = ptr_bytes q \<longleftrightarrow> p = q"
  by (metis bytes_ptr_bytes)

section \<open>The table of queues\<close>

datatype MQIDs =
    REQUEST_DISPATCHER_MQ | OUTPUT_DISPATCHER_MQ | JOINER_DISPATCHER_MQ | SEPARATOR
  | REQUEST_MQ | CYCLE_BREAKER_MQ | NEIGHBOR_OUT_MQ | NEIGHBOR_IN_MQ | JOIN_IN_MQ
  | EVAL_IN_MQ | EVAL_OUT_MQ | OUTPUT_MQ | JOIN_OUT_MQ | END_OF_MQ

primrec mq_num :: "MQIDs \<Rightarrow> nat" where
  "mq_num REQUEST_DISPATCHER_MQ = 0"
| "mq_num OUTPUT_DISPATCHER_MQ = 1"
| "mq_num JOINER_DISPATCHER_MQ = 2"
| "mq_num SEPARATOR = 3"
| "mq_num REQUEST_MQ = 4"
| "mq_num CYCLE_BREAKER_MQ = 5"
| "mq_num NEIGHBOR_OUT_MQ = 6"
| "mq_num NEIGHBOR_IN_MQ = 7"
| "mq_num JOIN_IN_MQ = 8"
| "mq_num EVAL_IN_MQ = 9"
| "mq_num EVAL_OUT_MQ = 10"
| "mq_num OUTPUT_MQ = 11"
| "mq_num JOIN_OUT_MQ = 12"
| "mq_num END_OF_MQ = 13"

text \<open>An entry of the table is a shared pointer, which may be null.\<close>

record MessageDispatcher =
  queue_size :: nat
  cmqs :: "ConcurrentMessageQueue option list list"

definition one_dim :: "MQIDs \<Rightarrow> bool" where
  "one_dim mq \<longleftrightarrow> mq_num mq < mq_num SEPARATOR"

definition two_dim :: "MQIDs \<Rightarrow> bool" where
  "two_dim mq \<longleftrightarrow> mq_num SEPARATOR < mq_num mq \<and> mq_num mq < mq_num END_OF_MQ"

definition mq_index :: "MQIDs \<Rightarrow> nat" where
  "mq_index mq = mq_num mq - mq_num SEPARATOR"

definition registerMQ :: "MessageDispatcher \<Rightarrow> ConcurrentMessageQueue \<Rightarrow> MQIDs \<Rightarrow> MessageDispatcher res" where
  "registerMQ md mq i = assertion (one_dim i)
     (bind_res (vec_at (cmqs md) 0) (\<lambda>v.
       if mq_num i < length v then Inr (md\<lparr>cmqs := (cmqs md)[0 := v[mq_num i := Some mq]]\<rparr>) else Inl Undefined_Behaviour))"

text \<open>Putting a queue at a position of a vector, which grows if it has to.\<close>

definition put_mq :: "'q option list \<Rightarrow> nat \<Rightarrow> 'q \<Rightarrow> 'q option list" where
  "put_mq v i mq = (if i < length v then v[i := Some mq]
     else if i = length v then v @ [Some mq]
     else (v @ replicate (i + 1 - length v) None)[i := Some mq])"

definition registerMQ_at :: "MessageDispatcher \<Rightarrow> ConcurrentMessageQueue \<Rightarrow> MQIDs \<Rightarrow> nat \<Rightarrow> MessageDispatcher res" where
  "registerMQ_at md mq type i = assertion (two_dim type)
     (bind_res (vec_at (cmqs md) (mq_index type)) (\<lambda>v.
       Inr (md\<lparr>cmqs := (cmqs md)[mq_index type := put_mq v i mq]\<rparr>)))"

definition getMQ :: "MessageDispatcher \<Rightarrow> MQIDs \<Rightarrow> ConcurrentMessageQueue option res" where
  "getMQ md i = assertion (one_dim i) (bind_res (vec_at (cmqs md) 0) (\<lambda>v. vec_at v (mq_num i)))"

definition getMQ_at :: "MessageDispatcher \<Rightarrow> MQIDs \<Rightarrow> nat \<Rightarrow> ConcurrentMessageQueue option res" where
  "getMQ_at md type i = assertion (two_dim type)
     (bind_res (vec_at (cmqs md) (mq_index type)) (\<lambda>v. assertion (i < length v) (vec_at v i)))"

definition createAndRegisterMQ :: "MessageDispatcher \<Rightarrow> MQIDs \<Rightarrow> (nat \<times> MessageDispatcher) res" where
  "createAndRegisterMQ md type = assertion (two_dim type)
     (bind_res (vec_at (cmqs md) (mq_index type)) (\<lambda>v.
       Inr (length v, md\<lparr>cmqs := (cmqs md)[mq_index type := v @ [Some (CMQ_new (queue_size md))]]\<rparr>)))"

definition createAndRegisterMQ_at :: "MessageDispatcher \<Rightarrow> MQIDs \<Rightarrow> nat \<Rightarrow> MessageDispatcher res" where
  "createAndRegisterMQ_at md type i = assertion (two_dim type)
     (bind_res (vec_at (cmqs md) (mq_index type)) (\<lambda>v.
       Inr (md\<lparr>cmqs := (cmqs md)[mq_index type := put_mq v i (CMQ_new (queue_size md))]\<rparr>)))"

fun register_neighbors :: "MessageDispatcher \<Rightarrow> nat \<Rightarrow> nat list \<Rightarrow> MessageDispatcher res" where
  "register_neighbors md k [] = Inr md"
| "register_neighbors md k (i # is) =
     bind_res (registerMQ_at md (CMQ_new k) NEIGHBOR_IN_MQ i) (\<lambda>md.
     bind_res (registerMQ_at md (CMQ_new k) NEIGHBOR_OUT_MQ i) (\<lambda>md.
       register_neighbors md k is))"

definition init_mqs :: "MessageDispatcher \<Rightarrow> nat \<Rightarrow> nat \<Rightarrow> MessageDispatcher res" where
  "init_mqs md k no_neighbors =
     (let md = md\<lparr>cmqs := cmqs md @ [replicate (mq_num SEPARATOR) None]\<rparr> in
      bind_res (registerMQ md (CMQ_new k) REQUEST_DISPATCHER_MQ) (\<lambda>md.
      bind_res (registerMQ md (CMQ_new k) OUTPUT_DISPATCHER_MQ) (\<lambda>md.
      bind_res (registerMQ md (CMQ_new k) JOINER_DISPATCHER_MQ) (\<lambda>md.
        register_neighbors (md\<lparr>cmqs := cmqs md @ replicate (mq_num JOIN_OUT_MQ - mq_num SEPARATOR) []\<rparr>) k [0..<no_neighbors]))))"

definition MessageDispatcher_new :: "nat \<Rightarrow> nat \<Rightarrow> MessageDispatcher res" where
  "MessageDispatcher_new k no_neighbors = init_mqs \<lparr>queue_size = k, cmqs = []\<rparr> k no_neighbors"

section \<open>Sending and receiving\<close>

text \<open>
  Seen from one thread while the others rest: an operation that would wait is \<open>Blocked\<close>, a timed one
  runs into its time limit. \<open>obj p\<close> are the first eight bytes of the object at \<open>p\<close>.
\<close>

definition finish_send :: "(outcome \<times> bool \<times> ConcurrentMessageQueue) res \<Rightarrow> (bool \<times> ConcurrentMessageQueue) res" where
  "finish_send r = bind_res r (\<lambda>(out, _, q). case out of Blocks \<Rightarrow> Inl Blocked | Returns ret _ _ \<Rightarrow> Inr (ret, q))"

definition send_cmq :: "(ptr \<Rightarrow> bytes) \<Rightarrow> ConcurrentMessageQueue option \<Rightarrow> ptr \<Rightarrow> int \<Rightarrow> (bool \<times> ConcurrentMessageQueue) res" where
  "send_cmq obj cmq mess msecs = (case cmq of None \<Rightarrow> Inl Assertion_Failed
     | Some q \<Rightarrow>
       if 0 < msecs then bind_res (timed_send (ptr_bytes mess) Ready q) (\<lambda>(out, n, q').
         if out = Blocks then finish_send (timed_send (ptr_bytes mess) Expired q') else finish_send (Inr (out, n, q')))
       else if msecs < 0 then finish_send (try_send (obj mess) q)
       else finish_send (send (ptr_bytes mess) Ready q))"

definition finish_receive :: "(outcome \<times> bool \<times> ConcurrentMessageQueue) res \<Rightarrow> (ptr \<times> ConcurrentMessageQueue) res" where
  "finish_receive r = bind_res r (\<lambda>(out, _, q). case out of Blocks \<Rightarrow> Inl Blocked
     | Returns ret buf recvd \<Rightarrow> if ret then assertion (recvd = 8) (Inr (bytes_ptr buf, q)) else Inr (0, q))"

definition receive_cmq :: "ConcurrentMessageQueue option \<Rightarrow> int \<Rightarrow> (ptr \<times> ConcurrentMessageQueue) res" where
  "receive_cmq cmq msecs = (case cmq of None \<Rightarrow> Inl Assertion_Failed
     | Some q \<Rightarrow>
       if 0 < msecs then bind_res (timed_receive (ptr_bytes 0) Ready q) (\<lambda>(out, n, q').
         if out = Blocks then finish_receive (timed_receive (ptr_bytes 0) Expired q') else finish_receive (Inr (out, n, q')))
       else if msecs < 0 then finish_receive (try_receive (ptr_bytes 0) q)
       else finish_receive (receive (ptr_bytes 0) Ready q))"

definition set_mq :: "MessageDispatcher \<Rightarrow> nat \<Rightarrow> nat \<Rightarrow> ConcurrentMessageQueue \<Rightarrow> MessageDispatcher" where
  "set_mq md a b q = md\<lparr>cmqs := (cmqs md)[a := (cmqs md ! a)[b := Some q]]\<rparr>"

definition md_send :: "(ptr \<Rightarrow> bytes) \<Rightarrow> MessageDispatcher \<Rightarrow> MQIDs \<Rightarrow> ptr \<Rightarrow> int \<Rightarrow> (bool \<times> MessageDispatcher) res" where
  "md_send obj md i mess msecs = assertion (one_dim i)
     (bind_res (getMQ md i) (\<lambda>cmq. bind_res (send_cmq obj cmq mess msecs) (\<lambda>(ret, q).
       Inr (ret, set_mq md 0 (mq_num i) q))))"

definition md_send_at :: "(ptr \<Rightarrow> bytes) \<Rightarrow> MessageDispatcher \<Rightarrow> MQIDs \<Rightarrow> nat \<Rightarrow> ptr \<Rightarrow> int \<Rightarrow> (bool \<times> MessageDispatcher) res" where
  "md_send_at obj md type i mess msecs = assertion (two_dim type)
     (bind_res (getMQ_at md type i) (\<lambda>cmq. bind_res (send_cmq obj cmq mess msecs) (\<lambda>(ret, q).
       Inr (ret, set_mq md (mq_index type) i q))))"

definition md_receive :: "MessageDispatcher \<Rightarrow> MQIDs \<Rightarrow> int \<Rightarrow> (ptr \<times> MessageDispatcher) res" where
  "md_receive md i msecs = assertion (one_dim i)
     (bind_res (getMQ md i) (\<lambda>cmq. bind_res (receive_cmq cmq msecs) (\<lambda>(mess, q).
       Inr (mess, set_mq md 0 (mq_num i) q))))"

definition md_receive_at :: "MessageDispatcher \<Rightarrow> MQIDs \<Rightarrow> nat \<Rightarrow> int \<Rightarrow> (ptr \<times> MessageDispatcher) res" where
  "md_receive_at md type i msecs = assertion (two_dim type)
     (bind_res (getMQ_at md type i) (\<lambda>cmq. bind_res (receive_cmq cmq msecs) (\<lambda>(mess, q).
       Inr (mess, set_mq md (mq_index type) i q))))"

section \<open>Mailboxes\<close>

text \<open>
  What the threads of a server rely on: a message posted to a box arrives there, after those that were
  posted before, and nowhere else, as long as the box has room.
\<close>

fun post_all :: "('s \<Rightarrow> 'b \<Rightarrow> 'm \<Rightarrow> 's res) \<Rightarrow> 's \<Rightarrow> ('b \<times> 'm) list \<Rightarrow> 's res" where
  "post_all post s [] = Inr s"
| "post_all post s ((b, m) # bms) = bind_res (post s b m) (\<lambda>s. post_all post s bms)"

text \<open>The loop of a thread that receives until it gets a null pointer.\<close>

fun receive_loop :: "nat \<Rightarrow> ('s \<Rightarrow> ('m \<times> 's) res) \<Rightarrow> 'm \<Rightarrow> ('m \<Rightarrow> 's \<Rightarrow> 's res) \<Rightarrow> 's \<Rightarrow> 's res" where
  "receive_loop 0 recv null body s = Inl Out_Of_Fuel"
| "receive_loop (Suc fuel) recv null body s = bind_res (recv s) (\<lambda>(m, s).
     if m = null then Inr s else bind_res (body m s) (receive_loop fuel recv null body))"

definition to_box :: "'b \<Rightarrow> ('b \<times> 'm) list \<Rightarrow> 'm list" where
  "to_box b bms = map snd (filter (\<lambda>x. fst x = b) bms)"

lemma to_box_simps [simp]:
  "to_box b [] = []" "to_box b ((c, m) # bms) = (if c = b then m # to_box b bms else to_box b bms)"
  "to_box b (xs @ ys) = to_box b xs @ to_box b ys"
  by (simp_all add: to_box_def)

locale mailboxes =
  fixes ok :: "'s \<Rightarrow> bool" and post :: "'s \<Rightarrow> 'b \<Rightarrow> 'm \<Rightarrow> 's res" and fetch :: "'s \<Rightarrow> 'b \<Rightarrow> ('m \<times> 's) res"
    and mail :: "'s \<Rightarrow> 'b \<Rightarrow> 'm list" and room :: "'s \<Rightarrow> 'b \<Rightarrow> nat"
  assumes post_ok: "ok s \<Longrightarrow> 0 < room s b \<Longrightarrow> \<exists>s'. post s b m = Inr s' \<and> ok s' \<and>
      mail s' = (mail s)(b := mail s b @ [m]) \<and> room s' = (room s)(b := room s b - 1)"
    and fetch_ok: "ok s \<Longrightarrow> mail s b = m # ms \<Longrightarrow> \<exists>s'. fetch s b = Inr (m, s') \<and> ok s' \<and>
      mail s' = (mail s)(b := ms) \<and> room s' = (room s)(b := room s b + 1)"
begin

lemma post_all_ok:
  assumes "ok s" and "\<forall>b. length (to_box b bms) \<le> room s b"
  shows "\<exists>s'. post_all post s bms = Inr s' \<and> ok s' \<and> (\<forall>b. mail s' b = mail s b @ to_box b bms) \<and>
    (\<forall>b. room s' b = room s b - length (to_box b bms))"
  using assms
proof (induction bms arbitrary: s)
  case (Cons x bms)
  obtain c m where x: "x = (c, m)" by fastforce
  from Cons.prems(2) x have "0 < room s c" by (auto dest!: spec [of _ c])
  from post_ok [OF Cons.prems(1) this, of m] obtain s1 where
    s1: "post s c m = Inr s1" "ok s1" "mail s1 = (mail s)(c := mail s c @ [m])" "room s1 = (room s)(c := room s c - 1)" by blast
  have "length (to_box b bms) \<le> room s1 b" for b
    using spec [OF Cons.prems(2), of b] unfolding x s1(4) by (cases "b = c") auto
  then have "\<forall>b. length (to_box b bms) \<le> room s1 b" by blast
  from Cons.IH [OF s1(2) this] obtain s' where
    "post_all post s1 bms = Inr s'" "ok s'" "\<forall>b. mail s' b = mail s1 b @ to_box b bms"
    "\<forall>b. room s' b = room s1 b - length (to_box b bms)" by blast
  with s1 show ?case by (simp add: x)
qed simp

text \<open>A thread that passes every message on to other boxes.\<close>

lemma receive_loop_ok:
  assumes "ok s" and "mail s src = ms @ null # rest" and "null \<notin> set ms"
    and "\<And>m s. m \<in> set ms \<Longrightarrow> body m s = post_all post s (route m)"
    and "\<forall>m\<in>set ms. src \<notin> fst ` set (route m)"
    and "\<forall>b. length (to_box b (concat (map route ms))) \<le> room s b" and "length ms < fuel"
  shows "\<exists>s'. receive_loop fuel (\<lambda>s. fetch s src) null body s = Inr s' \<and> ok s' \<and>
    mail s' = (\<lambda>b. if b = src then rest else mail s b @ to_box b (concat (map route ms)))"
  using assms
proof (induction ms arbitrary: s fuel)
  case Nil
  then obtain f where f: "fuel = Suc f" by (cases fuel) auto
  from Nil fetch_ok [of s src null rest] obtain s' where
    "fetch s src = Inr (null, s')" "ok s'" "mail s' = (mail s)(src := rest)" by auto
  then show ?case by (auto simp: f fun_eq_iff)
next
  case (Cons m ms)
  then obtain f where f: "fuel = Suc f" "length ms < f" by (cases fuel) auto
  from Cons.prems(1,2) fetch_ok [of s src m "ms @ null # rest"] obtain s1 where
    s1: "fetch s src = Inr (m, s1)" "ok s1" "mail s1 = (mail s)(src := ms @ null # rest)" "room s1 = (room s)(src := room s src + 1)"
    by auto
  have le: "length (to_box b (route m)) + length (to_box b (concat (map route ms))) \<le> room s1 b" for b
    using Cons.prems(6) s1(4) by (auto dest!: spec [of _ b])
  from post_all_ok [OF s1(2), of "route m"] le obtain s2 where
    s2: "post_all post s1 (route m) = Inr s2" "ok s2" "\<forall>b. mail s2 b = mail s1 b @ to_box b (route m)"
    "\<forall>b. room s2 b = room s1 b - length (to_box b (route m))" by (meson add_leD1)
  have ns: "to_box src (route m) = []" using Cons.prems(5) by (force simp: to_box_def filter_empty_conv)
  have "mail s2 src = ms @ null # rest" using s2(3) s1(3) ns by simp
  moreover have "\<forall>b. length (to_box b (concat (map route ms))) \<le> room s2 b" using le s2(4) by (metis add_le_imp_le_diff add.commute)
  ultimately obtain s' where r: "receive_loop f (\<lambda>s. fetch s src) null body s2 = Inr s'" "ok s'"
    "mail s' = (\<lambda>b. if b = src then rest else mail s2 b @ to_box b (concat (map route ms)))"
    using Cons.IH [of s2 f] Cons.prems(3-5) s2(2) f(2) by auto
  have "m \<noteq> null" "body m s1 = Inr s2" using Cons.prems(3,4) s2(1) by auto
  with r s1 s2(3) show ?case by (auto simp: f fun_eq_iff)
qed

end

text \<open>The boxes of a dispatcher.\<close>

datatype box = Box MQIDs | Box_At MQIDs nat

fun slot :: "box \<Rightarrow> nat \<times> nat" where
  "slot (Box i) = (0, mq_num i)"
| "slot (Box_At type i) = (mq_index type, i)"

fun proper :: "box \<Rightarrow> bool" where
  "proper (Box i) = one_dim i"
| "proper (Box_At type i) = two_dim type"

definition queue_at :: "MessageDispatcher \<Rightarrow> box \<Rightarrow> ConcurrentMessageQueue option" where
  "queue_at md b = (case slot b of (i, j) \<Rightarrow>
     if proper b \<and> i < length (cmqs md) \<and> j < length (cmqs md ! i) then cmqs md ! i ! j else None)"

definition mail :: "MessageDispatcher \<Rightarrow> box \<Rightarrow> ptr list" where
  "mail md b = (case queue_at md b of None \<Rightarrow> [] | Some q \<Rightarrow> map bytes_ptr (cmq_q q))"

definition room :: "MessageDispatcher \<Rightarrow> box \<Rightarrow> nat" where
  "room md b = (case queue_at md b of None \<Rightarrow> 0 | Some q \<Rightarrow> cmq_n q - length (cmq_q q))"

definition md_ok :: "MessageDispatcher \<Rightarrow> bool" where
  "md_ok md \<longleftrightarrow> (\<forall>b q. queue_at md b = Some q \<longrightarrow> length (cmq_q q) \<le> cmq_n q \<and> (\<forall>x\<in>set (cmq_q q). length x = 8))"

fun post :: "(ptr \<Rightarrow> bytes) \<Rightarrow> MessageDispatcher \<Rightarrow> box \<Rightarrow> ptr \<Rightarrow> MessageDispatcher res" where
  "post obj md (Box i) m = bind_res (md_send obj md i m 0) (\<lambda>(_, md). Inr md)"
| "post obj md (Box_At type i) m = bind_res (md_send_at obj md type i m 0) (\<lambda>(_, md). Inr md)"

fun fetch :: "MessageDispatcher \<Rightarrow> box \<Rightarrow> (ptr \<times> MessageDispatcher) res" where
  "fetch md (Box i) = md_receive md i 0"
| "fetch md (Box_At type i) = md_receive_at md type i 0"

lemma mq_num_inj: "mq_num x = mq_num y \<longleftrightarrow> x = y"
  by (cases x; cases y) simp_all

lemma slot_inj:
  assumes "proper a" and "proper b"
  shows "slot a = slot b \<longleftrightarrow> a = b"
proof (cases a; cases b)
  fix t i u j assume "a = Box_At t i" "b = Box_At u j"
  with assms mq_num_inj [of t u] show ?thesis by (auto simp: two_dim_def mq_index_def)
qed (use assms mq_num_inj in \<open>auto simp: two_dim_def one_dim_def mq_index_def\<close>)

lemma queue_at_set:
  assumes "queue_at md b = Some q0" and "slot b = (i, j)"
  shows "queue_at (set_mq md i j q) c = (if c = b then Some q else queue_at md c)"
proof -
  from assms have b: "proper b" "i < length (cmqs md)" "j < length (cmqs md ! i)" by (auto simp: queue_at_def split: if_splits)
  show ?thesis
  proof (cases "c = b")
    case True
    with b assms show ?thesis by (simp add: queue_at_def set_mq_def)
  next
    case False
    show ?thesis
    proof (cases "proper c \<and> slot c = (i, j)")
      case True
      with False slot_inj [of c b] b(1) assms(2) show ?thesis by auto
    next
      case nf: False
      obtain x y where "slot c = (x, y)" by fastforce
      with nf False b show ?thesis by (auto simp: queue_at_def set_mq_def nth_list_update)
    qed
  qed
qed

lemma get_queue:
  assumes "queue_at md b = Some q"
  shows "b = Box i \<Longrightarrow> one_dim i \<and> getMQ md i = Inr (Some q)" "b = Box_At t k \<Longrightarrow> two_dim t \<and> getMQ_at md t k = Inr (Some q)"
  using assms by (auto simp: queue_at_def getMQ_def getMQ_at_def vec_at_def split: if_splits)

interpretation md_boxes: mailboxes md_ok "post obj" fetch mail room
  for obj
proof
  fix md b m
  assume ok: "md_ok md" and r: "0 < room md b"
  from r obtain q where q: "queue_at md b = Some q" "length (cmq_q q) < cmq_n q" by (auto simp: room_def split: option.splits)
  obtain i j where sl: "slot b = (i, j)" by fastforce
  let ?q = "q\<lparr>cmq_q := cmq_q q @ [ptr_bytes m]\<rparr>"
  have "send_cmq obj (Some q) m 0 = Inr (True, ?q)"
    using q(2) by (simp add: send_cmq_def finish_send_def perform_defs)
  then have "post obj md b m = Inr (set_mq md i j ?q)" using get_queue [OF q(1)] sl
    by (cases b) (auto simp: md_send_def md_send_at_def)
  moreover have "md_ok (set_mq md i j ?q)" using ok q by (auto simp: md_ok_def queue_at_set [OF q(1) sl])
  moreover have "mail (set_mq md i j ?q) = (mail md)(b := mail md b @ [m])" "room (set_mq md i j ?q) = (room md)(b := room md b - 1)"
    using q by (auto simp: mail_def room_def fun_eq_iff queue_at_set [OF q(1) sl])
  ultimately show "\<exists>s'. post obj md b m = Inr s' \<and> md_ok s' \<and> mail s' = (mail md)(b := mail md b @ [m]) \<and>
    room s' = (room md)(b := room md b - 1)" by blast
next
  fix md b m ms
  assume ok: "md_ok md" and m: "mail md b = m # ms"
  from m obtain q x xs where q: "queue_at md b = Some q" "cmq_q q = x # xs" "m = bytes_ptr x" "ms = map bytes_ptr xs"
    by (auto simp: mail_def split: option.splits)
  obtain i j where sl: "slot b = (i, j)" by fastforce
  have "length (cmq_q q) \<le> cmq_n q \<and> (\<forall>x\<in>set (cmq_q q). length x = 8)" using ok q(1) by (simp add: md_ok_def)
  then have x: "length x = 8" "Suc (length xs) \<le> cmq_n q" using q(2) by simp_all
  then have "x \<noteq> []" by auto
  with x q(2,3) have "receive_cmq (Some q) 0 = Inr (m, q\<lparr>cmq_q := xs\<rparr>)"
    by (simp add: receive_cmq_def finish_receive_def perform_defs)
  then have "fetch md b = Inr (m, set_mq md i j (q\<lparr>cmq_q := xs\<rparr>))" using get_queue [OF q(1)] sl
    by (cases b) (auto simp: md_receive_def md_receive_at_def)
  moreover have "md_ok (set_mq md i j (q\<lparr>cmq_q := xs\<rparr>))" using ok q by (auto simp: md_ok_def queue_at_set [OF q(1) sl] dest!: spec)
  moreover have "mail (set_mq md i j (q\<lparr>cmq_q := xs\<rparr>)) = (mail md)(b := ms)"
    "room (set_mq md i j (q\<lparr>cmq_q := xs\<rparr>)) = (room md)(b := room md b + 1)"
    using q x(2) by (auto simp: mail_def room_def fun_eq_iff queue_at_set [OF q(1) sl])
  ultimately show "\<exists>s'. fetch md b = Inr (m, s') \<and> md_ok s' \<and> mail s' = (mail md)(b := ms) \<and> room s' = (room md)(b := room md b + 1)"
    by blast
qed

declare post.simps [simp del] fetch.simps [simp del]

section \<open>Setting up\<close>

lemma length_put_mq: "length (put_mq v i q) = max (length v) (Suc i)"
  by (auto simp: put_mq_def)

lemma nth_put_mq: "j < length (put_mq v i q) \<Longrightarrow>
    put_mq v i q ! j = (if j = i then Some q else if j < length v then v ! j else None)"
  by (auto simp: put_mq_def nth_append nth_list_update)

lemma put_mq_next: "put_mq v (length v) q = v @ [Some q]"
  by (simp add: put_mq_def)

text \<open>The table after the constructor's loop has handled \<open>n\<close> neighbors.\<close>

definition fresh_table :: "nat \<Rightarrow> nat \<Rightarrow> ConcurrentMessageQueue option list list" where
  "fresh_table k n = [replicate 3 (Some (CMQ_new k)), [], [], replicate n (Some (CMQ_new k)), replicate n (Some (CMQ_new k)), [], [], [], [], []]"

lemma register_neighbors_fresh:
  "register_neighbors \<lparr>queue_size = k, cmqs = fresh_table k n\<rparr> k [n..<n + d] = Inr \<lparr>queue_size = k, cmqs = fresh_table k (n + d)\<rparr>"
proof (induction d arbitrary: n)
  case (Suc d)
  have u: "[n..<n + Suc d] = n # [Suc n..<Suc n + d]" by (simp add: upt_conv_Cons)
  have p: "put_mq (replicate n (Some (CMQ_new k))) n (CMQ_new k) = replicate (Suc n) (Some (CMQ_new k))"
    using put_mq_next [of "replicate n (Some (CMQ_new k))" "CMQ_new k"] by (simp add: replicate_append_same)
  have "register_neighbors \<lparr>queue_size = k, cmqs = fresh_table k n\<rparr> k (n # [Suc n..<Suc n + d]) =
      register_neighbors \<lparr>queue_size = k, cmqs = fresh_table k (Suc n)\<rparr> k [Suc n..<Suc n + d]"
    by (simp add: registerMQ_at_def two_dim_def mq_index_def fresh_table_def vec_at_def p eval_nat_numeral)
  then show ?case unfolding u using Suc [of "Suc n"] by simp
qed simp

abbreviation initial_boxes :: "nat \<Rightarrow> box set" where
  "initial_boxes n \<equiv> {Box REQUEST_DISPATCHER_MQ, Box OUTPUT_DISPATCHER_MQ, Box JOINER_DISPATCHER_MQ} \<union>
     Box_At NEIGHBOR_IN_MQ ` {..<n} \<union> Box_At NEIGHBOR_OUT_MQ ` {..<n}"

lemma fresh_dispatcher:
  defines "md k n \<equiv> \<lparr>queue_size = k, cmqs = fresh_table k n\<rparr>"
  shows "MessageDispatcher_new k n = Inr (md k n)"
    "queue_at (md k n) b = (if b \<in> initial_boxes n then Some (CMQ_new k) else None)" "md_ok (md k n)"
proof -
  have "MessageDispatcher_new k n = register_neighbors (md k 0) k [0..<0 + n]"
    by (simp add: md_def MessageDispatcher_new_def init_mqs_def registerMQ_def one_dim_def fresh_table_def vec_at_def eval_nat_numeral)
  then show "MessageDispatcher_new k n = Inr (md k n)" using register_neighbors_fresh [of k 0 n] by (simp add: md_def)
  show q: "queue_at (md k n) b = (if b \<in> initial_boxes n then Some (CMQ_new k) else None)" for b
  proof (cases b)
    case (Box i)
    then show ?thesis by (cases i) (auto simp: md_def queue_at_def one_dim_def fresh_table_def eval_nat_numeral)
  next
    case (Box_At t i)
    then show ?thesis by (cases t) (auto simp: md_def queue_at_def two_dim_def mq_index_def fresh_table_def eval_nat_numeral)
  qed
  show "md_ok (md k n)" by (auto simp: md_ok_def q CMQ_new_def split: if_splits)
qed

text \<open>
  C39. A new dispatcher has the three queues of the dispatcher threads and two queues per neighbor, all empty and
  of the given capacity (at least 1), and no others.
\<close>

theorem dispatcher_new_queues:
  "\<exists>md. MessageDispatcher_new k n = Inr md \<and> md_ok md \<and>
     (\<forall>b. queue_at md b = (if b \<in> {Box REQUEST_DISPATCHER_MQ, Box OUTPUT_DISPATCHER_MQ, Box JOINER_DISPATCHER_MQ} \<union>
        Box_At NEIGHBOR_IN_MQ ` {..<n} \<union> Box_At NEIGHBOR_OUT_MQ ` {..<n} then Some (CMQ_new k) else None))"
  using fresh_dispatcher by blast

text \<open>A queue made on request has a number that was not in use, and the others stay.\<close>

lemma queue_at_create:
  assumes "createAndRegisterMQ md t = Inr (i, md')"
  shows "queue_at md (Box_At t i) = None" "queue_at md' b = (if b = Box_At t i then Some (CMQ_new (queue_size md)) else queue_at md b)"
proof -
  from assms have t: "two_dim t" "mq_index t < length (cmqs md)" "i = length (cmqs md ! mq_index t)"
    and md': "md' = md\<lparr>cmqs := (cmqs md)[mq_index t := cmqs md ! mq_index t @ [Some (CMQ_new (queue_size md))]]\<rparr>"
    by (auto simp: createAndRegisterMQ_def assertion_eq_Inr bind_res_eq_Inr vec_at_eq_Inr)
  show "queue_at md (Box_At t i) = None" using t by (simp add: queue_at_def)
  obtain x y where sl: "slot b = (x, y)" by fastforce
  have "proper b \<and> (x, y) = (mq_index t, i) \<longleftrightarrow> b = Box_At t i" using slot_inj [of b "Box_At t i"] sl t(1) by auto
  with t show "queue_at md' b = (if b = Box_At t i then Some (CMQ_new (queue_size md)) else queue_at md b)"
    by (auto simp: queue_at_def sl md' nth_append nth_list_update)
qed

lemma send_room:
  assumes "md_ok md" and "queue_at md b = Some q" and "length (cmq_q q) < cmq_n q" and "length (obj mess) = 8"
    and "slot b = (x, y)" and "x' = (if 0 \<le> msecs then ptr_bytes mess else obj mess)"
  defines "q' \<equiv> q\<lparr>cmq_q := cmq_q q @ [x']\<rparr>"
  shows "send_cmq obj (Some q) mess msecs = Inr (True, q')" and "md_ok (set_mq md x y q')"
    and "mail (set_mq md x y q') = (mail md)(b := mail md b @ [if 0 \<le> msecs then mess else bytes_ptr (obj mess)])"
proof -
  have "obj mess \<noteq> []" using assms(4) by auto
  then show "send_cmq obj (Some q) mess msecs = Inr (True, q')"
    using assms(3) by (auto simp: assms(6) q'_def send_cmq_def finish_send_def perform_defs)
  show "md_ok (set_mq md x y q')" using assms(1-4) by (auto simp: q'_def assms(6) md_ok_def queue_at_set [OF assms(2,5)])
  show "mail (set_mq md x y q') = (mail md)(b := mail md b @ [if 0 \<le> msecs then mess else bytes_ptr (obj mess)])"
    using assms(2) by (auto simp: q'_def assms(6) mail_def fun_eq_iff queue_at_set [OF assms(2,5)])
qed

lemma receive_mail:
  assumes "md_ok md" and "mail md b = m # ms" and "slot b = (x, y)"
  obtains q q' where "queue_at md b = Some q" and "receive_cmq (Some q) msecs = Inr (m, q')" and "md_ok (set_mq md x y q')"
    and "mail (set_mq md x y q') = (mail md)(b := ms)"
proof -
  from assms(2) obtain q z zs where q: "queue_at md b = Some q" "cmq_q q = z # zs" "m = bytes_ptr z" "ms = map bytes_ptr zs"
    by (auto simp: mail_def split: option.splits)
  let ?q = "q\<lparr>cmq_q := zs\<rparr>"
  have "length (cmq_q q) \<le> cmq_n q \<and> (\<forall>x\<in>set (cmq_q q). length x = 8)" using assms(1) q(1) by (simp add: md_ok_def)
  then have z: "length z = 8" "Suc (length zs) \<le> cmq_n q" using q(2) by simp_all
  then have "z \<noteq> []" by auto
  show ?thesis
  proof (rule that [of q ?q])
    show "queue_at md b = Some q" by (rule q(1))
    show "receive_cmq (Some q) msecs = Inr (m, ?q)" using z \<open>z \<noteq> []\<close> q(2,3) by (auto simp: receive_cmq_def finish_receive_def perform_defs)
    show "md_ok (set_mq md x y ?q)" using assms(1) q by (auto simp: md_ok_def queue_at_set [OF q(1) assms(3)] dest!: spec)
    show "mail (set_mq md x y ?q) = (mail md)(b := ms)"
      using q by (auto simp: mail_def fun_eq_iff queue_at_set [OF q(1) assms(3)])
  qed
qed

text \<open>
  C28. Sending and receiving through the queues of a dispatcher, with and without an index. A pointer that is sent to a queue with
  room is appended to what the queue holds and nothing else changes, when the time given is 0 or positive; with a negative
  time \<open>try_send\<close> is given the pointer itself in place of its address, so the first eight bytes of the message arrive as
  if they were the pointer. Receiving from a queue that holds pointers returns the first of them, whatever the time given, and
  leaves the others and all other queues.
\<close>

theorem dispatcher_send_arrives:
  assumes "md_ok md"
  shows "(0 < room md (Box t) \<longrightarrow> length (obj mess) = 8 \<longrightarrow> (\<exists>md'. md_send obj md t mess msecs = Inr (True, md') \<and> md_ok md' \<and>
      mail md' = (mail md)(Box t := mail md (Box t) @ [if 0 \<le> msecs then mess else bytes_ptr (obj mess)]))) \<and>
    (0 < room md (Box_At t i) \<longrightarrow> length (obj mess) = 8 \<longrightarrow> (\<exists>md'. md_send_at obj md t i mess msecs = Inr (True, md') \<and> md_ok md' \<and>
      mail md' = (mail md)(Box_At t i := mail md (Box_At t i) @ [if 0 \<le> msecs then mess else bytes_ptr (obj mess)]))) \<and>
    (\<forall>m ms. mail md (Box t) = m # ms \<longrightarrow> (\<exists>md'. md_receive md t msecs = Inr (m, md') \<and> md_ok md' \<and>
      mail md' = (mail md)(Box t := ms))) \<and>
    (\<forall>m ms. mail md (Box_At t i) = m # ms \<longrightarrow> (\<exists>md'. md_receive_at md t i msecs = Inr (m, md') \<and> md_ok md' \<and>
      mail md' = (mail md)(Box_At t i := ms)))"
proof (intro conjI impI allI)
  assume r: "0 < room md (Box t)" and o: "length (obj mess) = 8"
  then obtain q where q: "queue_at md (Box t) = Some q" "length (cmq_q q) < cmq_n q" by (auto simp: room_def split: option.splits)
  show "\<exists>md'. md_send obj md t mess msecs = Inr (True, md') \<and> md_ok md' \<and>
      mail md' = (mail md)(Box t := mail md (Box t) @ [if 0 \<le> msecs then mess else bytes_ptr (obj mess)])"
    using send_room [where obj = obj and mess = mess and b = "Box t" and msecs = msecs, OF assms q o _ refl] get_queue(1) [OF q(1) refl] by (simp add: md_send_def)
next
  assume r: "0 < room md (Box_At t i)" and o: "length (obj mess) = 8"
  then obtain q where q: "queue_at md (Box_At t i) = Some q" "length (cmq_q q) < cmq_n q" by (auto simp: room_def split: option.splits)
  show "\<exists>md'. md_send_at obj md t i mess msecs = Inr (True, md') \<and> md_ok md' \<and>
      mail md' = (mail md)(Box_At t i := mail md (Box_At t i) @ [if 0 \<le> msecs then mess else bytes_ptr (obj mess)])"
    using send_room [where obj = obj and mess = mess and b = "Box_At t i" and msecs = msecs, OF assms q o _ refl] get_queue(2) [OF q(1) refl] by (simp add: md_send_at_def)
next
  fix m ms assume "mail md (Box t) = m # ms"
  then show "\<exists>md'. md_receive md t msecs = Inr (m, md') \<and> md_ok md' \<and> mail md' = (mail md)(Box t := ms)"
    by (rule receive_mail [where msecs = msecs, OF assms _ slot.simps(1)]) (auto simp: md_receive_def dest!: get_queue(1) [OF _ refl])
next
  fix m ms assume "mail md (Box_At t i) = m # ms"
  then show "\<exists>md'. md_receive_at md t i msecs = Inr (m, md') \<and> md_ok md' \<and> mail md' = (mail md)(Box_At t i := ms)"
    by (rule receive_mail [where msecs = msecs, OF assms _ slot.simps(2)]) (auto simp: md_receive_at_def dest!: get_queue(2) [OF _ refl])
qed

theorem dispatcher_send_arrives_witness:
  "\<exists>md md1 md2. MessageDispatcher_new 4 1 = Inr md \<and> md_send_at (\<lambda>p. replicate 8 7) md NEIGHBOR_IN_MQ 0 4096 (- 1) = Inr (True, md1) \<and>
     mail md1 (Box_At NEIGHBOR_IN_MQ 0) = [0x0707070707070707] \<and>
     md_receive_at md1 NEIGHBOR_IN_MQ 0 0 = Inr (0x0707070707070707, md2) \<and> mail md2 = mail md"
proof -
  let ?md = "\<lparr>queue_size = 4, cmqs = fresh_table 4 1\<rparr>" and ?b = "Box_At NEIGHBOR_IN_MQ 0"
  have "queue_at ?md ?b = Some (CMQ_new 4)" using fresh_dispatcher(2) [of 4 1] by simp
  then have r: "0 < room ?md ?b" "mail ?md ?b = []" by (simp_all add: room_def mail_def CMQ_new_def)
  have "replicate 8 (7 :: 8 word) = [7, 7, 7, 7, 7, 7, 7, 7]" by (simp add: eval_nat_numeral)
  then have b: "bytes_ptr (replicate 8 7) = 0x0707070707070707" by simp
  obtain md1 where m1: "md_send_at (\<lambda>p. replicate 8 7) ?md NEIGHBOR_IN_MQ 0 4096 (- 1) = Inr (True, md1)" "md_ok md1"
    "mail md1 = (mail ?md)(?b := [0x0707070707070707])"
    using dispatcher_send_arrives [OF fresh_dispatcher(3) [of 4 1], where obj = "\<lambda>p. replicate 8 7" and mess = 4096 and msecs = "- 1" and
        t = NEIGHBOR_IN_MQ and i = 0] r b by auto
  obtain md2 where m2: "md_receive_at md1 NEIGHBOR_IN_MQ 0 0 = Inr (0x0707070707070707, md2)" "mail md2 = (mail md1)(?b := [])"
    using dispatcher_send_arrives [OF m1(2), where t = NEIGHBOR_IN_MQ and i = 0 and msecs = 0 and obj = ptr_bytes and mess = 0] m1(3) by auto
  have "mail md2 = mail ?md" using m2(2) m1(3) r(2) by (simp add: fun_eq_iff)
  then show ?thesis using fresh_dispatcher(1) [of 4 1] m1 m2 by (intro exI [of _ ?md] exI [of _ md1] exI [of _ md2]) simp
qed

end
