(* ===== verification/Dispatchers.thy ===== *)
theory Dispatchers
  imports Message_Dispatcher Base_Dispatcher Messages
begin

text \<open>
  The threads that pass messages between the queues of a server: the request dispatcher, the output
  dispatcher, the joiner dispatcher, and the thread that reads a neighbor's answers. A message is a
  pointer; \<open>fwds\<close>, \<open>rbss\<close> and \<open>njis\<close> are the objects that pointers point to.
\<close>

section \<open>The request and output dispatchers\<close>

definition rd_body :: "(ptr \<Rightarrow> bytes) \<Rightarrow> (ptr \<rightharpoonup> ForwardMessage) \<Rightarrow> id2offset \<Rightarrow> ptr \<Rightarrow> MessageDispatcher \<Rightarrow> MessageDispatcher res" where
  "rd_body obj fwds ids request md = (case fwds request of None \<Rightarrow> Inl Undefined_Behaviour
     | Some m \<Rightarrow>
       let receiver = receiver_from_qid (fm_qid m) in
       bind_res (get_offset ids receiver) (\<lambda>offset.
         if is_shutdown (fm_qid m)
         then bind_res (post obj md (Box_At REQUEST_MQ (unat offset)) request) (\<lambda>md.
                post obj md (Box_At CYCLE_BREAKER_MQ (unat offset)) request)
         else if receiver \<notin> fm_history m then post obj md (Box_At REQUEST_MQ (unat offset)) request
         else post obj md (Box_At CYCLE_BREAKER_MQ (unat offset)) request))"

definition rd_startup :: "nat \<Rightarrow> (ptr \<Rightarrow> bytes) \<Rightarrow> (ptr \<rightharpoonup> ForwardMessage) \<Rightarrow> id2offset \<Rightarrow> MessageDispatcher \<Rightarrow> MessageDispatcher res" where
  "rd_startup fuel obj fwds ids md =
     receive_loop fuel (\<lambda>md. fetch md (Box REQUEST_DISPATCHER_MQ)) 0 (rd_body obj fwds ids) md"

definition od_body :: "(ptr \<Rightarrow> bytes) \<Rightarrow> (ptr \<rightharpoonup> 'bs ReturnedBeliefState) \<Rightarrow> id2offset \<Rightarrow> ptr \<Rightarrow> MessageDispatcher \<Rightarrow> MessageDispatcher res" where
  "od_body obj rbss ids returned_bs md = (case rbss returned_bs of None \<Rightarrow> Inl Undefined_Behaviour
     | Some r \<Rightarrow> bind_res (get_offset ids (ctxid_from_qid (rbs_qid r))) (\<lambda>offset.
         post obj md (Box_At OUTPUT_MQ (unat offset)) returned_bs))"

definition od_startup :: "nat \<Rightarrow> (ptr \<Rightarrow> bytes) \<Rightarrow> (ptr \<rightharpoonup> 'bs ReturnedBeliefState) \<Rightarrow> id2offset \<Rightarrow> MessageDispatcher \<Rightarrow> MessageDispatcher res" where
  "od_startup fuel obj rbss ids md =
     receive_loop fuel (\<lambda>md. fetch md (Box OUTPUT_DISPATCHER_MQ)) 0 (od_body obj rbss ids) md"

text \<open>Where a request belongs: to its context, or to the cycle breaker if the context is in the history.\<close>

definition offset_of :: "id2offset \<Rightarrow> qid \<Rightarrow> nat" where
  "offset_of ids x = unat (the (ids x))"

definition request_boxes :: "(ptr \<rightharpoonup> ForwardMessage) \<Rightarrow> id2offset \<Rightarrow> ptr \<Rightarrow> box list" where
  "request_boxes fwds ids p = (let m = the (fwds p); r = receiver_from_qid (fm_qid m) in
     (if is_shutdown (fm_qid m) \<or> r \<notin> fm_history m then [Box_At REQUEST_MQ (offset_of ids r)] else []) @
     (if is_shutdown (fm_qid m) \<or> r \<in> fm_history m then [Box_At CYCLE_BREAKER_MQ (offset_of ids r)] else []))"

definition known_request :: "(ptr \<rightharpoonup> ForwardMessage) \<Rightarrow> id2offset \<Rightarrow> ptr \<Rightarrow> bool" where
  "known_request fwds ids p \<longleftrightarrow> p \<noteq> 0 \<and> (\<exists>m. fwds p = Some m \<and> ids (receiver_from_qid (fm_qid m)) \<noteq> None)"

lemma bind_res_Inr: "bind_res m Inr = m"
  by (cases m) auto

lemma rd_body_route:
  assumes "known_request fwds ids p"
  shows "rd_body obj fwds ids p md = post_all (post obj) md (map (\<lambda>b. (b, p)) (request_boxes fwds ids p))"
  using assms
  by (auto simp: known_request_def rd_body_def request_boxes_def offset_of_def get_offset_def Let_def bind_res_Inr)

lemma to_box_copies: "to_box b (map (\<lambda>c. (c, p)) cs) = replicate (count_list cs b) p"
  by (induction cs) auto

lemma to_box_pairs: "to_box b (concat (map (\<lambda>p. map (\<lambda>c. (c, p)) (f p)) ps)) = concat (map (\<lambda>p. replicate (count_list (f p) b) p) ps)"
  by (induction ps) (simp_all add: to_box_copies)

lemma request_boxes_count:
  "count_list (request_boxes fwds ids p) b = of_bool (b \<in> set (request_boxes fwds ids p))"
  by (auto simp: request_boxes_def Let_def)

lemma concat_replicate_filter: "concat (map (\<lambda>p. replicate (of_bool (P p)) p) ps) = filter P ps"
  by (induction ps) auto

lemma to_request_box:
  "to_box b (concat (map (\<lambda>p. map (\<lambda>c. (c, p)) (request_boxes fwds ids p)) ps)) = filter (\<lambda>p. b \<in> set (request_boxes fwds ids p)) ps"
  unfolding to_box_pairs request_boxes_count by (rule concat_replicate_filter)

text \<open>
  C26. The request dispatcher passes on every request it got before the null pointer, in order: to the queue of the
  receiving context if that context is not in the request's history, to the queue of its cycle breaker if it
  is, and a shutdown request to both; no other queue changes, and the thread ends.
\<close>

theorem request_dispatcher_routes:
  assumes "md_ok md" and "mail md (Box REQUEST_DISPATCHER_MQ) = ps @ 0 # rest" and "\<forall>p\<in>set ps. known_request fwds ids p"
    and "\<forall>b. length (filter (\<lambda>p. b \<in> set (request_boxes fwds ids p)) ps) \<le> room md b" and "length ps < fuel"
  shows "\<exists>md'. rd_startup fuel obj fwds ids md = Inr md' \<and> md_ok md' \<and>
    mail md' = (\<lambda>b. if b = Box REQUEST_DISPATCHER_MQ then rest
      else mail md b @ filter (\<lambda>p. b \<in> set (request_boxes fwds ids p)) ps)"
proof -
  let ?route = "\<lambda>p. map (\<lambda>b. (b, p)) (request_boxes fwds ids p)"
  have z: "0 \<notin> set ps" using assms(3) by (auto simp: known_request_def)
  have r: "rd_body obj fwds ids p s = post_all (post obj) s (?route p)" if "p \<in> set ps" for p s
    using that assms(3) rd_body_route by blast
  have n: "\<forall>p\<in>set ps. Box REQUEST_DISPATCHER_MQ \<notin> fst ` set (?route p)" by (auto simp: request_boxes_def Let_def)
  have l: "\<forall>b. length (to_box b (concat (map ?route ps))) \<le> room md b" unfolding to_request_box by (rule assms(4))
  show ?thesis using md_boxes.receive_loop_ok [OF assms(1,2) z r n l assms(5)] unfolding rd_startup_def to_request_box by blast
qed

text \<open>Two requests to the context at offset 0, the second of which has been there before.\<close>

abbreviation wit_queue :: "ptr list \<Rightarrow> ConcurrentMessageQueue" where
  "wit_queue ps \<equiv> \<lparr>cmq_q = map ptr_bytes ps, cmq_n = 4, enq = 0, deq = 0\<rparr>"

definition wit_table :: "ptr list \<Rightarrow> MessageDispatcher" where
  "wit_table ps = \<lparr>queue_size = 4, cmqs = [[Some (wit_queue ps), None, None], [Some (wit_queue [])], [Some (wit_queue [])]]\<rparr>"

lemma wit_table_queues:
  "queue_at (wit_table ps) b = (if b = Box REQUEST_DISPATCHER_MQ then Some (wit_queue ps)
     else if b = Box_At REQUEST_MQ 0 \<or> b = Box_At CYCLE_BREAKER_MQ 0 then Some (wit_queue []) else None)"
proof (cases b)
  case (Box i)
  then show ?thesis by (cases i) (auto simp: queue_at_def wit_table_def one_dim_def)
next
  case (Box_At t i)
  then show ?thesis by (cases t) (auto simp: queue_at_def wit_table_def two_dim_def mq_index_def)
qed

lemma wit_table_ok: "length ps \<le> 4 \<Longrightarrow> md_ok (wit_table ps)"
  by (auto simp: md_ok_def wit_table_queues split: if_splits)

theorem request_dispatcher_routes_witness:
  "\<exists>md'. rd_startup 3 ptr_bytes (\<lambda>p. Some \<lparr>fm_qid = query_id_own 0 1, fm_k1 = 0, fm_k2 = 0, fm_history = (if p = 16 then {} else UNIV)\<rparr>)
       (\<lambda>x. Some 0) (wit_table [16, 32, 0]) = Inr md' \<and>
     mail md' (Box_At REQUEST_MQ 0) = [16] \<and> mail md' (Box_At CYCLE_BREAKER_MQ 0) = [32]"
proof -
  let ?fwds = "\<lambda>p :: ptr. Some \<lparr>fm_qid = query_id_own 0 1, fm_k1 = 0, fm_k2 = 0, fm_history = (if p = 16 then {} else UNIV)\<rparr>"
  let ?ids = "\<lambda>x :: qid. Some (0 :: qid)"
  have sh: "\<not> is_shutdown (query_id_own 0 1)" using query_id_own_request [of 0 1] by (simp add: fits_def)
  have m: "mail (wit_table [16, 32, 0]) b = (if b = Box REQUEST_DISPATCHER_MQ then [16, 32] @ 0 # [] else [])" for b
    by (simp add: mail_def wit_table_queues)
  have bx: "request_boxes ?fwds ?ids 16 = [Box_At REQUEST_MQ 0]" "request_boxes ?fwds ?ids 32 = [Box_At CYCLE_BREAKER_MQ 0]"
    using sh by (simp_all add: request_boxes_def offset_of_def)
  have rm: "\<forall>b. length (filter (\<lambda>p. b \<in> set (request_boxes ?fwds ?ids p)) [16, 32]) \<le> room (wit_table [16, 32, 0]) b"
    by (auto simp: bx room_def wit_table_queues)
  have k: "\<forall>p\<in>set [16, 32]. known_request ?fwds ?ids p" by (simp add: known_request_def)
  have "mail (wit_table [16, 32, 0]) (Box REQUEST_DISPATCHER_MQ) = [16, 32] @ 0 # []" by (simp add: m)
  from request_dispatcher_routes [OF wit_table_ok this k rm, of 3 ptr_bytes] bx show ?thesis by (auto simp: m)
qed

text \<open>The same for answers: each goes to the output thread of the context that asked.\<close>

lemma output_dispatcher_routes:
  assumes "md_ok md" and "mail md (Box OUTPUT_DISPATCHER_MQ) = ps @ 0 # rest"
    and "\<forall>p\<in>set ps. p \<noteq> 0 \<and> (\<exists>r. rbss p = Some r \<and> ids (ctxid_from_qid (rbs_qid r)) \<noteq> None)"
  defines "dest \<equiv> \<lambda>p. Box_At OUTPUT_MQ (offset_of ids (ctxid_from_qid (rbs_qid (the (rbss p)))))"
  assumes "\<forall>b. length (filter (\<lambda>p. dest p = b) ps) \<le> room md b" and "length ps < fuel"
  shows "\<exists>md'. od_startup fuel obj rbss ids md = Inr md' \<and> md_ok md' \<and>
    mail md' = (\<lambda>b. if b = Box OUTPUT_DISPATCHER_MQ then rest else mail md b @ filter (\<lambda>p. dest p = b) ps)"
proof -
  have t: "to_box b (concat (map (\<lambda>p. [(dest p, p)]) ps)) = filter (\<lambda>p. dest p = b) ps" for b by (induction ps) auto
  have z: "0 \<notin> set ps" using assms(3) by auto
  have r: "od_body obj rbss ids p s = post_all (post obj) s [(dest p, p)]" if "p \<in> set ps" for p s
    using that assms(3) by (auto simp: od_body_def dest_def offset_of_def get_offset_def bind_res_Inr split: option.splits)
  have n: "\<forall>p\<in>set ps. Box OUTPUT_DISPATCHER_MQ \<notin> fst ` set [(dest p, p)]" by (simp add: dest_def)
  have l: "\<forall>b. length (to_box b (concat (map (\<lambda>p. [(dest p, p)]) ps))) \<le> room md b" unfolding t by (rule assms(5))
  show ?thesis using md_boxes.receive_loop_ok [OF assms(1,2) z r n l assms(6)] unfolding od_startup_def t by blast
qed

section \<open>Answers of the neighbors\<close>

text \<open>
  \<open>NewNeighborThread::handle_read_message\<close>: the joiner dispatcher is told how many answers come, then the
  answers follow. \<open>p\<close> is the address of the new notification.
\<close>

fun send_answers :: "(ptr \<Rightarrow> bytes) \<Rightarrow> nat \<Rightarrow> ptr list \<Rightarrow> MessageDispatcher \<Rightarrow> MessageDispatcher res" where
  "send_answers obj noff [] md = Inr md"
| "send_answers obj noff (r # rs) md = assertion (r \<noteq> 0)
     (bind_res (post obj md (Box_At NEIGHBOR_IN_MQ noff) r) (send_answers obj noff rs))"

definition nt_handle_read_message :: "(ptr \<Rightarrow> bytes) \<Rightarrow> qid \<Rightarrow> ptr \<Rightarrow> ptr list \<Rightarrow> (ptr \<rightharpoonup> NewJoinIn) \<times> MessageDispatcher
    \<Rightarrow> ((ptr \<rightharpoonup> NewJoinIn) \<times> MessageDispatcher) res" where
  "nt_handle_read_message obj noff p rs = (\<lambda>(njis, md).
     bind_res (post obj md (Box JOINER_DISPATCHER_MQ) p) (\<lambda>md.
     bind_res (send_answers obj (unat noff) rs md) (\<lambda>md.
       Inr (njis(p \<mapsto> \<lparr>nji_neighbor_offset = noff, no_belief_state = length rs\<rparr>), md))))"

text \<open>The joiner dispatcher passes that many answers on, each to the joiner that its query id names.\<close>

fun jd_forward :: "(ptr \<Rightarrow> bytes) \<Rightarrow> (ptr \<rightharpoonup> returned) \<Rightarrow> nat \<Rightarrow> nat \<Rightarrow> MessageDispatcher \<Rightarrow> MessageDispatcher res" where
  "jd_forward obj rbss noff 0 md = Inr md"
| "jd_forward obj rbss noff (Suc n) md = bind_res (fetch md (Box_At NEIGHBOR_IN_MQ noff)) (\<lambda>(p, md).
     case rbss p of None \<Rightarrow> Inl Undefined_Behaviour
     | Some r \<Rightarrow> bind_res (post obj md (Box_At JOIN_IN_MQ (unat (joiner_offset_from_qid (rbs_qid r)))) p)
         (jd_forward obj rbss noff n))"

fun jd_startup :: "nat \<Rightarrow> (ptr \<Rightarrow> bytes) \<Rightarrow> (ptr \<rightharpoonup> returned) \<Rightarrow> (ptr \<rightharpoonup> NewJoinIn) \<times> MessageDispatcher
    \<Rightarrow> ((ptr \<rightharpoonup> NewJoinIn) \<times> MessageDispatcher) res" where
  "jd_startup 0 obj rbss s = Inl Out_Of_Fuel"
| "jd_startup (Suc fuel) obj rbss (njis, md) = bind_res (fetch md (Box JOINER_DISPATCHER_MQ)) (\<lambda>(p, md).
     if p = 0 then Inr (njis, md)
     else case njis p of None \<Rightarrow> Inl Undefined_Behaviour
       | Some nji \<Rightarrow> bind_res (jd_forward obj rbss (unat (nji_neighbor_offset nji)) (no_belief_state nji) md) (\<lambda>md.
           jd_startup fuel obj rbss (njis(p := None), md)))"

text \<open>A package: the neighbor, the address of the notification, and the answers.\<close>

type_synonym package_in = "qid \<times> ptr \<times> ptr list"

fun read_packages :: "(ptr \<Rightarrow> bytes) \<Rightarrow> package_in list \<Rightarrow> (ptr \<rightharpoonup> NewJoinIn) \<times> MessageDispatcher
    \<Rightarrow> ((ptr \<rightharpoonup> NewJoinIn) \<times> MessageDispatcher) res" where
  "read_packages obj [] s = Inr s"
| "read_packages obj ((noff, p, rs) # pks) s = bind_res (nt_handle_read_message obj noff p rs s) (read_packages obj pks)"

definition package_posts :: "package_in \<Rightarrow> (box \<times> ptr) list" where
  "package_posts pk = (case pk of (noff, p, rs) \<Rightarrow>
     (Box JOINER_DISPATCHER_MQ, p) # map (\<lambda>r. (Box_At NEIGHBOR_IN_MQ (unat noff), r)) rs)"

definition notified :: "(ptr \<rightharpoonup> NewJoinIn) \<Rightarrow> package_in \<Rightarrow> (ptr \<rightharpoonup> NewJoinIn)" where
  "notified m pk = (case pk of (noff, p, rs) \<Rightarrow> m(p \<mapsto> \<lparr>nji_neighbor_offset = noff, no_belief_state = length rs\<rparr>))"

definition package_ok :: "(ptr \<rightharpoonup> returned) \<Rightarrow> package_in \<Rightarrow> bool" where
  "package_ok rbss pk \<longleftrightarrow> (case pk of (noff, p, rs) \<Rightarrow> p \<noteq> 0 \<and> (\<forall>r\<in>set rs. r \<noteq> 0 \<and> rbss r \<noteq> None))"

lemma send_answers_posts:
  "\<forall>r\<in>set rs. r \<noteq> 0 \<Longrightarrow> send_answers obj noff rs md = post_all (post obj) md (map (\<lambda>r. (Box_At NEIGHBOR_IN_MQ noff, r)) rs)"
  by (induction rs arbitrary: md) (auto intro: bind_res_cong)

lemma post_all_append: "post_all f s (xs @ ys) = bind_res (post_all f s xs) (\<lambda>s. post_all f s ys)"
  by (induction xs arbitrary: s) (auto simp: bind_res_assoc)

lemma read_packages_posts:
  assumes "\<forall>pk\<in>set pks. package_ok rbss pk"
  shows "read_packages obj pks (njis, md) = bind_res (post_all (post obj) md (concat (map package_posts pks))) (\<lambda>md.
     Inr (foldl notified njis pks, md))"
  using assms
proof (induction pks arbitrary: njis md)
  case (Cons pk pks)
  obtain noff p rs where pk: "pk = (noff, p, rs)" by (cases pk)
  have "\<forall>r\<in>set rs. r \<noteq> 0" using Cons.prems by (auto simp: package_ok_def pk)
  note posts = send_answers_posts [OF this]
  from Cons show ?case
    by (simp add: pk nt_handle_read_message_def package_posts_def notified_def posts post_all_append bind_res_assoc del: fun_upd_apply)
qed simp

definition join_box :: "(ptr \<rightharpoonup> returned) \<Rightarrow> ptr \<Rightarrow> box" where
  "join_box rbss r = Box_At JOIN_IN_MQ (unat (joiner_offset_from_qid (rbs_qid (the (rbss r)))))"

lemma jd_forward_ok:
  assumes "md_ok md" and "mail md (Box_At NEIGHBOR_IN_MQ noff) = rs @ rest" and "\<forall>r\<in>set rs. rbss r \<noteq> None"
    and "\<forall>b. length (filter (\<lambda>r. join_box rbss r = b) rs) \<le> room md b"
  shows "\<exists>md'. jd_forward obj rbss noff (length rs) md = Inr md' \<and> md_ok md' \<and>
    mail md' = (\<lambda>b. if b = Box_At NEIGHBOR_IN_MQ noff then rest else mail md b @ filter (\<lambda>r. join_box rbss r = b) rs) \<and>
    (\<forall>b. room md b - length (filter (\<lambda>r. join_box rbss r = b) rs) \<le> room md' b)"
  using assms
proof (induction rs arbitrary: md)
  case Nil
  then show ?case by (auto simp: fun_eq_iff)
next
  case (Cons r rs)
  let ?src = "Box_At NEIGHBOR_IN_MQ noff" and ?b = "join_box rbss r"
  have ne: "?b \<noteq> ?src" by (simp add: join_box_def)
  from Cons.prems(3) obtain x where x: "rbss r = Some x" by auto
  from md_boxes.fetch_ok [OF Cons.prems(1), of ?src r "rs @ rest"] Cons.prems(2) obtain md1 where
    md1: "fetch md ?src = Inr (r, md1)" "md_ok md1" "mail md1 = (mail md)(?src := rs @ rest)"
    "room md1 = (room md)(?src := room md ?src + 1)" by auto
  have "0 < room md1 ?b" using spec [OF Cons.prems(4), of ?b] md1(4) ne by simp
  from md_boxes.post_ok [OF md1(2) this, of obj r] obtain md2 where
    md2: "post obj md1 ?b r = Inr md2" "md_ok md2" "mail md2 = (mail md1)(?b := mail md1 ?b @ [r])"
    "room md2 = (room md1)(?b := room md1 ?b - 1)" by blast
  have "length (filter (\<lambda>r. join_box rbss r = b) rs) \<le> room md2 b" for b
    using spec [OF Cons.prems(4), of b] md1(4) md2(4) by (auto split: if_splits)
  moreover have "mail md2 ?src = rs @ rest" using md1(3) md2(3) ne by simp
  ultimately obtain md' where md': "jd_forward obj rbss noff (length rs) md2 = Inr md'" "md_ok md'"
    "mail md' = (\<lambda>b. if b = ?src then rest else mail md2 b @ filter (\<lambda>r. join_box rbss r = b) rs)"
    "\<forall>b. room md2 b - length (filter (\<lambda>r. join_box rbss r = b) rs) \<le> room md' b"
    using Cons.IH [OF md2(2)] Cons.prems(3) by auto
  have "jd_forward obj rbss noff (length (r # rs)) md = Inr md'"
    using md1(1) md2(1) md'(1) x by (simp add: join_box_def)
  moreover have "mail md' = (\<lambda>b. if b = ?src then rest else mail md b @ filter (\<lambda>r. join_box rbss r = b) (r # rs))"
    using md'(3) md2(3) md1(3) ne by (auto simp: fun_eq_iff)
  moreover have "room md b - length (filter (\<lambda>r. join_box rbss r = b) (r # rs)) \<le> room md' b" for b
    using spec [OF md'(4), of b] md1(4) md2(4) by (auto split: if_splits)
  ultimately show ?case using md'(2) by blast
qed

definition from_neighbor :: "nat \<Rightarrow> package_in list \<Rightarrow> ptr list" where
  "from_neighbor i pks = concat (map (\<lambda>(noff, p, rs). if unat noff = i then rs else []) pks)"

definition all_answers :: "package_in list \<Rightarrow> ptr list" where
  "all_answers pks = concat (map (\<lambda>(noff, p, rs). rs) pks)"

lemma jd_startup_ok:
  assumes "md_ok md" and "mail md (Box JOINER_DISPATCHER_MQ) = map (\<lambda>(noff, p, rs). p) pks @ 0 # rest"
    and "\<forall>i. mail md (Box_At NEIGHBOR_IN_MQ i) = from_neighbor i pks @ later i"
    and "\<forall>pk\<in>set pks. package_ok rbss pk" and "distinct (map (\<lambda>(noff, p, rs). p) pks)"
    and "\<forall>(noff, p, rs)\<in>set pks. njis p = Some \<lparr>nji_neighbor_offset = noff, no_belief_state = length rs\<rparr>"
    and "\<forall>b. length (filter (\<lambda>r. join_box rbss r = b) (all_answers pks)) \<le> room md b" and "length pks < fuel"
  shows "\<exists>njis' md'. jd_startup fuel obj rbss (njis, md) = Inr (njis', md') \<and> md_ok md' \<and>
    njis' = njis |` (- (\<lambda>(noff, p, rs). p) ` set pks) \<and>
    (\<forall>j. mail md' (Box_At JOIN_IN_MQ j) = mail md (Box_At JOIN_IN_MQ j) @
       filter (\<lambda>r. join_box rbss r = Box_At JOIN_IN_MQ j) (all_answers pks)) \<and>
    (\<forall>i. mail md' (Box_At NEIGHBOR_IN_MQ i) = later i)"
  using assms
proof (induction pks arbitrary: md njis fuel)
  case Nil
  then obtain f where f: "fuel = Suc f" by (cases fuel) auto
  from md_boxes.fetch_ok [OF Nil.prems(1), of "Box JOINER_DISPATCHER_MQ" 0 rest] Nil.prems(2) obtain md' where
    "fetch md (Box JOINER_DISPATCHER_MQ) = Inr (0, md')" "md_ok md'" "mail md' = (mail md)(Box JOINER_DISPATCHER_MQ := rest)" by auto
  with Nil.prems(3) show ?case by (simp add: f from_neighbor_def all_answers_def)
next
  case (Cons pk pks)
  obtain noff p rs where pk: "pk = (noff, p, rs)" by (cases pk)
  obtain f where f: "fuel = Suc f" "length pks < f" using Cons.prems(8) by (cases fuel) auto
  let ?src = "Box_At NEIGHBOR_IN_MQ (unat noff)" and ?jd = "Box JOINER_DISPATCHER_MQ"
  have pok: "p \<noteq> 0" "\<forall>r\<in>set rs. rbss r \<noteq> None" using Cons.prems(4) by (auto simp: pk package_ok_def)
  from md_boxes.fetch_ok [OF Cons.prems(1), of ?jd p "map (\<lambda>(noff, p, rs). p) pks @ 0 # rest"] Cons.prems(2) obtain md1 where
    md1: "fetch md ?jd = Inr (p, md1)" "md_ok md1" "mail md1 = (mail md)(?jd := map (\<lambda>(noff, p, rs). p) pks @ 0 # rest)"
    "room md1 = (room md)(?jd := room md ?jd + 1)" by (auto simp: pk)
  have aa: "all_answers (pk # pks) = rs @ all_answers pks" by (simp add: all_answers_def pk)
  have le: "length (filter (\<lambda>r. join_box rbss r = b) rs) + length (filter (\<lambda>r. join_box rbss r = b) (all_answers pks)) \<le> room md1 b" for b
    using spec [OF Cons.prems(7), of b] md1(4) unfolding aa by (auto split: if_splits)
  have m1: "mail md1 ?src = rs @ from_neighbor (unat noff) pks @ later (unat noff)"
    using spec [OF Cons.prems(3), of "unat noff"] md1(3) by (simp add: from_neighbor_def pk)
  from jd_forward_ok [OF md1(2) m1 pok(2), of obj] le obtain md2 where
    md2: "jd_forward obj rbss (unat noff) (length rs) md1 = Inr md2" "md_ok md2"
    "mail md2 = (\<lambda>b. if b = ?src then from_neighbor (unat noff) pks @ later (unat noff)
       else mail md1 b @ filter (\<lambda>r. join_box rbss r = b) rs)"
    "\<forall>b. room md1 b - length (filter (\<lambda>r. join_box rbss r = b) rs) \<le> room md2 b" by (meson add_leD1)
  have nb: "filter (\<lambda>r. join_box rbss r = Box t) xs = []" "filter (\<lambda>r. join_box rbss r = Box_At NEIGHBOR_IN_MQ i) xs = []" for t i xs
    by (simp_all add: join_box_def)
  have 1: "mail md2 ?jd = map (\<lambda>(noff, p, rs). p) pks @ 0 # rest" using md2(3) md1(3) by (simp add: nb)
  have 2: "\<forall>i. mail md2 (Box_At NEIGHBOR_IN_MQ i) = from_neighbor i pks @ later i"
    using Cons.prems(3) md2(3) md1(3) by (auto simp: nb from_neighbor_def pk)
  have 3: "\<forall>b. length (filter (\<lambda>r. join_box rbss r = b) (all_answers pks)) \<le> room md2 b"
  proof
    fix b
    show "length (filter (\<lambda>r. join_box rbss r = b) (all_answers pks)) \<le> room md2 b"
      using le [of b] spec [OF md2(4), of b] by linarith
  qed
  have 4: "\<forall>(noff, q, rs)\<in>set pks. (njis(p := None)) q = Some \<lparr>nji_neighbor_offset = noff, no_belief_state = length rs\<rparr>"
    using Cons.prems(5,6) by (force simp: pk)
  have "\<exists>njis' md'. jd_startup f obj rbss (njis(p := None), md2) = Inr (njis', md') \<and> md_ok md' \<and>
      njis' = (njis(p := None)) |` (- (\<lambda>(noff, p, rs). p) ` set pks) \<and>
      (\<forall>j. mail md' (Box_At JOIN_IN_MQ j) = mail md2 (Box_At JOIN_IN_MQ j) @
         filter (\<lambda>r. join_box rbss r = Box_At JOIN_IN_MQ j) (all_answers pks)) \<and>
      (\<forall>i. mail md' (Box_At NEIGHBOR_IN_MQ i) = later i)"
    using Cons.prems(4,5) by (intro Cons.IH [OF md2(2) 1 2 _ _ 4 3 f(2)]) auto
  then obtain njis' md' where r: "jd_startup f obj rbss (njis(p := None), md2) = Inr (njis', md')" "md_ok md'"
    "njis' = (njis(p := None)) |` (- (\<lambda>(noff, p, rs). p) ` set pks)"
    "\<forall>j. mail md' (Box_At JOIN_IN_MQ j) = mail md2 (Box_At JOIN_IN_MQ j) @
       filter (\<lambda>r. join_box rbss r = Box_At JOIN_IN_MQ j) (all_answers pks)"
    "\<forall>i. mail md' (Box_At NEIGHBOR_IN_MQ i) = later i" by blast
  have "njis p = Some \<lparr>nji_neighbor_offset = noff, no_belief_state = length rs\<rparr>" using Cons.prems(6) by (simp add: pk)
  then have "jd_startup fuel obj rbss (njis, md) = Inr (njis', md')" using r(1) md1(1) md2(1) pok(1) by (simp add: f(1))
  moreover have "njis' = njis |` (- (\<lambda>(noff, p, rs). p) ` set (pk # pks))"
    using r(3) by (auto simp: pk restrict_map_def fun_eq_iff)
  moreover have "mail md' (Box_At JOIN_IN_MQ j) = mail md (Box_At JOIN_IN_MQ j) @
       filter (\<lambda>r. join_box rbss r = Box_At JOIN_IN_MQ j) (all_answers (pk # pks))" for j
    using r(4) md2(3) md1(3) by (simp add: aa)
  ultimately show ?case using r(2,5) by blast
qed

lemma to_package_box:
  "to_box b (concat (map package_posts pks)) =
     (case b of Box t \<Rightarrow> if t = JOINER_DISPATCHER_MQ then map (\<lambda>(noff, p, rs). p) pks else []
      | Box_At t i \<Rightarrow> if t = NEIGHBOR_IN_MQ then from_neighbor i pks else [])"
proof -
  have "to_box b (map (\<lambda>r. (c, r)) rs) = (if c = b then rs else [])" for c :: box and rs :: "ptr list" by (induction rs) auto
  then show ?thesis by (induction pks) (auto simp: package_posts_def from_neighbor_def split: box.splits)
qed

lemma notified_other: "q \<notin> (\<lambda>(noff, p, rs). p) ` set pks \<Longrightarrow> foldl notified njis pks q = njis q"
  by (induction pks arbitrary: njis) (auto simp: notified_def)

lemma notifications:
  "distinct (map (\<lambda>(noff, p, rs). p) pks) \<Longrightarrow> (noff, p, rs) \<in> set pks \<Longrightarrow>
     foldl notified njis pks p = Some \<lparr>nji_neighbor_offset = noff, no_belief_state = length rs\<rparr>"
proof (induction pks arbitrary: njis)
  case (Cons pk pks)
  then show ?case by (cases "pk = (noff, p, rs)") (simp_all add: notified_other, simp add: notified_def)
qed simp

text \<open>
  C8. Answers of neighbors on their way to the joiners: when the neighbor threads have read any number of packages,
  in any order, and the joiner dispatcher is then told to stop, every answer is in the queue of the joiner that
  its query id names, in the order in which the answers came, nothing is left behind, and every
  notification has been freed.
\<close>

theorem packages_reach_joiners:
  assumes "md_ok md" and "mail md (Box JOINER_DISPATCHER_MQ) = []" and "\<forall>i. mail md (Box_At NEIGHBOR_IN_MQ i) = []"
    and "\<forall>pk\<in>set pks. package_ok rbss pk" and "distinct (map (\<lambda>(noff, p, rs). p) pks)"
    and "length pks < room md (Box JOINER_DISPATCHER_MQ)"
    and "\<forall>i. length (from_neighbor i pks) \<le> room md (Box_At NEIGHBOR_IN_MQ i)"
    and "\<forall>j. length (filter (\<lambda>r. join_box rbss r = Box_At JOIN_IN_MQ j) (all_answers pks)) \<le> room md (Box_At JOIN_IN_MQ j)"
    and "length pks < fuel"
  shows "\<exists>njis1 md1 md2 njis' md'. read_packages obj pks (Map.empty, md) = Inr (njis1, md1) \<and>
    post obj md1 (Box JOINER_DISPATCHER_MQ) 0 = Inr md2 \<and> jd_startup fuel obj rbss (njis1, md2) = Inr (njis', md') \<and>
    (\<forall>j. mail md' (Box_At JOIN_IN_MQ j) = mail md (Box_At JOIN_IN_MQ j) @
       filter (\<lambda>r. join_box rbss r = Box_At JOIN_IN_MQ j) (all_answers pks)) \<and>
    (\<forall>i. mail md' (Box_At NEIGHBOR_IN_MQ i) = []) \<and> njis' = Map.empty"
proof -
  let ?jd = "Box JOINER_DISPATCHER_MQ" and ?posts = "concat (map package_posts pks)"
  let ?njis = "foldl notified Map.empty pks"
  have "\<forall>b. length (to_box b ?posts) \<le> room md b" using assms(6,7) by (auto simp: to_package_box split: box.splits)
  from md_boxes.post_all_ok [OF assms(1) this, of obj] obtain md1 where
    md1: "post_all (post obj) md ?posts = Inr md1" "md_ok md1" "\<forall>b. mail md1 b = mail md b @ to_box b ?posts"
    "\<forall>b. room md1 b = room md b - length (to_box b ?posts)" by blast
  have r: "read_packages obj pks (Map.empty, md) = Inr (?njis, md1)" using read_packages_posts [OF assms(4)] md1(1) by simp
  have "0 < room md1 ?jd" using md1(4) assms(6) by (simp add: to_package_box)
  from md_boxes.post_ok [OF md1(2) this, of obj 0] obtain md2 where
    md2: "post obj md1 ?jd 0 = Inr md2" "md_ok md2" "mail md2 = (mail md1)(?jd := mail md1 ?jd @ [0])"
    "room md2 = (room md1)(?jd := room md1 ?jd - 1)" by blast
  have 1: "mail md2 ?jd = map (\<lambda>(noff, p, rs). p) pks @ 0 # []" using md2(3) md1(3) assms(2) by (simp add: to_package_box)
  have 2: "\<forall>i. mail md2 (Box_At NEIGHBOR_IN_MQ i) = from_neighbor i pks @ []" using md2(3) md1(3) assms(3) by (simp add: to_package_box)
  have nb: "join_box rbss x = Box_At JOIN_IN_MQ (unat (joiner_offset_from_qid (rbs_qid (the (rbss x)))))" for x by (rule join_box_def)
  have 3: "\<forall>b. length (filter (\<lambda>r. join_box rbss r = b) (all_answers pks)) \<le> room md2 b"
  proof
    fix b
    show "length (filter (\<lambda>r. join_box rbss r = b) (all_answers pks)) \<le> room md2 b"
    proof (cases "\<exists>j. b = Box_At JOIN_IN_MQ j")
      case True
      then show ?thesis using assms(8) md2(4) md1(4) by (auto simp: to_package_box)
    next
      case False
      then have "filter (\<lambda>r. join_box rbss r = b) (all_answers pks) = []" using nb by (auto simp: filter_empty_conv)
      then show ?thesis by simp
    qed
  qed
  have 4: "\<forall>(noff, p, rs)\<in>set pks. ?njis p = Some \<lparr>nji_neighbor_offset = noff, no_belief_state = length rs\<rparr>"
    using notifications [OF assms(5)] by blast
  have dm: "?njis |` (- (\<lambda>(noff, p, rs). p) ` set pks) = Map.empty"
    by (rule ext) (simp add: restrict_map_def notified_other)
  from jd_startup_ok [OF md2(2) 1 2 assms(4,5) 4 3 assms(9), of obj] r md2(1,3) md1(3) show ?thesis
    unfolding dm by (auto simp: to_package_box)
qed

text \<open>Two packages of two neighbors for the same joiner.\<close>

definition wit_in_table :: MessageDispatcher where
  "wit_in_table = \<lparr>queue_size = 4, cmqs = [[None, None, Some (wit_queue [])], [], [], [], [Some (wit_queue []), Some (wit_queue [])], [Some (wit_queue [])]]\<rparr>"

lemma wit_in_table_queues:
  "queue_at wit_in_table b = (if b \<in> {Box JOINER_DISPATCHER_MQ, Box_At NEIGHBOR_IN_MQ 0, Box_At NEIGHBOR_IN_MQ 1, Box_At JOIN_IN_MQ 0}
     then Some (wit_queue []) else None)"
proof (cases b)
  case (Box i)
  then show ?thesis by (cases i) (auto simp: queue_at_def wit_in_table_def one_dim_def)
next
  case (Box_At t i)
  then show ?thesis by (cases t) (auto simp: queue_at_def wit_in_table_def two_dim_def mq_index_def less_Suc_eq)
qed

theorem packages_reach_joiners_witness:
  "\<exists>njis1 md1 md2 njis' md'. read_packages ptr_bytes [(1, 16, [32, 40]), (0, 24, [48])] (Map.empty, wit_in_table) = Inr (njis1, md1) \<and>
     post ptr_bytes md1 (Box JOINER_DISPATCHER_MQ) 0 = Inr md2 \<and>
     jd_startup 3 ptr_bytes (\<lambda>p. Some (rbs_new None 0)) (njis1, md2) = Inr (njis', md') \<and>
     mail md' (Box_At JOIN_IN_MQ 0) = [32, 40, 48]"
proof -
  let ?pks = "[(1, 16, [32, 40]), (0, 24, [48])] :: package_in list" and ?rbss = "\<lambda>p :: ptr. Some (rbs_new None 0 :: returned)"
  have j: "join_box ?rbss r = Box_At JOIN_IN_MQ 0" for r by (simp add: join_box_def joiner_offset_from_qid_def)
  have ok: "md_ok wit_in_table" by (auto simp: md_ok_def wit_in_table_queues split: if_splits)
  have m: "mail wit_in_table b = []" for b by (simp add: mail_def wit_in_table_queues)
  have pk: "\<forall>pk\<in>set ?pks. package_ok ?rbss pk" "distinct (map (\<lambda>(noff, p, rs). p) ?pks)" by (simp_all add: package_ok_def)
  have rm: "length ?pks < room wit_in_table (Box JOINER_DISPATCHER_MQ)"
    "\<forall>i. length (from_neighbor i ?pks) \<le> room wit_in_table (Box_At NEIGHBOR_IN_MQ i)"
    "\<forall>k. length (filter (\<lambda>r. join_box ?rbss r = Box_At JOIN_IN_MQ k) (all_answers ?pks)) \<le> room wit_in_table (Box_At JOIN_IN_MQ k)"
    by (auto simp: room_def wit_in_table_queues from_neighbor_def all_answers_def j)
  from packages_reach_joiners [OF ok m _ pk rm, of 3 ptr_bytes] m j show ?thesis by (auto simp: all_answers_def)
qed

end
