(* ===== verification/Connections.thy ===== *)
theory Connections
  imports Messages Base_Dispatcher
begin

text \<open>
  Connections between servers: the framing of messages on a socket (\<open>include/network/connection.hpp\<close>),
  the thread that writes requests to a neighbor, the handler of a server that reads them, the client,
  and the manager that starts the servers in two phases.
\<close>

section \<open>Framing\<close>

text \<open>
  A message is written as the length of its archive in hexadecimal, right-aligned in eight characters,
  followed by the archive.
\<close>

definition hex_digit :: "nat \<Rightarrow> char" where
  "hex_digit d = ''0123456789abcdef'' ! d"

fun hex_text :: "nat \<Rightarrow> string" where
  "hex_text n = (if n < 16 then [hex_digit n] else hex_text (n div 16) @ [hex_digit (n mod 16)])"

declare hex_text.simps [simp del]

definition header_length :: nat where
  "header_length = 8"

definition setw :: "nat \<Rightarrow> string \<Rightarrow> string" where
  "setw w s = replicate (w - length s) (CHR '' '') @ s"

definition connection_write :: "string \<Rightarrow> string res" where
  "connection_write outbound_data =
     (let header = setw header_length (hex_text (length outbound_data)) in
      if length header \<noteq> header_length then Inl (Runtime_Error ''invalid_argument'') else Inr (header @ outbound_data))"

text \<open>
  Reading takes the eight characters and reads a number from them: leading spaces are skipped, then the
  longest run of digits counts. A sign or a prefix, which the writer never produces, is no number here.
\<close>

definition hex_value :: "char \<Rightarrow> nat option" where
  "hex_value c = (if c \<in> set ''0123456789'' then Some (of_char c - 48)
     else if c \<in> set ''abcdef'' then Some (of_char c - 87)
     else if c \<in> set ''ABCDEF'' then Some (of_char c - 55) else None)"

fun hex_number :: "nat \<Rightarrow> string \<Rightarrow> nat" where
  "hex_number acc [] = acc"
| "hex_number acc (c # cs) = (case hex_value c of None \<Rightarrow> acc | Some d \<Rightarrow> hex_number (16 * acc + d) cs)"

definition read_hex :: "string \<Rightarrow> nat option" where
  "read_hex s = (let t = dropWhile (\<lambda>c. c = CHR '' '') s in
     case t of [] \<Rightarrow> None | c # cs \<Rightarrow> if hex_value c = None then None else Some (hex_number 0 t))"

text \<open>What has not arrived yet is waited for; the stream is what is on the socket.\<close>

definition connection_read :: "string \<Rightarrow> (string \<times> string) res" where
  "connection_read stream =
     (if length stream < header_length then Inl Blocked
      else case read_hex (take header_length stream) of
        None \<Rightarrow> Inl (Runtime_Error ''invalid_argument'')
      | Some n \<Rightarrow> let rest = drop header_length stream in
          if length rest < n then Inl Blocked else Inr (take n rest, drop n rest))"

lemma hex_value_digit: "d < 16 \<Longrightarrow> hex_value (hex_digit d) = Some d"
proof -
  have "\<forall>d\<in>{..<16}. hex_value (hex_digit d) = Some d"
    by (simp add: numeral_eq_Suc lessThan_Suc hex_digit_def hex_value_def)
  then show "d < 16 \<Longrightarrow> hex_value (hex_digit d) = Some d" by simp
qed

lemma hex_number_append:
  "\<forall>c\<in>set s. hex_value c \<noteq> None \<Longrightarrow> hex_number acc (s @ t) = hex_number (hex_number acc s) t"
  by (induction s arbitrary: acc) auto

lemma hex_text_digits: "c \<in> set (hex_text n) \<Longrightarrow> hex_value c \<noteq> None"
proof (induction n rule: hex_text.induct)
  case (1 n)
  then show ?case by (subst (asm) (2) hex_text.simps) (auto simp: hex_value_digit split: if_splits)
qed

lemma hex_number_text: "hex_number 0 (hex_text n) = n"
proof (induction n rule: hex_text.induct)
  case (1 n)
  show ?case
  proof (cases "n < 16")
    case False
    have "hex_number 0 (hex_text n) = hex_number (hex_number 0 (hex_text (n div 16))) [hex_digit (n mod 16)]"
      using False by (subst hex_text.simps) (simp add: hex_number_append hex_text_digits)
    then show ?thesis using 1 [OF False] by (simp add: hex_value_digit)
  qed (simp add: hex_text.simps [of n] hex_value_digit)
qed

lemma length_hex_text: "length (hex_text n) \<le> k \<longleftrightarrow> 0 < k \<and> n < 16 ^ k"
proof (induction n arbitrary: k rule: hex_text.induct)
  case (1 n)
  show ?case
  proof (cases "n < 16")
    case True
    have "n < 16 ^ k" if "0 < k" using that True power_increasing [of 1 k "16 :: nat"] by simp
    moreover have "length (hex_text n) = 1" using True by (subst hex_text.simps) simp
    ultimately show ?thesis by auto
  next
    case False
    then have l: "length (hex_text n) = Suc (length (hex_text (n div 16)))" by (subst hex_text.simps) simp
    show ?thesis
    proof (cases k)
      case (Suc j)
      have "n div 16 < 16 ^ j \<longleftrightarrow> n < 16 ^ Suc j" by (simp add: div_less_iff_less_mult mult.commute)
      moreover have "0 < j" if "n < 16 ^ Suc j" using that False by (cases j) auto
      ultimately show ?thesis using 1 [OF False, of j] l Suc by auto
    qed (simp add: l)
  qed
qed

lemma hex_text_Nil [simp]: "hex_text n \<noteq> []"
  by (subst hex_text.simps) simp

lemma read_hex_setw: "read_hex (setw w (hex_text n)) = Some n"
proof -
  have d: "dropWhile (\<lambda>c. c = CHR '' '') (setw w (hex_text n)) = hex_text n"
  proof -
    obtain c cs where c: "hex_text n = c # cs" by (cases "hex_text n") auto
    then have "hex_value c \<noteq> None" using hex_text_digits [of c n] by simp
    then have "c \<noteq> CHR '' ''" by (auto simp: hex_value_def)
    then show ?thesis unfolding setw_def c by (simp add: dropWhile_append)
  qed
  obtain c cs where c: "hex_text n = c # cs" by (cases "hex_text n") auto
  then have "hex_value c \<noteq> None" using hex_text_digits [of c n] by simp
  then show ?thesis using hex_number_text [of n] unfolding read_hex_def d by (simp add: c Let_def)
qed

text \<open>
  Framing: an archive shorter than 2^32 characters is written, and read back exactly, with what follows it on the
  socket left for the next read; a longer one is refused when it is written.
\<close>

theorem connection_roundtrip:
  "if length d < 2 ^ 32 then \<exists>s. connection_write d = Inr s \<and> (\<forall>rest. connection_read (s @ rest) = Inr (d, rest))
   else connection_write d = Inl (Runtime_Error ''invalid_argument'')"
proof -
  have p: "(2 :: nat) ^ 32 = 16 ^ 8" by simp
  let ?t = "hex_text (length d)"
  have l: "length (setw 8 ?t) = max 8 (length ?t)" by (simp add: setw_def)
  show ?thesis
  proof (cases "length d < 2 ^ 32")
    case True
    then have "length ?t \<le> 8" using length_hex_text [of "length d" 8] p by simp
    with l have h: "length (setw 8 ?t) = 8" by simp
    have "connection_read ((setw 8 ?t @ d) @ rest) = Inr (d, rest)" for rest
      using h read_hex_setw [of 8 "length d"] by (simp add: connection_read_def header_length_def)
    with True h show ?thesis by (simp add: connection_write_def header_length_def)
  next
    case False
    then have "\<not> length ?t \<le> 8" using length_hex_text [of "length d" 8] p by simp
    with l False show ?thesis by (simp add: connection_write_def header_length_def)
  qed
qed

section \<open>Messages on a connection\<close>

text \<open>
  Above the framing: a header or a message. Boost's text archives turn them into the archives that are
  framed; a frame of another kind than the one that is read is an error that the handlers throw.
\<close>

datatype frame = Text string | Request ForwardMessage | Answer "returned list"

definition HEADER_REQ_DMCS :: string where "HEADER_REQ_DMCS = ''DMCS REQ DMCS''"
definition HEADER_ANS :: string where "HEADER_ANS = ''DMCS ANS''"
definition HEADER_EOF :: string where "HEADER_EOF = ''DMCS EOF''"
definition HEADER_NEXT :: string where "HEADER_NEXT = ''DMCS NEXT''"
definition HEADER_TERMINATE :: string where "HEADER_TERMINATE = ''DMCS TERMINATE''"
definition INIT_PHASE1_COMPLETED :: string where "INIT_PHASE1_COMPLETED = ''INIT PHASE1 COMPLETED''"
definition INIT_START_PHASE2 :: string where "INIT_START_PHASE2 = ''INIT START PHASE2''"

text \<open>\<open>std::string::find\<close> succeeds.\<close>

fun found_in :: "string \<Rightarrow> string \<Rightarrow> bool" where
  "found_in pat [] \<longleftrightarrow> pat = []"
| "found_in pat (c # cs) \<longleftrightarrow> take (length pat) (c # cs) = pat \<or> found_in pat cs"

text \<open>The thread \<open>NewNeighborOut\<close>: what it writes for the requests in its queue.\<close>

fun neighbor_out :: "ForwardMessage list \<Rightarrow> frame list" where
  "neighbor_out [] = []"
| "neighbor_out (m # mq) =
     (if is_shutdown (fm_qid m) then [Text HEADER_TERMINATE]
      else Text (if is_request (fm_qid m) then HEADER_REQ_DMCS else []) # Request m # neighbor_out mq)"

section \<open>The server's side\<close>

text \<open>
  The threads that a server has created. The three dispatcher threads are pointers that are reset when
  the threads have been joined; the two vectors keep their pointers, and a \<open>False\<close> in them is a pointer to a
  thread object that has been deleted.
\<close>

record NewThreadFactory =
  request_dispatcher_thread :: bool
  output_dispatcher_thread :: bool
  joiner_dispatcher_thread :: bool
  context_thread_vec :: "bool list"
  neighbor_thread_vec :: "bool list"

definition NewThreadFactory_new :: NewThreadFactory where
  "NewThreadFactory_new = \<lparr>request_dispatcher_thread = False, output_dispatcher_thread = False,
     joiner_dispatcher_thread = False, context_thread_vec = [], neighbor_thread_vec = []\<rparr>"

fun kill_vec :: "bool list \<Rightarrow> bool list res" where
  "kill_vec [] = Inr []"
| "kill_vec (t # ts) = (if \<not> t then Inl Undefined_Behaviour else bind_res (kill_vec ts) (\<lambda>ts. Inr (False # ts)))"

definition killThreads :: "NewThreadFactory \<Rightarrow> NewThreadFactory res" where
  "killThreads tf = bind_res (kill_vec (neighbor_thread_vec tf)) (\<lambda>ns. bind_res (kill_vec (context_thread_vec tf)) (\<lambda>cs.
     Inr (tf\<lparr>request_dispatcher_thread := False, output_dispatcher_thread := False, joiner_dispatcher_thread := False,
       neighbor_thread_vec := ns, context_thread_vec := cs\<rparr>)))"

definition createMainThreads :: "bool \<Rightarrow> NewThreadFactory \<Rightarrow> NewThreadFactory" where
  "createMainThreads jd tf = tf\<lparr>request_dispatcher_thread := True, output_dispatcher_thread := True,
     joiner_dispatcher_thread := (jd \<or> joiner_dispatcher_thread tf)\<rparr>"

definition createNeighborThreads :: "NewNeighbor list \<Rightarrow> NewThreadFactory \<Rightarrow> NewThreadFactory" where
  "createNeighborThreads neighbors tf = tf\<lparr>neighbor_thread_vec := neighbor_thread_vec tf @ map (\<lambda>_. True) neighbors\<rparr>"

definition createContextThreads :: "nat \<Rightarrow> NewThreadFactory \<Rightarrow> NewThreadFactory" where
  "createContextThreads n_contexts tf = tf\<lparr>context_thread_vec := context_thread_vec tf @ replicate n_contexts True\<rparr>"

text \<open>
  The state of a server: what its handlers have posted to the queues (a null pointer is \<open>None\<close>; the other two
  dispatchers get nothing but null pointers from here, which are counted), the offsets of the output threads,
  the handlers, the threads, and the connection to the manager.
\<close>

record server_world =
  sw_requests :: "ForwardMessage option list"
  sw_output_ends :: "qid list"
  od_ids :: id2offset
  n_output_mqs :: nat
  handler_vec :: nat
  count_shutdown_handlers :: nat
  has_joiner_dispatcher :: bool
  output_dispatcher_nulls :: nat
  joiner_dispatcher_nulls :: nat
  sw_neighbors :: "NewNeighbor list option"
  sw_contexts :: nat
  thread_factory :: NewThreadFactory
  manager_open :: bool
  to_manager :: "string list"

definition NewServer_new :: "NewNeighbor list option \<Rightarrow> nat \<Rightarrow> server_world" where
  "NewServer_new neighbors n_contexts = \<lparr>sw_requests = [], sw_output_ends = [], od_ids = Map.empty, n_output_mqs = 0,
     handler_vec = 0, count_shutdown_handlers = 0, has_joiner_dispatcher = False, output_dispatcher_nulls = 0,
     joiner_dispatcher_nulls = 0, sw_neighbors = neighbors, sw_contexts = n_contexts,
     thread_factory = NewThreadFactory_new, manager_open = True, to_manager = []\<rparr>"

text \<open>The two messages between a server and the manager at the start.\<close>

definition send_notification_to_manager :: "server_world \<Rightarrow> server_world" where
  "send_notification_to_manager w = w\<lparr>to_manager := to_manager w @ [INIT_PHASE1_COMPLETED]\<rparr>"

definition second_initialization_phase :: "server_world \<Rightarrow> server_world" where
  "second_initialization_phase w =
     (let w = (case sw_neighbors w of None \<Rightarrow> w
        | Some ns \<Rightarrow> w\<lparr>thread_factory := createNeighborThreads ns (thread_factory w), has_joiner_dispatcher := True\<rparr>)
      in w\<lparr>thread_factory := createContextThreads (sw_contexts w)
             (createMainThreads (has_joiner_dispatcher w) (thread_factory w))\<rparr>)"

definition handle_read_trigger_message :: "string \<Rightarrow> server_world \<Rightarrow> server_world res" where
  "handle_read_trigger_message trigger_message w = (if trigger_message = INIT_START_PHASE2
     then Inr (second_initialization_phase w) else Inl (Runtime_Error ''Unknown message from Manager''))"

datatype hstate = Await_Message | Await_Header | Await_Final | Closed

record NewHandler =
  h_state :: hstate
  first_round :: bool
  output_offset :: qid

definition NewHandler_new :: NewHandler where
  "NewHandler_new = \<lparr>h_state = Await_Message, first_round = True, output_offset = 0\<rparr>"

definition notify_shutdown_handler :: "server_world \<Rightarrow> server_world" where
  "notify_shutdown_handler w = w\<lparr>count_shutdown_handlers := sz_add (count_shutdown_handlers w) 1\<rparr>"

definition isShutdown :: "server_world \<Rightarrow> bool res" where
  "isShutdown w = assertion (count_shutdown_handlers w \<le> handler_vec w) (Inr (count_shutdown_handlers w = handler_vec w))"

text \<open>\<open>NewServer::shutdown\<close>: null pointers to the dispatchers, then the threads are joined and the manager is told.\<close>

definition server_shutdown :: "server_world \<Rightarrow> server_world res" where
  "server_shutdown w =
     (let w = w\<lparr>sw_requests := sw_requests w @ [None], output_dispatcher_nulls := output_dispatcher_nulls w + 1,
            joiner_dispatcher_nulls := joiner_dispatcher_nulls w + (if has_joiner_dispatcher w then 1 else 0)\<rparr>
      in bind_res (killThreads (thread_factory w)) (\<lambda>tf.
        if \<not> manager_open w then Inl (Runtime_Error ''bad descriptor'')
        else Inr (w\<lparr>thread_factory := tf, to_manager := to_manager w @ [HEADER_TERMINATE], manager_open := False\<rparr>)))"

text \<open>\<open>NewOutputThread::init_mq\<close>: a new output queue, registered for the invoking context.\<close>

definition init_mq :: "qid \<Rightarrow> server_world \<Rightarrow> (qid \<times> server_world) res" where
  "init_mq invoker w = (let offset = of_nat (n_output_mqs w) in
     bind_res (registerIdOffset (od_ids w) invoker offset) (\<lambda>ids.
       Inr (offset, w\<lparr>od_ids := ids, n_output_mqs := n_output_mqs w + 1\<rparr>)))"

definition h_handle_read_message :: "ForwardMessage \<Rightarrow> NewHandler \<Rightarrow> server_world \<Rightarrow> (NewHandler \<times> server_world) res" where
  "h_handle_read_message m h w =
     bind_res (if first_round h
       then bind_res (init_mq (invoker_from_qid (fm_qid m)) w) (\<lambda>(offset, w).
              Inr (h\<lparr>first_round := False, output_offset := offset\<rparr>, w))
       else Inr (h, w)) (\<lambda>(h, w).
     Inr (h\<lparr>h_state := Await_Header\<rparr>, w\<lparr>sw_requests := sw_requests w @ [Some m]\<rparr>))"

definition h_handle_read_header :: "string \<Rightarrow> NewHandler \<Rightarrow> NewHandler res" where
  "h_handle_read_header header h =
     (if found_in HEADER_REQ_DMCS header \<or> found_in HEADER_NEXT header then Inr (h\<lparr>h_state := Await_Message\<rparr>)
      else assertion (found_in HEADER_TERMINATE header) (Inr (h\<lparr>h_state := Await_Final\<rparr>)))"

definition h_handle_finalize :: "ForwardMessage \<Rightarrow> NewHandler \<Rightarrow> server_world \<Rightarrow> (NewHandler \<times> server_world) res" where
  "h_handle_finalize m h w = assertion (is_shutdown (fm_qid m))
     (let w = notify_shutdown_handler (w\<lparr>sw_output_ends := sw_output_ends w @ [output_offset h], sw_requests := sw_requests w @ [Some m]\<rparr>) in
      bind_res (isShutdown w) (\<lambda>all. bind_res (if all then server_shutdown w else Inr w) (\<lambda>w.
        Inr (h\<lparr>h_state := Closed\<rparr>, w))))"

text \<open>A connection: before its first header, handled, or not understood.\<close>

datatype conn = Accepted | Handled NewHandler | Not_Understood

fun s_handle_read_header :: "string \<Rightarrow> server_world \<Rightarrow> conn \<times> server_world" where
  "s_handle_read_header header w =
     (if found_in HEADER_REQ_DMCS header then (Handled NewHandler_new, w\<lparr>handler_vec := handler_vec w + 1\<rparr>)
      else (Not_Understood, w))"

fun conn_step :: "frame \<Rightarrow> conn \<times> server_world \<Rightarrow> (conn \<times> server_world) res" where
  "conn_step (Text t) (Accepted, w) = Inr (s_handle_read_header t w)"
| "conn_step f (Accepted, w) = Inl (Runtime_Error ''invalid_argument'')"
| "conn_step f (Not_Understood, w) = Inr (Not_Understood, w)"
| "conn_step f (Handled h, w) = (case (h_state h, f) of
       (Await_Message, Request m) \<Rightarrow> bind_res (h_handle_read_message m h w) (\<lambda>(h, w). Inr (Handled h, w))
     | (Await_Header, Text t) \<Rightarrow> bind_res (h_handle_read_header t h) (\<lambda>h. Inr (Handled h, w))
     | (Await_Final, Request m) \<Rightarrow> bind_res (h_handle_finalize m h w) (\<lambda>(h, w). Inr (Handled h, w))
     | (Closed, _) \<Rightarrow> Inr (Handled h, w)
     | _ \<Rightarrow> Inl (Runtime_Error ''invalid_argument''))"

fun conn_run :: "frame list \<Rightarrow> conn \<times> server_world \<Rightarrow> (conn \<times> server_world) res" where
  "conn_run [] s = Inr s"
| "conn_run (f # fs) s = bind_res (conn_step f s) (conn_run fs)"

text \<open>The asking side of the connection: whether an answer follows, or the socket is closed.\<close>

definition nt_handle_read_header :: "string \<Rightarrow> bool res" where
  "nt_handle_read_header header = assertion (found_in HEADER_ANS header \<or> found_in HEADER_TERMINATE header)
     (Inr (\<not> found_in HEADER_TERMINATE header))"

section \<open>The client\<close>

record NewClient =
  c_mess :: ForwardMessage
  c_loop :: bool
  c_results :: "returned list list"

definition send_header :: "string \<Rightarrow> ForwardMessage \<Rightarrow> frame list" where
  "send_header header m = [Text header, Request m]"

definition c_handle_read_answer :: "returned list \<Rightarrow> NewClient \<Rightarrow> (NewClient \<times> frame list) res" where
  "c_handle_read_answer rs c = (if rs = [] then Inl Undefined_Behaviour
     else assertion (belief_state (last rs) = None)
     (let result_list = butlast rs; pack_size = getPackSize (c_mess c) in
      if result_list = [] then Inr (c, [])
      else assertion (0 < pack_size \<longrightarrow> length result_list \<le> pack_size)
      (let next_k = (if 0 < pack_size then pack_size - length result_list else 0);
           c = c\<lparr>c_results := c_results c @ [result_list]\<rparr>
       in if \<not> c_loop c \<or> next_k = 0 then Inr (c, [])
          else bind_res (setPackRequest (c_mess c) (sz_add (fm_k2 (c_mess c)) 1) (sz_add (fm_k2 (c_mess c)) next_k)) (\<lambda>m.
            Inr (c\<lparr>c_mess := m\<rparr>, send_header HEADER_NEXT m)))))"

definition c_handle_read_header :: "string \<Rightarrow> bool res" where
  "c_handle_read_header header = (if header = HEADER_EOF then Inr False else assertion (header = HEADER_ANS) (Inr True))"

text \<open>The two frames that \<open>NewClient::terminate\<close> writes, and the rounds of a client whose requests \<open>answer\<close> answers.\<close>

definition client_terminate :: "ForwardMessage \<Rightarrow> frame list" where
  "client_terminate m = [Text HEADER_TERMINATE, Request m]"

fun client_rounds :: "nat \<Rightarrow> (ForwardMessage \<Rightarrow> returned list) \<Rightarrow> NewClient \<Rightarrow> (NewClient \<times> ForwardMessage list) res" where
  "client_rounds 0 answer c = Inl Out_Of_Fuel"
| "client_rounds (Suc fuel) answer c = bind_res (c_handle_read_answer (answer (c_mess c)) c) (\<lambda>(c', out).
     if out = [] then Inr (c', [c_mess c])
     else bind_res (client_rounds fuel answer c') (\<lambda>(c', ms). Inr (c', c_mess c # ms)))"

section \<open>The manager\<close>

record 'c Manager =
  connections_vec :: "'c list"
  system_size :: nat
  count_terminations :: nat
  m_written :: "('c \<times> string) list"
  m_closed :: "'c list"

definition Manager_new :: "nat \<Rightarrow> 'c Manager" where
  "Manager_new n = \<lparr>connections_vec = [], system_size = n, count_terminations = 0, m_written = [], m_closed = []\<rparr>"

definition trigger_2nd_phase :: "'c Manager \<Rightarrow> 'c Manager" where
  "trigger_2nd_phase mg = mg\<lparr>m_written := m_written mg @ map (\<lambda>conn. (conn, INIT_START_PHASE2)) (connections_vec mg)\<rparr>"

definition close_all_connections :: "'c Manager \<Rightarrow> 'c Manager" where
  "close_all_connections mg = mg\<lparr>m_closed := m_closed mg @ connections_vec mg\<rparr>"

definition m_handle_read_header :: "'c \<Rightarrow> string \<Rightarrow> 'c Manager \<Rightarrow> 'c Manager res" where
  "m_handle_read_header conn header mg = (if header = INIT_PHASE1_COMPLETED
     then let mg = mg\<lparr>connections_vec := connections_vec mg @ [conn]\<rparr>
          in Inr (if length (connections_vec mg) = system_size mg then trigger_2nd_phase mg else mg)
     else Inl (Runtime_Error ''Unknown notification from dmcsd.''))"

definition m_handle_finalize :: "string \<Rightarrow> 'c Manager \<Rightarrow> 'c Manager res" where
  "m_handle_finalize header mg = (if header = HEADER_TERMINATE
     then let mg = mg\<lparr>count_terminations := sz_add (count_terminations mg) 1\<rparr>
          in Inr (if count_terminations mg = system_size mg then close_all_connections mg else mg)
     else Inl (Runtime_Error ''Unknown header from dmcsd.''))"

fun m_headers :: "('c \<times> string) list \<Rightarrow> 'c Manager \<Rightarrow> 'c Manager res" where
  "m_headers [] mg = Inr mg"
| "m_headers ((conn, header) # hs) mg = bind_res (m_handle_read_header conn header mg) (m_headers hs)"

section \<open>A neighbor's requests reach the server's contexts\<close>

lemma found_in_headers:
  "found_in HEADER_REQ_DMCS HEADER_REQ_DMCS" "found_in HEADER_NEXT HEADER_NEXT"
  "\<not> found_in HEADER_REQ_DMCS HEADER_TERMINATE" "\<not> found_in HEADER_NEXT HEADER_TERMINATE"
  "found_in HEADER_TERMINATE HEADER_TERMINATE"
  by (simp_all add: HEADER_REQ_DMCS_def HEADER_NEXT_def HEADER_TERMINATE_def)

lemma conn_run_append: "conn_run (xs @ ys) s = bind_res (conn_run xs s) (conn_run ys)"
  by (induction xs arbitrary: s) (simp_all add: bind_res_def split: sum.splits)

lemma neighbor_out_append:
  "\<forall>m\<in>set ms. \<not> is_shutdown (fm_qid m) \<Longrightarrow> neighbor_out (ms @ ms') = neighbor_out ms @ neighbor_out ms'"
  by (induction ms) auto

definition opened :: "qid \<Rightarrow> NewHandler" where
  "opened offset = \<lparr>h_state = Await_Header, first_round = False, output_offset = offset\<rparr>"

definition served :: "qid \<Rightarrow> ForwardMessage list \<Rightarrow> server_world \<Rightarrow> server_world" where
  "served invoker ms w = w\<lparr>sw_requests := sw_requests w @ map Some ms, handler_vec := handler_vec w + 1,
     od_ids := (od_ids w)(invoker \<mapsto> of_nat (n_output_mqs w)), n_output_mqs := n_output_mqs w + 1\<rparr>"

text \<open>Once the handler has its output queue, every further request is posted as it arrives.\<close>

lemma handler_posts_requests:
  assumes "\<forall>m\<in>set ms. is_request (fm_qid m) \<and> \<not> is_shutdown (fm_qid m)"
  shows "conn_run (neighbor_out ms) (Handled (opened x), w)
    = Inr (Handled (opened x), w\<lparr>sw_requests := sw_requests w @ map Some ms\<rparr>)"
  using assms unfolding opened_def
  by (induction ms arbitrary: w)
    (auto simp: h_handle_read_header_def h_handle_read_message_def found_in_headers bind_res_def)

lemma connection_opens:
  assumes "is_request (fm_qid m)" and "\<not> is_shutdown (fm_qid m)"
    and "od_ids w (invoker_from_qid (fm_qid m)) = None"
  shows "conn_run (neighbor_out [m]) (Accepted, w)
    = Inr (Handled (opened (of_nat (n_output_mqs w))), served (invoker_from_qid (fm_qid m)) [m] w)"
  using assms
  by (simp add: found_in_headers NewHandler_new_def h_handle_read_message_def init_mq_def register_fresh
      bind_res_def opened_def served_def Let_def)

text \<open>
  C23. Requests on the wire: what the thread of a neighbor writes for a list of requests makes the server open one
  handler with one new output queue, registered for the invoking context, and post exactly these requests,
  in order. When a shutdown request follows, the thread writes the header alone, so the handler goes on
  waiting for the message after it and posts no shutdown.
\<close>

theorem requests_cross_the_wire:
  assumes "ms \<noteq> []" and "\<forall>m\<in>set ms. is_request (fm_qid m) \<and> \<not> is_shutdown (fm_qid m)"
    and "od_ids w (invoker_from_qid (fm_qid (hd ms))) = None"
  shows "conn_run (neighbor_out ms) (Accepted, w)
      = Inr (Handled (opened (of_nat (n_output_mqs w))), served (invoker_from_qid (fm_qid (hd ms))) ms w)
    \<and> (is_shutdown (fm_qid e) \<longrightarrow> conn_run (neighbor_out (ms @ [e])) (Accepted, w)
      = Inr (Handled ((opened (of_nat (n_output_mqs w)))\<lparr>h_state := Await_Final\<rparr>),
             served (invoker_from_qid (fm_qid (hd ms))) ms w))"
proof -
  obtain m ms' where ms: "ms = m # ms'" using assms(1) by (cases ms) auto
  have n: "neighbor_out ms = neighbor_out [m] @ neighbor_out ms'"
    using neighbor_out_append [of "[m]" ms'] assms(2) ms by simp
  have r: "conn_run (neighbor_out ms) (Accepted, w)
      = Inr (Handled (opened (of_nat (n_output_mqs w))), served (invoker_from_qid (fm_qid m)) ms w)"
    unfolding n conn_run_append using assms ms connection_opens [of m w]
      handler_posts_requests [of ms' "of_nat (n_output_mqs w)"]
    by (simp add: served_def bind_res_def)
  moreover have "neighbor_out (ms @ [e]) = neighbor_out ms @ [Text HEADER_TERMINATE]" if "is_shutdown (fm_qid e)"
    using neighbor_out_append [of ms "[e]"] assms(2) that by simp
  ultimately show ?thesis using ms
    by (auto simp: conn_run_append h_handle_read_header_def found_in_headers bind_res_def opened_def)
qed

theorem requests_cross_the_wire_witness:
  "\<exists>h w. conn_run (neighbor_out [\<lparr>fm_qid = query_id_own 2 1, fm_k1 = 1, fm_k2 = 5, fm_history = {}\<rparr>,
       \<lparr>fm_qid = shutdown_query_id, fm_k1 = 0, fm_k2 = 0, fm_history = {}\<rparr>]) (Accepted, NewServer_new None 1) = Inr (Handled h, w)
     \<and> h_state h = Await_Final \<and> map (map_option fm_k2) (sw_requests w) = [Some 5] \<and> od_ids w 2 = Some 0"
proof -
  let ?m = "\<lparr>fm_qid = query_id_own 2 1, fm_k1 = 1, fm_k2 = 5, fm_history = {}\<rparr>"
  let ?e = "\<lparr>fm_qid = shutdown_query_id, fm_k1 = 0, fm_k2 = 0, fm_history = {}\<rparr>"
  have q: "is_request (query_id_own 2 1)" "\<not> is_shutdown (query_id_own 2 1)" "invoker_from_qid (query_id_own 2 1) = 2"
    using query_id_own_request [of 2 1] query_id_own_is_request [of 2 1] by (simp_all add: fits_def)
  then have "\<forall>m\<in>set [?m]. is_request (fm_qid m) \<and> \<not> is_shutdown (fm_qid m)" by simp
  from requests_cross_the_wire [OF _ this, of "NewServer_new None 1" ?e] q is_shutdown_shutdown
  show ?thesis by (simp add: NewServer_new_def opened_def served_def)
qed

definition no_threads :: "NewThreadFactory \<Rightarrow> bool" where
  "no_threads tf \<longleftrightarrow> \<not> request_dispatcher_thread tf \<and> \<not> output_dispatcher_thread tf \<and> \<not> joiner_dispatcher_thread tf
     \<and> True \<notin> set (neighbor_thread_vec tf @ context_thread_vec tf)"

lemma kill_vec_all: "False \<notin> set ts \<Longrightarrow> kill_vec ts = Inr (map (\<lambda>_. False) ts)"
  by (induction ts) (auto simp: bind_res_def)

lemma killThreads_all:
  "False \<notin> set (neighbor_thread_vec tf @ context_thread_vec tf) \<Longrightarrow>
   killThreads tf = Inr \<lparr>request_dispatcher_thread = False, output_dispatcher_thread = False, joiner_dispatcher_thread = False,
     context_thread_vec = map (\<lambda>_. False) (context_thread_vec tf), neighbor_thread_vec = map (\<lambda>_. False) (neighbor_thread_vec tf)\<rparr>"
  by (simp add: killThreads_def kill_vec_all bind_res_def)

text \<open>
  A client's \<open>terminate\<close>: the handler ends its own output queue, forwards the shutdown request and is closed;
  the last open handler also ends the dispatchers, joins and deletes every thread and tells the manager.
\<close>

theorem client_terminate_closes:
  assumes "is_shutdown (fm_qid e)" and "h_state h = Await_Header"
    and "count_shutdown_handlers w < handler_vec w" and "handler_vec w < SIZE_T"
    and "manager_open w" and "False \<notin> set (neighbor_thread_vec (thread_factory w) @ context_thread_vec (thread_factory w))"
  shows "\<exists>w'. conn_run (client_terminate e) (Handled h, w) = Inr (Handled (h\<lparr>h_state := Closed\<rparr>), w')
    \<and> sw_output_ends w' = sw_output_ends w @ [output_offset h]
    \<and> count_shutdown_handlers w' = count_shutdown_handlers w + 1
    \<and> (if count_shutdown_handlers w + 1 < handler_vec w
       then sw_requests w' = sw_requests w @ [Some e] \<and> thread_factory w' = thread_factory w \<and> to_manager w' = to_manager w
       else sw_requests w' = sw_requests w @ [Some e, None] \<and> output_dispatcher_nulls w' = output_dispatcher_nulls w + 1
         \<and> joiner_dispatcher_nulls w' = joiner_dispatcher_nulls w + (if has_joiner_dispatcher w then 1 else 0)
         \<and> no_threads (thread_factory w') \<and> to_manager w' = to_manager w @ [HEADER_TERMINATE] \<and> \<not> manager_open w')"
  using assms
  by (auto simp: client_terminate_def h_handle_read_header_def found_in_headers h_handle_finalize_def
      notify_shutdown_handler_def isShutdown_def server_shutdown_def sz_add_small bind_res_def killThreads_all
      no_threads_def Let_def)

theorem client_terminate_closes_witness:
  "\<exists>w. conn_run (client_terminate \<lparr>fm_qid = shutdown_query_id, fm_k1 = 0, fm_k2 = 0, fm_history = {}\<rparr>)
       (Handled (opened 3), (NewServer_new None 1)\<lparr>handler_vec := 1\<rparr>) = Inr (Handled ((opened 3)\<lparr>h_state := Closed\<rparr>), w)
     \<and> sw_output_ends w = [3] \<and> to_manager w = [HEADER_TERMINATE]"
  using client_terminate_closes [of "\<lparr>fm_qid = shutdown_query_id, fm_k1 = 0, fm_k2 = 0, fm_history = {}\<rparr>"
      "opened 3" "(NewServer_new None 1)\<lparr>handler_vec := 1\<rparr>"] is_shutdown_shutdown
  by (auto simp: opened_def NewServer_new_def NewThreadFactory_new_def SIZE_T_def)

text \<open>
  A server ends when all of its handlers so far have ended. When another handler comes and ends after that, the
  threads of the vectors are looked at again although their objects have been deleted.
\<close>

lemma second_end_reads_deleted_threads:
  assumes "is_shutdown (fm_qid e)" and "h_state h = Await_Header"
    and "count_shutdown_handlers w + 1 = handler_vec w" and "handler_vec w < SIZE_T"
    and "no_threads (thread_factory w)" and "context_thread_vec (thread_factory w) \<noteq> []"
  shows "conn_run (client_terminate e) (Handled h, w) = Inl Undefined_Behaviour"
proof -
  have "killThreads (thread_factory w) = Inl Undefined_Behaviour"
    using assms(5,6) by (cases "neighbor_thread_vec (thread_factory w)"; cases "context_thread_vec (thread_factory w)")
      (auto simp: killThreads_def no_threads_def bind_res_def)
  then show ?thesis using assms
    by (auto simp: client_terminate_def h_handle_read_header_def found_in_headers h_handle_finalize_def
      notify_shutdown_handler_def isShutdown_def server_shutdown_def sz_add_small bind_res_def Let_def)
qed

text \<open>
  A second connection of the same context fails: the output queue it gets has another offset than the one that is
  still registered.
\<close>

lemma second_connection_fails:
  assumes "is_request (fm_qid m)" and "\<not> is_shutdown (fm_qid m)"
    and "od_ids w (invoker_from_qid (fm_qid m)) = Some x" and "x \<noteq> of_nat (n_output_mqs w)"
  shows "conn_run (neighbor_out [m]) (Accepted, w) = Inl Assertion_Failed"
  using assms
  by (auto simp: found_in_headers NewHandler_new_def h_handle_read_message_def init_mq_def registerIdOffset_def
      bind_res_def assertion_def Let_def)

section \<open>The rounds of the client end\<close>

definition proper_answer :: "ForwardMessage \<Rightarrow> returned list \<Rightarrow> bool" where
  "proper_answer m rs \<longleftrightarrow> rs \<noteq> [] \<and> belief_state (last rs) = None
     \<and> (0 < getPackSize m \<longrightarrow> length (butlast rs) \<le> getPackSize m)"

fun consecutive :: "ForwardMessage list \<Rightarrow> bool" where
  "consecutive (m # m' # ms) \<longleftrightarrow> fm_k1 m' = fm_k2 m + 1 \<and> consecutive (m' # ms)"
| "consecutive _ \<longleftrightarrow> True"

lemma c_round_ends:
  assumes "proper_answer (c_mess c) rs" and "butlast rs = [] \<or> \<not> c_loop c \<or> length (butlast rs) = getPackSize (c_mess c)
     \<or> getPackSize (c_mess c) = 0"
  shows "c_handle_read_answer rs c
     = Inr (c\<lparr>c_results := c_results c @ (if butlast rs = [] then [] else [butlast rs])\<rparr>, [])"
  using assms by (auto simp: proper_answer_def c_handle_read_answer_def Let_def assertion_def)

lemma c_round_asks:
  assumes "proper_answer (c_mess c) rs" and "butlast rs \<noteq> []" and "c_loop c"
    and "length (butlast rs) < getPackSize (c_mess c)"
    and "fm_k2 (c_mess c) + getPackSize (c_mess c) < SIZE_T"
  shows "c_handle_read_answer rs c = (let m = (c_mess c)\<lparr>fm_k1 := fm_k2 (c_mess c) + 1,
       fm_k2 := fm_k2 (c_mess c) + (getPackSize (c_mess c) - length (butlast rs))\<rparr>
     in Inr (c\<lparr>c_mess := m, c_results := c_results c @ [butlast rs]\<rparr>, send_header HEADER_NEXT m))"
  using assms by (auto simp: proper_answer_def c_handle_read_answer_def Let_def assertion_def setPackRequest_def
      sz_add_small bind_res_def)

lemma client_rounds_mono:
  "client_rounds f answer c = Inr r \<Longrightarrow> f \<le> f' \<Longrightarrow> client_rounds f' answer c = Inr r"
proof (induction f arbitrary: f' c r)
  case (Suc f)
  then obtain g where g: "f' = Suc g" "f \<le> g" by (cases f') auto
  have "client_rounds g answer d = client_rounds f answer d" if "is_ok (client_rounds f answer d)" for d
    using Suc.IH [of d _ g] g that by (cases "client_rounds f answer d") auto
  then show ?case using Suc.prems g by (auto simp: bind_res_def split: sum.splits prod.splits if_splits)
qed simp

text \<open>What a client has asked and kept after its rounds for the rest \<open>p\<close> of its package.\<close>

definition rounds_done :: "(ForwardMessage \<Rightarrow> returned list) \<Rightarrow> NewClient \<Rightarrow> nat \<Rightarrow> NewClient \<Rightarrow> ForwardMessage list \<Rightarrow>
    returned list list \<Rightarrow> bool" where
  "rounds_done answer c p c' ms rss \<longleftrightarrow> ms \<noteq> [] \<and> hd ms = c_mess c \<and> length ms \<le> p + 1 \<and> consecutive ms
     \<and> c_results c' = c_results c @ rss \<and> concat rss = concat (map (butlast \<circ> answer) ms) \<and> length (concat rss) \<le> p
     \<and> (c_loop c \<longrightarrow> length (concat rss) = p \<or> butlast (answer (last ms)) = [])"

lemma rounds_last:
  assumes "proper_answer (c_mess c) rs" and "rs = answer (c_mess c)" and "length (butlast rs) \<le> p"
    and "getPackSize (c_mess c) = p" and "butlast rs = [] \<or> \<not> c_loop c \<or> length (butlast rs) = p"
  shows "\<exists>c' ms rss. client_rounds (p + 1) answer c = Inr (c', ms) \<and> rounds_done answer c p c' ms rss"
proof -
  let ?rss = "if butlast rs = [] then [] else [butlast rs]"
  have "c_handle_read_answer rs c = Inr (c\<lparr>c_results := c_results c @ ?rss\<rparr>, [])"
    using c_round_ends [OF assms(1)] assms(4,5) by auto
  then have "client_rounds (p + 1) answer c = Inr (c\<lparr>c_results := c_results c @ ?rss\<rparr>, [c_mess c])"
    using assms(2) by (simp add: bind_res_def)
  moreover have "rounds_done answer c p (c\<lparr>c_results := c_results c @ ?rss\<rparr>) [c_mess c] ?rss"
    using assms by (auto simp: rounds_done_def)
  ultimately show ?thesis by blast
qed

lemma rounds_more:
  assumes "proper_answer (c_mess c) rs" and "rs = answer (c_mess c)" and "length (butlast rs) < p"
    and "getPackSize (c_mess c) = p" and "butlast rs \<noteq> []" and "c_loop c" and "fm_k2 (c_mess c) + p * p < SIZE_T"
  shows "\<exists>d q. 0 < q \<and> q < p \<and> getPackSize (c_mess d) = q \<and> fm_k2 (c_mess d) + q * q < SIZE_T
    \<and> (\<forall>c' ms rss. client_rounds (q + 1) answer d = Inr (c', ms) \<and> rounds_done answer d q c' ms rss \<longrightarrow>
        client_rounds (p + 1) answer c = Inr (c', c_mess c # ms)
        \<and> rounds_done answer c p c' (c_mess c # ms) (butlast rs # rss))"
proof -
  let ?m = "c_mess c" and ?n = "length (butlast rs)"
  define q where "q = p - ?n"
  define m where "m = ?m\<lparr>fm_k1 := fm_k2 ?m + 1, fm_k2 := fm_k2 ?m + q\<rparr>"
  define d where "d = c\<lparr>c_mess := m, c_results := c_results c @ [butlast rs]\<rparr>"
  have "0 < ?n" using assms(5) by (simp only: length_greater_0_conv) simp
  then have q: "0 < q" "q < p" using assms(3) by (auto simp: q_def)
  have "q + q * q \<le> p * p" using mult_le_mono [of "Suc q" p q p] q by simp
  moreover have "q \<le> q * q" using q by simp
  ultimately have k: "fm_k2 ?m + q + q * q < SIZE_T" using assms(7) by simp
  have "p \<le> p * p" by (rule le_square)
  then have ps: "fm_k2 ?m + p < SIZE_T" using assms(7) by (rule add_left_mono [THEN le_less_trans])
  have step: "c_handle_read_answer rs c = Inr (d, send_header HEADER_NEXT m)"
    using c_round_asks [OF assms(1)] assms(3-6) ps by (simp add: d_def m_def q_def Let_def)
  have gp: "getPackSize (c_mess d) = q"
    using q k by (simp add: d_def m_def getPackSize_def sz_sub_small sz_add_small)
  have "client_rounds (p + 1) answer c = Inr (c', ?m # ms) \<and> rounds_done answer c p c' (?m # ms) (butlast rs # rss)"
    if r: "client_rounds (q + 1) answer d = Inr (c', ms)" "rounds_done answer d q c' ms rss" for c' ms rss
  proof -
    have "client_rounds p answer d = Inr (c', ms)" using client_rounds_mono [OF r(1), of p] q by simp
    moreover have "consecutive (?m # ms)" using r(2) by (cases ms) (auto simp: rounds_done_def d_def m_def)
    ultimately show ?thesis using step r(2) q assms(2,3)
      by (auto simp: rounds_done_def bind_res_def send_header_def d_def q_def)
  qed
  moreover have "fm_k2 (c_mess d) + q * q < SIZE_T" using k by (simp add: d_def m_def)
  ultimately show ?thesis using q gp by blast
qed


definition one_answer :: "ForwardMessage \<Rightarrow> returned list" where
  "one_answer m = (if fm_k1 m \<le> 1 then [rbs_new (Some (bs_new 1 False)) 0, rbs_new None 0] else [rbs_new None 0])"


section \<open>The two phases\<close>

lemma m_headers_snoc:
  "m_headers (hs @ [(c, t)]) mg = bind_res (m_headers hs mg) (m_handle_read_header c t)"
  by (induction hs arbitrary: mg) (auto simp: bind_res_def split: sum.splits)

text \<open>
  The manager: when servers report the end of their first phase, the second phase is started exactly once, at the
  report that makes the number of reports the size of the system, and for exactly the servers that reported until then;
  later reports change nothing but the list of connections.
\<close>

theorem manager_starts_phase_two:
  "\<exists>mg. m_headers (map (\<lambda>c. (c, INIT_PHASE1_COMPLETED)) cs) (Manager_new n) = Inr mg
     \<and> connections_vec mg = cs \<and> system_size mg = n \<and> m_closed mg = []
     \<and> m_written mg = (if 0 < n \<and> n \<le> length cs then map (\<lambda>c. (c, INIT_START_PHASE2)) (take n cs) else [])"
proof (induction cs rule: rev_induct)
  case (snoc c cs)
  then show ?case by (auto simp: m_headers_snoc bind_res_def m_handle_read_header_def trigger_2nd_phase_def Let_def)
qed (simp add: Manager_new_def)

end
