(* ===== verification/Server_Startup.thy ===== *)
theory Server_Startup
  imports Connections "HOL-Library.Multiset"
begin

text \<open>
  The start of a system in two phases: servers that accept connections, the manager that waits for all of
  them (\<open>src/network/Manager.cpp\<close>), and the second phase of the servers, in which they connect to their
  neighbors (\<open>NewServer::second_initialization_phase\<close>). The messages of different servers can overtake each other.
\<close>

section \<open>Servers and the manager\<close>

datatype sphase = Init | Waiting_Trigger | Started

record startup_system =
  manager :: "nat Manager"
  inbox :: "(nat \<times> string) list"
  servers :: "(sphase \<times> server_world) list"

definition first_written :: "nat \<Rightarrow> (nat \<times> string) list \<Rightarrow> string option" where
  "first_written i ms = (case filter (\<lambda>m. fst m = i) ms of [] \<Rightarrow> None | m # _ \<Rightarrow> Some (snd m))"

datatype startup_event = Notify nat | Deliver nat | Trigger nat

text \<open>
  An event that cannot happen is \<open>None\<close>. A server notifies the manager once and then reads one message; the
  manager handles the notifications one after the other in any order.
\<close>

fun startup_fire :: "startup_event \<Rightarrow> startup_system \<Rightarrow> startup_system res option" where
  "startup_fire (Notify i) s =
     (if i < length (servers s) \<and> fst (servers s ! i) = Init
      then let w = send_notification_to_manager (snd (servers s ! i)) in
        Some (Inr (s\<lparr>servers := (servers s)[i := (Waiting_Trigger, w)], inbox := inbox s @ [(i, last (to_manager w))]\<rparr>))
      else None)"
| "startup_fire (Deliver k) s =
     (if k < length (inbox s)
      then Some (bind_res (m_handle_read_header (fst (inbox s ! k)) (snd (inbox s ! k)) (manager s)) (\<lambda>mg.
        Inr (s\<lparr>manager := mg, inbox := take k (inbox s) @ drop (Suc k) (inbox s)\<rparr>)))
      else None)"
| "startup_fire (Trigger i) s =
     (if i < length (servers s) \<and> fst (servers s ! i) = Waiting_Trigger
      then (case first_written i (m_written (manager s)) of None \<Rightarrow> None
        | Some t \<Rightarrow> Some (bind_res (handle_read_trigger_message t (snd (servers s ! i))) (\<lambda>w.
            Inr (s\<lparr>servers := (servers s)[i := (Started, w)]\<rparr>))))
      else None)"

definition startup_begin :: "server_world list \<Rightarrow> startup_system" where
  "startup_begin ws = \<lparr>manager = Manager_new (length ws), inbox = [], servers = map (Pair Init) ws\<rparr>"

inductive startup_reach :: "server_world list \<Rightarrow> nat \<Rightarrow> startup_system \<Rightarrow> bool" for ws where
  start: "startup_reach ws 0 (startup_begin ws)"
| step: "startup_reach ws k s \<Longrightarrow> startup_fire e s = Some (Inr s') \<Longrightarrow> startup_reach ws (Suc k) s'"

section \<open>The invariant\<close>

definition notified :: "startup_system \<Rightarrow> nat set" where
  "notified s = {i. i < length (servers s) \<and> fst (servers s ! i) \<noteq> Init}"

definition startup_inv :: "server_world list \<Rightarrow> startup_system \<Rightarrow> bool" where
  "startup_inv ws s \<longleftrightarrow> length (servers s) = length ws \<and> system_size (manager s) = length ws
     \<and> distinct (connections_vec (manager s) @ map fst (inbox s))
     \<and> set (connections_vec (manager s) @ map fst (inbox s)) = notified s
     \<and> snd ` set (inbox s) \<subseteq> {INIT_PHASE1_COMPLETED}
     \<and> m_written (manager s) = (if length (connections_vec (manager s)) = length ws
          then map (\<lambda>c. (c, INIT_START_PHASE2)) (connections_vec (manager s)) else [])
     \<and> (\<forall>i < length ws. snd (servers s ! i) = (case fst (servers s ! i) of Init \<Rightarrow> ws ! i
          | Waiting_Trigger \<Rightarrow> send_notification_to_manager (ws ! i)
          | Started \<Rightarrow> second_initialization_phase (send_notification_to_manager (ws ! i))))
     \<and> ((\<exists>i < length ws. fst (servers s ! i) = Started) \<longrightarrow> length (connections_vec (manager s)) = length ws)"

lemma notified_finite [simp]: "finite (notified s)"
  by (simp add: notified_def)

lemma connections_bound:
  assumes "startup_inv ws s"
  shows "length (connections_vec (manager s)) + length (inbox s) = card (notified s)"
  using assms distinct_card [of "connections_vec (manager s) @ map fst (inbox s)"] by (simp add: startup_inv_def)

lemma all_notified:
  assumes "startup_inv ws s" and "length (connections_vec (manager s)) = length ws"
  shows "notified s = {..<length ws}" and "inbox s = []" and "set (connections_vec (manager s)) = {..<length ws}"
proof -
  have sub: "notified s \<subseteq> {..<length ws}" using assms(1) by (auto simp: notified_def startup_inv_def)
  have c: "length ws + length (inbox s) = card (notified s)" using connections_bound [OF assms(1)] assms(2) by simp
  moreover have "card (notified s) \<le> length ws" using card_mono [OF _ sub] by simp
  ultimately show i: "inbox s = []" and n: "notified s = {..<length ws}"
    using card_subset_eq [OF _ sub] by auto
  from assms(1) i n show "set (connections_vec (manager s)) = {..<length ws}" by (simp add: startup_inv_def)
qed

lemma first_written_start: "first_written i (map (\<lambda>c. (c, t)) cs) = (if i \<in> set cs then Some t else None)"
  by (induction cs) (auto simp: first_written_def)

lemma inv_begin: "startup_inv ws (startup_begin ws)"
  by (auto simp: startup_inv_def startup_begin_def Manager_new_def notified_def)

lemma inv_notify:
  assumes "startup_inv ws s" and "startup_fire (Notify i) s = Some r"
  shows "\<exists>s'. r = Inr s' \<and> startup_inv ws s'"
proof -
  from assms(2) have i: "i < length (servers s)" "fst (servers s ! i) = Init" by (auto split: if_splits)
  define w where "w = send_notification_to_manager (snd (servers s ! i))"
  define s' where "s' = s\<lparr>servers := (servers s)[i := (Waiting_Trigger, w)], inbox := inbox s @ [(i, INIT_PHASE1_COMPLETED)]\<rparr>"
  have r: "r = Inr s'" using assms(2) i by (simp add: Let_def s'_def w_def send_notification_to_manager_def)
  have n: "notified s' = insert i (notified s)" "i \<notin> notified s"
    using i by (auto simp: notified_def s'_def nth_list_update split: if_splits)
  have wi: "w = send_notification_to_manager (ws ! i)" using assms(1) i by (simp add: startup_inv_def w_def)
  have "startup_inv ws s'" using assms(1) i n wi
    unfolding startup_inv_def n(1) by (auto simp: s'_def nth_list_update)
  with r show ?thesis by blast
qed

lemma inv_deliver:
  assumes inv: "startup_inv ws s" and "startup_fire (Deliver k) s = Some r"
  shows "\<exists>s'. r = Inr s' \<and> startup_inv ws s' \<and> length (connections_vec (manager s')) = Suc (length (connections_vec (manager s)))
    \<and> servers s' = servers s"
proof -
  from assms(2) have k: "k < length (inbox s)" by (auto split: if_splits)
  obtain i t where it: "inbox s ! k = (i, t)" by force
  let ?rest = "take k (inbox s) @ drop (Suc k) (inbox s)"
  have ib: "inbox s = take k (inbox s) @ (i, t) # drop (Suc k) (inbox s)" using id_take_nth_drop [OF k] it by simp
  have "(i, t) \<in> set (inbox s)" using k it nth_mem by metis
  then have t: "t = INIT_PHASE1_COMPLETED" using inv by (auto simp: startup_inv_def)
  let ?cs = "connections_vec (manager s)"
  have len: "length ?cs < length ws"
  proof (rule ccontr)
    assume "\<not> ?thesis"
    moreover have "length ?cs + length (inbox s) \<le> length ws"
      using connections_bound [OF inv] card_mono [of "{..<length ws}" "notified s"] inv
      by (auto simp: startup_inv_def notified_def)
    ultimately show False using k by simp
  qed
  define mg where "mg = (let mg = (manager s)\<lparr>connections_vec := ?cs @ [i]\<rparr>
     in if length (?cs @ [i]) = length ws then trigger_2nd_phase mg else mg)"
  have m: "m_handle_read_header i t (manager s) = Inr mg"
    using inv t by (simp add: m_handle_read_header_def mg_def Let_def startup_inv_def)
  define s' where "s' = s\<lparr>manager := mg, inbox := ?rest\<rparr>"
  have mgf: "connections_vec mg = ?cs @ [i]" "system_size mg = system_size (manager s)"
    by (simp_all add: mg_def Let_def trigger_2nd_phase_def)
  have mw: "m_written mg = (if length (?cs @ [i]) = length ws then map (\<lambda>c. (c, INIT_START_PHASE2)) (?cs @ [i]) else [])"
    using inv len by (simp add: mg_def Let_def trigger_2nd_phase_def startup_inv_def)
  have d: "distinct (?cs @ map fst (inbox s))" "set (?cs @ map fst (inbox s)) = notified s"
    and x: "snd ` set (inbox s) \<subseteq> {INIT_PHASE1_COMPLETED}"
    using inv by (simp_all add: startup_inv_def)
  have ms: "mset ((?cs @ [i]) @ map fst ?rest) = mset (?cs @ map fst (inbox s))"
    by (subst (2) ib) simp
  then have "distinct ((?cs @ [i]) @ map fst ?rest)" using d(1) by (metis mset_eq_imp_distinct_iff)
  moreover have "set ((?cs @ [i]) @ map fst ?rest) = notified s" using ms d(2) by (metis mset_eq_setD)
  moreover have "set ?rest \<subseteq> set (inbox s)" by (auto dest: in_set_takeD in_set_dropD)
  then have "snd ` set ?rest \<subseteq> {INIT_PHASE1_COMPLETED}" using x by blast
  moreover have "\<not> (\<exists>j < length ws. fst (servers s ! j) = Started)" using inv len by (auto simp: startup_inv_def)
  ultimately have "startup_inv ws s'" using inv
    unfolding startup_inv_def s'_def by (simp add: mgf mw notified_def)
  moreover have "r = Inr s'" using assms(2) k it m by (simp add: s'_def bind_res_def)
  ultimately show ?thesis by (auto simp: s'_def mgf)
qed

lemma inv_trigger:
  assumes inv: "startup_inv ws s" and "startup_fire (Trigger i) s = Some r"
  shows "\<exists>s'. r = Inr s' \<and> startup_inv ws s' \<and> manager s' = manager s \<and> i < length (servers s) \<and> fst (servers s ! i) = Waiting_Trigger
    \<and> servers s' = (servers s)[i := (Started, snd (servers s' ! i))]"
proof -
  from assms(2) have i: "i < length (servers s)" "fst (servers s ! i) = Waiting_Trigger" by (auto split: if_splits)
  from assms(2) obtain t where t: "first_written i (m_written (manager s)) = Some t" using i by (auto split: option.splits)
  have full: "length (connections_vec (manager s)) = length ws"
    using inv t by (auto simp: startup_inv_def first_written_def split: if_splits)
  then have "t = INIT_START_PHASE2" using inv t by (simp add: startup_inv_def first_written_start split: if_splits)
  define w where "w = second_initialization_phase (snd (servers s ! i))"
  define s' where "s' = s\<lparr>servers := (servers s)[i := (Started, w)]\<rparr>"
  have r: "r = Inr s'" using assms(2) i t \<open>t = INIT_START_PHASE2\<close>
    by (simp add: handle_read_trigger_message_def bind_res_def s'_def w_def)
  have n: "notified s' = notified s" using i by (auto simp: notified_def s'_def nth_list_update split: if_splits)
  have "w = second_initialization_phase (send_notification_to_manager (ws ! i))"
    using inv i by (simp add: startup_inv_def w_def)
  then have "startup_inv ws s'" using inv i full unfolding startup_inv_def n by (auto simp: s'_def nth_list_update)
  with r i show ?thesis by (auto simp: s'_def)
qed

definition started :: "startup_system \<Rightarrow> nat set" where
  "started s = {i. i < length (servers s) \<and> fst (servers s ! i) = Started}"

lemma startup_reach_inv:
  assumes "startup_reach ws k s"
  shows "startup_inv ws s \<and> k = card (notified s) + length (connections_vec (manager s)) + card (started s)"
  using assms
proof induction
  case start
  then show ?case by (simp add: inv_begin) (simp add: startup_begin_def notified_def started_def Manager_new_def)
next
  case (step k s e s')
  then have inv: "startup_inv ws s" by blast
  show ?case
  proof (cases e)
    case (Notify i)
    with step.hyps have i: "i < length (servers s)" "fst (servers s ! i) = Init" by (auto split: if_splits)
    have "startup_inv ws s'" using inv_notify [OF inv, of i] step.hyps Notify by auto
    moreover have "notified s' = insert i (notified s)" "i \<notin> notified s" "started s' = started s" "manager s' = manager s"
      using i step.hyps Notify by (auto simp: notified_def started_def Let_def nth_list_update split: if_splits)
    ultimately show ?thesis using step.IH by simp
  next
    case (Deliver j)
    then show ?thesis using inv_deliver [OF inv, of j] step.hyps step.IH by (auto simp: notified_def started_def)
  next
    case (Trigger i)
    with inv_trigger [OF inv, of i] step.hyps have t: "startup_inv ws s'" "manager s' = manager s" "i < length (servers s)"
      "fst (servers s ! i) = Waiting_Trigger" "servers s' = (servers s)[i := (Started, snd (servers s' ! i))]" by auto
    have "length (servers s') = length (servers s)" using t(5) by (metis length_list_update)
    moreover have f: "fst (servers s' ! j) = (if j = i then Started else fst (servers s ! j))" if "j < length (servers s)" for j
      using that t(3) by (subst t(5)) (simp add: nth_list_update)
    ultimately have "notified s' = notified s" "started s' = insert i (started s)" "i \<notin> started s"
      using t(3,4) by (auto simp: notified_def started_def split: if_splits)
    moreover have "finite (started s)" by (simp add: started_def)
    ultimately show ?thesis using step.IH t(1,2) by simp
  qed
qed

section \<open>The barrier\<close>

lemma startup_stuck:
  assumes inv: "startup_inv ws s" and stuck: "\<forall>e. startup_fire e s = None" and i: "i < length ws"
  shows "fst (servers s ! i) = Started"
proof -
  have l: "length (servers s) = length ws" using inv by (simp add: startup_inv_def)
  have "fst (servers s ! j) \<noteq> Init" if "j < length ws" for j
    using spec [OF stuck, of "Notify j"] that l by (auto simp: Let_def split: if_splits)
  then have n: "notified s = {..<length ws}" using l by (auto simp: notified_def)
  have "inbox s = []" using spec [OF stuck, of "Deliver 0"] by (auto split: if_splits)
  then have full: "length (connections_vec (manager s)) = length ws" using connections_bound [OF inv] n by simp
  then have "m_written (manager s) = map (\<lambda>c. (c, INIT_START_PHASE2)) (connections_vec (manager s))"
    using inv by (simp add: startup_inv_def)
  moreover have "i \<in> set (connections_vec (manager s))" using all_notified(3) [OF inv full] i by simp
  ultimately have "first_written i (m_written (manager s)) = Some INIT_START_PHASE2" by (simp add: first_written_start)
  then have "fst (servers s ! i) \<noteq> Waiting_Trigger"
    using spec [OF stuck, of "Trigger i"] i l by (auto split: if_splits)
  with n i show ?thesis by (cases "fst (servers s ! i)") (auto simp: notified_def)
qed

text \<open>
  C9. The start is a barrier: in whatever order the messages arrive, no event of a system of \<open>n\<close> servers fails; a server
  enters its second phase, in which it connects to its neighbors, only when every server has completed the first one;
  no run has more than \<open>3 * n\<close> events; and when no event is possible any more, every server has
  entered the second phase once.
\<close>

theorem startup_is_a_barrier:
  assumes "startup_reach ws k s"
  shows "(\<forall>e r. startup_fire e s = Some r \<longrightarrow> is_ok r)
    \<and> ((\<exists>i < length ws. fst (servers s ! i) = Started) \<longrightarrow> (\<forall>i < length ws. fst (servers s ! i) \<noteq> Init))
    \<and> k \<le> 3 * length ws
    \<and> ((\<forall>e. startup_fire e s = None) \<longrightarrow>
        servers s = map (\<lambda>w. (Started, second_initialization_phase (send_notification_to_manager w))) ws)"
proof -
  from startup_reach_inv [OF assms] have inv: "startup_inv ws s"
    and k: "k = card (notified s) + length (connections_vec (manager s)) + card (started s)" by blast+
  have l: "length (servers s) = length ws" using inv by (simp add: startup_inv_def)
  have "is_ok r" if "startup_fire e s = Some r" for e r
    using that inv_notify [OF inv] inv_deliver [OF inv] inv_trigger [OF inv] by (cases e) fastforce+
  moreover have "\<forall>i < length ws. fst (servers s ! i) \<noteq> Init" if "\<exists>i < length ws. fst (servers s ! i) = Started"
    using all_notified(1) [OF inv] that inv unfolding startup_inv_def notified_def by blast
  moreover have "notified s \<subseteq> {..<length ws}" "started s \<subseteq> {..<length ws}"
    using l by (auto simp: notified_def started_def)
  then have "card (notified s) \<le> length ws" "card (started s) \<le> length ws" by (auto dest: card_mono [rotated])
  then have "k \<le> 3 * length ws" using k connections_bound [OF inv] by simp
  moreover have "servers s = map (\<lambda>w. (Started, second_initialization_phase (send_notification_to_manager w))) ws"
    if "\<forall>e. startup_fire e s = None"
    using startup_stuck [OF inv that] inv l
    by (intro nth_equalityI) (auto simp: startup_inv_def prod_eq_iff)
  ultimately show ?thesis by blast
qed

theorem startup_is_a_barrier_witness:
  "\<exists>s. startup_reach [NewServer_new None 1] 1 s \<and> inbox s = [(0, INIT_PHASE1_COMPLETED)] \<and> 1 \<le> 3 * length [NewServer_new None 1]"
proof -
  let ?ws = "[NewServer_new None 1]"
  obtain s where s: "startup_fire (Notify 0) (startup_begin ?ws) = Some (Inr s)" "inbox s = [(0, INIT_PHASE1_COMPLETED)]"
    by (simp add: startup_begin_def send_notification_to_manager_def NewServer_new_def Let_def)
  have "startup_reach ?ws (Suc 0) s" using startup_reach.step [OF startup_reach.start s(1)] .
  then have r: "startup_reach ?ws 1 s" by simp
  from startup_is_a_barrier [OF r] r s(2) show ?thesis by blast
qed

end
