(* ===== verification/Topologies.thy ===== *)
theory Topologies
  imports Dmcs_Prelude
begin

text \<open>
  The topologies of the benchmark generator (\<open>include/generator/*TopoGenerator.h\<close>, and the checks of the input and
  the choice of the generator in \<open>src/generator/new_staticGen.cpp\<close>). Contexts are numbered from 1 by
  the generators and from 0 in the lists of neighbors that they fill. \<open>rand\<close> takes the next number from a list;
  a loop that has used up the list is \<open>Out_Of_Fuel\<close>. The numbers of contexts are far below \<open>2^64\<close>, so the sums of
  numbers do not wrap around.
\<close>

section \<open>Random numbers\<close>

definition rand :: "nat list \<Rightarrow> (nat \<times> nat list) res" where
  "rand rs = (case rs of [] \<Rightarrow> Inl Out_Of_Fuel | r # rs' \<Rightarrow> Inr (r, rs'))"

lemma rand_simps [simp]: "rand [] = Inl Out_Of_Fuel" "rand (r # rs) = Inr (r, rs)"
  by (simp_all add: rand_def)

fun run_all :: "('i \<Rightarrow> 's \<times> nat list \<Rightarrow> ('s \<times> nat list) res) \<Rightarrow> 'i list \<Rightarrow> 's \<times> nat list \<Rightarrow> ('s \<times> nat list) res" where
  "run_all f [] s = Inr s"
| "run_all f (i # is) s = bind_res (f i s) (run_all f is)"

text \<open>
  Steps that consume random numbers: more numbers do not change what a step has done, and a step that has used up
  the numbers it was given can go on to its end with suitable further ones. Sequences of such steps have
  the same properties.
\<close>

locale random_steps =
  fixes f :: "'i \<Rightarrow> 's \<times> nat list \<Rightarrow> ('s \<times> nat list) res" and ok :: "'i \<Rightarrow> 's \<Rightarrow> bool"
  assumes extend: "f i (s, rs) = Inr (s', rest) \<Longrightarrow> f i (s, rs @ ws) = Inr (s', rest @ ws)"
    and resume: "ok i s \<Longrightarrow> \<exists>ws s' rest. f i (s, rs @ ws) = Inr (s', rest)"
    and keep: "ok i s \<Longrightarrow> f i (s, rs) = Inr (s', rest) \<Longrightarrow> ok j s \<Longrightarrow> ok j s'"
begin

lemma all_extend: "run_all f is (s, rs) = Inr (s', rest) \<Longrightarrow> run_all f is (s, rs @ ws) = Inr (s', rest @ ws)"
proof (induction "is" arbitrary: s rs)
  case (Cons i "is")
  then show ?case using extend [of i s rs] by (auto simp: bind_res_def split: sum.splits)
qed simp

lemma all_keep:
  "run_all f is (s, rs) = Inr (s', rest) \<Longrightarrow> \<forall>i\<in>set is. ok i s \<Longrightarrow> ok j s \<Longrightarrow> ok j s'"
proof (induction "is" arbitrary: s rs)
  case (Cons i "is")
  then obtain t us where 1: "f i (s, rs) = Inr (t, us)" "run_all f is (t, us) = Inr (s', rest)"
    by (auto simp: bind_res_def split: sum.splits)
  have "ok k t" if "ok k s" for k using keep [OF _ 1(1)] Cons.prems(2) that by simp
  then show ?case using Cons.IH [OF 1(2)] Cons.prems by simp
qed simp

lemma all_resume:
  "\<forall>i\<in>set is. ok i s \<Longrightarrow> \<exists>ws s' rest. run_all f is (s, rs @ ws) = Inr (s', rest)"
proof (induction "is" arbitrary: s rs)
  case (Cons i "is")
  obtain ws t us where 1: "f i (s, rs @ ws) = Inr (t, us)" using resume [of i s rs] Cons.prems by auto
  have "\<forall>k\<in>set is. ok k t" using keep [OF _ 1] Cons.prems by simp
  from Cons.IH [OF this, of us] obtain vs s' rest where 2: "run_all f is (t, us @ vs) = Inr (s', rest)" by blast
  have "f i (s, rs @ (ws @ vs)) = Inr (t, us @ vs)" using extend [OF 1, of vs] by simp
  with 2 show ?case by (intro exI [of _ "ws @ vs"]) (auto simp: bind_res_def)
qed simp

end

section \<open>The generators\<close>

type_synonym topo = "nat list list"

definition genNeighbor :: "nat \<Rightarrow> nat \<Rightarrow> topo \<times> nat list \<Rightarrow> (topo \<times> nat list) res" where
  "genNeighbor from to = (\<lambda>(topo, rs).
     if 0 < from \<and> from \<le> length topo then Inr (topo[from - 1 := topo ! (from - 1) @ [sz_sub to 1]], rs)
     else Inl Undefined_Behaviour)"

definition DiamondTopo :: "nat \<Rightarrow> nat \<Rightarrow> topo \<times> nat list \<Rightarrow> (topo \<times> nat list) res" where
  "DiamondTopo system_size x s =
     (if x = system_size then Inr s
      else if x mod 3 = 1 then bind_res (genNeighbor x (x + 1) s) (genNeighbor x (x + 2))
      else if x mod 3 = 0 then genNeighbor x (x + 1) s
      else genNeighbor x (x + 2) s)"

definition genRandomEdge :: "nat \<Rightarrow> nat \<Rightarrow> topo \<times> nat list \<Rightarrow> (topo \<times> nat list) res" where
  "genRandomEdge from to = (\<lambda>(topo, rs). bind_res (rand rs) (\<lambda>(r, rs).
     if r mod 2 \<noteq> 0 then genNeighbor from to (topo, rs) else genNeighbor to from (topo, rs)))"

definition DiamondArbitraryTopo :: "nat \<Rightarrow> nat \<Rightarrow> topo \<times> nat list \<Rightarrow> (topo \<times> nat list) res" where
  "DiamondArbitraryTopo system_size x s =
     (if x = system_size then Inr s
      else if x mod 3 = 1 then bind_res (genRandomEdge x (x + 1) s) (genRandomEdge x (x + 2))
      else if x mod 3 = 0 then genRandomEdge x (x + 1) s
      else genRandomEdge x (x + 2) s)"

definition DiamondZigZagTopo :: "nat \<Rightarrow> nat \<Rightarrow> topo \<times> nat list \<Rightarrow> (topo \<times> nat list) res" where
  "DiamondZigZagTopo system_size x s =
     (if x = system_size then Inr s
      else if x mod 3 = 1 \<or> x mod 3 = 2 then bind_res (genNeighbor x (x + 1) s) (genNeighbor x (x + 2))
      else genNeighbor x (x + 1) s)"

definition RingTopo :: "nat \<Rightarrow> nat \<Rightarrow> topo \<times> nat list \<Rightarrow> (topo \<times> nat list) res" where
  "RingTopo system_size x s = (if x = system_size then genNeighbor x 1 s else genNeighbor x (x + 1) s)"

fun other_loop :: "nat \<Rightarrow> nat \<Rightarrow> nat list \<Rightarrow> (nat \<times> nat list) res" where
  "other_loop system_size nxt [] = Inl Out_Of_Fuel"
| "other_loop system_size nxt (r # rs) = (let other = r mod system_size + 1 in
     if other = nxt then other_loop system_size nxt rs else Inr (other, rs))"

definition RingEdgeTopo :: "nat \<Rightarrow> nat \<Rightarrow> topo \<times> nat list \<Rightarrow> (topo \<times> nat list) res" where
  "RingEdgeTopo system_size x s = (let nxt = (if x = system_size then 1 else x + 1) in
     bind_res (genNeighbor x nxt s) (\<lambda>(topo, rs). bind_res (rand rs) (\<lambda>(r, rs).
       if r mod 2 \<noteq> 0
       then bind_res (other_loop system_size nxt rs) (\<lambda>(other, rs). genNeighbor x other (topo, rs))
       else Inr (topo, rs))))"

definition BinaryTreeTopo :: "nat \<Rightarrow> nat \<Rightarrow> topo \<times> nat list \<Rightarrow> (topo \<times> nat list) res" where
  "BinaryTreeTopo system_size x s =
     (if 2 * x \<le> system_size
      then bind_res (genNeighbor x (2 * x) s) (\<lambda>s.
        if 2 * x + 1 \<le> system_size then genNeighbor x (2 * x + 1) s else Inr s)
      else Inr s)"

definition house_children :: "nat \<Rightarrow> nat \<Rightarrow> nat \<Rightarrow> topo \<times> nat list \<Rightarrow> (topo \<times> nat list) res" where
  "house_children system_size x child s = (if child < system_size
     then bind_res (genNeighbor x child s) (genNeighbor x (child + 1)) else Inr s)"

definition HouseTopo :: "nat \<Rightarrow> nat \<Rightarrow> topo \<times> nat list \<Rightarrow> (topo \<times> nat list) res" where
  "HouseTopo system_size x s =
     (if x = 1 then bind_res (genNeighbor x (x + 1) s) (genNeighbor x (x + 2))
      else if (x - 1) mod 4 = 1 \<or> (x - 1) mod 4 = 2 then genNeighbor x (x + 1) s
      else if (x - 1) mod 4 = 3
      then bind_res (genNeighbor x (x + 1) s) (house_children system_size x (x + (x div 4 - 1) * 4 + 2))
      else bind_res (genNeighbor x (x - 3) s) (house_children system_size x (x + (x div 4 - 1) * 4 + 5)))"

definition MultipleRingTopo :: "nat \<Rightarrow> nat \<Rightarrow> topo \<times> nat list \<Rightarrow> (topo \<times> nat list) res" where
  "MultipleRingTopo system_size x s =
     (let earLoopSize = (system_size + 3) div 3; secondLoopJump = earLoopSize - 1;
          firstLoopEnd = 2 + earLoopSize + earLoopSize - 3
      in if x = 2 then bind_res (genNeighbor x (x + 1) s) (genNeighbor x (x + earLoopSize))
         else if x = earLoopSize + 1 then bind_res (genNeighbor x 1 s) (genNeighbor x (x + secondLoopJump))
         else if x = system_size then genNeighbor x earLoopSize s
         else if x = firstLoopEnd then genNeighbor x 3 s
         else genNeighbor x (x + 1) s)"

text \<open>The numbers of the topologies; for another number the global pointer to the generator is null.\<close>

definition DIAMOND_DOWN_TOPOLOGY :: nat where "DIAMOND_DOWN_TOPOLOGY = 1"
definition DIAMOND_ARBITRARY_TOPOLOGY :: nat where "DIAMOND_ARBITRARY_TOPOLOGY = 2"
definition DIAMOND_ZIGZAG_TOPOLOGY :: nat where "DIAMOND_ZIGZAG_TOPOLOGY = 3"
definition PURE_RING_TOPOLOGY :: nat where "PURE_RING_TOPOLOGY = 4"
definition RING_EDGE_TOPOLOGY :: nat where "RING_EDGE_TOPOLOGY = 5"
definition BINARY_TREE_TOPOLOGY :: nat where "BINARY_TREE_TOPOLOGY = 6"
definition HOUSE_TOPOLOGY :: nat where "HOUSE_TOPOLOGY = 7"
definition MULTIPLE_RING_TOPOLOGY :: nat where "MULTIPLE_RING_TOPOLOGY = 8"

lemmas topology_numbers = DIAMOND_DOWN_TOPOLOGY_def DIAMOND_ARBITRARY_TOPOLOGY_def DIAMOND_ZIGZAG_TOPOLOGY_def
  PURE_RING_TOPOLOGY_def RING_EDGE_TOPOLOGY_def BINARY_TREE_TOPOLOGY_def HOUSE_TOPOLOGY_def MULTIPLE_RING_TOPOLOGY_def

fun genNeighborList :: "nat \<times> nat \<times> nat \<Rightarrow> topo \<times> nat list \<Rightarrow> (topo \<times> nat list) res" where
  "genNeighborList (topology_type, n, x) s =
     (if topology_type = DIAMOND_DOWN_TOPOLOGY then DiamondTopo n x s
      else if topology_type = DIAMOND_ARBITRARY_TOPOLOGY then DiamondArbitraryTopo n x s
      else if topology_type = DIAMOND_ZIGZAG_TOPOLOGY then DiamondZigZagTopo n x s
      else if topology_type = PURE_RING_TOPOLOGY then RingTopo n x s
      else if topology_type = RING_EDGE_TOPOLOGY then RingEdgeTopo n x s
      else if topology_type = BINARY_TREE_TOPOLOGY then BinaryTreeTopo n x s
      else if topology_type = HOUSE_TOPOLOGY then HouseTopo n x s
      else if topology_type = MULTIPLE_RING_TOPOLOGY then MultipleRingTopo n x s
      else Inl Undefined_Behaviour)"

definition generate_topology :: "nat \<Rightarrow> topo \<times> nat list \<Rightarrow> (topo \<times> nat list) res" where
  "generate_topology topology_type s = (let system_size = length (fst s) in
     run_all genNeighborList (map (\<lambda>i. (topology_type, system_size, i)) [1..<system_size + 1]) s)"

definition setup_topos :: "nat \<Rightarrow> topo" where
  "setup_topos no_contexts = replicate no_contexts []"

definition generate_orig_topology :: "nat \<Rightarrow> nat \<Rightarrow> nat list \<Rightarrow> (topo \<times> nat list) res" where
  "generate_orig_topology topology_type no_contexts rs = generate_topology topology_type (setup_topos no_contexts, rs)"

text \<open>
  The checks of \<open>read_input\<close> that concern the type of the topology and the number of contexts, which are all
  that the topologies depend on; the other checks join them in \<open>read_input_accepts\<close> of theory \<open>Gen_System\<close>.
\<close>

definition accepted_input :: "nat \<Rightarrow> nat \<Rightarrow> bool" where
  "accepted_input topology_type no_contexts \<longleftrightarrow> no_contexts \<noteq> 0 \<and>
     (if topology_type = DIAMOND_DOWN_TOPOLOGY \<or> topology_type = DIAMOND_ARBITRARY_TOPOLOGY
        \<or> topology_type = DIAMOND_ZIGZAG_TOPOLOGY
      then \<not> (no_contexts = 1 \<or> no_contexts mod 3 \<noteq> 1)
      else if topology_type = PURE_RING_TOPOLOGY \<or> topology_type = RING_EDGE_TOPOLOGY
        \<or> topology_type = BINARY_TREE_TOPOLOGY
      then \<not> no_contexts = 1
      else if topology_type = HOUSE_TOPOLOGY then \<not> (no_contexts = 1 \<or> no_contexts mod 4 \<noteq> 1)
      else if topology_type = MULTIPLE_RING_TOPOLOGY then \<not> (no_contexts < 6 \<and> no_contexts mod 3 \<noteq> 0)
      else False)"

section \<open>Which edges a generator makes\<close>

definition diamond_edges :: "nat \<Rightarrow> nat \<Rightarrow> nat list" where
  "diamond_edges n x = (if x = n then [] else if x mod 3 = 1 then [x + 1, x + 2] else if x mod 3 = 0 then [x + 1] else [x + 2])"

definition zigzag_edges :: "nat \<Rightarrow> nat \<Rightarrow> nat list" where
  "zigzag_edges n x = (if x = n then [] else if x mod 3 = 0 then [x + 1] else [x + 1, x + 2])"

definition ring_edges :: "nat \<Rightarrow> nat \<Rightarrow> nat list" where
  "ring_edges n x = [if x = n then 1 else x + 1]"

definition tree_edges :: "nat \<Rightarrow> nat \<Rightarrow> nat list" where
  "tree_edges n x = filter (\<lambda>t. t \<le> n) [2 * x, 2 * x + 1]"

definition house_edges :: "nat \<Rightarrow> nat \<Rightarrow> nat list" where
  "house_edges n x = (let kids = (\<lambda>c. if c < n then [c, c + 1] else []) in
     if x = 1 then [2, 3] else if x mod 4 = 2 \<or> x mod 4 = 3 then [x + 1]
     else if x mod 4 = 0 then (x + 1) # kids (2 * x - 2) else (x - 3) # kids (2 * x))"

definition rings_edges :: "nat \<Rightarrow> nat \<Rightarrow> nat list" where
  "rings_edges n x = (let e = n div 3 + 1 in
     if x = 2 then [3, 2 + e] else if x = e + 1 then [1, 2 * e] else if x = n then [e]
     else if x = 2 * e - 1 then [3] else [x + 1])"

fun own_edges :: "nat \<times> nat \<times> nat \<Rightarrow> nat list" where
  "own_edges (ty, n, x) =
     (if ty = 1 then diamond_edges n x else if ty = 3 then zigzag_edges n x else if ty = 4 \<or> ty = 5 then ring_edges n x
      else if ty = 6 then tree_edges n x else if ty = 7 then house_edges n x else if ty = 8 then rings_edges n x else [])"

definition proper_size :: "nat \<Rightarrow> nat \<Rightarrow> bool" where
  "proper_size ty n \<longleftrightarrow> accepted_input ty n \<and> (ty = MULTIPLE_RING_TOPOLOGY \<longrightarrow> 6 \<le> n)"

lemmas edges_defs = diamond_edges_def zigzag_edges_def ring_edges_def tree_edges_def house_edges_def rings_edges_def

lemma diamond_in_range: "n mod 3 = 1 \<Longrightarrow> 0 < x \<Longrightarrow> x \<le> n \<Longrightarrow> \<forall>t\<in>set (diamond_edges n x). 0 < t \<and> t \<le> n"
  by (auto simp: diamond_edges_def) presburger+

lemma zigzag_in_range: "n mod 3 = 1 \<Longrightarrow> 0 < x \<Longrightarrow> x \<le> n \<Longrightarrow> \<forall>t\<in>set (zigzag_edges n x). 0 < t \<and> t \<le> n"
  by (auto simp: zigzag_edges_def) presburger+

lemma house_in_range:
  assumes "n mod 4 = 1" and "1 < n" and "0 < x" and "x \<le> n"
  shows "\<forall>t\<in>set (house_edges n x). 0 < t \<and> t \<le> n"
proof -
  have s: "x + 1 \<le> n" if "x mod 4 \<noteq> 1" using assms that le_neq_implies_less [of x n] by fastforce
  have "x \<noteq> 2" "x \<noteq> 3" if "x mod 4 \<noteq> 2" "x mod 4 \<noteq> 3" using that by auto
  then have l: "3 < x" if "x \<noteq> 1" "x mod 4 \<noteq> 2" "x mod 4 \<noteq> 3" using assms(3) that by linarith
  have "n \<noteq> 2" "n \<noteq> 3" "n \<noteq> 4" using assms(1) by auto
  then have n: "5 \<le> n" using assms(2) by linarith
  show ?thesis
  proof (cases "x = 1 \<or> x mod 4 = 2 \<or> x mod 4 = 3")
    case True
    show ?thesis
    proof (cases "x = 1")
      case False
      with True s have "Suc x \<le> n" "house_edges n x = [x + 1]" by (auto simp: house_edges_def)
      then show ?thesis by simp
    qed (use n in \<open>simp add: house_edges_def\<close>)
  next
    case False
    then have x: "3 < x" using l by simp
    show ?thesis
    proof (cases "x mod 4 = 0")
      case True
      then have "Suc x \<le> n" using s by simp
      moreover define c where "c = 2 * x - 2"
      then have "0 < c" using x by linarith
      moreover have "house_edges n x = (x + 1) # (if c < n then [c, c + 1] else [])"
        using False True unfolding house_edges_def c_def by simp
      ultimately show ?thesis by (auto split: if_splits)
    next
      case c: False
      define d where "d = x - 3"
      have d: "0 < d" "d \<le> n" using x assms(4) by (auto simp: d_def)
      have "house_edges n x = d # (if 2 * x < n then [2 * x, 2 * x + 1] else [])"
        using False c by (simp add: house_edges_def d_def)
      then show ?thesis using d x by (cases "2 * x < n") simp_all
    qed
  qed
qed

lemma rings_in_range: "6 \<le> n \<Longrightarrow> 0 < x \<Longrightarrow> x \<le> n \<Longrightarrow> \<forall>t\<in>set (rings_edges n x). 0 < t \<and> t \<le> n"
  by (auto simp: rings_edges_def Let_def)

lemma proper_sizeE:
  assumes "proper_size ty n"
  obtains "ty = 1" "n mod 3 = 1" "1 < n" | "ty = 2" "n mod 3 = 1" "1 < n" | "ty = 3" "n mod 3 = 1" "1 < n"
    | "ty = 4" "1 < n" | "ty = 5" "1 < n" | "ty = 6" "1 < n" | "ty = 7" "n mod 4 = 1" "1 < n" | "ty = 8" "6 \<le> n"
  using assms by (auto simp: proper_size_def accepted_input_def topology_numbers split: if_splits)

lemma own_edges_in_range:
  assumes "proper_size ty n" and "0 < x" and "x \<le> n"
  shows "\<forall>t\<in>set (own_edges (ty, n, x)). 0 < t \<and> t \<le> n"
  using assms(1)
proof (cases rule: proper_sizeE)
  case 1 then show ?thesis using diamond_in_range [of n x] assms by simp
next
  case 3 then show ?thesis using zigzag_in_range [of n x] assms by simp
next
  case 7 then show ?thesis using house_in_range [of n x] assms by simp
next
  case 8 then show ?thesis using rings_in_range [of n x] assms by simp
qed (use assms in \<open>auto simp: ring_edges_def tree_edges_def\<close>)

text \<open>Every context but the first has an edge from one with a smaller number.\<close>

lemma diamond_parent:
  assumes "n mod 3 = 1" and "1 < y" and "y \<le> n"
  shows "\<exists>x. 0 < x \<and> x < y \<and> y \<in> set (diamond_edges n x)"
proof (cases "y mod 3 = 0")
  case True
  then obtain k where k: "y = 3 * k" by (auto simp: mod_eq_0_iff_dvd elim: dvdE)
  then obtain m where "y = 3 * Suc m" using assms(2) by (cases k) auto
  then have "y - 2 = 3 * m + 1" "y - 2 + 2 = y" by simp_all
  then have "(y - 2) mod 3 = 1" "y - 2 + 2 = y" by simp_all
  then show ?thesis using assms by (intro exI [of _ "y - 2"]) (auto simp: diamond_edges_def)
next
  case False
  then have "(y - 1) mod 3 \<noteq> 2" using assms(2) mod_Suc [of "y - 1" 3] by auto
  then show ?thesis using assms by (intro exI [of _ "y - 1"]) (auto simp: diamond_edges_def)
qed

lemma zigzag_parent: "n mod 3 = 1 \<Longrightarrow> 1 < y \<Longrightarrow> y \<le> n \<Longrightarrow> \<exists>x. 0 < x \<and> x < y \<and> y \<in> set (zigzag_edges n x)"
  by (rule exI [of _ "y - 1"]) (auto simp: zigzag_edges_def)

lemma ring_parent: "1 < y \<Longrightarrow> y \<le> n \<Longrightarrow> \<exists>x. 0 < x \<and> x < y \<and> y \<in> set (ring_edges n x)"
  by (rule exI [of _ "y - 1"]) (auto simp: ring_edges_def)

lemma tree_parent: "1 < y \<Longrightarrow> y \<le> n \<Longrightarrow> \<exists>x. 0 < x \<and> x < y \<and> y \<in> set (tree_edges n x)"
  by (rule exI [of _ "y div 2"]) (auto simp: tree_edges_def; presburger)

lemma house_kids:
  shows "8 * k + 6 < n \<Longrightarrow> 8 * k + 6 \<in> set (house_edges n (4 * k + 4))"
    and "0 < k \<Longrightarrow> 8 * k + 2 < n \<Longrightarrow> 8 * k + 2 \<in> set (house_edges n (4 * k + 1))"
    and "x mod 4 \<noteq> 1 \<or> x = 1 \<Longrightarrow> Suc x \<in> set (house_edges n x)"
proof -
  have "(4 * k + 4) mod 4 = 0" "(4 * k + 1) mod 4 = 1" by presburger+
  then show "8 * k + 6 < n \<Longrightarrow> 8 * k + 6 \<in> set (house_edges n (4 * k + 4))"
    and "0 < k \<Longrightarrow> 8 * k + 2 < n \<Longrightarrow> 8 * k + 2 \<in> set (house_edges n (4 * k + 1))"
    by (simp_all add: house_edges_def Let_def)
  show "Suc x \<in> set (house_edges n x)" if x: "x mod 4 \<noteq> 1 \<or> x = 1"
  proof (cases "x = 1")
    case False
    define m where "m = x mod 4"
    have "m < 4" by (simp add: m_def)
    moreover have "m \<noteq> 1" using x False by (simp add: m_def)
    ultimately have "m = 0 \<or> m = 2 \<or> m = 3" by linarith
    then have "\<exists>r. house_edges n x = (x + 1) # r" using False by (elim disjE) (simp_all add: house_edges_def Let_def m_def [symmetric])
    then show ?thesis by auto
  qed (simp add: house_edges_def)
qed

lemma house_parent:
  assumes "n mod 4 = 1" and "1 < y" and "y \<le> n"
  shows "\<exists>x. 0 < x \<and> x < y \<and> y \<in> set (house_edges n x)"
proof -
  have yn: "y mod 4 = 2 \<Longrightarrow> y < n" using assms(1,3) by (intro le_neq_implies_less) auto
  consider k where "y = 8 * k + 6" | k where "0 < k" "y = 8 * k + 2" | x where "0 < x" "y = Suc x" "x mod 4 \<noteq> 1 \<or> x = 1"
  proof (cases "y mod 4 = 2 \<and> y \<noteq> 2")
    case True
    then have "y = 8 * (y div 8) + 6 \<or> 0 < y div 8 \<and> y = 8 * (y div 8) + 2" by presburger
    then show ?thesis using that(1,2) by blast
  next
    case False
    then have "0 < y - 1" "y = Suc (y - 1)" "(y - 1) mod 4 \<noteq> 1 \<or> y - 1 = 1" using assms(2) mod_Suc [of "y - 1" 4] by auto
    then show ?thesis by (rule that(3))
  qed
  then show ?thesis
  proof cases
    case (1 k)
    moreover have "y mod 4 = 2" unfolding 1 by presburger
    ultimately show ?thesis using house_kids(1) [of k n] yn by (intro exI [of _ "4 * k + 4"]) simp
  next
    case (2 k)
    moreover have "y mod 4 = 2" unfolding 2 by presburger
    ultimately show ?thesis using house_kids(2) [of k n] yn by (intro exI [of _ "4 * k + 1"]) simp
  next
    case (3 x)
    then show ?thesis using house_kids(3) [of x n] by (intro exI [of _ x]) simp
  qed
qed

lemma rings_parent:
  assumes "6 \<le> n" and "1 < y" and "y \<le> n"
  shows "\<exists>x. 0 < x \<and> x < y \<and> y \<in> set (rings_edges n x)"
proof -
  let ?e = "n div 3 + 1"
  let ?x = "if y = ?e + 2 then 2 else if y = 2 * ?e then ?e + 1 else y - 1"
  have "0 < ?x \<and> ?x < y \<and> y \<in> set (rings_edges n ?x)" using assms by (auto simp: rings_edges_def Let_def)
  then show ?thesis by blast
qed

lemma own_edges_parent:
  assumes "proper_size ty n" and "ty \<noteq> DIAMOND_ARBITRARY_TOPOLOGY" and "1 < y" and "y \<le> n"
  shows "\<exists>x. 0 < x \<and> x < y \<and> y \<in> set (own_edges (ty, n, x))"
  using assms(1)
proof (cases rule: proper_sizeE)
  case 1 then show ?thesis using diamond_parent [of n y] assms by simp
next
  case 2 then show ?thesis using assms by (simp add: topology_numbers)
next
  case 3 then show ?thesis using zigzag_parent [of n y] assms by simp
next
  case 6 then show ?thesis using tree_parent [of y n] assms by simp
next
  case 7 then show ?thesis using house_parent [of n y] assms by simp
next
  case 8 then show ?thesis using rings_parent [of n y] assms by simp
qed (use assms ring_parent [of y n] in simp_all)

section \<open>What the generators do\<close>

fun genNeighbors :: "nat \<Rightarrow> nat list \<Rightarrow> topo \<times> nat list \<Rightarrow> (topo \<times> nat list) res" where
  "genNeighbors x [] s = Inr s"
| "genNeighbors x (t # ts) s = bind_res (genNeighbor x t s) (genNeighbors x ts)"

lemma bind_Inr_right [simp]: "bind_res m Inr = m"
  by (simp add: bind_res_def split: sum.splits)

lemma bind_res_fun [simp]: "bind_res m (\<lambda>s. bind_res (f s) Inr) = bind_res m f"
  by (simp add: bind_res_def split: sum.splits)

lemma genNeighbors_Nil [simp]: "genNeighbors x [] = Inr"
  by (auto simp: fun_eq_iff)

lemma genNeighbors_fun:
  "genNeighbors x [t] = genNeighbor x t"
  "genNeighbors x (t # ts) = (\<lambda>s. bind_res (genNeighbor x t s) (genNeighbors x ts))"
  by (auto simp: fun_eq_iff)

lemma house_children_steps: "house_children n x c = genNeighbors x (if c < n then [c, c + 1] else [])"
  by (auto simp: fun_eq_iff house_children_def genNeighbors_fun)

lemma genNeighbors_edges:
  assumes "0 < x" and "x \<le> length topo"
  shows "genNeighbors x ts (topo, rs) = Inr (topo[x - 1 := topo ! (x - 1) @ map (\<lambda>t. sz_sub t 1) ts], rs)"
  using assms by (induction ts arbitrary: topo) (simp_all add: genNeighbor_def bind_res_def)

lemma house_arith:
  fixes x :: nat
  assumes "0 < x"
  shows "(x - 1) mod 4 = 1 \<longleftrightarrow> x mod 4 = 2" "(x - 1) mod 4 = 2 \<longleftrightarrow> x mod 4 = 3" "(x - 1) mod 4 = 3 \<longleftrightarrow> x mod 4 = 0"
    "x mod 4 = 0 \<Longrightarrow> x + (x div 4 - 1) * 4 + 2 = 2 * x - 2" "x mod 4 = 1 \<Longrightarrow> x \<noteq> 1 \<Longrightarrow> x + (x div 4 - 1) * 4 + 5 = 2 * x"
  using assms mod_Suc [of "x - 1" 4] mult_div_mod_eq [of 4 x] by (auto split: if_splits)

lemma house_steps:
  assumes "0 < x"
  shows "HouseTopo n x s = genNeighbors x (house_edges n x) s"
proof -
  have r: "x mod 4 = 0 \<or> x mod 4 = 1 \<or> x mod 4 = 2 \<or> x mod 4 = 3" using mod_less_divisor [of 4 x] by linarith
  consider "x = 1" | "x \<noteq> 1" "x mod 4 = 0" | "x \<noteq> 1" "x mod 4 = 1" | "x \<noteq> 1" "x mod 4 = 2 \<or> x mod 4 = 3" using r by metis
  then show ?thesis
  proof cases
    case 2
    have "HouseTopo n x s = bind_res (genNeighbor x (x + 1) s) (house_children n x (x + (x div 4 - 1) * 4 + 2))"
      using 2 house_arith(1-3) [OF assms] by (simp add: HouseTopo_def)
    then show ?thesis unfolding house_arith(4) [OF assms 2(2)] house_children_steps using 2 by (simp add: house_edges_def)
  next
    case 3
    have "HouseTopo n x s = bind_res (genNeighbor x (x - 3) s) (house_children n x (x + (x div 4 - 1) * 4 + 5))"
      using 3 house_arith(1-3) [OF assms] by (simp add: HouseTopo_def)
    then show ?thesis unfolding house_arith(5) [OF assms 3(2,1)] house_children_steps using 3 by (simp add: house_edges_def)
  next
    case 4
    then show ?thesis using house_arith [OF assms] by (auto simp: HouseTopo_def house_edges_def)
  qed (simp add: HouseTopo_def house_edges_def genNeighbors_fun(2) numeral_eq_Suc)
qed

lemma ring_size: "(n + 3) div 3 = n div 3 + (1 :: nat)"
  by simp

lemma rings_steps: "MultipleRingTopo n x s = genNeighbors x (rings_edges n x) s"
proof -
  define e where "e = n div 3 + 1"
  have j: "e + 1 + (e - 1) = 2 * e" "2 + e + e - 3 = 2 * e - 1" by (auto simp: e_def)
  show ?thesis
    unfolding MultipleRingTopo_def rings_edges_def ring_size Let_def e_def [symmetric] j(2)
    using j(1) by (cases "x = e + 1") (auto simp: genNeighbors_fun(2) mult_2 numeral_3_eq_3)
qed

definition random_type :: "nat \<Rightarrow> bool" where
  "random_type ty \<longleftrightarrow> ty = DIAMOND_ARBITRARY_TOPOLOGY \<or> ty = RING_EDGE_TOPOLOGY"

lemma fixed_steps:
  assumes "proper_size ty n" and "\<not> random_type ty" and "0 < x" and "x \<le> n"
  shows "genNeighborList (ty, n, x) s = genNeighbors x (own_edges (ty, n, x)) s"
  using assms(1)
proof (cases rule: proper_sizeE)
  case 1
  then show ?thesis by (simp add: topology_numbers DiamondTopo_def diamond_edges_def genNeighbors_fun)
next
  case 3
  then show ?thesis by (auto simp add: topology_numbers DiamondZigZagTopo_def zigzag_edges_def genNeighbors_fun)
next
  case 4
  then show ?thesis by (simp add: topology_numbers RingTopo_def ring_edges_def)
next
  case 6
  then show ?thesis by (simp add: topology_numbers BinaryTreeTopo_def tree_edges_def bind_res_def split: sum.splits)
next
  case 7
  then show ?thesis using assms(3) house_steps [of x n s] by (simp add: topology_numbers)
next
  case 8
  then show ?thesis using rings_steps [of n x s] by (simp add: topology_numbers)
qed (use assms(2) in \<open>simp_all add: random_type_def topology_numbers\<close>)

section \<open>Random steps\<close>

definition in_range :: "topo \<Rightarrow> bool" where
  "in_range topo \<longleftrightarrow> (\<forall>ns\<in>set topo. \<forall>t\<in>set ns. t < length topo)"

fun topo_ok :: "nat \<times> nat \<times> nat \<Rightarrow> topo \<Rightarrow> bool" where
  "topo_ok (ty, n, x) topo \<longleftrightarrow> proper_size ty n \<and> 0 < x \<and> x \<le> n \<and> n < SIZE_T \<and> length topo = n \<and> in_range topo"

lemma genNeighbor_ok:
  assumes "0 < x" and "x \<le> length topo" and "0 < t" and "t \<le> length topo" and "length topo < SIZE_T" and "in_range topo"
  obtains topo' where "\<And>rs. genNeighbor x t (topo, rs) = Inr (topo', rs)" and "length topo' = length topo" and "in_range topo'"
    and "t - 1 \<in> set (topo' ! (x - 1))" and "\<And>i. i < length topo \<Longrightarrow> set (topo ! i) \<subseteq> set (topo' ! i)"
proof
  let ?topo = "topo[x - 1 := topo ! (x - 1) @ [t - 1]]"
  show "genNeighbor x t (topo, rs) = Inr (?topo, rs)" for rs using assms by (simp add: genNeighbor_def sz_sub_small)
  have "t - 1 < length topo" using assms(3,4) by linarith
  moreover have "set (topo ! (x - 1)) \<subseteq> {..<length topo}" using assms by (auto simp: in_range_def)
  ultimately show "in_range ?topo" using assms(6) set_update_subset_insert [of topo "x - 1" "topo ! (x - 1) @ [t - 1]"]
    unfolding in_range_def by fastforce
qed (use assms in \<open>auto simp: nth_list_update\<close>)

type_synonym topo_step = "topo \<times> nat list \<Rightarrow> (topo \<times> nat list) res"

definition extends :: "topo_step \<Rightarrow> bool" where
  "extends f \<longleftrightarrow> (\<forall>s rs s' rest ws. f (s, rs) = Inr (s', rest) \<longrightarrow> f (s, rs @ ws) = Inr (s', rest @ ws))"

definition sized :: "nat \<Rightarrow> topo \<Rightarrow> bool" where
  "sized n topo \<longleftrightarrow> length topo = n \<and> in_range topo"

definition grown :: "topo \<Rightarrow> topo \<Rightarrow> bool" where
  "grown s s' \<longleftrightarrow> length s' = length s \<and> (\<forall>i < length s. set (s ! i) \<subseteq> set (s' ! i))"

definition good :: "nat \<Rightarrow> topo_step \<Rightarrow> bool" where
  "good n f \<longleftrightarrow> extends f \<and> (\<forall>s. sized n s \<longrightarrow>
     (\<forall>rs. \<exists>ws s' rest. f (s, rs @ ws) = Inr (s', rest)) \<and>
     (\<forall>rs s' rest. f (s, rs) = Inr (s', rest) \<longrightarrow> sized n s' \<and> grown s s'))"

lemma extendsI: "(\<And>s rs s' rest ws. f (s, rs) = Inr (s', rest) \<Longrightarrow> f (s, rs @ ws) = Inr (s', rest @ ws)) \<Longrightarrow> extends f"
  by (simp add: extends_def)

lemma extends_bind [intro]: "extends f \<Longrightarrow> extends g \<Longrightarrow> extends (\<lambda>s. bind_res (f s) g)"
  unfolding extends_def by (fastforce simp: bind_res_def split: sum.splits)

lemma extends_basic [intro]: "extends Inr" "extends (genNeighbor a b)" "extends (\<lambda>s. Inl e)"
  by (auto simp: extends_def genNeighbor_def split: if_splits)

lemma extends_if [intro]: "(c \<Longrightarrow> extends f) \<Longrightarrow> (\<not> c \<Longrightarrow> extends g) \<Longrightarrow> extends (\<lambda>s. if c then f s else g s)"
  by (cases c) simp_all

lemma extends_rand [intro]:
  "(\<And>r. extends (k r)) \<Longrightarrow> extends (\<lambda>(s, rs). bind_res (rand rs) (\<lambda>(r, rs). k r (s, rs)))"
  by (auto simp: extends_def rand_def bind_res_def split: list.splits)

lemma other_loop_extend: "other_loop n t rs = Inr (x, rest) \<Longrightarrow> other_loop n t (rs @ ws) = Inr (x, rest @ ws)"
  by (induction n t rs rule: other_loop.induct) (auto simp: Let_def split: if_splits)

lemma extends_other [intro]:
  assumes "\<And>x. extends (k x)"
  shows "extends (\<lambda>(s, rs). bind_res (other_loop n t rs) (\<lambda>(x, rs). k x (s, rs)))"
proof (rule extendsI)
  fix s rs s' rest ws
  assume "(case (s, rs) of (s, rs) \<Rightarrow> bind_res (other_loop n t rs) (\<lambda>(x, rs). k x (s, rs))) = Inr (s', rest)"
  then obtain x us where o: "other_loop n t rs = Inr (x, us)" "k x (s, us) = Inr (s', rest)"
    by (auto simp: bind_res_def split: sum.splits)
  then have "k x (s, us @ ws) = Inr (s', rest @ ws)" using assms [of x] by (auto simp: extends_def)
  with other_loop_extend [OF o(1), of ws]
  show "(case (s, rs @ ws) of (s, rs) \<Rightarrow> bind_res (other_loop n t rs) (\<lambda>(x, rs). k x (s, rs))) = Inr (s', rest @ ws)"
    by (simp add: bind_res_def)
qed

lemma grown_trans: "grown s t \<Longrightarrow> grown t u \<Longrightarrow> grown s u"
  by (auto simp: grown_def)

lemma goodD:
  assumes "good n f" and "sized n s"
  shows "\<exists>ws s' rest. f (s, rs @ ws) = Inr (s', rest)"
    and "f (s, rs) = Inr (s', rest) \<Longrightarrow> sized n s' \<and> grown s s'"
  using assms unfolding good_def by blast+

lemma good_bind [intro]:
  assumes f: "good n f" and g: "good n g"
  shows "good n (\<lambda>s. bind_res (f s) g)"
proof -
  have e: "extends f" "extends g" using f g by (auto simp: good_def)
  have "\<exists>ws s' rest. bind_res (f (s, rs @ ws)) g = Inr (s', rest)" if s: "sized n s" for s rs
  proof -
    obtain ws t us where 1: "f (s, rs @ ws) = Inr (t, us)" using goodD(1) [OF f s] by blast
    then have "sized n t" using goodD(2) [OF f s] by blast
    then obtain vs s' rest where "g (t, us @ vs) = Inr (s', rest)" using goodD(1) [OF g] by blast
    moreover have "f (s, rs @ (ws @ vs)) = Inr (t, us @ vs)" using e(1) 1 unfolding extends_def by fastforce
    ultimately show ?thesis by (intro exI [of _ "ws @ vs"]) (auto simp: bind_res_def)
  qed
  moreover have "sized n s' \<and> grown s s'" if s: "sized n s" "bind_res (f (s, rs)) g = Inr (s', rest)" for s rs s' rest
  proof -
    obtain t us where 1: "f (s, rs) = Inr (t, us)" "g (t, us) = Inr (s', rest)"
      using s(2) by (auto simp: bind_res_def split: sum.splits)
    then show ?thesis using goodD(2) [OF f s(1) 1(1)] goodD(2) [OF g _ 1(2)] grown_trans by blast
  qed
  ultimately show ?thesis unfolding good_def using extends_bind [OF e] by blast
qed

lemma good_Inr [intro]: "good n Inr"
  by (auto simp: good_def grown_def)

lemma good_genNeighbor [intro]:
  assumes "0 < x" "x \<le> n" "0 < t" "t \<le> n" "n < SIZE_T"
  shows "good n (genNeighbor x t)"
proof -
  have "\<exists>s'. (\<forall>rs. genNeighbor x t (s, rs) = Inr (s', rs)) \<and> sized n s' \<and> grown s s'" if "sized n s" for s
  proof -
    have "x \<le> length s" "t \<le> length s" "length s < SIZE_T" "in_range s" using assms that by (auto simp: sized_def)
    from genNeighbor_ok [OF assms(1) this(1) assms(3) this(2-4)] show ?thesis
      using that by (metis grown_def sized_def)
  qed
  then show ?thesis unfolding good_def by (metis extends_basic(2) old.sum.inject(2) prod.inject)
qed

lemma good_rand:
  assumes "\<And>r. good n (k r)"
  shows "good n (\<lambda>(s, rs). bind_res (rand rs) (\<lambda>(r, rs). k r (s, rs)))"
proof -
  have "\<exists>ws s' rest. bind_res (rand (rs @ ws)) (\<lambda>(r, rs). k r (s, rs)) = Inr (s', rest)" if s: "sized n s" for s rs
  proof (cases rs)
    case Nil
    obtain ws s' rest where "k 0 (s, [] @ ws) = Inr (s', rest)" using goodD(1) [OF assms s] by blast
    with Nil show ?thesis by (intro exI [of _ "0 # ws"]) (simp add: bind_res_def)
  next
    case (Cons r us)
    obtain ws s' rest where "k r (s, us @ ws) = Inr (s', rest)" using goodD(1) [OF assms s] by blast
    with Cons show ?thesis by (intro exI [of _ ws]) (simp add: bind_res_def)
  qed
  moreover have "sized n s' \<and> grown s s'"
    if s: "sized n s" "bind_res (rand rs) (\<lambda>(r, rs). k r (s, rs)) = Inr (s', rest)" for s rs s' rest
    using s goodD(2) [OF assms s(1)] by (cases rs) (auto simp: bind_res_def)
  moreover have "extends (k r)" for r using assms by (simp add: good_def)
  then have "extends (\<lambda>(s, rs). bind_res (rand rs) (\<lambda>(r, rs). k r (s, rs)))" by (rule extends_rand)
  ultimately show ?thesis unfolding good_def by simp
qed

lemma other_loop_range: "other_loop n t rs = Inr (x, rest) \<Longrightarrow> 0 < n \<Longrightarrow> 0 < x \<and> x \<le> n"
  by (induction n t rs rule: other_loop.induct) (auto simp: Let_def Suc_le_eq split: if_splits)

lemma other_loop_resume: "1 < n \<Longrightarrow> \<exists>ws x rest. other_loop n t (rs @ ws) = Inr (x, rest)"
proof (induction rs)
  case Nil
  then show ?case by (intro exI [of _ "[if t = 1 then 1 else 0]"]) (simp add: Let_def)
qed (auto simp: Let_def)

lemma good_other:
  assumes k: "\<And>x. 0 < x \<Longrightarrow> x \<le> n \<Longrightarrow> good n (k x)" and e: "\<And>x. extends (k x)" and n: "1 < n"
  shows "good n (\<lambda>(s, rs). bind_res (other_loop n t rs) (\<lambda>(x, rs). k x (s, rs)))"
proof -
  have "\<exists>ws s' rest. bind_res (other_loop n t (rs @ ws)) (\<lambda>(x, rs). k x (s, rs)) = Inr (s', rest)" if s: "sized n s" for s rs
  proof -
    obtain ws x us where o: "other_loop n t (rs @ ws) = Inr (x, us)" using other_loop_resume [OF n] by blast
    then have g: "good n (k x)" using other_loop_range [of n t] n k by auto
    obtain vs s' rest where "k x (s, us @ vs) = Inr (s', rest)" using goodD(1) [OF g s] by blast
    moreover have "other_loop n t (rs @ (ws @ vs)) = Inr (x, us @ vs)" using other_loop_extend [OF o, of vs] by simp
    ultimately show ?thesis by (intro exI [of _ "ws @ vs"]) (simp add: bind_res_def)
  qed
  moreover have "sized n s' \<and> grown s s'"
    if s: "sized n s" "bind_res (other_loop n t rs) (\<lambda>(x, rs). k x (s, rs)) = Inr (s', rest)" for s rs s' rest
  proof -
    obtain x us where o: "other_loop n t rs = Inr (x, us)" "k x (s, us) = Inr (s', rest)"
      using s(2) by (auto simp: bind_res_def split: sum.splits)
    then have "good n (k x)" using other_loop_range [of n t] n k by auto
    from goodD(2) [OF this s(1) o(2)] show ?thesis .
  qed
  ultimately show ?thesis unfolding good_def using extends_other [OF e] by simp
qed

lemma ring_edge_steps:
  "RingEdgeTopo n x = (\<lambda>s. bind_res (genNeighbor x (if x = n then 1 else x + 1) s)
     (\<lambda>(s, rs). bind_res (rand rs) (\<lambda>(r, rs). (if r mod 2 \<noteq> 0
        then (\<lambda>(s, rs). bind_res (other_loop n (if x = n then 1 else x + 1) rs) (\<lambda>(t, rs). genNeighbor x t (s, rs)))
        else Inr) (s, rs))))"
  by (auto simp: fun_eq_iff RingEdgeTopo_def Let_def bind_res_def split: sum.splits intro!: sum.case_cong)

lemma random_edge_steps:
  "genRandomEdge a b = (\<lambda>(s, rs). bind_res (rand rs) (\<lambda>(r, rs).
     (if r mod 2 \<noteq> 0 then genNeighbor a b else genNeighbor b a) (s, rs)))"
  by (auto simp: fun_eq_iff genRandomEdge_def bind_res_def split: sum.splits)

lemma extends_random_edge [intro]: "extends (genRandomEdge a b)"
  unfolding random_edge_steps by (rule extends_rand) auto

lemma extends_ring_edge [intro]: "extends (RingEdgeTopo n x)"
  unfolding ring_edge_steps
  by (intro extends_bind extends_rand extends_basic) (auto intro!: extends_other)

lemma extends_step: "extends (genNeighborList i)"
proof -
  have h: "extends (house_children n x c)" for n x c
    unfolding house_children_def by (intro extends_if extends_bind extends_basic)
  obtain ty n x where "i = (ty, n, x)" by (cases i)
  moreover have "extends (\<lambda>s. genNeighborList (ty, n, x) s)"
    unfolding genNeighborList.simps DiamondTopo_def DiamondArbitraryTopo_def DiamondZigZagTopo_def RingTopo_def BinaryTreeTopo_def
      HouseTopo_def MultipleRingTopo_def Let_def
    by (intro extends_if extends_bind extends_basic extends_random_edge extends_ring_edge h)
  ultimately show ?thesis by (simp del: genNeighborList.simps)
qed

lemma good_genNeighbors:
  assumes "\<forall>t\<in>set ts. 0 < t \<and> t \<le> n" and "0 < x" "x \<le> n" "n < SIZE_T"
  shows "good n (genNeighbors x ts)"
  using assms(1)
proof (induction ts)
  case (Cons t ts)
  then have "good n (\<lambda>s. bind_res (genNeighbor x t s) (genNeighbors x ts))" using assms by (intro good_bind good_genNeighbor) auto
  then show ?case by (simp add: genNeighbors_fun(2))
qed (simp add: good_Inr)

lemma good_random_edge:
  assumes "0 < x" "x \<le> n" "0 < t" "t \<le> n" "n < SIZE_T"
  shows "good n (genRandomEdge x t)"
  unfolding random_edge_steps by (rule good_rand) (use assms in \<open>auto intro!: good_genNeighbor\<close>)

lemma good_arbitrary:
  assumes "n mod 3 = 1" and "0 < x" "x \<le> n" "n < SIZE_T"
  shows "good n (DiamondArbitraryTopo n x)"
proof -
  have r: "good n (genRandomEdge x t)" if "t \<in> set (diamond_edges n x)" for t
    using diamond_in_range [OF assms(1-3)] assms that by (intro good_random_edge) auto
  consider "x = n" | "x \<noteq> n" "x mod 3 = 1" | "x \<noteq> n" "x mod 3 = 0" | "x \<noteq> n" "x mod 3 \<noteq> 1" "x mod 3 \<noteq> 0" by blast
  then show ?thesis
  proof cases
    case 1 then show ?thesis by (simp add: DiamondArbitraryTopo_def [abs_def] good_Inr)
  next
    case 2
    have "DiamondArbitraryTopo n x = (\<lambda>s. bind_res (genRandomEdge x (x + 1) s) (genRandomEdge x (x + 2)))"
      using 2 by (simp add: fun_eq_iff DiamondArbitraryTopo_def)
    then show ?thesis using 2 r by (auto simp: diamond_edges_def intro!: good_bind)
  next
    case 3
    then have "DiamondArbitraryTopo n x = genRandomEdge x (x + 1)" by (simp add: fun_eq_iff DiamondArbitraryTopo_def)
    then show ?thesis using 3 r by (simp add: diamond_edges_def)
  next
    case 4
    then have "DiamondArbitraryTopo n x = genRandomEdge x (x + 2)" by (simp add: fun_eq_iff DiamondArbitraryTopo_def)
    then show ?thesis using 4 r by (simp add: diamond_edges_def)
  qed
qed

lemma good_ring_edge_rest:
  assumes "1 < n" and "0 < x" "x \<le> n" "n < SIZE_T"
  shows "good n (\<lambda>(s, rs). bind_res (rand rs) (\<lambda>(r, rs). (if r mod 2 \<noteq> 0
        then (\<lambda>(s, rs). bind_res (other_loop n nxt rs) (\<lambda>(t, rs). genNeighbor x t (s, rs))) else Inr) (s, rs)))"
  using assms by (intro good_rand) (auto intro!: good_other good_genNeighbor)

lemma good_step:
  assumes "proper_size ty n" and "0 < x" "x \<le> n" "n < SIZE_T"
  shows "good n (genNeighborList (ty, n, x))"
proof (cases "random_type ty")
  case True
  show ?thesis using assms(1)
  proof (cases rule: proper_sizeE)
    case 2
    then have "genNeighborList (ty, n, x) = DiamondArbitraryTopo n x" by (simp add: fun_eq_iff topology_numbers)
    then show ?thesis using good_arbitrary assms 2 by simp
  next
    case 5
    then have "genNeighborList (ty, n, x) = RingEdgeTopo n x" by (simp add: fun_eq_iff topology_numbers)
    moreover have "good n (genNeighbor x (if x = n then 1 else x + 1))" using assms by (intro good_genNeighbor) auto
    ultimately show ?thesis using good_ring_edge_rest [of n x] assms 5 unfolding ring_edge_steps by (auto intro!: good_bind)
  qed (use True in \<open>simp_all add: random_type_def topology_numbers\<close>)
next
  case False
  have "genNeighborList (ty, n, x) = genNeighbors x (own_edges (ty, n, x))"
    using fixed_steps [OF assms(1) False assms(2,3)] by (simp add: fun_eq_iff del: genNeighborList.simps own_edges.simps)
  moreover have "good n (genNeighbors x (own_edges (ty, n, x)))"
    by (rule good_genNeighbors [OF own_edges_in_range [OF assms(1-3)] assms(2-4)])
  ultimately show ?thesis by simp
qed

interpretation topo_steps: random_steps genNeighborList topo_ok
proof
  fix i s rs s' rest ws j
  show "genNeighborList i (s, rs) = Inr (s', rest) \<Longrightarrow> genNeighborList i (s, rs @ ws) = Inr (s', rest @ ws)"
    using extends_step [of i] unfolding extends_def by blast
  obtain ty n x where i: "i = (ty, n, x)" by (cases i)
  show "topo_ok i s \<Longrightarrow> \<exists>ws s' rest. genNeighborList i (s, rs @ ws) = Inr (s', rest)"
    using goodD(1) [of n "genNeighborList i" s rs] good_step [of ty n x] i by (simp add: sized_def)
  show "topo_ok j s'" if "topo_ok i s" "genNeighborList i (s, rs) = Inr (s', rest)" "topo_ok j s"
    using goodD(2) [of n "genNeighborList i" s rs s' rest] good_step [of ty n x] i that
    by (cases j) (simp add: sized_def grown_def del: genNeighborList.simps)
qed

section \<open>The topologies that are generated\<close>

lemma adds_own_edges:
  assumes "proper_size ty n" and "ty \<noteq> DIAMOND_ARBITRARY_TOPOLOGY" and x: "0 < x" "x \<le> n" "n < SIZE_T"
    and s: "sized n s" and r: "genNeighborList (ty, n, x) (s, rs) = Inr (s', rest)" and t: "t \<in> set (own_edges (ty, n, x))"
  shows "t - 1 \<in> set (s' ! (x - 1))"
proof -
  have l: "x \<le> length s" "length s = n" using s x by (auto simp: sized_def)
  have tr: "0 < t" "t \<le> n" using own_edges_in_range [OF assms(1) x(1,2)] t by auto
  show ?thesis
  proof (cases "ty = RING_EDGE_TOPOLOGY")
    case True
    then have "1 < n" using assms(1) by (auto simp: proper_size_def accepted_input_def topology_numbers)
    have "own_edges (ty, n, x) = [if x = n then 1 else x + 1]" using True by (simp add: topology_numbers ring_edges_def)
    then have "t = (if x = n then 1 else x + 1)" using t by simp
    have "t \<le> length s" "length s < SIZE_T" "in_range s" using tr(2) l(2) x(3) s by (auto simp: sized_def)
    from genNeighbor_ok [OF x(1) l(1) tr(1) this] obtain s1 where s1:
        "\<And>rs. genNeighbor x t (s, rs) = Inr (s1, rs)" "length s1 = n" "in_range s1" "t - 1 \<in> set (s1 ! (x - 1))"
      unfolding l(2) by metis
    have "RingEdgeTopo n x (s, rs) = Inr (s', rest)" using r True by (simp add: topology_numbers)
    then have "grown s1 s'"
      using goodD(2) [OF good_ring_edge_rest [OF \<open>1 < n\<close> x], of s1] s1 \<open>t = _\<close>
      unfolding ring_edge_steps by (simp add: bind_res_def sized_def)
    moreover have "x - 1 < length s1" using s1(2) x by linarith
    ultimately show ?thesis using s1(4) unfolding grown_def by blast
  next
    case False
    then have "\<not> random_type ty" using assms(2) by (simp add: random_type_def)
    then have "genNeighbors x (own_edges (ty, n, x)) (s, rs) = Inr (s', rest)"
      using fixed_steps [OF assms(1) _ x(1,2)] r by (simp del: genNeighborList.simps own_edges.simps)
    then have "s' = s[x - 1 := s ! (x - 1) @ map (\<lambda>t. sz_sub t 1) (own_edges (ty, n, x))]"
      unfolding genNeighbors_edges [OF x(1) l(1)] by simp
    moreover have "sz_sub t 1 = t - 1" using tr x(3) by (simp add: sz_sub_small)
    ultimately show ?thesis using t l x by (simp del: own_edges.simps) (metis image_eqI)
  qed
qed

lemma run_all_adds:
  assumes "run_all genNeighborList (map (\<lambda>x. (ty, n, x)) xs) (s, rs) = Inr (s', rest)"
    and p: "proper_size ty n" and "\<forall>x\<in>set xs. 0 < x \<and> x \<le> n" and n: "n < SIZE_T" and "sized n s"
  shows "sized n s' \<and> grown s s' \<and> (ty \<noteq> DIAMOND_ARBITRARY_TOPOLOGY \<longrightarrow>
    (\<forall>x\<in>set xs. \<forall>t\<in>set (own_edges (ty, n, x)). t - 1 \<in> set (s' ! (x - 1))))"
  using assms(1,3,5)
proof (induction xs arbitrary: s rs)
  case (Cons x xs)
  then obtain t us where 1: "genNeighborList (ty, n, x) (s, rs) = Inr (t, us)"
      "run_all genNeighborList (map (\<lambda>x. (ty, n, x)) xs) (t, us) = Inr (s', rest)"
    by (auto simp: bind_res_def split: sum.splits)
  have x: "0 < x" "x \<le> n" using Cons.prems by auto
  have t: "sized n t" "grown s t" using goodD(2) [OF good_step [OF p x n] _ 1(1)] Cons.prems by auto
  from Cons.IH [OF 1(2) _ t(1)] Cons.prems(2)
  have ih: "sized n s' \<and> grown t s' \<and> (ty \<noteq> DIAMOND_ARBITRARY_TOPOLOGY \<longrightarrow>
      (\<forall>x\<in>set xs. \<forall>t\<in>set (own_edges (ty, n, x)). t - 1 \<in> set (s' ! (x - 1))))" by simp
  have "e - 1 \<in> set (s' ! (x - 1))" if "ty \<noteq> DIAMOND_ARBITRARY_TOPOLOGY" "e \<in> set (own_edges (ty, n, x))" for e
  proof -
    have "e - 1 \<in> set (t ! (x - 1))" using adds_own_edges [OF p that(1) x n _ 1(1) that(2)] Cons.prems by simp
    moreover have "x - 1 < length t" using t(1) x by (simp add: sized_def)
    ultimately show ?thesis using ih unfolding grown_def by blast
  qed
  then show ?case using ih grown_trans [OF t(2)] by (simp del: own_edges.simps)
qed (simp add: grown_def)

definition edge_set :: "topo \<Rightarrow> (nat \<times> nat) set" where
  "edge_set topo = {(i, j). i < length topo \<and> j \<in> set (topo ! i)}"

lemma reachable_by_parents:
  assumes "\<forall>y. 1 < y \<and> y \<le> length topo \<longrightarrow> (\<exists>x. 0 < x \<and> x < y \<and> y - 1 \<in> set (topo ! (x - 1)))" and "j < length topo"
  shows "(0, j) \<in> (edge_set topo)\<^sup>*"
  using assms(2)
proof (induction j rule: less_induct)
  case (less j)
  show ?case
  proof (cases "j = 0")
    case False
    then obtain x where x: "0 < x" "x < j + 1" "j \<in> set (topo ! (x - 1))" using spec [OF assms(1), of "j + 1"] less.prems by auto
    then have "(0, x - 1) \<in> (edge_set topo)\<^sup>*" using less by auto
    moreover have "(x - 1, j) \<in> edge_set topo" using x less.prems by (simp add: edge_set_def)
    ultimately show ?thesis by (rule rtrancl.rtrancl_into_rtrancl)
  qed simp
qed

section \<open>The end of the generation\<close>

text \<open>Without random choices the topology is computed outright.\<close>

lemma run_all_append: "run_all f (xs @ ys) s = bind_res (run_all f xs s) (run_all f ys)"
  by (induction xs arbitrary: s) (simp_all add: bind_res_def split: sum.splits)

lemma fixed_topology_exact:
  assumes p: "proper_size ty n" and r: "\<not> random_type ty" and n: "n < SIZE_T"
  shows "generate_orig_topology ty n rs = Inr (map (\<lambda>i. map (\<lambda>t. t - 1) (own_edges (ty, n, i + 1))) [0..<n], rs)"
proof -
  let ?own = "\<lambda>i. map (\<lambda>t. t - 1) (own_edges (ty, n, i + 1))"
  have "run_all genNeighborList (map (\<lambda>i. (ty, n, i)) [1..<k + 1]) (replicate n [], rs) = Inr (map ?own [0..<k] @ replicate (n - k) [], rs)"
    if "k \<le> n" for k
    using that
  proof (induction k)
    case (Suc k)
    let ?topo = "map ?own [0..<k] @ replicate (n - k) []"
    have x: "0 < k + 1" "k + 1 \<le> n" "k + 1 \<le> length ?topo" using Suc.prems by auto
    have m: "map (\<lambda>t. sz_sub t 1) (own_edges (ty, n, k + 1)) = ?own k"
      using own_edges_in_range [OF p x(1,2)] n by (auto simp: sz_sub_small simp del: own_edges.simps)
    have "genNeighborList (ty, n, k + 1) (?topo, rs) = Inr (?topo[k := ?topo ! k @ ?own k], rs)"
      unfolding fixed_steps [OF p r x(1,2)] genNeighbors_edges [OF x(1,3)] m by simp
    moreover have "n - k = Suc (n - Suc k)" using Suc.prems by simp
    then have "?topo[k := ?topo ! k @ ?own k] = map ?own [0..<Suc k] @ replicate (n - Suc k) []"
      by (simp add: list_update_append nth_append del: own_edges.simps)
    moreover have "[1..<Suc k + 1] = [1..<k + 1] @ [k + 1]" by simp
    ultimately show ?case using Suc by (simp add: run_all_append bind_res_def del: genNeighborList.simps own_edges.simps)
  qed simp
  from this [of n] show ?thesis
    by (simp add: generate_orig_topology_def generate_topology_def setup_topos_def del: genNeighborList.simps own_edges.simps)
qed

text \<open>With random directions one number is taken for each edge, and no context has more than two.\<close>

lemma random_edge_ends:
  assumes "sized n t" and "0 < x" "x \<le> n" "0 < y" "y \<le> n" "n < SIZE_T"
  shows "\<exists>t'. genRandomEdge x y (t, r # rs) = Inr (t', rs) \<and> sized n t'"
proof -
  obtain t1 where "genNeighbor x y (t, rs) = Inr (t1, rs)" "sized n t1"
    using genNeighbor_ok [of x t y] assms by (metis sized_def)
  moreover obtain t2 where "genNeighbor y x (t, rs) = Inr (t2, rs)" "sized n t2"
    using genNeighbor_ok [of y t x] assms by (metis sized_def)
  ultimately show ?thesis by (simp add: genRandomEdge_def)
qed

lemma arbitrary_ends:
  assumes "n mod 3 = 1" and "0 < x" "x \<le> n" "n < SIZE_T" and "sized n t" and "2 \<le> length rs"
  shows "\<exists>t' rest. DiamondArbitraryTopo n x (t, rs) = Inr (t', rest) \<and> sized n t' \<and> length rs \<le> length rest + 2"
proof -
  obtain r1 r2 rs' where rs: "rs = r1 # r2 # rs'" using assms(6) by (cases rs; cases "tl rs") auto
  have e: "\<exists>t'. genRandomEdge x y (t, r # rest) = Inr (t', rest) \<and> sized n t'"
    if "y \<in> set (diamond_edges n x)" "sized n t" for y t r rest
    using diamond_in_range [OF assms(1-3)] that assms(2-4) by (intro random_edge_ends) auto
  consider "x = n" | "x \<noteq> n" "x mod 3 = 1" | "x \<noteq> n" "x mod 3 = 0" | "x \<noteq> n" "x mod 3 \<noteq> 1" "x mod 3 \<noteq> 0" by blast
  then show ?thesis
  proof cases
    case 2
    then have d: "x + 1 \<in> set (diamond_edges n x)" "x + 2 \<in> set (diamond_edges n x)" by (auto simp: diamond_edges_def)
    from e [OF d(1) assms(5), of r1 "r2 # rs'"] obtain t1 where t1: "genRandomEdge x (x + 1) (t, rs) = Inr (t1, r2 # rs')" "sized n t1"
      unfolding rs by blast
    from e [OF d(2) t1(2), of r2 rs'] t1(1) 2 show ?thesis by (auto simp: DiamondArbitraryTopo_def rs)
  next
    case 3
    with e [of "x + 1" t r1 "r2 # rs'"] assms(5) show ?thesis by (auto simp: DiamondArbitraryTopo_def diamond_edges_def rs)
  next
    case 4
    with e [of "x + 2" t r1 "r2 # rs'"] assms(5) show ?thesis by (auto simp: DiamondArbitraryTopo_def diamond_edges_def rs)
  qed (use assms in \<open>simp add: DiamondArbitraryTopo_def\<close>)
qed

lemma arbitrary_run_ends:
  assumes "n mod 3 = 1" and "n < SIZE_T" and "\<forall>x\<in>set xs. 0 < x \<and> x \<le> n" and "sized n t" and "2 * length xs \<le> length rs"
  shows "is_ok (run_all genNeighborList (map (\<lambda>x. (DIAMOND_ARBITRARY_TOPOLOGY, n, x)) xs) (t, rs))"
  using assms(3-5)
proof (induction xs arbitrary: t rs)
  case (Cons x xs)
  then have "0 < x" "x \<le> n" "2 \<le> length rs" by auto
  from arbitrary_ends [OF assms(1) this(1,2) assms(2) Cons.prems(2) this(3)] obtain t' rest where
    "DiamondArbitraryTopo n x (t, rs) = Inr (t', rest)" "sized n t'" "length rs \<le> length rest + 2" by blast
  with Cons show ?case by (simp add: topology_numbers bind_res_def)
qed simp

text \<open>
  C14. The topologies of the benchmark generator, for a type and a number of contexts that \<open>read_input\<close> accepts and at
  least six contexts for the multiple ring (it also accepts three, for which the generator is wrong). Without random
  choices the generation ends and takes no random number; with random directions of the edges it ends once two
  numbers per context are there; with random additional edges in a ring, where numbers are drawn until one fits, there
  is always a continuation of the numbers with which it ends. In what is generated every neighbor is the number of a context,
  and, unless the directions of the edges are random, every context can be reached from the root context 0.
\<close>

theorem accepted_topologies_are_rooted:
  assumes "accepted_input ty n" and "ty = MULTIPLE_RING_TOPOLOGY \<longrightarrow> 6 \<le> n" and "n < SIZE_T"
  shows "(\<not> random_type ty \<longrightarrow> (\<exists>topo. generate_orig_topology ty n rs = Inr (topo, rs))) \<and>
    (ty \<noteq> RING_EDGE_TOPOLOGY \<and> 2 * n \<le> length rs \<longrightarrow> is_ok (generate_orig_topology ty n rs)) \<and>
    (\<exists>ws topo rest. generate_orig_topology ty n (rs @ ws) = Inr (topo, rest)) \<and>
    (\<forall>topo rest. generate_orig_topology ty n rs = Inr (topo, rest) \<longrightarrow>
       length topo = n \<and> (\<forall>ns\<in>set topo. \<forall>j\<in>set ns. j < n) \<and>
       (ty \<noteq> DIAMOND_ARBITRARY_TOPOLOGY \<longrightarrow> (\<forall>j < n. (0, j) \<in> (edge_set topo)\<^sup>*)))"
proof -
  have p: "proper_size ty n" using assms by (simp add: proper_size_def)
  let ?s = "replicate n [] :: topo"
  let ?is = "map (\<lambda>x. (ty, n, x)) [1..<n + 1]"
  have s: "sized n ?s" by (simp add: sized_def in_range_def)
  have g: "generate_orig_topology ty n rs = run_all genNeighborList ?is (?s, rs)" for rs
    by (simp add: generate_orig_topology_def generate_topology_def setup_topos_def)
  have fixed: "\<not> random_type ty \<longrightarrow> (\<exists>topo. generate_orig_topology ty n rs = Inr (topo, rs))"
    using fixed_topology_exact [OF p _ assms(3), of rs] by blast
  have arb: "is_ok (generate_orig_topology ty n rs)" if "ty \<noteq> RING_EDGE_TOPOLOGY" "2 * n \<le> length rs"
  proof (cases "random_type ty")
    case True
    then have "ty = DIAMOND_ARBITRARY_TOPOLOGY" using that(1) by (simp add: random_type_def)
    moreover from this have "n mod 3 = 1" using assms(1) by (simp add: accepted_input_def topology_numbers)
    ultimately show ?thesis unfolding g using arbitrary_run_ends [of n "[1..<n + 1]" ?s rs] assms(3) s that(2) by auto
  next
    case False
    with fixed show ?thesis by auto
  qed
  have "\<forall>i\<in>set ?is. topo_ok i ?s" using p assms(3) by (auto simp: in_range_def)
  then have "\<exists>ws topo rest. generate_orig_topology ty n (rs @ ws) = Inr (topo, rest)"
    unfolding g by (rule topo_steps.all_resume)
  moreover have "length topo = n \<and> (\<forall>ns\<in>set topo. \<forall>j\<in>set ns. j < n) \<and>
       (ty \<noteq> DIAMOND_ARBITRARY_TOPOLOGY \<longrightarrow> (\<forall>j < n. (0, j) \<in> (edge_set topo)\<^sup>*))"
    if r: "generate_orig_topology ty n rs = Inr (topo, rest)" for topo rest
  proof -
    have xs: "\<forall>x\<in>set [1..<n + 1]. 0 < x \<and> x \<le> n" by auto
    have a: "sized n topo" "ty \<noteq> DIAMOND_ARBITRARY_TOPOLOGY \<longrightarrow>
        (\<forall>x\<in>set [1..<n + 1]. \<forall>t\<in>set (own_edges (ty, n, x)). t - 1 \<in> set (topo ! (x - 1)))"
      using run_all_adds [OF r [unfolded g] p xs assms(3) s] by (blast, blast)
    have "\<exists>x. 0 < x \<and> x < y \<and> y - 1 \<in> set (topo ! (x - 1))"
      if "ty \<noteq> DIAMOND_ARBITRARY_TOPOLOGY" "1 < y" "y \<le> n" for y
      using own_edges_parent [OF p that] a(2) that by fastforce
    then show ?thesis using a(1) reachable_by_parents [of topo] by (auto simp: sized_def in_range_def)
  qed
  ultimately show ?thesis using fixed arb by blast
qed

lemma sz_sub_little: "0 < t \<Longrightarrow> t < 10 \<Longrightarrow> sz_sub t (Suc 0) = t - 1"
  by (simp add: sz_sub_small SIZE_T_def)

lemma list_numerals:
  "(x # xs)[numeral v := y] = x # xs[pred_numeral v := y]" "(x # xs)[Suc 0 := y] = x # xs[0 := y]"
  "replicate (numeral v) x = x # replicate (pred_numeral v) x"
  by (simp_all add: numeral_eq_Suc)

lemmas small_topologies = list_numerals generate_orig_topology_def generate_topology_def setup_topos_def topology_numbers
  genNeighbor_def bind_res_def sz_sub_little

theorem accepted_topologies_are_rooted_witness:
  "\<exists>topo. generate_orig_topology DIAMOND_DOWN_TOPOLOGY 4 [] = Inr (topo, []) \<and> topo = [[1, 2], [3], [3], []]
     \<and> (0, 3) \<in> (edge_set topo)\<^sup>*"
proof -
  have upt4: "[1..<4 + 1] = [1, 2, 3, 4 :: nat]" by (simp add: upt_rec)
  have "accepted_input DIAMOND_DOWN_TOPOLOGY 4" by (simp add: accepted_input_def topology_numbers)
  moreover have g: "generate_orig_topology DIAMOND_DOWN_TOPOLOGY 4 [] = Inr ([[1, 2], [3], [3], []], [])"
    using upt4 by (simp add: small_topologies DiamondTopo_def)
  ultimately show ?thesis using accepted_topologies_are_rooted [of DIAMOND_DOWN_TOPOLOGY 4 "[]"]
    by (simp add: topology_numbers SIZE_T_def)
qed

text \<open>
  \<open>read_input\<close> tests the number of contexts of a multiple ring with a conjunction: three contexts are accepted, and
  one of them gets a neighbor that does not exist.
\<close>

lemma three_rings_out_of_range:
  "accepted_input MULTIPLE_RING_TOPOLOGY 3 \<and> generate_orig_topology MULTIPLE_RING_TOPOLOGY 3 [] = Inr ([[1], [2, 3], [0, 3]], [])"
proof -
  have "[1..<3 + 1] = [1, 2, 3 :: nat]" by (simp add: upt_rec)
  then show ?thesis by (simp add: accepted_input_def small_topologies MultipleRingTopo_def)
qed

text \<open>With a single context, which is not accepted, the search for a second neighbor in a ring never ends.\<close>

lemma ring_edge_one_context: "other_loop 1 1 rs = Inl Out_Of_Fuel"
  by (induction rs) (simp_all add: Let_def)

end
