(* ===== verification/Opt_Topologies.thy ===== *)
theory Opt_Topologies
  imports Topologies Belief_State
begin

text \<open>
  The optimal topologies of the benchmark generator (\<open>include/generator/*OptTopoGenerator.h\<close>): the interfaces between
  contexts, a map from pairs of contexts to shared pointers, are enlarged so that edges can be removed. The pointers
  are addresses of an explicit heap, since \<open>putInterface\<close> makes two pairs share an interface and \<open>operator|\<close> changes
  its left operand.
\<close>

section \<open>Interfaces\<close>

type_synonym edge = "nat \<times> nat"

record opt_world =
  lcim :: "edge \<rightharpoonup> nat"
  bs_heap :: "nat \<rightharpoonup> NewBeliefState"

definition getInterface :: "opt_world \<Rightarrow> nat \<Rightarrow> nat \<Rightarrow> nat res" where
  "getInterface w from to = (case lcim w (from, to) of None \<Rightarrow> Inl Assertion_Failed | Some p \<Rightarrow> Inr p)"

definition putInterface :: "nat \<Rightarrow> nat \<Rightarrow> nat \<Rightarrow> opt_world \<Rightarrow> opt_world res" where
  "putInterface from to bs w = assertion (lcim w (from, to) \<noteq> None) (Inr (w\<lparr>lcim := (lcim w)((from, to) \<mapsto> bs)\<rparr>))"

definition erase :: "edge \<Rightarrow> opt_world \<Rightarrow> opt_world" where
  "erase e w = w\<lparr>lcim := (lcim w)(e := None)\<rparr>"

text \<open>\<open>(*p) = (*p) | (*q)\<close>.\<close>

definition or_into :: "nat \<Rightarrow> nat \<Rightarrow> opt_world \<Rightarrow> opt_world res" where
  "or_into p q w = (case (bs_heap w p, bs_heap w q) of
     (Some a, Some b) \<Rightarrow> Inr (w\<lparr>bs_heap := (bs_heap w)(p \<mapsto> bs_or a b)\<rparr>) | _ \<Rightarrow> Inl Undefined_Behaviour)"

section \<open>The generators\<close>

definition DiamondOpt :: "nat \<Rightarrow> nat \<Rightarrow> opt_world \<Rightarrow> opt_world res" where
  "DiamondOpt system_size x w =
     (if x = system_size then Inr w
      else if x mod 3 = 1
      then bind_res (getInterface w (x - 1) x) (\<lambda>bs_12. bind_res (getInterface w (x - 1) (x + 1)) (\<lambda>bs_13.
           bind_res (getInterface w x (x + 2)) (\<lambda>bs_24. bind_res (getInterface w (x + 1) (x + 2)) (\<lambda>bs_34.
           bind_res (or_into bs_12 bs_24 w) (or_into bs_13 bs_34)))))
      else if x mod 3 = 2
      then bind_res (getInterface w (x - 1) (x + 1)) (\<lambda>bs_24. bind_res (getInterface w x (x + 1)) (\<lambda>bs_34.
           bind_res (or_into bs_24 bs_34 w) (putInterface x (x + 1) bs_24)))
      else Inr w)"

definition DiamondZigZagOpt :: "nat \<Rightarrow> nat \<Rightarrow> opt_world \<Rightarrow> opt_world res" where
  "DiamondZigZagOpt system_size x w =
     (if x = system_size then Inr w
      else if x mod 3 = 1
      then bind_res (getInterface w (x - 1) x) (\<lambda>bs_12. bind_res (getInterface w x (x + 1)) (\<lambda>bs_23. or_into bs_12 bs_23 w))
      else if x mod 3 = 2
      then bind_res (getInterface w (x - 1) x) (\<lambda>bs_23. bind_res (getInterface w (x - 2) x) (\<lambda>bs_13.
           bind_res (getInterface w x (x + 1)) (\<lambda>bs_34.
           bind_res (or_into bs_23 bs_13 w) (\<lambda>w. bind_res (or_into bs_23 bs_34 w) (\<lambda>w. Inr (erase (x - 2, x) w))))))
      else bind_res (getInterface w (x - 1) x) (\<lambda>bs_34. bind_res (getInterface w (x - 2) x) (\<lambda>bs_24.
           bind_res (or_into bs_34 bs_24 w) (\<lambda>w. Inr (erase (x - 2, x) w)))))"

definition RingOpt :: "nat \<Rightarrow> nat \<Rightarrow> opt_world \<Rightarrow> opt_world res" where
  "RingOpt system_size x w =
     (if x = system_size then Inr w
      else bind_res (if system_size > 1
        then bind_res (getInterface w (x - 1) x) (\<lambda>bs_this_next. bind_res (getInterface w (system_size - 1) 0) (\<lambda>bs_n_1.
             or_into bs_this_next bs_n_1 w))
        else Inr w) (\<lambda>w. Inr (if x = 1 then erase (system_size - 1, 0) w else w)))"

definition house_parent_id :: "nat \<Rightarrow> nat" where
  "house_parent_id x = (let house_id = (x + 2) div 4 in
     if house_id mod 2 = 0 then 2 * ((x - 2) div 4 + 1)
     else if x \<noteq> 2 then 2 * ((x - 5) div 4 + 1) + 1 else 1)"

definition house_child :: "nat \<Rightarrow> nat \<Rightarrow> nat \<Rightarrow> opt_world \<Rightarrow> opt_world res" where
  "house_child system_size x child_id w = (if child_id < system_size
     then bind_res (getInterface w (x - 1) (child_id - 1)) (\<lambda>bs_p2. bind_res (getInterface w (child_id - 1) child_id) (\<lambda>bs_23.
          or_into bs_p2 bs_23 w))
     else Inr w)"

definition HouseOpt :: "nat \<Rightarrow> nat \<Rightarrow> opt_world \<Rightarrow> opt_world res" where
  "HouseOpt system_size x w =
     (if x = 1
      then bind_res (getInterface w (x - 1) x) (\<lambda>bs_12. bind_res (getInterface w x (x + 1)) (\<lambda>bs_23. or_into bs_12 bs_23 w))
      else if x mod 4 = 2
      then let parent_id = house_parent_id x in
           bind_res (getInterface w (x - 1) x) (\<lambda>bs_23. bind_res (getInterface w (parent_id - 1) x) (\<lambda>bs_p3.
           bind_res (getInterface w x (x + 1)) (\<lambda>bs_30.
           bind_res (or_into bs_23 bs_p3 w) (\<lambda>w. bind_res (or_into bs_23 bs_30 w) (\<lambda>w. Inr (erase (parent_id - 1, x) w))))))
      else if x mod 4 = 3
      then bind_res (getInterface w (x - 1) x) (\<lambda>bs_30. bind_res (getInterface w x (x + 1)) (\<lambda>bs_01. or_into bs_30 bs_01 w))
      else if x mod 4 = 0
      then bind_res (getInterface w (x - 1) x) (\<lambda>bs_01. bind_res (getInterface w x (x - 3)) (\<lambda>bs_12.
           bind_res (or_into bs_01 bs_12 w) (\<lambda>w.
             house_child system_size x (x + (x div 4 - 1) * 4 + 2) (erase (x, x - 3) w))))
      else house_child system_size x (x + (x div 4 - 1) * 4 + 5) w)"

definition or_three :: "nat \<Rightarrow> nat \<Rightarrow> nat \<Rightarrow> nat \<Rightarrow> opt_world \<Rightarrow> opt_world res" where
  "or_three bs bs_2a bs_2b bs_2c w = bind_res (or_into bs bs_2a w) (\<lambda>w. bind_res (or_into bs bs_2b w) (or_into bs bs_2c))"

definition MultipleRingOpt :: "nat \<Rightarrow> nat \<Rightarrow> opt_world \<Rightarrow> opt_world res" where
  "MultipleRingOpt system_size x w =
     (let earLoopSize = (system_size + 3) div 3; secondLoopJump = earLoopSize - 1;
          firstLoopEnd = 2 + earLoopSize + earLoopSize - 3
      in if x = firstLoopEnd \<or> x = system_size then Inr w
         else bind_res (getInterface w (firstLoopEnd - 1) 2) (\<lambda>bs_2a. bind_res (getInterface w earLoopSize 0) (\<lambda>bs_2b.
              bind_res (getInterface w (system_size - 1) (earLoopSize - 1)) (\<lambda>bs_2c.
              bind_res (bind_res (if x = earLoopSize + 1 then getInterface w (x - 1) (x + secondLoopJump - 1)
                else getInterface w (x - 1) x) (\<lambda>bs. or_three bs bs_2a bs_2b bs_2c w)) (\<lambda>w.
              bind_res (if x = 2 then bind_res (getInterface w (x - 1) (x + earLoopSize - 1)) (\<lambda>bs_11.
                or_three bs_11 bs_2a bs_2b bs_2c w) else Inr w) (\<lambda>w.
              Inr (if x = 1 then erase (system_size - 1, earLoopSize - 1) (erase (earLoopSize, 0) (erase (firstLoopEnd - 1, 2) w))
                else w)))))))"

fun opt_interface_of :: "nat \<Rightarrow> nat \<Rightarrow> nat \<Rightarrow> opt_world \<Rightarrow> opt_world res" where
  "opt_interface_of topology_type n x w =
     (if topology_type = DIAMOND_DOWN_TOPOLOGY then DiamondOpt n x w
      else if topology_type = DIAMOND_ZIGZAG_TOPOLOGY then DiamondZigZagOpt n x w
      else if topology_type = PURE_RING_TOPOLOGY then RingOpt n x w
      else if topology_type = HOUSE_TOPOLOGY then HouseOpt n x w
      else if topology_type = MULTIPLE_RING_TOPOLOGY then MultipleRingOpt n x w
      else Inl Undefined_Behaviour)"

fun create_opt_interface :: "nat \<Rightarrow> nat \<Rightarrow> nat \<Rightarrow> opt_world \<Rightarrow> opt_world res" where
  "create_opt_interface topology_type n 0 w = Inr w"
| "create_opt_interface topology_type n (Suc i) w =
     bind_res (opt_interface_of topology_type n (Suc i) w) (create_opt_interface topology_type n i)"

text \<open>
  \<open>generate_opt_topology\<close>: the generator works on copies of the interfaces, which are listed in the order of the map.
\<close>

definition copy_lcim :: "(edge \<times> NewBeliefState) list \<Rightarrow> opt_world" where
  "copy_lcim xs = \<lparr>lcim = map_of (zip (map fst xs) [0..<length xs]),
     bs_heap = (\<lambda>p. if p < length xs then Some (snd (xs ! p)) else None)\<rparr>"

definition generate_opt_topology :: "nat \<Rightarrow> nat \<Rightarrow> (edge \<times> NewBeliefState) list \<Rightarrow> opt_world res" where
  "generate_opt_topology topology_type no_contexts interfaces = (if topology_type \<noteq> BINARY_TREE_TOPOLOGY
     then create_opt_interface topology_type no_contexts no_contexts (copy_lcim interfaces)
     else Inr (copy_lcim interfaces))"

section \<open>Interfaces only grow\<close>

definition marked :: "NewBeliefState \<Rightarrow> nat set" where
  "marked b = {i. get_bit (status_bit b) i \<and> get_bit (value_bit b) i}"

text \<open>The map has exactly the edges \<open>E\<close>, and each interface has at least the beliefs it started with.\<close>

definition covers :: "(edge \<Rightarrow> nat set) \<Rightarrow> edge set \<Rightarrow> opt_world \<Rightarrow> bool" where
  "covers orig E w \<longleftrightarrow> dom (lcim w) = E \<and>
     (\<forall>e p. lcim w e = Some p \<longrightarrow> (\<exists>b. bs_heap w p = Some b \<and> orig e \<subseteq> marked b))"

lemma marked_or: "marked (bs_or a b) = marked a \<union> marked b \<union> {i. get_bit (status_bit a) i \<and> get_bit (value_bit b) i
    \<or> get_bit (status_bit b) i \<and> get_bit (value_bit a) i}"
  by (auto simp: marked_def bs_or_def)

lemma coversD:
  "covers orig E w \<Longrightarrow> lcim w e = Some p \<Longrightarrow> \<exists>b. bs_heap w p = Some b \<and> orig e \<subseteq> marked b"
  unfolding covers_def by blast

lemma coversE:
  assumes "covers orig E w" and "(i, j) \<in> E"
  obtains p where "getInterface w i j = Inr p" and "lcim w (i, j) = Some p"
  using assms by (auto simp: covers_def getInterface_def)

lemma or_into_covers:
  assumes "covers orig E w" and "lcim w e = Some p" and "lcim w e' = Some q"
  obtains w' where "or_into p q w = Inr w'" and "lcim w' = lcim w" and "covers orig E w'"
    and "\<exists>b b'. bs_heap w q = Some b' \<and> bs_heap w' p = Some b \<and> marked b' \<subseteq> marked b"
proof -
  obtain a b where ab: "bs_heap w p = Some a" "bs_heap w q = Some b"
    using coversD [OF assms(1,2)] coversD [OF assms(1,3)] by blast
  define w' where "w' = w\<lparr>bs_heap := (bs_heap w)(p \<mapsto> bs_or a b)\<rparr>"
  have "\<exists>b. bs_heap w' r = Some b \<and> orig f \<subseteq> marked b" if "lcim w' f = Some r" for f r
    using coversD [OF assms(1), of f r] that ab by (auto simp: w'_def marked_or)
  then have "covers orig E w'" using assms(1) by (simp add: covers_def w'_def)
  then show ?thesis using that [of w'] ab by (auto simp: or_into_def w'_def marked_or)
qed

lemma erase_covers: "covers orig E w \<Longrightarrow> covers orig (E - {e}) (erase e w)"
  by (auto simp: covers_def erase_def)

lemma put_covers:
  assumes "covers orig E w" and "(i, j) \<in> E" and "bs_heap w p = Some b" and "orig (i, j) \<subseteq> marked b"
  obtains w' where "putInterface i j p w = Inr w'" and "covers orig E w'"
proof -
  have "lcim w (i, j) \<noteq> None" using assms by (auto simp: covers_def)
  moreover have "covers orig E (w\<lparr>lcim := (lcim w)((i, j) \<mapsto> p)\<rparr>)" using assms by (auto simp: covers_def)
  ultimately show ?thesis using that by (simp add: putInterface_def)
qed

text \<open>A step succeeds and leaves the edges \<open>E\<close>; rules for the operations that steps are made of.\<close>

definition leaves :: "(edge \<Rightarrow> nat set) \<Rightarrow> edge set \<Rightarrow> opt_world res \<Rightarrow> bool" where
  "leaves orig E r \<longleftrightarrow> (\<exists>w. r = Inr w \<and> covers orig E w)"

named_theorems opt_steps

lemma leaves_Inr: "covers orig E w \<Longrightarrow> leaves orig E (Inr w)"
  by (simp add: leaves_def)

lemma leaves_erase [opt_steps]: "covers orig E w \<Longrightarrow> E' = E - {e} \<Longrightarrow> leaves orig E' (Inr (erase e w))"
  using erase_covers by (auto simp: leaves_def)

lemma leaves_get [opt_steps]:
  assumes "covers orig E w" and "(i, j) \<in> E" and "\<And>p. lcim w (i, j) = Some p \<Longrightarrow> leaves orig E' (k p)"
  shows "leaves orig E' (bind_res (getInterface w i j) k)"
  using coversE [OF assms(1,2)] assms(3) by (metis (no_types, lifting) bind_res_def sum.simps(6))

lemma leaves_or [opt_steps]:
  assumes "covers orig E w" and "lcim w e = Some p" and "lcim w e' = Some q"
  shows "leaves orig E (or_into p q w)"
  using or_into_covers [OF assms] by (auto simp: leaves_def)

lemma leaves_or_bind [opt_steps]:
  assumes "covers orig E w" and "lcim w e = Some p" and "lcim w e' = Some q"
    and "\<And>w'. lcim w' = lcim w \<Longrightarrow> covers orig E w' \<Longrightarrow> leaves orig E' (k w')"
  shows "leaves orig E' (bind_res (or_into p q w) k)"
  using or_into_covers [OF assms(1-3)] assms(4) by (metis (no_types, lifting) bind_res_def sum.simps(6))

section \<open>Each step\<close>

definition zigzag_erased :: "nat \<Rightarrow> nat \<Rightarrow> edge set" where
  "zigzag_erased n x = (if x \<noteq> n \<and> x mod 3 \<noteq> 1 then {(x - 2, x)} else {})"

lemma diamond_step:
  assumes c: "covers orig E w"
    and "x \<noteq> n \<Longrightarrow> x mod 3 = 1 \<Longrightarrow> {(x - 1, x), (x - 1, x + 1), (x, x + 2), (x + 1, x + 2)} \<subseteq> E"
    and "x \<noteq> n \<Longrightarrow> x mod 3 = 2 \<Longrightarrow> {(x - 1, x + 1), (x, x + 1)} \<subseteq> E"
  shows "leaves orig E (DiamondOpt n x w)"
proof -
  have put: "leaves orig E (bind_res (or_into p q w) (putInterface x (x + 1) p))"
    if pq: "lcim w (x - 1, x + 1) = Some p" "lcim w (x, x + 1) = Some q" for p q
  proof -
    obtain w' b b' where w': "or_into p q w = Inr w'" "covers orig E w'" "bs_heap w q = Some b'" "bs_heap w' p = Some b" "marked b' \<subseteq> marked b"
      using or_into_covers [OF c pq] by metis
    have "orig (x, x + 1) \<subseteq> marked b" using coversD [OF c pq(2)] w'(3,5) by auto
    moreover have "(x, x + 1) \<in> E" using pq(2) c by (auto simp: covers_def)
    ultimately show ?thesis using put_covers [OF w'(2) _ w'(4)] w'(1) by (metis bind_res_def leaves_def sum.simps(6))
  qed
  consider "x = n \<or> x mod 3 = 0" | "x \<noteq> n" "x mod 3 = 1" | "x \<noteq> n" "x mod 3 = 2" by linarith
  then show ?thesis
  proof cases
    case 1 then show ?thesis using c by (auto simp: DiamondOpt_def leaves_Inr)
  next
    case 2
    then have "leaves orig E (bind_res (getInterface w (x - 1) x) (\<lambda>bs_12. bind_res (getInterface w (x - 1) (x + 1)) (\<lambda>bs_13.
           bind_res (getInterface w x (x + 2)) (\<lambda>bs_24. bind_res (getInterface w (x + 1) (x + 2)) (\<lambda>bs_34.
           bind_res (or_into bs_12 bs_24 w) (or_into bs_13 bs_34))))))"
      using assms(2) by (intro opt_steps [OF c]) (auto intro: opt_steps)
    then show ?thesis using 2 by (simp add: DiamondOpt_def)
  next
    case 3
    then have "leaves orig E (bind_res (getInterface w (x - 1) (x + 1)) (\<lambda>bs_24. bind_res (getInterface w x (x + 1)) (\<lambda>bs_34.
           bind_res (or_into bs_24 bs_34 w) (putInterface x (x + 1) bs_24))))"
      using assms(3) by (intro leaves_get [OF c] put) auto
    then show ?thesis using 3 by (simp add: DiamondOpt_def)
  qed
qed

lemma zigzag_step:
  assumes c: "covers orig E w"
    and "x \<noteq> n \<Longrightarrow> x mod 3 = 1 \<Longrightarrow> {(x - 1, x), (x, x + 1)} \<subseteq> E"
    and "x \<noteq> n \<Longrightarrow> x mod 3 = 2 \<Longrightarrow> {(x - 1, x), (x - 2, x), (x, x + 1)} \<subseteq> E"
    and "x \<noteq> n \<Longrightarrow> x mod 3 = 0 \<Longrightarrow> {(x - 1, x), (x - 2, x)} \<subseteq> E"
  shows "leaves orig (E - zigzag_erased n x) (DiamondZigZagOpt n x w)"
proof -
  consider "x = n" | "x \<noteq> n" "x mod 3 = 1" | "x \<noteq> n" "x mod 3 = 2" | "x \<noteq> n" "x mod 3 = 0" by linarith
  then show ?thesis
  proof cases
    case 1 then show ?thesis using c by (simp add: DiamondZigZagOpt_def zigzag_erased_def leaves_Inr)
  next
    case 2
    then have "leaves orig E (bind_res (getInterface w (x - 1) x) (\<lambda>p. bind_res (getInterface w x (x + 1)) (\<lambda>q. or_into p q w)))"
      using assms(2) by (intro opt_steps [OF c]) auto
    then show ?thesis using 2 by (simp add: DiamondZigZagOpt_def zigzag_erased_def)
  next
    case 3
    then have "leaves orig (E - {(x - 2, x)}) (bind_res (getInterface w (x - 1) x) (\<lambda>bs_23. bind_res (getInterface w (x - 2) x) (\<lambda>bs_13.
           bind_res (getInterface w x (x + 1)) (\<lambda>bs_34.
           bind_res (or_into bs_23 bs_13 w) (\<lambda>w. bind_res (or_into bs_23 bs_34 w) (\<lambda>w. Inr (erase (x - 2, x) w)))))))"
      using assms(3) by (intro opt_steps [OF c]) (auto intro: opt_steps)
    then show ?thesis using 3 by (simp add: DiamondZigZagOpt_def zigzag_erased_def)
  next
    case 4
    then have "leaves orig (E - {(x - 2, x)}) (bind_res (getInterface w (x - 1) x) (\<lambda>bs_34. bind_res (getInterface w (x - 2) x) (\<lambda>bs_24.
           bind_res (or_into bs_34 bs_24 w) (\<lambda>w. Inr (erase (x - 2, x) w)))))"
      using assms(4) by (intro opt_steps [OF c]) (auto intro: opt_steps)
    then show ?thesis using 4 by (simp add: DiamondZigZagOpt_def zigzag_erased_def)
  qed
qed

definition ring_erased :: "nat \<Rightarrow> nat \<Rightarrow> edge set" where
  "ring_erased n x = (if x = 1 then {(n - 1, 0)} else {})"

lemma ring_step:
  assumes c: "covers orig E w" and "1 < n" and "x \<noteq> n \<Longrightarrow> {(x - 1, x), (n - 1, 0)} \<subseteq> E"
  shows "leaves orig (E - ring_erased n x) (RingOpt n x w)"
proof (cases "x = n")
  case True
  then show ?thesis using assms by (simp add: RingOpt_def ring_erased_def leaves_Inr)
next
  case False
  from assms(3) [OF False] obtain p q where pq: "getInterface w (x - 1) x = Inr p" "lcim w (x - 1, x) = Some p"
      "getInterface w (n - 1) 0 = Inr q" "lcim w (n - 1, 0) = Some q"
    using coversE [OF c] by (metis insert_subset)
  have "leaves orig (E - ring_erased n x) (bind_res (or_into p q w) (\<lambda>w. Inr (if x = 1 then erase (n - 1, 0) w else w)))"
    using c pq(2,4) by (intro leaves_or_bind) (auto simp: ring_erased_def intro: leaves_Inr leaves_erase)
  then show ?thesis using False assms(2) pq by (simp add: RingOpt_def bind_res_def)
qed

definition house_erased :: "nat \<Rightarrow> edge set" where
  "house_erased x = (if x \<noteq> 1 \<and> x mod 4 = 2 then {(house_parent_id x - 1, x)} else if x mod 4 = 0 then {(x, x - 3)} else {})"

lemma house_child_step:
  assumes c: "covers orig E w" and "k < n \<Longrightarrow> {(x - 1, k - 1), (k - 1, k)} \<subseteq> E"
  shows "leaves orig E (house_child n x k w)"
  using assms unfolding house_child_def
  by (cases "k < n") (auto simp: leaves_Inr intro!: opt_steps [OF c])

lemma house_step:
  assumes c: "covers orig E w" and "0 < x"
    and one: "x = 1 \<Longrightarrow> {(0, 1), (1, 2)} \<subseteq> E"
    and two: "x mod 4 = 2 \<Longrightarrow> {(x - 1, x), (house_parent_id x - 1, x), (x, x + 1)} \<subseteq> E"
    and three: "x mod 4 = 3 \<Longrightarrow> {(x - 1, x), (x, x + 1)} \<subseteq> E"
    and zero: "x mod 4 = 0 \<Longrightarrow> {(x - 1, x), (x, x - 3)} \<subseteq> E \<and>
      (2 * x - 2 < n \<longrightarrow> {(x - 1, 2 * x - 3), (2 * x - 3, 2 * x - 2)} \<subseteq> E - {(x, x - 3)})"
    and last: "x mod 4 = 1 \<Longrightarrow> x \<noteq> 1 \<Longrightarrow> 2 * x < n \<Longrightarrow> {(x - 1, 2 * x - 1), (2 * x - 1, 2 * x)} \<subseteq> E"
  shows "leaves orig (E - house_erased x) (HouseOpt n x w)"
proof -
  consider "x = 1" | "x \<noteq> 1" "x mod 4 = 2" | "x \<noteq> 1" "x mod 4 = 3" | "x \<noteq> 1" "x mod 4 = 0" | "x \<noteq> 1" "x mod 4 = 1" by linarith
  then show ?thesis
  proof cases
    case 1
    then have "leaves orig E (bind_res (getInterface w 0 1) (\<lambda>p. bind_res (getInterface w 1 2) (\<lambda>q. or_into p q w)))"
      using one by (intro opt_steps [OF c]) auto
    then show ?thesis using 1 by (simp add: HouseOpt_def house_erased_def numeral_2_eq_2)
  next
    case 2
    then have "leaves orig (E - {(house_parent_id x - 1, x)})
        (bind_res (getInterface w (x - 1) x) (\<lambda>bs_23. bind_res (getInterface w (house_parent_id x - 1) x) (\<lambda>bs_p3.
           bind_res (getInterface w x (x + 1)) (\<lambda>bs_30.
           bind_res (or_into bs_23 bs_p3 w) (\<lambda>w. bind_res (or_into bs_23 bs_30 w) (\<lambda>w. Inr (erase (house_parent_id x - 1, x) w)))))))"
      using two by (intro opt_steps [OF c]) (auto intro: opt_steps)
    then show ?thesis using 2 by (simp add: HouseOpt_def house_erased_def Let_def)
  next
    case 3
    then have "leaves orig E (bind_res (getInterface w (x - 1) x) (\<lambda>p. bind_res (getInterface w x (x + 1)) (\<lambda>q. or_into p q w)))"
      using three by (intro opt_steps [OF c]) auto
    then show ?thesis using 3 by (simp add: HouseOpt_def house_erased_def)
  next
    case 4
    have k: "x + (x div 4 - 1) * 4 + 2 = 2 * x - 2" by (rule house_arith(4) [OF assms(2) 4(2)])
    have k3: "2 * x - 2 - 1 = 2 * x - 3" by simp
    have "leaves orig (E - {(x, x - 3)}) (bind_res (getInterface w (x - 1) x) (\<lambda>p. bind_res (getInterface w x (x - 3)) (\<lambda>q.
           bind_res (or_into p q w) (\<lambda>w. house_child n x (2 * x - 2) (erase (x, x - 3) w)))))"
    proof (intro opt_steps [OF c])
      fix p q w'
      assume w': "lcim w' = lcim w" "covers orig E w'"
      show "leaves orig (E - {(x, x - 3)}) (house_child n x (2 * x - 2) (erase (x, x - 3) w'))"
        by (rule house_child_step [OF erase_covers [OF w'(2)]]) (use zero [OF 4(2)] in \<open>simp add: k3\<close>)
    qed (use zero [OF 4(2)] in auto)
    then show ?thesis using 4 unfolding HouseOpt_def k by (simp add: house_erased_def)
  next
    case 5
    have k: "x + (x div 4 - 1) * 4 + 5 = 2 * x" by (rule house_arith(5) [OF assms(2) 5(2,1)])
    have "leaves orig E (house_child n x (2 * x) w)" by (rule house_child_step [OF c]) (use last [OF 5(2,1)] in auto)
    then show ?thesis using 5 unfolding HouseOpt_def k by (simp add: house_erased_def)
  qed
qed

definition rings_back :: "nat \<Rightarrow> edge set" where
  "rings_back n = (let e = n div 3 + 1 in {(2 * e - 2, 2), (e, 0), (n - 1, e - 1)})"

definition rings_erased :: "nat \<Rightarrow> nat \<Rightarrow> edge set" where
  "rings_erased n x = (if x = 1 then rings_back n else {})"

lemma or_three_step:
  assumes c: "covers orig E w" and p: "lcim w e = Some p" and q: "lcim w a = Some pa" "lcim w b = Some pb" "lcim w d = Some pd"
    and k: "\<And>w'. lcim w' = lcim w \<Longrightarrow> covers orig E w' \<Longrightarrow> leaves orig E' (k w')"
  shows "leaves orig E' (bind_res (or_three p pa pb pd w) k)"
proof -
  obtain w1 where 1: "or_into p pa w = Inr w1" "lcim w1 = lcim w" "covers orig E w1" using or_into_covers [OF c p q(1)] by metis
  obtain w2 where 2: "or_into p pb w1 = Inr w2" "lcim w2 = lcim w" "covers orig E w2"
    using or_into_covers [OF 1(3), of e p b pb] p q 1(2) by metis
  obtain w3 where 3: "or_into p pd w2 = Inr w3" "lcim w3 = lcim w" "covers orig E w3"
    using or_into_covers [OF 2(3), of e p d pd] p q 2(2) by metis
  have "or_three p pa pb pd w = Inr w3" using 1 2 3 by (simp add: or_three_def bind_res_def)
  then show ?thesis using k [OF 3(2,3)] by (simp add: bind_res_def)
qed

lemma rings_step:
  assumes c: "covers orig E w" and e: "e = n div 3 + 1"
    and bk: "x \<noteq> 2 * e - 1 \<Longrightarrow> x \<noteq> n \<Longrightarrow> rings_back n \<subseteq> E"
    and nxt: "x \<noteq> 2 * e - 1 \<Longrightarrow> x \<noteq> n \<Longrightarrow> x \<noteq> e + 1 \<Longrightarrow> (x - 1, x) \<in> E"
    and ear: "x = e + 1 \<Longrightarrow> (e, 2 * e - 1) \<in> E" and two: "x = 2 \<Longrightarrow> (1, e + 1) \<in> E"
    and sz: "2 * e - 1 \<noteq> 1" "n \<noteq> 1"
  shows "leaves orig (E - rings_erased n x) (MultipleRingOpt n x w)"
proof -
  have es: "(n + 3) div 3 = e" "2 + e + e - 3 = 2 * e - 1" "2 * e - 1 - 1 = 2 * e - 2" "0 < e" using e by auto
  show ?thesis
  proof (cases "x = 2 * e - 1 \<or> x = n")
    case True
    then have "rings_erased n x = {}" using sz by (auto simp: rings_erased_def)
    moreover have "MultipleRingOpt n x w = Inr w" using True unfolding MultipleRingOpt_def es(1,2) Let_def by simp
    ultimately show ?thesis using c by (simp add: leaves_Inr)
  next
    case False
    then have "rings_back n \<subseteq> E" using bk by simp
    then have "(2 * e - 2, 2) \<in> E" "(e, 0) \<in> E" "(n - 1, e - 1) \<in> E" by (auto simp: rings_back_def Let_def e)
    then obtain pa pb pd where b: "getInterface w (2 * e - 2) 2 = Inr pa" "lcim w (2 * e - 2, 2) = Some pa"
        "getInterface w e 0 = Inr pb" "lcim w (e, 0) = Some pb" "getInterface w (n - 1) (e - 1) = Inr pd" "lcim w (n - 1, e - 1) = Some pd"
      using coversE [OF c] by metis
    let ?f = "if x = e + 1 then (e, 2 * e - 1) else (x - 1, x)"
    have fE: "?f \<in> E" using ear nxt False by auto
    then obtain p where p: "getInterface w (fst ?f) (snd ?f) = Inr p" "lcim w ?f = Some p"
      using coversE [OF c, of "fst ?f" "snd ?f"] by auto
    have gp: "(if x = e + 1 then getInterface w (x - 1) (x + (e - 1) - 1) else getInterface w (x - 1) x) = Inr p"
      using p(1) es(4) by (auto simp: mult_2 split: if_splits)
    let ?tl = "\<lambda>w. Inr (if x = 1 then erase (n - 1, e - 1) (erase (e, 0) (erase (2 * e - 2, 2) w)) else w) :: opt_world res"
    have fin: "leaves orig (E - rings_erased n x) (?tl w')" if "covers orig E w'" for w'
    proof (cases "x = 1")
      case True
      have "E - rings_erased n x = E - {(2 * e - 2, 2)} - {(e, 0)} - {(n - 1, e - 1)}"
        using True by (auto simp: rings_erased_def rings_back_def Let_def e)
      then show ?thesis using True erase_covers [OF erase_covers [OF erase_covers [OF that]]] by (simp add: leaves_Inr)
    qed (use that in \<open>simp add: rings_erased_def leaves_Inr\<close>)
    have second: "leaves orig (E - rings_erased n x) (bind_res (if x = 2 then bind_res (getInterface w' (x - 1) (x + e - 1)) (\<lambda>bs_11.
                or_three bs_11 pa pb pd w') else Inr w') ?tl)" if w': "lcim w' = lcim w" "covers orig E w'" for w'
    proof (cases "x = 2")
      case True
      then obtain r where r: "getInterface w' 1 (e + 1) = Inr r" "lcim w' (1, e + 1) = Some r" using coversE [OF w'(2) two] by metis
      have "leaves orig (E - rings_erased n x) (bind_res (or_three r pa pb pd w') ?tl)"
        by (rule or_three_step [OF w'(2) r(2)]) (use b w' fin in auto)
      then show ?thesis using True r es(4) by (simp add: bind_res_def)
    qed (use w' fin in \<open>simp add: bind_res_def\<close>)
    have "leaves orig (E - rings_erased n x) (bind_res (or_three p pa pb pd w) (\<lambda>w'.
        bind_res (if x = 2 then bind_res (getInterface w' (x - 1) (x + e - 1)) (\<lambda>bs_11. or_three bs_11 pa pb pd w') else Inr w') ?tl))"
      by (rule or_three_step [OF c p(2)]) (use b second in auto)
    moreover have "MultipleRingOpt n x w = bind_res (or_three p pa pb pd w) (\<lambda>w'.
        bind_res (if x = 2 then bind_res (getInterface w' (x - 1) (x + e - 1)) (\<lambda>bs_11. or_three bs_11 pa pb pd w') else Inr w') ?tl)"
      using False unfolding MultipleRingOpt_def es(1,2) Let_def es(3) gp b by (simp add: bind_res_def b gp)
    ultimately show ?thesis by simp
  qed
qed

section \<open>The edges that are needed are there\<close>

definition tedges :: "nat \<Rightarrow> nat \<Rightarrow> edge set" where
  "tedges ty n = {(i, j). i < n \<and> j + 1 \<in> set (own_edges (ty, n, i + 1))}"

lemma residue: "x mod k = r \<Longrightarrow> r < k \<Longrightarrow> \<exists>m. x = k * m + (r :: nat)"
  by (metis mult_div_mod_eq)

lemma tedges_diamond:
  assumes "n = 3 * k + 1" and "x \<noteq> n" "x \<le> n"
  shows "x = 3 * m + 1 \<Longrightarrow> {(x - 1, x), (x - 1, x + 1), (x, x + 2), (x + 1, x + 2)} \<subseteq> tedges 1 n"
    and "x = 3 * m + 2 \<Longrightarrow> {(x - 1, x + 1), (x, x + 1)} \<subseteq> tedges 1 n"
proof -
  show "{(x - 1, x), (x - 1, x + 1), (x, x + 2), (x + 1, x + 2)} \<subseteq> tedges 1 n" if "x = 3 * m + 1"
    using assms that by (auto simp: tedges_def diamond_edges_def mod_Suc; presburger)
  show "{(x - 1, x + 1), (x, x + 1)} \<subseteq> tedges 1 n" if "x = 3 * m + 2"
    using assms that by (auto simp: tedges_def diamond_edges_def mod_Suc; presburger)
qed

lemma tedges_zigzag:
  assumes "n = 3 * k + 1" and "x \<noteq> n" "x \<le> n" "0 < x"
  shows "x = 3 * m + 1 \<Longrightarrow> {(x - 1, x), (x, x + 1)} \<subseteq> tedges 3 n"
    and "x = 3 * m + 2 \<Longrightarrow> {(x - 1, x), (x - 2, x), (x, x + 1)} \<subseteq> tedges 3 n"
    and "x = 3 * m \<Longrightarrow> {(x - 1, x), (x - 2, x)} \<subseteq> tedges 3 n"
proof -
  show "{(x - 1, x), (x, x + 1)} \<subseteq> tedges 3 n" if "x = 3 * m + 1"
    using assms that by (auto simp: tedges_def zigzag_edges_def mod_Suc; presburger)
  show "{(x - 1, x), (x - 2, x), (x, x + 1)} \<subseteq> tedges 3 n" if "x = 3 * m + 2"
    using assms that by (auto simp: tedges_def zigzag_edges_def mod_Suc; presburger)
  show "{(x - 1, x), (x - 2, x)} \<subseteq> tedges 3 n" if "x = 3 * m"
  proof -
    have "x = 3 * (m - 1) + 3" using assms(4) that by (cases m) simp_all
    then obtain q where "x = 3 * q + 3" by blast
    then show ?thesis using assms by (auto simp: tedges_def zigzag_edges_def mod_Suc)
  qed
qed

lemma tedges_ring: "1 < n \<Longrightarrow> 0 < x \<Longrightarrow> x \<le> n \<Longrightarrow> x \<noteq> n \<Longrightarrow> {(x - 1, x), (n - 1, 0)} \<subseteq> tedges 4 n"
  by (auto simp: tedges_def ring_edges_def)

lemma tedges_rings:
  assumes "6 \<le> n" and "e = n div 3 + 1" and "0 < x" "x \<le> n"
  shows "rings_back n \<subseteq> tedges 8 n" and "(e, 2 * e - 1) \<in> tedges 8 n" and "(1, e + 1) \<in> tedges 8 n"
    and "x \<noteq> 2 * e - 1 \<Longrightarrow> x \<noteq> n \<Longrightarrow> x \<noteq> e + 1 \<Longrightarrow> (x - 1, x) \<in> tedges 8 n"
  using assms by (auto simp: tedges_def rings_edges_def rings_back_def Let_def)

lemma house_parent_odd: "house_parent_id (8 * q + 6) = 4 * q + 4"
proof -
  have "(8 * q + 6 + 2) div 4 = 2 * q + 2" "(8 * q + 6 - 2) div 4 = 2 * q + 1" by linarith+
  then show ?thesis by (simp add: house_parent_id_def)
qed

lemma house_parent_even: "0 < q \<Longrightarrow> house_parent_id (8 * q + 2) = 4 * q + 1"
proof -
  assume q: "0 < q"
  have "(8 * q + 2 + 2) div 4 = 2 * q + 1" by linarith
  moreover have "(8 * q + 2 - 5) div 4 = 2 * q - 1" using q by linarith
  moreover have "2 * (2 * q - 1 + 1) + 1 = 4 * q + 1" using q by (cases q) simp_all
  moreover have "(2 * q + 1) mod 2 = 1" by presburger
  ultimately show ?thesis using q by (simp add: house_parent_id_def)
qed

lemma house_parent_first: "house_parent_id 2 = 1"
  by (simp add: house_parent_id_def)

lemma house_edges_cases:
  "house_edges n 1 = [2, 3]"
  "house_edges n (4 * m + 2) = [4 * m + 3]"
  "house_edges n (4 * m + 3) = [4 * m + 4]"
  "house_edges n (4 * m + 4) = (4 * m + 5) # (if 8 * m + 6 < n then [8 * m + 6, 8 * m + 7] else [])"
  "house_edges n (4 * m + 5) = (4 * m + 2) # (if 8 * m + 10 < n then [8 * m + 10, 8 * m + 11] else [])"
proof -
  have r: "(4 * m + 2) mod 4 = 2" "(4 * m + 3) mod 4 = 3" "(4 * m + 4) mod 4 = 0" "(4 * m + 5) mod 4 = 1" by presburger+
  have a: "2 * (4 * m + 4) - 2 = 8 * m + 6" "4 * m + 4 + 1 = 4 * m + 5" "8 * m + 6 + 1 = 8 * m + 7" "4 * m + 5 - 3 = 4 * m + 2"
    "2 * (4 * m + 5) = 8 * m + 10" "8 * m + 10 + 1 = 8 * m + 11" by simp_all
  show "house_edges n 1 = [2, 3]" by (simp add: house_edges_def)
  show "house_edges n (4 * m + 2) = [4 * m + 3]" "house_edges n (4 * m + 3) = [4 * m + 4]"
    unfolding house_edges_def Let_def r by simp_all
  show "house_edges n (4 * m + 4) = (4 * m + 5) # (if 8 * m + 6 < n then [8 * m + 6, 8 * m + 7] else [])"
    unfolding house_edges_def Let_def r a by simp
  show "house_edges n (4 * m + 5) = (4 * m + 2) # (if 8 * m + 10 < n then [8 * m + 10, 8 * m + 11] else [])"
    unfolding house_edges_def Let_def r a by simp
qed

lemma tedges_houseI: "i < n \<Longrightarrow> y = i + 1 \<Longrightarrow> j + 1 \<in> set (house_edges n y) \<Longrightarrow> (i, j) \<in> tedges 7 n"
  by (simp add: tedges_def)

lemma tedges_house:
  assumes n: "n = 4 * k + 1" "1 < n" and x: "0 < x" "x \<le> n"
  shows "{(0, 1), (1, 2)} \<subseteq> tedges 7 n"
    and "x = 4 * m + 2 \<Longrightarrow> {(x - 1, x), (house_parent_id x - 1, x), (x, x + 1)} \<subseteq> tedges 7 n"
    and "x = 4 * m + 3 \<Longrightarrow> {(x - 1, x), (x, x + 1)} \<subseteq> tedges 7 n"
    and "x = 4 * m + 4 \<Longrightarrow> {(x - 1, x), (x, x - 3)} \<subseteq> tedges 7 n \<and>
      (2 * x - 2 < n \<longrightarrow> {(x - 1, 2 * x - 3), (2 * x - 3, 2 * x - 2)} \<subseteq> tedges 7 n)"
    and "x = 4 * m + 5 \<Longrightarrow> 2 * x < n \<longrightarrow> {(x - 1, 2 * x - 1), (2 * x - 1, 2 * x)} \<subseteq> tedges 7 n"
proof -
  show "{(0, 1), (1, 2)} \<subseteq> tedges 7 n"
    using n house_edges_cases(1) [of n] house_edges_cases(2) [of n 0] by (auto intro!: tedges_houseI)
  show "{(x - 1, x), (x, x + 1)} \<subseteq> tedges 7 n" if m: "x = 4 * m + 3"
  proof -
    have xn: "x < n" using n x m by presburger
    have "(x - 1, x) \<in> tedges 7 n" using xn m house_edges_cases(3) [of n m] by (intro tedges_houseI [of _ _ "4 * m + 3"]) auto
    moreover have "(x, x + 1) \<in> tedges 7 n" using xn m house_edges_cases(4) [of n m] by (intro tedges_houseI [of _ _ "4 * m + 4"]) auto
    ultimately show ?thesis by blast
  qed
  show "{(x - 1, x), (x, x - 3)} \<subseteq> tedges 7 n \<and>
      (2 * x - 2 < n \<longrightarrow> {(x - 1, 2 * x - 3), (2 * x - 3, 2 * x - 2)} \<subseteq> tedges 7 n)" if m: "x = 4 * m + 4"
  proof -
    have xn: "x < n" using n x m by presburger
    have k: "2 * x - 2 = 8 * m + 6" "2 * x - 3 = 8 * m + 5" using m by simp_all
    have "(x - 1, x) \<in> tedges 7 n" using xn m house_edges_cases(4) [of n m] by (intro tedges_houseI [of _ _ "4 * m + 4"]) auto
    moreover have "(x, x - 3) \<in> tedges 7 n" using xn m house_edges_cases(5) [of n m] by (intro tedges_houseI [of _ _ "4 * m + 5"]) auto
    moreover have "(x - 1, 8 * m + 5) \<in> tedges 7 n" if "8 * m + 6 < n"
      using xn m that house_edges_cases(4) [of n m] by (intro tedges_houseI [of _ _ "4 * m + 4"]) auto
    moreover have "(8 * m + 5, 8 * m + 6) \<in> tedges 7 n" if "8 * m + 6 < n"
      using that house_edges_cases(2) [of n "2 * m + 1"] by (intro tedges_houseI [of _ _ "4 * (2 * m + 1) + 2"]) auto
    ultimately show ?thesis unfolding k by blast
  qed
  show "2 * x < n \<longrightarrow> {(x - 1, 2 * x - 1), (2 * x - 1, 2 * x)} \<subseteq> tedges 7 n" if m: "x = 4 * m + 5"
  proof
    assume l: "2 * x < n"
    have k: "2 * x = 8 * m + 10" "2 * x - 1 = 8 * m + 9" using m by simp_all
    have "(x - 1, 8 * m + 9) \<in> tedges 7 n" using l m house_edges_cases(5) [of n m] by (intro tedges_houseI [of _ _ "4 * m + 5"]) auto
    moreover have "(8 * m + 9, 8 * m + 10) \<in> tedges 7 n"
      using l m house_edges_cases(2) [of n "2 * m + 2"] by (intro tedges_houseI [of _ _ "4 * (2 * m + 2) + 2"]) auto
    ultimately have "(x - 1, 2 * x - 1) \<in> tedges 7 n" "(2 * x - 1, 2 * x) \<in> tedges 7 n" using k by metis+
    then show "{(x - 1, 2 * x - 1), (2 * x - 1, 2 * x)} \<subseteq> tedges 7 n" by blast
  qed
  show "{(x - 1, x), (house_parent_id x - 1, x), (x, x + 1)} \<subseteq> tedges 7 n" if m: "x = 4 * m + 2"
  proof -
    have xn: "x + 1 < n" using n x m by presburger
    have 1: "(x - 1, x) \<in> tedges 7 n" using xn m house_edges_cases(2) [of n m] by (intro tedges_houseI [of _ _ "4 * m + 2"]) auto
    have 2: "(x, x + 1) \<in> tedges 7 n" using xn m house_edges_cases(3) [of n m] by (intro tedges_houseI [of _ _ "4 * m + 3"]) auto
    consider "m = 0" | q where "m = 2 * q + 1" | q where "m = 2 * Suc q" by (metis oddE evenE gr0_conv_Suc mult_0_right not_gr0)
    then have "(house_parent_id x - 1, x) \<in> tedges 7 n"
    proof cases
      case 1
      then have x2: "x = 2" using m by simp
      then have "house_parent_id x = 1" using house_parent_first by simp
      then show ?thesis using x2 n house_edges_cases(1) [of n] by (intro tedges_houseI [of _ _ 1]) auto
    next
      case (2 q)
      then have "x = 8 * q + 6" using m by simp
      then show ?thesis using xn house_edges_cases(4) [of n q] by (intro tedges_houseI [of _ _ "4 * q + 4"]) (auto simp: house_parent_odd)
    next
      case (3 q)
      then have xq: "x = 8 * Suc q + 2" using m by simp
      have "house_parent_id x = 4 * q + 5" using house_parent_even [of "Suc q"] xq by simp
      then show ?thesis using xn xq house_edges_cases(5) [of n q] by (intro tedges_houseI [of _ _ "4 * q + 5"]) auto
    qed
    with 1 2 show ?thesis by blast
  qed
qed

section \<open>All steps\<close>

definition erased :: "nat \<Rightarrow> nat \<Rightarrow> nat \<Rightarrow> edge set" where
  "erased ty n x = (if ty = 3 then zigzag_erased n x else if ty = 4 then ring_erased n x else if ty = 7 then house_erased x
     else if ty = 8 then rings_erased n x else {})"

text \<open>What is left of the edges when the contexts \<open>i + 1\<close> to \<open>n\<close> have been handled.\<close>

definition stage :: "nat \<Rightarrow> nat \<Rightarrow> nat \<Rightarrow> edge set" where
  "stage ty n i = tedges ty n - (\<Union>y\<in>{i<..n}. erased ty n y)"

definition opt_type :: "nat \<Rightarrow> bool" where
  "opt_type ty \<longleftrightarrow> ty \<in> {1, 3, 4, 7, 8}"

lemma stage_step: "x < n \<Longrightarrow> stage ty n (Suc x) - erased ty n (Suc x) = stage ty n x"
proof -
  assume "x < n"
  then have "{x<..n} = insert (Suc x) {Suc x<..n}" by auto
  then show ?thesis by (auto simp: stage_def)
qed

lemma house_parent_below: "y mod 4 = 2 \<Longrightarrow> house_parent_id y - 1 + 2 \<le> y"
proof -
  assume "y mod 4 = 2"
  then obtain m where m: "y = 4 * m + 2" using residue by fastforce
  consider "m = 0" | q where "m = 2 * q + 1" | q where "m = 2 * Suc q" by (metis oddE evenE gr0_conv_Suc mult_0_right not_gr0)
  then consider "y = 2" | q where "y = 8 * q + 6" | q where "y = 8 * Suc q + 2" by cases (auto simp: m)
  then show ?thesis
  proof cases
    case (3 q)
    then have "house_parent_id y = 4 * Suc q + 1" using house_parent_even [of "Suc q"] by simp
    then show ?thesis using 3 by simp
  qed (auto simp: house_parent_first house_parent_odd)
qed

lemma house_erased_shape:
  "(i, j) \<in> house_erased y \<Longrightarrow> (j = y \<and> y mod 4 = 2 \<and> i + 2 \<le> y) \<or> (i = y \<and> y mod 4 = 0 \<and> j = y - 3)"
  using house_parent_below [of y] by (auto simp: house_erased_def split: if_splits)

lemma in_house_stage:
  assumes "(i, j) \<in> tedges 7 n" and "\<And>y. x < y \<Longrightarrow> j = y \<Longrightarrow> y mod 4 = 2 \<Longrightarrow> i + 2 \<le> y \<Longrightarrow> False"
    and "\<And>y. x < y \<Longrightarrow> i = y \<Longrightarrow> y mod 4 = 0 \<Longrightarrow> False"
  shows "(i, j) \<in> stage 7 n x"
proof -
  have "(i, j) \<notin> house_erased y" if "x < y" for y
  proof
    assume "(i, j) \<in> house_erased y"
    from house_erased_shape [OF this] show False using assms(2,3) that by (elim disjE conjE) simp_all
  qed
  then show ?thesis using assms(1) by (auto simp: stage_def erased_def)
qed

lemma odd_mod_4: "(2 * z + 1) mod 4 \<noteq> (0 :: nat)" "(2 * z + 1) mod 4 \<noteq> (2 :: nat)"
  by presburger+

lemma house_stage_step:
  assumes n: "n mod 4 = 1" "1 < n" and x: "0 < x" "x \<le> n" and c: "covers orig (stage 7 n x) w"
  shows "leaves orig (stage 7 n x - house_erased x) (HouseOpt n x w)"
proof -
  obtain k where k: "n = 4 * k + 1" using residue [OF n(1)] by auto
  note T = tedges_house [OF k n(2) x]
  have odd: "(2 * x - 3) mod 4 \<noteq> 0" "(2 * x - 3) mod 4 \<noteq> 2" if "4 \<le> x"
  proof -
    have "2 * x - 3 = 2 * (x - 2) + 1" using that by linarith
    then show "(2 * x - 3) mod 4 \<noteq> 0" "(2 * x - 3) mod 4 \<noteq> 2" using odd_mod_4 [of "x - 2"] by simp_all
  qed
  have odd': "(2 * x - 1) mod 4 \<noteq> 0" "(2 * x - 1) mod 4 \<noteq> 2"
  proof -
    have "2 * x - 1 = 2 * (x - 1) + 1" using x(1) by linarith
    then show "(2 * x - 1) mod 4 \<noteq> 0" "(2 * x - 1) mod 4 \<noteq> 2" using odd_mod_4 [of "x - 1"] by simp_all
  qed
  show ?thesis
  proof (rule house_step [OF c x(1)])
    assume "x = 1" then show "{(0, 1), (1, 2)} \<subseteq> stage 7 n x" using T(1) by (auto intro!: in_house_stage)
  next
    assume m: "x mod 4 = 2"
    then obtain m where "x = 4 * m + 2" using residue by fastforce
    then show "{(x - 1, x), (house_parent_id x - 1, x), (x, x + 1)} \<subseteq> stage 7 n x"
      using T(2) [of m] house_parent_below [OF m] by (auto intro!: in_house_stage)
  next
    assume "x mod 4 = 3"
    then obtain m where "x = 4 * m + 3" using residue by fastforce
    then show "{(x - 1, x), (x, x + 1)} \<subseteq> stage 7 n x" using T(3) [of m] by (auto intro!: in_house_stage)
  next
    assume "x mod 4 = 0"
    then obtain m where "x = 4 * m" using residue [of x 4 0] by auto
    then have m: "x = 4 * (m - 1) + 4" "4 \<le> x" using x(1) by (cases m; simp)+
    show "{(x - 1, x), (x, x - 3)} \<subseteq> stage 7 n x \<and>
      (2 * x - 2 < n \<longrightarrow> {(x - 1, 2 * x - 3), (2 * x - 3, 2 * x - 2)} \<subseteq> stage 7 n x - {(x, x - 3)})"
      using T(4) [OF m(1)] odd [OF m(2)] m(2) by (auto intro!: in_house_stage)
  next
    assume "x mod 4 = 1" "x \<noteq> 1" "2 * x < n"
    then obtain m where "x = 4 * m + 1" using residue by fastforce
    then have m: "x = 4 * (m - 1) + 5" using \<open>x \<noteq> 1\<close> by (cases m) auto
    show "{(x - 1, 2 * x - 1), (2 * x - 1, 2 * x)} \<subseteq> stage 7 n x"
      using T(5) [OF m] odd' \<open>2 * x < n\<close> by (auto intro!: in_house_stage)
  qed
qed

lemma stage_trivial: "(\<And>y. x < y \<Longrightarrow> erased ty n y = {}) \<Longrightarrow> stage ty n x = tedges ty n"
  by (simp add: stage_def)

lemma zigzag_stage:
  assumes "e \<in> tedges 3 n" and "snd e \<noteq> fst e + 2 \<or> snd e \<le> x"
  shows "e \<in> stage 3 n x"
  using assms by (cases e) (auto simp: stage_def erased_def zigzag_erased_def split: if_splits)

lemma opt_step:
  assumes p: "proper_size ty n" and o: "opt_type ty" and x: "0 < x" "x \<le> n" and c: "covers orig (stage ty n x) w"
  shows "leaves orig (stage ty n x - erased ty n x) (opt_interface_of ty n x w)"
proof -
  consider "ty = 1" "n mod 3 = 1" | "ty = 3" "n mod 3 = 1" | "ty = 4" "1 < n" | "ty = 7" "n mod 4 = 1" "1 < n" | "ty = 8" "6 \<le> n"
    by (rule proper_sizeE [OF p]) (use o in \<open>simp_all add: opt_type_def\<close>)
  then show ?thesis
  proof cases
    case 1
    obtain k where k: "n = 3 * k + 1" using residue [OF 1(2)] by auto
    have s: "stage 1 n x = tedges 1 n" by (rule stage_trivial) (simp add: erased_def)
    have "leaves orig (stage 1 n x) (DiamondOpt n x w)"
    proof (rule diamond_step)
      assume "x \<noteq> n" "x mod 3 = 1"
      then show "{(x - 1, x), (x - 1, x + 1), (x, x + 2), (x + 1, x + 2)} \<subseteq> stage 1 n x"
        using residue [of x 3 1] tedges_diamond(1) [OF k _ x(2)] s by auto
    next
      assume "x \<noteq> n" "x mod 3 = 2"
      then show "{(x - 1, x + 1), (x, x + 1)} \<subseteq> stage 1 n x"
        using residue [of x 3 2] tedges_diamond(2) [OF k _ x(2)] s by auto
    qed (use c 1 in simp)
    then show ?thesis using 1 by (simp add: topology_numbers erased_def)
  next
    case 2
    obtain k where k: "n = 3 * k + 1" using residue [OF 2(2)] by auto
    have "leaves orig (stage 3 n x - zigzag_erased n x) (DiamondZigZagOpt n x w)"
    proof (rule zigzag_step)
      assume a: "x \<noteq> n" "x mod 3 = 1"
      then show "{(x - 1, x), (x, x + 1)} \<subseteq> stage 3 n x"
        using residue [of x 3 1] tedges_zigzag(1) [OF k _ x(2,1)] by (auto intro!: zigzag_stage)
    next
      assume "x \<noteq> n" "x mod 3 = 2"
      then show "{(x - 1, x), (x - 2, x), (x, x + 1)} \<subseteq> stage 3 n x"
        using residue [of x 3 2] tedges_zigzag(2) [OF k _ x(2,1)] by (auto intro!: zigzag_stage)
    next
      assume "x \<noteq> n" "x mod 3 = 0"
      then show "{(x - 1, x), (x - 2, x)} \<subseteq> stage 3 n x"
        using residue [of x 3 0] tedges_zigzag(3) [OF k _ x(2,1)] by (auto intro!: zigzag_stage)
    qed (use c 2 in simp)
    then show ?thesis using 2 by (simp add: topology_numbers erased_def)
  next
    case 3
    have s: "stage 4 n x = tedges 4 n" by (rule stage_trivial) (use x in \<open>auto simp: erased_def ring_erased_def\<close>)
    have "leaves orig (stage 4 n x - ring_erased n x) (RingOpt n x w)"
      by (rule ring_step) (use c 3 s tedges_ring [OF 3(2) x] in auto)
    then show ?thesis using 3 by (simp add: topology_numbers erased_def)
  next
    case 4
    then show ?thesis using house_stage_step [of n x orig w] x c by (simp add: topology_numbers erased_def)
  next
    case 5
    have s: "stage 8 n x = tedges 8 n" by (rule stage_trivial) (use x in \<open>auto simp: erased_def rings_erased_def\<close>)
    define e where "e = n div 3 + 1"
    have e3: "3 \<le> e" using 5(2) by (simp add: e_def)
    note T = tedges_rings [OF 5(2) e_def x]
    have "leaves orig (stage 8 n x - rings_erased n x) (MultipleRingOpt n x w)"
      by (rule rings_step [OF _ e_def]) (use c 5 s T e3 in auto)
    then show ?thesis using 5 by (simp add: topology_numbers erased_def)
  qed
qed

lemma opt_loop:
  assumes p: "proper_size ty n" and o: "opt_type ty" and "i \<le> n" and "covers orig (stage ty n i) w"
  shows "leaves orig (stage ty n 0) (create_opt_interface ty n i w)"
  using assms(3,4)
proof (induction i arbitrary: w)
  case (Suc i)
  from opt_step [OF p o _ Suc.prems] obtain w' where "opt_interface_of ty n (Suc i) w = Inr w'" "covers orig (stage ty n i) w'"
    using stage_step [of i n ty] Suc.prems(1) by (auto simp: leaves_def)
  then show ?case using Suc by (simp add: bind_res_def del: opt_interface_of.simps)
qed (simp add: leaves_Inr)

section \<open>What is left\<close>

lemma edge_set_fixed:
  assumes "proper_size ty n" and "\<not> random_type ty" and "n < SIZE_T" and "generate_orig_topology ty n rs = Inr (topo, rest)"
  shows "edge_set topo = tedges ty n"
proof -
  have t: "topo = map (\<lambda>i. map (\<lambda>t. t - 1) (own_edges (ty, n, i + 1))) [0..<n]"
    using fixed_topology_exact [OF assms(1-3)] assms(4) by (metis Inr_inject Pair_inject)
  have pos: "0 < t" if "i < n" "t \<in> set (own_edges (ty, n, i + 1))" for i t
    using own_edges_in_range [OF assms(1), of "i + 1"] that by (auto simp del: own_edges.simps)
  show ?thesis unfolding t edge_set_def tedges_def using pos by (force simp del: own_edges.simps)
qed

lemma stage_increasing:
  assumes p: "proper_size ty n" and o: "opt_type ty" and e: "(i, j) \<in> stage ty n 0"
  shows "i < j"
proof -
  have t: "i < n" "j + 1 \<in> set (own_edges (ty, n, i + 1))" using e by (auto simp: stage_def tedges_def simp del: own_edges.simps)
  consider "ty = 1" | "ty = 3" | "ty = 4" "1 < n" | "ty = 7" "n mod 4 = 1" "1 < n" | "ty = 8" "6 \<le> n"
    by (rule proper_sizeE [OF p]) (use o in \<open>simp_all add: opt_type_def\<close>)
  then show ?thesis
  proof cases
    case 1 then show ?thesis using t by (auto simp: diamond_edges_def split: if_splits)
  next
    case 2 then show ?thesis using t by (auto simp: zigzag_edges_def split: if_splits)
  next
    case 3
    then have "(i, j) \<notin> ring_erased n 1" using e by (auto simp: stage_def erased_def)
    then show ?thesis using t 3 by (auto simp: ring_edges_def ring_erased_def split: if_splits)
  next
    case 4
    show ?thesis
    proof (rule ccontr)
      assume ij: "\<not> i < j"
      have "i \<noteq> 0 \<and> i mod 4 = 0 \<and> j = i - 3"
        using t 4 ij mod_Suc [of i 4] by (auto simp: house_edges_def Let_def split: if_splits)
      then have "(i, j) \<in> house_erased i" by (simp add: house_erased_def)
      then show False using e 4 t \<open>i \<noteq> 0 \<and> _\<close> by (auto simp: stage_def erased_def)
    qed
  next
    case 5
    then have "(i, j) \<notin> rings_back n" using e by (auto simp: stage_def erased_def rings_erased_def)
    then show ?thesis using t 5 by (auto simp: rings_edges_def rings_back_def Let_def split: if_splits)
  qed
qed

lemma stage_parent:
  assumes p: "proper_size ty n" and o: "opt_type ty" and y: "1 < y" "y \<le> n"
  shows "\<exists>x. 0 < x \<and> x < y \<and> (x - 1, y - 1) \<in> stage ty n 0"
proof -
  have tI: "(x - 1, y - 1) \<in> tedges ty n" if "0 < x" "x < y" "y \<in> set (own_edges (ty, n, x))" for x
    using that y by (simp add: tedges_def del: own_edges.simps)
  obtain x where x: "0 < x" "x < y" "y \<in> set (own_edges (ty, n, x))"
    using own_edges_parent [OF p _ y] o by (auto simp: opt_type_def topology_numbers simp del: own_edges.simps)
  consider "ty = 1" | "ty = 3" "n mod 3 = 1" | "ty = 4 \<or> ty = 8" | "ty = 7" "n mod 4 = 1" "1 < n"
    by (rule proper_sizeE [OF p]) (use o in \<open>simp_all add: opt_type_def\<close>)
  then show ?thesis
  proof cases
    case 1
    then have "stage ty n 0 = tedges ty n" by (intro stage_trivial) (simp add: erased_def)
    then show ?thesis using x tI by blast
  next
    case 2
    have "y \<in> set (own_edges (ty, n, y - 1))" using 2 y by (auto simp: zigzag_edges_def)
    then have "(y - 1 - 1, y - 1) \<in> tedges 3 n" using tI [of "y - 1"] y 2 by (auto simp del: own_edges.simps)
    then have "(y - 1 - 1, y - 1) \<in> stage 3 n 0" by (rule zigzag_stage) (use y in auto)
    then show ?thesis using y 2 by (intro exI [of _ "y - 1"]) auto
  next
    case 3
    have "(x - 1, y - 1) \<notin> erased ty n z" for z
      using 3 x y p by (auto simp: erased_def ring_erased_def rings_erased_def rings_back_def Let_def
          proper_size_def accepted_input_def topology_numbers split: if_splits)
    then show ?thesis using x tI by (auto simp: stage_def)
  next
    case 4
    show ?thesis
    proof (cases "y mod 4 = 3")
      case True
      then have "(y - 1) mod 4 = 2" "y - 1 \<noteq> 1" using mod_Suc [of "y - 1" 4] y by (auto split: if_splits)
      then have "y \<in> set (own_edges (ty, n, y - 1))" using 4 y by (auto simp: house_edges_def)
      then have "(y - 1 - 1, y - 1) \<in> tedges 7 n" using tI [of "y - 1"] y 4 by (auto simp del: own_edges.simps)
      moreover have "(y - 1 - 1) mod 4 = 1"
      proof -
        obtain m where "y = 4 * m + 3" using residue [OF True] by auto
        then have "y - 1 - 1 = 4 * m + 1" by simp
        then show ?thesis by simp
      qed
      ultimately have "(y - 1 - 1, y - 1) \<in> stage 7 n 0" by (intro in_house_stage) auto
      then show ?thesis using y 4 by (intro exI [of _ "y - 1"]) auto
    next
      case False
      then have "(y - 1) mod 4 \<noteq> 2" using mod_Suc [of "y - 1" 4] y by (auto split: if_splits)
      then have "(x - 1, y - 1) \<notin> house_erased z" for z using house_erased_shape [of "x - 1" "y - 1" z] x y by auto
      then have "(x - 1, y - 1) \<in> stage 7 n 0" using tI [OF x] 4 by (auto simp: stage_def erased_def)
      then show ?thesis using x 4 by blast
    qed
  qed
qed

lemma stage_rooted:
  assumes "proper_size ty n" and "opt_type ty" and "j < n"
  shows "(0, j) \<in> (stage ty n 0)\<^sup>*"
  using assms(3)
proof (induction j rule: less_induct)
  case (less j)
  show ?case
  proof (cases "j = 0")
    case False
    then obtain x where x: "0 < x" "x < j + 1" "(x - 1, j) \<in> stage ty n 0"
      using stage_parent [OF assms(1,2), of "j + 1"] less.prems by auto
    then have "(0, x - 1) \<in> (stage ty n 0)\<^sup>*" using less by auto
    then show ?thesis using x(3) by (rule rtrancl.rtrancl_into_rtrancl)
  qed simp
qed

lemma copy_covers:
  assumes "distinct (map fst xs)"
  shows "covers (\<lambda>e. case map_of xs e of None \<Rightarrow> {} | Some b \<Rightarrow> marked b) (set (map fst xs)) (copy_lcim xs)"
proof -
  have d: "dom (lcim (copy_lcim xs)) = set (map fst xs)" by (simp add: copy_lcim_def dom_map_of_zip)
  have "\<exists>b. bs_heap (copy_lcim xs) p = Some b \<and> (case map_of xs e of None \<Rightarrow> {} | Some b \<Rightarrow> marked b) \<subseteq> marked b"
    if "lcim (copy_lcim xs) e = Some p" for e p
  proof -
    have "(e, p) \<in> set (zip (map fst xs) [0..<length xs])" using that by (simp add: copy_lcim_def map_of_SomeD)
    then obtain k where k: "k < length xs" "e = fst (xs ! k)" "p = k" by (auto simp: in_set_zip)
    then have "map_of xs e = Some (snd (xs ! k))" using assms by (metis map_of_eq_Some_iff nth_mem prod.collapse)
    then show ?thesis using k by (simp add: copy_lcim_def)
  qed
  then show ?thesis unfolding covers_def using d by blast
qed

lemma opt_topology_covers:
  assumes p: "proper_size ty n" and o: "opt_type ty" and "distinct (map fst xs)" and "set (map fst xs) = tedges ty n"
  shows "\<exists>w. generate_opt_topology ty n xs = Inr w \<and>
    covers (\<lambda>e. case map_of xs e of None \<Rightarrow> {} | Some b \<Rightarrow> marked b) (stage ty n 0) w"
proof -
  let ?orig = "\<lambda>e. case map_of xs e of None \<Rightarrow> {} | Some b \<Rightarrow> marked b"
  have s: "stage ty n n = tedges ty n" by (simp add: stage_def)
  have "covers ?orig (stage ty n n) (copy_lcim xs)" using copy_covers [OF assms(3)] assms(4) s by simp
  from opt_loop [OF p o order_refl this] obtain w where
      w: "create_opt_interface ty n n (copy_lcim xs) = Inr w" "covers ?orig (stage ty n 0) w" by (auto simp: leaves_def)
  have "ty \<noteq> BINARY_TREE_TOPOLOGY" using o by (auto simp: opt_type_def topology_numbers)
  then show ?thesis using w by (simp add: generate_opt_topology_def)
qed

text \<open>
  C13. The optimal topologies: for every topology with an optimal generator, started on an interface for each edge of the
  topology that was generated, no step misses an interface; the edges that are left are a part of the topology,
  all lead from a context to one with a larger number, so that there is no cycle, and still reach every
  context from the root; and every interface that is left has at least the beliefs it had before.
\<close>

theorem optimal_topologies_are_acyclic:
  assumes "accepted_input ty n" and "ty = MULTIPLE_RING_TOPOLOGY \<longrightarrow> 6 \<le> n" and "n < SIZE_T"
    and "ty \<in> {DIAMOND_DOWN_TOPOLOGY, DIAMOND_ZIGZAG_TOPOLOGY, PURE_RING_TOPOLOGY, HOUSE_TOPOLOGY, MULTIPLE_RING_TOPOLOGY}"
    and "generate_orig_topology ty n rs = Inr (topo, rest)"
    and "distinct (map fst xs)" and "set (map fst xs) = edge_set topo"
  shows "\<exists>w. generate_opt_topology ty n xs = Inr w \<and> dom (lcim w) \<subseteq> edge_set topo
    \<and> (\<forall>(i, j)\<in>dom (lcim w). i < j) \<and> (\<forall>j < n. (0, j) \<in> (dom (lcim w))\<^sup>*)
    \<and> (\<forall>e p s. lcim w e = Some p \<longrightarrow> (e, s) \<in> set xs \<longrightarrow> (\<exists>b. bs_heap w p = Some b \<and> marked s \<subseteq> marked b))"
proof -
  have p: "proper_size ty n" using assms(1,2) by (simp add: proper_size_def)
  have o: "opt_type ty" "\<not> random_type ty" using assms(4) by (auto simp: opt_type_def random_type_def topology_numbers)
  have E: "edge_set topo = tedges ty n" by (rule edge_set_fixed [OF p o(2) assms(3,5)])
  let ?orig = "\<lambda>e. case map_of xs e of None \<Rightarrow> {} | Some b \<Rightarrow> marked b"
  obtain w where w: "generate_opt_topology ty n xs = Inr w" "covers ?orig (stage ty n 0) w"
    using opt_topology_covers [OF p o(1) assms(6)] assms(7) E by auto
  have d: "dom (lcim w) = stage ty n 0" using w(2) by (simp add: covers_def)
  have "dom (lcim w) \<subseteq> edge_set topo" unfolding d E by (auto simp: stage_def)
  moreover have "\<forall>(i, j)\<in>dom (lcim w). i < j" unfolding d using stage_increasing [OF p o(1)] by blast
  moreover have "\<forall>j < n. (0, j) \<in> (dom (lcim w))\<^sup>*" unfolding d using stage_rooted [OF p o(1)] by blast
  moreover have "\<exists>b. bs_heap w q = Some b \<and> marked s \<subseteq> marked b" if "lcim w e = Some q" "(e, s) \<in> set xs" for e q s
    using coversD [OF w(2) that(1)] map_of_is_SomeI [OF assms(6) that(2)] by simp
  ultimately show ?thesis using w(1) by blast
qed

theorem optimal_topologies_are_acyclic_witness:
  "\<exists>w. generate_opt_topology PURE_RING_TOPOLOGY 2 [((0, 1), bs_new 2 False), ((1, 0), bs_new 2 False)] = Inr w
     \<and> (\<forall>(i, j)\<in>dom (lcim w). i < j) \<and> (\<forall>j < 2. (0, j) \<in> (dom (lcim w))\<^sup>*)"
proof -
  let ?xs = "[((0, 1), bs_new 2 False), ((1, 0), bs_new 2 False)] :: (edge \<times> NewBeliefState) list"
  have a: "accepted_input PURE_RING_TOPOLOGY 2" by (simp add: accepted_input_def topology_numbers)
  have "proper_size PURE_RING_TOPOLOGY 2" "\<not> random_type PURE_RING_TOPOLOGY" "(2 :: nat) < SIZE_T"
    using a by (simp_all add: proper_size_def random_type_def topology_numbers SIZE_T_def)
  from fixed_topology_exact [OF this, of "[]"]
  have g: "generate_orig_topology PURE_RING_TOPOLOGY 2 [] = Inr ([[1], [0]], [])"
    by (simp add: topology_numbers ring_edges_def upt_rec)
  have e: "set (map fst ?xs) = edge_set [[1], [0]]"
    by (auto simp: edge_set_def less_Suc_eq nth_Cons split: nat.splits)
  show ?thesis using optimal_topologies_are_acyclic [OF a _ _ _ g _ e] by (auto simp: topology_numbers SIZE_T_def)
qed

end
