(* ===== verification/Daemon_Neighbors.thy ===== *)
theory Daemon_Neighbors
  imports Plan_Grammars Normal_Context "HOL-Library.Multiset"
begin

text \<open>
  The start of a server (\<open>src/new_dmcsd.cpp\<close>) between its command line and the construction of its context: the plans
  and the bridge rules are read and the neighbors are divided into physical ones, which are asked, and
  guessing ones, whose beliefs are guessed because the optimal query plan has removed the edge to them.
\<close>

section \<open>Reading the query plans\<close>

text \<open>
  One parser object reads first the optimal query plan, if there is one, and then the query plan. Its result is a shared
  pointer to a map that the first action allocates and that all later actions write to, so after both
  calls the two pointers of the program are the same, and both show the map after the second call. A
  null pointer for the optimal plan is \<open>None\<close>.
\<close>

definition read_query_plans :: "plan_source list option \<Rightarrow> plan_source list \<Rightarrow> (ContextQueryPlanMap option \<times> ContextQueryPlanMap) res" where
  "read_query_plans opt plan =
     bind_res (case opt of None \<Rightarrow> Inr QueryPlanGrammarSemantics_new | Some srcs \<Rightarrow> parse_plans srcs QueryPlanGrammarSemantics_new) (\<lambda>mgr.
     bind_res (parse_plans plan mgr) (\<lambda>mgr'. case qp_result mgr' of None \<Rightarrow> Inl Undefined_Behaviour
       | Some qpm \<Rightarrow> Inr (if qp_result mgr = None then None else Some qpm, qpm)))"

section \<open>Physical and guessing neighbors\<close>

text \<open>The inner loop: the first neighbor with the given id moves from the guessing to the physical ones.\<close>

fun move_neighbor :: "nat \<Rightarrow> NewNeighbor list \<Rightarrow> NewNeighbor list \<Rightarrow> NewNeighbor list \<times> NewNeighbor list" where
  "move_neighbor k physical [] = (physical, [])"
| "move_neighbor k physical (nb # guessing) =
     (if unat (neighbor_id nb) = k then (physical @ [nb], guessing)
      else let (physical, guessing) = move_neighbor k physical guessing in (physical, nb # guessing))"

fun split_neighbors :: "ContextQueryPlanMap \<Rightarrow> NewNeighbor list \<Rightarrow> NewNeighbor list \<Rightarrow> NewNeighbor list \<times> NewNeighbor list" where
  "split_neighbors [] physical guessing = (physical, guessing)"
| "split_neighbors ((k, cqp) # opt) physical guessing =
     (let (physical, guessing) = (if groundInputSignature cqp \<noteq> None then move_neighbor k physical guessing else (physical, guessing))
      in split_neighbors opt physical guessing)"

fun reassign_offsets :: "nat \<Rightarrow> NewNeighbor list \<Rightarrow> NewNeighbor list \<times> nat" where
  "reassign_offsets new_neighbor_offset [] = ([], new_neighbor_offset)"
| "reassign_offsets new_neighbor_offset (nb # nbs) =
     (let (nbs, n) = reassign_offsets (sz_add new_neighbor_offset 1) nbs
      in (nb\<lparr>neighbor_offset := of_nat new_neighbor_offset\<rparr> # nbs, n))"

text \<open>Without an optimal query plan all neighbors are physical, and the pointer to the guessing ones is null.\<close>

definition divide_neighbors :: "ContextQueryPlanMap option \<Rightarrow> NewNeighbor list \<Rightarrow> NewNeighbor list \<times> NewNeighbor list option" where
  "divide_neighbors opt nbs = (case opt of None \<Rightarrow> (nbs, None)
     | Some opt_map \<Rightarrow>
         let (physical, guessing) = split_neighbors opt_map [] nbs;
             (physical, n) = reassign_offsets 0 physical;
             (guessing, n) = reassign_offsets n guessing
         in (physical, Some guessing))"

record daemon =
  d_local :: ContextQueryPlan
  d_queryplan :: ContextQueryPlanMap
  d_return_plan :: ReturnPlanMap
  d_bridge_rules :: BridgeRuleTable
  d_physical :: "NewNeighbor list"
  d_guessing :: "NewNeighbor list option"

definition daemon_start :: "BeliefStateOffset option \<Rightarrow> nat \<Rightarrow> (qid \<times> (nat \<times> nat list) list) list \<Rightarrow> plan_source list option
    \<Rightarrow> plan_source list \<Rightarrow> rule_source list \<Rightarrow> daemon res" where
  "daemon_start inst myid returnplan opt plan rules =
     bind_res (parse_return_plans inst returnplan ReturnPlanGrammarSemantics_new) (\<lambda>rp.
     bind_res (read_query_plans opt plan) (\<lambda>(opt_map, qpm).
     case map_of qpm myid of None \<Rightarrow> Inl Undefined_Behaviour
     | Some local_queryplan \<Rightarrow>
         bind_res (parse_rules rules (BridgeRuleGrammarSemantics_new qpm myid)) (\<lambda>mgr.
           let (physical, guessing) = divide_neighbors opt_map (m_Neighbors mgr)
           in Inr \<lparr>d_local = local_queryplan, d_queryplan = qpm,
                d_return_plan = (case rp_result rp of None \<Rightarrow> Map.empty | Some m \<Rightarrow> m),
                d_bridge_rules = m_BridgeRules mgr, d_physical = physical, d_guessing = guessing\<rparr>)))"

text \<open>The construction of the context; its offset is set when its thread is started.\<close>

definition daemon_context :: "BeliefStateOffset option \<Rightarrow> nat \<Rightarrow> nat \<Rightarrow> daemon \<Rightarrow> NormalContext res" where
  "daemon_context inst myid coff d = NormalContext_new inst myid coff (d_return_plan d) (d_queryplan d) (d_bridge_rules d)
     (d_physical d) (d_guessing d)"

section \<open>What the division does\<close>

text \<open>The neighbors that a plan has an input signature for.\<close>

definition asked :: "ContextQueryPlanMap \<Rightarrow> NewNeighbor \<Rightarrow> bool" where
  "asked opt nb \<longleftrightarrow> (\<exists>cqp. map_of opt (unat (neighbor_id nb)) = Some cqp \<and> groundInputSignature cqp \<noteq> None)"

definition asked_in_order :: "ContextQueryPlanMap \<Rightarrow> NewNeighbor list \<Rightarrow> NewNeighbor list" where
  "asked_in_order opt nbs = concat (map (\<lambda>(k, cqp).
     if groundInputSignature cqp \<noteq> None then filter (\<lambda>nb. unat (neighbor_id nb) = k) nbs else []) opt)"

lemma asked_Cons: "asked ((k, cqp) # opt) nb \<longleftrightarrow>
    (if unat (neighbor_id nb) = k then groundInputSignature cqp \<noteq> None else asked opt nb)"
  by (auto simp: asked_def)

lemma not_asked: "k \<notin> fst ` set opt \<Longrightarrow> unat (neighbor_id nb) = k \<Longrightarrow> \<not> asked opt nb"
  unfolding asked_def by (metis map_of_SomeD fst_conv image_eqI)

lemma move_neighbor_filter:
  "distinct (map neighbor_id guessing) \<Longrightarrow> move_neighbor k physical guessing =
     (physical @ filter (\<lambda>nb. unat (neighbor_id nb) = k) guessing, filter (\<lambda>nb. unat (neighbor_id nb) \<noteq> k) guessing)"
proof (induction guessing)
  case (Cons nb guessing)
  show ?case
  proof (cases "unat (neighbor_id nb) = k")
    case True
    then have "\<forall>x\<in>set guessing. unat (neighbor_id x) \<noteq> k" using Cons.prems by (auto simp: image_iff word_unat_eq_iff)
    then have "filter (\<lambda>nb. unat (neighbor_id nb) = k) guessing = []" "filter (\<lambda>nb. unat (neighbor_id nb) \<noteq> k) guessing = guessing"
      by (auto simp: filter_empty_conv filter_id_conv)
    with True show ?thesis by simp
  qed (use Cons in simp)
qed simp

lemma split_neighbors_spec:
  assumes "distinct (map neighbor_id guessing)" and "distinct (map fst opt)"
  shows "split_neighbors opt physical guessing =
    (physical @ asked_in_order opt guessing, filter (\<lambda>nb. \<not> asked opt nb) guessing)"
  using assms
proof (induction opt arbitrary: physical guessing)
  case Nil
  then show ?case by (simp add: asked_in_order_def asked_def)
next
  case (Cons x opt)
  obtain k cqp where x: "x = (k, cqp)" by fastforce
  let ?rest = "filter (\<lambda>nb. unat (neighbor_id nb) \<noteq> k) guessing"
  have out: "k \<notin> fst ` set opt" using Cons.prems(2) by (simp add: x)
  have "asked_in_order opt ?rest = asked_in_order opt guessing"
    using out unfolding asked_in_order_def
    by (intro arg_cong [where f = concat] map_cong) (force intro!: filter_cong)+
  moreover have "distinct (map neighbor_id ?rest)" using Cons.prems(1) by (simp add: distinct_map_filter)
  ultimately show ?case using Cons.IH [of ?rest "physical @ filter (\<lambda>nb. unat (neighbor_id nb) = k) guessing"]
      Cons.IH [of guessing physical] Cons.prems
      not_asked [OF out]
    by (auto simp: x move_neighbor_filter asked_in_order_def asked_Cons intro!: filter_cong)
qed

lemma reassigned:
  "n + length nbs < SIZE_T \<Longrightarrow> reassign_offsets n nbs = (nbs', m) \<Longrightarrow>
     m = n + length nbs \<and> length nbs' = length nbs \<and> map neighbor_id nbs' = map neighbor_id nbs
     \<and> map neighbor_offset nbs' = map of_nat [n..<n + length nbs]"
proof (induction nbs arbitrary: n nbs' m)
  case (Cons nb nbs)
  obtain nbs1 m1 where r: "reassign_offsets (Suc n) nbs = (nbs1, m1)" by fastforce
  with Cons.prems have "nbs' = nb\<lparr>neighbor_offset := of_nat n\<rparr> # nbs1" "m = m1" by (simp_all add: sz_add_small)
  with Cons.IH [OF _ r] Cons.prems(1) show ?case by (simp add: upt_conv_Cons del: upt_Suc)
qed simp

lemma asked_mset:
  assumes "distinct (map fst opt)"
  shows "mset (asked_in_order opt nbs @ filter (\<lambda>nb. \<not> asked opt nb) nbs) = mset nbs"
  using assms
proof (induction opt)
  case Nil
  then show ?case by (simp add: asked_in_order_def asked_def)
next
  case (Cons x opt)
  obtain k cqp where x: "x = (k, cqp)" by fastforce
  have "k \<notin> fst ` set opt" using Cons.prems by (simp add: x)
  note out = not_asked [OF this]
  then have "mset (filter (\<lambda>nb. \<not> asked opt nb) nbs) =
      mset (filter (\<lambda>nb. unat (neighbor_id nb) = k) nbs) + mset (filter (\<lambda>nb. unat (neighbor_id nb) \<noteq> k \<and> \<not> asked opt nb) nbs)"
    by (induction nbs) auto
  moreover have "filter (\<lambda>nb. \<not> asked (x # opt) nb) nbs = (if groundInputSignature cqp = None
      then filter (\<lambda>nb. \<not> asked opt nb) nbs else filter (\<lambda>nb. unat (neighbor_id nb) \<noteq> k \<and> \<not> asked opt nb) nbs)"
    using out by (auto simp: x asked_Cons intro!: filter_cong)
  ultimately show ?case using Cons by (auto simp: asked_in_order_def x ac_simps)
qed

text \<open>
  C40. A server with an optimal query plan divides the neighbors that its bridge rules mention: the physical ones are exactly
  those for which the plan has an input signature, the guessing ones are the others in their old order, no neighbor
  is lost, and all get the offsets 0, 1, and so on, the physical ones first.
\<close>

theorem neighbors_are_divided:
  assumes "distinct (map fst opt)" and "distinct (map neighbor_id nbs)" and "length nbs < SIZE_T"
    and "divide_neighbors (Some opt) nbs = (physical, guessing)"
  shows "\<exists>g. guessing = Some g \<and> mset (map neighbor_id (physical @ g)) = mset (map neighbor_id nbs)
    \<and> neighbor_id ` set physical = neighbor_id ` {nb \<in> set nbs. asked opt nb}
    \<and> map neighbor_id g = map neighbor_id (filter (\<lambda>nb. \<not> asked opt nb) nbs)
    \<and> map neighbor_offset (physical @ g) = map of_nat [0..<length nbs]"
proof -
  let ?p = "asked_in_order opt nbs" and ?g = "filter (\<lambda>nb. \<not> asked opt nb) nbs"
  have m: "mset (?p @ ?g) = mset nbs" by (rule asked_mset [OF assms(1)])
  then have len: "length ?p + length ?g = length nbs" by (metis length_append size_mset)
  obtain p n where p: "reassign_offsets 0 ?p = (p, n)" by fastforce
  obtain g k where g: "reassign_offsets n ?g = (g, k)" by fastforce
  have pg: "physical = p" "guessing = Some g"
    using assms(4) p g by (simp_all add: divide_neighbors_def split_neighbors_spec [OF assms(2,1)])
  have P: "n = length ?p" "map neighbor_id p = map neighbor_id ?p" "map neighbor_offset p = map of_nat [0..<length ?p]"
    using reassigned [OF _ p] assms(3) len by simp_all
  have G: "map neighbor_id g = map neighbor_id ?g" "map neighbor_offset g = map of_nat [length ?p..<length ?p + length ?g]"
    using reassigned [OF _ g] assms(3) len P(1) by simp_all
  have "set ?p = {nb \<in> set nbs. asked opt nb}"
    using assms(1) by (force simp: asked_in_order_def asked_def split: if_splits)
  then have "neighbor_id ` set p = neighbor_id ` {nb \<in> set nbs. asked opt nb}"
    using arg_cong [OF P(2), of set] by simp
  moreover have "mset (map neighbor_id (p @ g)) = mset (map neighbor_id nbs)"
    using arg_cong [OF m, of "image_mset neighbor_id"] P(2) G(1) by (metis map_append mset_map)
  moreover have "map neighbor_offset (p @ g) = map of_nat [0..<length nbs]"
    using P(3) G(2) upt_add_eq_append [of 0 "length ?p" "length ?g"] len by simp
  ultimately show ?thesis using pg G(1) by blast
qed

text \<open>The plan keeps the edge to context 2 and has removed the one to context 1.\<close>

theorem neighbors_are_divided_witness:
  defines "nb \<equiv> \<lambda>i o'. \<lparr>neighbor_id = i, neighbor_offset = o', nb_hostname = ''localhost'', nb_port = ''5000''\<rparr>"
  shows "\<exists>g. snd (divide_neighbors (Some [(0, ContextQueryPlan_new), (2, ContextQueryPlan_new\<lparr>groundInputSignature := Some BeliefTable_new\<rparr>)])
      [nb 1 0, nb 2 1]) = Some g \<and> map neighbor_id g = [1]"
proof -
  let ?opt = "[(0, ContextQueryPlan_new), (2, ContextQueryPlan_new\<lparr>groundInputSignature := Some BeliefTable_new\<rparr>)]"
  obtain p g where "divide_neighbors (Some ?opt) [nb 1 0, nb 2 1] = (p, g)" by fastforce
  from neighbors_are_divided [OF _ _ _ this] this show ?thesis
    by (auto simp: nb_def SIZE_T_def asked_def ContextQueryPlan_new_def)
qed

section \<open>One parser for two plans\<close>

lemma on_current_result: "on_current f mgr = Inr mgr' \<Longrightarrow> qp_result mgr' = qp_result mgr"
  by (auto simp: on_current_def bind_res_eq_Inr split: option.splits)

lemma setters_result:
  "setContextID a mgr = Inr mgr' \<Longrightarrow> qp_result mgr' = qp_result mgr"
  "setHostName b mgr = Inr mgr' \<Longrightarrow> qp_result mgr' = qp_result mgr"
  "setPort a mgr = Inr mgr' \<Longrightarrow> qp_result mgr' = qp_result mgr"
  "setConstantList cs mgr = Inr mgr' \<Longrightarrow> qp_result mgr' = qp_result mgr"
  "setConstantCategories cats mgr = Inr mgr' \<Longrightarrow> qp_result mgr' = qp_result mgr"
  "setPredicates ps mgr = Inr mgr' \<Longrightarrow> qp_result mgr' = qp_result mgr"
  "setFilters fs mgr = Inr mgr' \<Longrightarrow> qp_result mgr' = qp_result mgr"
  "setLocalSignature t mgr = Inr mgr' \<Longrightarrow> qp_result mgr' = qp_result mgr"
  "setInputSignature t mgr = Inr mgr' \<Longrightarrow> qp_result mgr' = qp_result mgr"
  unfolding setContextID_def setHostName_def setPort_def setConstantList_def setConstantCategories_def setPredicates_def
    setFilters_def setLocalSignature_def setInputSignature_def
  by (auto dest: on_current_result)

lemma optionally_result:
  "optionally act x mgr = Inr mgr' \<Longrightarrow> (\<And>y m m'. act y m = Inr m' \<Longrightarrow> qp_result m' = qp_result m) \<Longrightarrow>
    qp_result mgr' = qp_result mgr"
  by (auto simp: optionally_def split: option.splits)

lemma contextQueryPlan_result:
  assumes "contextQueryPlan src mgr = Inr mgr'"
  shows "\<exists>k qp. qp_result mgr' = Some (map_insert k qp (case qp_result mgr of None \<Rightarrow> [] | Some m \<Rightarrow> m))"
proof -
  from assms obtain m1 m2 m3 m4 m5 m6 m7 m8 m9 where
    1: "setContextID (ps_ctx src) mgr = Inr m1" "setHostName (ps_host src) m1 = Inr m2" "setPort (ps_port src) m2 = Inr m3"
      "setConstantList (getCurrentConstantList (ps_constants src)) m3 = Inr m4" and
    2: "optionally setConstantCategories (ps_categories src) m4 = Inr m5" "optionally setPredicates (ps_predicates src) m5 = Inr m6"
      "optionally (\<lambda>fs mgr. bind_res (check_filters fs mgr) (\<lambda>fs. setFilters fs mgr)) (ps_filters src) m6 = Inr m7"
      "optionally (\<lambda>s mgr. bind_res (registerAndInsertIntoBeliefSet s mgr) (\<lambda>t. setLocalSignature t mgr)) (ps_local src) m7 = Inr m8"
      "optionally (\<lambda>s mgr. bind_res (registerAndInsertIntoBeliefSet s mgr) (\<lambda>t. setInputSignature t mgr)) (ps_input src) m8 = Inr m9" and
    3: "insertIntoMap m9 = Inr mgr'"
    unfolding contextQueryPlan_def bind_res_eq_Inr by blast
  have "qp_result m9 = qp_result mgr"
    using 1 2 by (auto dest!: setters_result optionally_result simp: bind_res_eq_Inr)
  with 3 show ?thesis
    by (cases "m_CurrentQueryPlan m9") (auto simp: insertIntoMap_def Let_def simp del: map_insert.simps intro!: exI)
qed

lemma parse_plans_sorted:
  assumes "parse_plans srcs mgr = Inr mgr'" and "\<forall>m. qp_result mgr = Some m \<longrightarrow> sorted_wrt (<) (map fst m)"
  shows "\<forall>m. qp_result mgr' = Some m \<longrightarrow> sorted_wrt (<) (map fst m)"
  using assms
proof (induction srcs arbitrary: mgr)
  case (Cons src srcs)
  then obtain m1 where m1: "contextQueryPlan src mgr = Inr m1" "parse_plans srcs m1 = Inr mgr'" by (auto simp: bind_res_eq_Inr)
  from contextQueryPlan_result [OF m1(1)] Cons.prems(2) have "\<forall>m. qp_result m1 = Some m \<longrightarrow> sorted_wrt (<) (map fst m)"
    by (auto intro!: sorted_map_insert split: option.splits)
  from Cons.IH [OF m1(2) this] show ?case .
qed simp

lemma both_plans:
  assumes "read_query_plans opt plan = Inr (opt_map, qpm)" and "opt_map = Some m"
  shows "m = qpm" and "sorted_wrt (<) (map fst m)"
proof -
  from assms obtain m1 m2 where 1: "(case opt of None \<Rightarrow> Inr QueryPlanGrammarSemantics_new | Some srcs \<Rightarrow> parse_plans srcs QueryPlanGrammarSemantics_new) = Inr m1"
    "parse_plans plan m1 = Inr m2" "qp_result m2 = Some qpm" "m = qpm"
    by (auto simp: read_query_plans_def bind_res_eq_Inr split: option.splits if_splits)
  have "\<forall>m. qp_result m1 = Some m \<longrightarrow> sorted_wrt (<) (map fst m)"
    using 1(1) parse_plans_sorted [of _ QueryPlanGrammarSemantics_new m1]
    by (auto simp: QueryPlanGrammarSemantics_new_def split: option.splits)
  from parse_plans_sorted [OF 1(2) this] 1(3,4) show "m = qpm" "sorted_wrt (<) (map fst m)" by simp_all
qed

lemma divided_all:
  assumes "distinct (map fst opt)" and "distinct (map neighbor_id nbs)" and "length nbs < SIZE_T"
    and "\<forall>nb\<in>set nbs. asked opt nb" and "divide_neighbors (Some opt) nbs = (physical, guessing)"
  shows "neighbor_id ` set physical = neighbor_id ` set nbs \<and> guessing = Some []"
proof -
  have none: "filter (\<lambda>nb. \<not> asked opt nb) nbs = []" using assms(4) by simp
  obtain p n where p: "reassign_offsets 0 (asked_in_order opt nbs) = (p, n)" by fastforce
  have "mset (asked_in_order opt nbs) = mset nbs" using asked_mset [OF assms(1), of nbs] none by simp
  then have "length (asked_in_order opt nbs) = length nbs" "set (asked_in_order opt nbs) = set nbs"
    by (metis size_mset, metis set_mset_mset)
  then have "neighbor_id ` set p = neighbor_id ` set nbs"
    using reassigned [OF _ p] assms(3) by (metis add_0 list.set_map)
  then show ?thesis using assms(5) p none by (simp add: divide_neighbors_def split_neighbors_spec [OF assms(2,1)])
qed

text \<open>A neighbor is recorded only after its input signature has been used.\<close>

definition signed :: "BridgeRuleGrammarSemantics \<Rightarrow> bool" where
  "signed mgr \<longleftrightarrow> (\<forall>c\<in>m_NeighborIDs mgr. \<exists>qp. map_of (m_QueryPlan mgr) c = Some qp \<and> groundInputSignature qp \<noteq> None)"

lemma getBridgeAtom_signed:
  "getBridgeAtom c b mgr = Inr (x, mgr') \<Longrightarrow> signed mgr \<Longrightarrow> signed mgr' \<and> m_QueryPlan mgr' = m_QueryPlan mgr"
  by (auto simp: getBridgeAtom_def signed_def signature_of_def bind_res_eq_Inr split: option.splits if_splits)

lemma bridge_literals_signed:
  "bridge_literals ls mgr = Inr (xs, mgr') \<Longrightarrow> signed mgr \<Longrightarrow> signed mgr' \<and> m_QueryPlan mgr' = m_QueryPlan mgr"
proof (induction ls mgr arbitrary: xs rule: bridge_literals.induct)
  case (2 naf c b ls mgr)
  then obtain x m1 y ys where "getBridgeAtom c (belief_text b) mgr = Inr (x, m1)" "getBridgeLiteral naf x = Inr y"
    "bridge_literals ls m1 = Inr (ys, mgr')" by (auto simp: bind_res_eq_Inr)
  then show ?case using 2 getBridgeAtom_signed by metis
qed simp

lemma parse_rules_signed:
  "parse_rules rs mgr = Inr mgr' \<Longrightarrow> signed mgr \<Longrightarrow> signed mgr' \<and> m_QueryPlan mgr' = m_QueryPlan mgr"
proof (induction rs mgr rule: parse_rules.induct)
  case (2 head body rs mgr)
  then obtain xs m1 m2 where 1: "bridge_literals body mgr = Inr (xs, m1)" "getBridgeRule (belief_text head) xs m1 = Inr m2"
    "parse_rules rs m2 = Inr mgr'" by (auto simp: bind_res_eq_Inr)
  have s: "signed m1" "m_QueryPlan m1 = m_QueryPlan mgr" using bridge_literals_signed [OF 1(1)] 2(3) by simp_all
  from 1(2) obtain t where t: "m2 = m1\<lparr>m_BridgeRules := t\<rparr>" by (auto simp: getBridgeRule_def bind_res_eq_Inr split: option.splits)
  show ?case using 2(1) 1 s by (force simp: t signed_def)
qed simp

lemma daemon_startE:
  assumes "daemon_start inst myid returnplan opt plan rules = Inr d"
  obtains opt_map mgr where "read_query_plans opt plan = Inr (opt_map, d_queryplan d)"
    and "parse_rules rules (BridgeRuleGrammarSemantics_new (d_queryplan d) myid) = Inr mgr"
    and "divide_neighbors opt_map (m_Neighbors mgr) = (d_physical d, d_guessing d)"
proof -
  from assms [unfolded daemon_start_def bind_res_eq_Inr] obtain rp :: ReturnPlanGrammarSemantics and z where
    z: "read_query_plans opt plan = Inr z" "(case z of (opt_map, qpm) \<Rightarrow> case map_of qpm myid of None \<Rightarrow> Inl Undefined_Behaviour
      | Some cqp \<Rightarrow> bind_res (parse_rules rules (BridgeRuleGrammarSemantics_new qpm myid)) (\<lambda>mgr.
        let (physical, guessing) = divide_neighbors opt_map (m_Neighbors mgr)
        in Inr \<lparr>d_local = cqp, d_queryplan = qpm, d_return_plan = (case rp_result rp of None \<Rightarrow> Map.empty | Some m \<Rightarrow> m),
             d_bridge_rules = m_BridgeRules mgr, d_physical = physical, d_guessing = guessing\<rparr>)) = Inr d" by blast
  obtain opt_map qpm where zz: "z = (opt_map, qpm)" by fastforce
  note q = z(1) [unfolded zz] and rest = z(2) [unfolded zz prod.case]
  from rest obtain cqp mgr where m: "parse_rules rules (BridgeRuleGrammarSemantics_new qpm myid) = Inr mgr"
    "(let (physical, guessing) = divide_neighbors opt_map (m_Neighbors mgr)
      in Inr \<lparr>d_local = cqp, d_queryplan = qpm, d_return_plan = (case rp_result rp of None \<Rightarrow> Map.empty | Some m \<Rightarrow> m),
           d_bridge_rules = m_BridgeRules mgr, d_physical = physical, d_guessing = guessing\<rparr>) = (Inr d :: daemon res)"
    by (cases "map_of qpm myid") (auto simp: bind_res_eq_Inr)
  obtain p g where "divide_neighbors opt_map (m_Neighbors mgr) = (p, g)" by fastforce
  with m(2) q m(1) show ?thesis by (intro that [of opt_map mgr]) auto
qed

text \<open>
  C16. The server reads both query plans with one parser, and so the map of the optimal plan has the entries of the other plan
  too. Every neighbor that the bridge rules mention has an input signature there, so whatever the optimal
  plan says, all of them become physical neighbors, none is a guessing neighbor, and the context of a
  server that starts never guesses an input.
\<close>

theorem shared_plan_parser_prevents_guessing:
  assumes "daemon_start inst myid returnplan opt plan rules = Inr d" and "\<forall>c\<in>dom (map_of (d_queryplan d)). c < 2 ^ 10"
    and "daemon_context inst myid coff d = Inr cx"
  shows "(\<lambda>nb. unat (neighbor_id nb)) ` set (d_physical d) = (\<Union>(h, b)\<in>set rules. foreign myid b)
    \<and> (d_guessing d = None \<or> d_guessing d = Some []) \<and> must_guess inst cx input = Inr False"
proof -
  from assms(1) obtain rp opt_map mgr where
    q: "read_query_plans opt plan = Inr (opt_map, d_queryplan d)" and
    r: "parse_rules rules (BridgeRuleGrammarSemantics_new (d_queryplan d) myid) = Inr mgr" and
    d: "divide_neighbors opt_map (m_Neighbors mgr) = (d_physical d, d_guessing d)"
    by (rule daemon_startE)
  let ?new = "BridgeRuleGrammarSemantics_new (d_queryplan d) myid"
  have new: "numbered ?new" "signed ?new" "small_plan (m_QueryPlan ?new)"
    using assms(2) by (simp_all add: numbered_def signed_def BridgeRuleGrammarSemantics_new_def)
  from parse_rules_numbered [OF r new(1,3)] have n: "numbered mgr" "m_NeighborIDs mgr = (\<Union>(h, b)\<in>set rules. foreign myid b)"
    by (simp_all add: BridgeRuleGrammarSemantics_new_def)
  have s: "signed mgr" "m_QueryPlan mgr = d_queryplan d"
    using parse_rules_signed [OF r new(2)] by (simp_all add: BridgeRuleGrammarSemantics_new_def)
  note ids = numbered_ids [OF n(1)]
  have "(\<lambda>nb. unat (neighbor_id nb)) ` set (d_physical d) = m_NeighborIDs mgr \<and> (d_guessing d = None \<or> d_guessing d = Some [])"
  proof (cases opt_map)
    case None
    then show ?thesis using d ids by (simp add: divide_neighbors_def)
  next
    case (Some m)
    have m: "m = d_queryplan d" "sorted_wrt (<) (map fst m)" by (rule both_plans [OF q Some])+
    have all: "\<forall>nb\<in>set (m_Neighbors mgr). asked m nb" using s(1) unfolding signed_def asked_def m(1) s(2) ids(2) [symmetric] by blast
    have "distinct (map fst m)" using m(2) by (simp add: strict_sorted_iff)
    moreover have "length (m_Neighbors mgr) < SIZE_T" using numbered_length [OF n(1)] by (simp add: SIZE_T_def)
    ultimately have g: "neighbor_id ` set (d_physical d) = neighbor_id ` set (m_Neighbors mgr)" "d_guessing d = Some []"
      using divided_all [OF _ ids(1) _ all] d by (auto simp: Some)
    have "(\<lambda>nb. unat (neighbor_id nb)) ` set (d_physical d) = unat ` neighbor_id ` set (d_physical d)" by (simp add: image_image)
    also have "\<dots> = m_NeighborIDs mgr" unfolding g(1) using ids(2) by (simp add: image_image)
    finally show ?thesis using g(2) by simp
  qed
  moreover have "must_guess inst cx input = Inr False" if "d_guessing d = None \<or> d_guessing d = Some []"
    using that assms(3) by (auto simp: daemon_context_def NormalContext_new_def NormalContext_init_def must_guess_def
        NewContext.defs bind_res_eq_Inr Let_def)
  ultimately show ?thesis using n(2) by simp
qed

text \<open>
  Context 0 has the rule \<open>a :- (1:b).\<close>, and the optimal plan has removed the edge from 0 to 1.
\<close>

definition wit_source :: "int \<Rightarrow> (32 word \<times> string list) list option \<Rightarrow> (32 word \<times> string list) list option \<Rightarrow> plan_source" where
  "wit_source c l i = \<lparr>ps_ctx = c, ps_host = ''localhost'', ps_port = 5000 + c, ps_constants = [''k''], ps_categories = None,
     ps_predicates = None, ps_filters = None, ps_local = l, ps_input = i\<rparr>"

lemmas wit_eval = daemon_start_def read_query_plans_def wit_source_def contextQueryPlan_def setContextID_def setHostName_def
  setPort_def setConstantList_def getCurrentConstantList_def setLocalSignature_def setInputSignature_def insertIntoMap_def
  on_current_def optionally_def registerAndInsertIntoBeliefSet_def tuple_text_def ContextQueryPlan_new_def
  QueryPlanGrammarSemantics_new_def bt_storeWithID_def bt_insert_def BeliefTable_new_def Belief_new_at_def b_id_def isBelief_def
  kind_consts BridgeRuleGrammarSemantics_new_def getBridgeAtom_def getBridgeLiteral_def getBridgeRule_def signature_of_def
  bt_getIDByString_def belief_text_def passIdentToBelief_def literalFromBelief_def posLiteralFromBelief_def BridgeRule_new_def
  br_storeAndGetID_def is_bridge_rule_kind_def isBridgeRule_def isRule_def SIZE_T_def sz_add_def divide_neighbors_def

theorem shared_plan_parser_prevents_guessing_witness:
  "\<exists>d cx. daemon_start (Some (layout 2 1)) 0 [] (Some [wit_source 0 (Some [(1, [''a''])]) None])
      [wit_source 0 (Some [(1, [''a''])]) None, wit_source 1 None (Some [(1, [''b''])])]
      [((''a'', []), [(False, 1, (''b'', []))])] = Inr d
    \<and> daemon_context (Some (layout 2 1)) 0 0 d = Inr cx
    \<and> (\<lambda>nb. unat (neighbor_id nb)) ` set (d_physical d) = {1} \<and> must_guess (Some (layout 2 1)) cx (bs_new_blocks 2 1 False) = Inr False"
proof -
  let ?s = "daemon_start (Some (layout 2 1)) 0 [] (Some [wit_source 0 (Some [(1, [''a''])]) None])
      [wit_source 0 (Some [(1, [''a''])]) None, wit_source 1 None (Some [(1, [''b''])])]
      [((''a'', []), [(False, 1, (''b'', []))])]"
  have "is_ok ?s \<and> map fst (d_queryplan (projr ?s)) = [0, 1] \<and> d_guessing (projr ?s) = Some []"
    by (simp add: wit_eval)
  then obtain d where d: "?s = Inr d" "map fst (d_queryplan d) = [0, 1]" "d_guessing d = Some []" by (auto simp: is_ok_iff)
  then have "fst ` set (d_queryplan d) = {0, 1}" by (metis list.set_map list.simps(15) set_empty2 empty_set)
  then have small: "\<forall>c\<in>dom (map_of (d_queryplan d)). c < 2 ^ 10" by (auto simp: dom_map_of_conv_image_fst)
  obtain cx where cx: "daemon_context (Some (layout 2 1)) 0 0 d = Inr cx"
    using d(3) by (auto simp: daemon_context_def NormalContext_new_def NormalContext_init_def bso_instance_def NewContext.defs Let_def)
  from shared_plan_parser_prevents_guessing [OF d(1) small cx] d(1) cx show ?thesis by (auto simp: foreign_def)
qed

end
