(* ===== verification/Random_Programs.thy ===== *)
theory Random_Programs
  imports Topologies
begin

text \<open>
  Programs that call \<open>rand\<close>: functions from the numbers to come to a result and the numbers that are left. The sequence
  of two programs, loops over a list and \<open>do while\<close> loops are composed from them. A program settles if it never fails and, whatever
  numbers have come so far, there are further ones with which it returns: it cannot be caught in a loop.
\<close>

type_synonym 'a rnd = "nat list \<Rightarrow> ('a \<times> nat list) res"

definition rreturn :: "'a \<Rightarrow> 'a rnd" where
  "rreturn x rs = Inr (x, rs)"

definition rlift :: "'a res \<Rightarrow> 'a rnd" where
  "rlift r rs = bind_res r (\<lambda>x. Inr (x, rs))"

definition rbind :: "'a rnd \<Rightarrow> ('a \<Rightarrow> 'b rnd) \<Rightarrow> 'b rnd" where
  "rbind m k rs = bind_res (m rs) (\<lambda>(x, rs). k x rs)"

fun rfold :: "('i \<Rightarrow> 's \<Rightarrow> 's rnd) \<Rightarrow> 'i list \<Rightarrow> 's \<Rightarrow> 's rnd" where
  "rfold f [] s = rreturn s"
| "rfold f (i # is) s = rbind (f i s) (rfold f is)"

text \<open>
  \<open>do body while (not finished)\<close>. A round that takes no number and does not finish would be repeated for ever.
\<close>

function rloop :: "('s \<Rightarrow> 's rnd) \<Rightarrow> ('s \<Rightarrow> bool) \<Rightarrow> 's \<Rightarrow> 's rnd" where
  "rloop body finished s rs = (case body s rs of Inl e \<Rightarrow> Inl e
     | Inr (s', rs') \<Rightarrow> if finished s' then Inr (s', rs')
         else if length rs' < length rs then rloop body finished s' rs' else Inl Out_Of_Fuel)"
  by pat_completeness auto
termination
  by (relation "measure (\<lambda>(body, finished, s, rs). length rs)") auto

declare rloop.simps [simp del]

section \<open>Drawing\<close>

text \<open>A program that fails for no other reason than that the numbers are used up, and returns only results with \<open>P\<close>.\<close>

definition draws :: "'a rnd \<Rightarrow> ('a \<Rightarrow> bool) \<Rightarrow> bool" where
  "draws m P \<longleftrightarrow> (\<forall>rs. (\<exists>x rest. m rs = Inr (x, rest) \<and> P x) \<or> m rs = Inl Out_Of_Fuel)"

lemma drawsD:
  assumes "draws m P"
  shows "m rs = Inr (x, rest) \<Longrightarrow> P x" and "m rs = Inl e \<Longrightarrow> e = Out_Of_Fuel"
    and "(\<exists>x rest. m rs = Inr (x, rest) \<and> P x) \<or> m rs = Inl Out_Of_Fuel"
proof -
  show d: "(\<exists>x rest. m rs = Inr (x, rest) \<and> P x) \<or> m rs = Inl Out_Of_Fuel" for rs using assms unfolding draws_def by blast
  show "m rs = Inr (x, rest) \<Longrightarrow> P x" "m rs = Inl e \<Longrightarrow> e = Out_Of_Fuel" using d [of rs] by auto
qed

lemma drawsI:
  assumes "\<And>rs x rest. m rs = Inr (x, rest) \<Longrightarrow> P x" and "\<And>rs e. m rs = Inl e \<Longrightarrow> e = Out_Of_Fuel"
  shows "draws m P"
  unfolding draws_def
proof
  fix rs
  show "(\<exists>x rest. m rs = Inr (x, rest) \<and> P x) \<or> m rs = Inl Out_Of_Fuel"
    using assms by (cases "m rs") fastforce+
qed

lemma draws_never: "draws m (\<lambda>_. False) \<Longrightarrow> m rs = Inl Out_Of_Fuel"
  unfolding draws_def by blast

lemma draws_mono: "draws m P \<Longrightarrow> (\<And>x. P x \<Longrightarrow> Q x) \<Longrightarrow> draws m Q"
  unfolding draws_def by blast

lemma draws_return [intro]: "P x \<Longrightarrow> draws (rreturn x) P"
  by (simp add: draws_def rreturn_def)

lemma draws_lift: "r = Inr x \<Longrightarrow> P x \<Longrightarrow> draws (rlift r) P"
  by (simp add: draws_def rlift_def)

lemma draws_rand: "draws rand (\<lambda>_. True)"
  unfolding draws_def by (auto simp: rand_def split: list.splits)

lemma draws_bind:
  assumes "draws m P" and "\<And>x. P x \<Longrightarrow> draws (k x) Q"
  shows "draws (rbind m k) Q"
  unfolding draws_def
proof
  fix rs
  from drawsD(3) [OF assms(1), of rs] show "(\<exists>y rest. rbind m k rs = Inr (y, rest) \<and> Q y) \<or> rbind m k rs = Inl Out_Of_Fuel"
  proof (elim disjE exE conjE)
    fix x us assume x: "m rs = Inr (x, us)" "P x"
    then show ?thesis using drawsD(3) [OF assms(2) [OF x(2)], of us] by (simp add: rbind_def)
  qed (simp add: rbind_def)
qed

lemma draws_rfold:
  assumes "\<And>i s. i < length is \<Longrightarrow> I i s \<Longrightarrow> draws (f (is ! i) s) (I (Suc i))" and "I 0 s"
  shows "draws (rfold f is s) (I (length is))"
  using assms
proof (induction "is" arbitrary: s I)
  case (Cons i "is")
  have 1: "draws (f i s) (I (Suc 0))" using Cons.prems(1) [of 0] Cons.prems(2) by simp
  have 2: "draws (rfold f is t) (\<lambda>x. I (Suc (length is)) x)" if "I (Suc 0) t" for t
    using Cons.IH [of "\<lambda>j. I (Suc j)", OF _ that] Cons.prems(1) by force
  show ?case using draws_bind [OF 1 2] by simp
qed auto

lemma draws_rloop:
  assumes "\<And>s. I s \<Longrightarrow> draws (body s) (\<lambda>t. if finished t then Q t else I t)" and "I s"
  shows "draws (rloop body finished s) (\<lambda>t. Q t \<and> finished t)"
  unfolding draws_def
proof
  fix rs
  show "(\<exists>x rest. rloop body finished s rs = Inr (x, rest) \<and> Q x \<and> finished x) \<or> rloop body finished s rs = Inl Out_Of_Fuel"
    using assms(2)
  proof (induction "length rs" arbitrary: s rs rule: less_induct)
    case less
    from drawsD(3) [OF assms(1) [OF less.prems], of rs] show ?case
    proof (elim disjE exE conjE)
      fix t us assume t: "body s rs = Inr (t, us)" "if finished t then Q t else I t"
      show ?thesis
      proof (cases "finished t \<or> \<not> length us < length rs")
        case True
        then show ?thesis using t by (subst (1 2) rloop.simps) auto
      next
        case False
        then have "rloop body finished s rs = rloop body finished t us" using t by (subst rloop.simps) simp
        then show ?thesis using less.hyps [of us t] False t(2) by simp
      qed
    next
      assume "body s rs = Inl Out_Of_Fuel"
      then show ?thesis by (subst (1 2) rloop.simps) simp
    qed
  qed
qed

section \<open>Settling\<close>

text \<open>
  A program that settles with \<open>P\<close>: more numbers do not change what it has returned, it returns only results with \<open>P\<close>
  and leaves an end of the numbers it was given; it fails only when the numbers do not suffice, and then there are
  further ones with which it uses up all of them.
\<close>

definition settles :: "'a rnd \<Rightarrow> ('a \<Rightarrow> bool) \<Rightarrow> bool" where
  "settles m P \<longleftrightarrow>
     (\<forall>rs x rest. m rs = Inr (x, rest) \<longrightarrow> P x \<and> (\<exists>us. rs = us @ rest) \<and> (\<forall>ws. m (rs @ ws) = Inr (x, rest @ ws))) \<and>
     (\<forall>rs. (\<exists>x rest. m rs = Inr (x, rest)) \<or> (\<exists>ws x. m (rs @ ws) = Inr (x, []))) \<and>
     (\<forall>rs e. m rs = Inl e \<longrightarrow> e = Out_Of_Fuel)"

text \<open>Some numbers lead to a result with \<open>P\<close>.\<close>

definition can :: "'a rnd \<Rightarrow> ('a \<Rightarrow> bool) \<Rightarrow> bool" where
  "can m P \<longleftrightarrow> (\<exists>ws x. m ws = Inr (x, []) \<and> P x)"

lemma settlesI:
  assumes "\<And>rs x rest. m rs = Inr (x, rest) \<Longrightarrow> P x" and "\<And>rs x rest. m rs = Inr (x, rest) \<Longrightarrow> \<exists>us. rs = us @ rest"
    and "\<And>rs x rest ws. m rs = Inr (x, rest) \<Longrightarrow> m (rs @ ws) = Inr (x, rest @ ws)"
    and "\<And>rs. (\<exists>x rest. m rs = Inr (x, rest)) \<or> (\<exists>ws x. m (rs @ ws) = Inr (x, []))" and "\<And>rs e. m rs = Inl e \<Longrightarrow> e = Out_Of_Fuel"
  shows "settles m P"
  using assms unfolding settles_def by blast

lemma settlesD:
  assumes "settles m P"
  shows "m rs = Inr (x, rest) \<Longrightarrow> P x" and "m rs = Inr (x, rest) \<Longrightarrow> \<exists>us. rs = us @ rest"
    and "m rs = Inr (x, rest) \<Longrightarrow> m (rs @ ws) = Inr (x, rest @ ws)"
    and "(\<exists>x rest. m rs = Inr (x, rest)) \<or> (\<exists>ws x. m (rs @ ws) = Inr (x, []))" and "m rs = Inl e \<Longrightarrow> e = Out_Of_Fuel"
  using assms unfolding settles_def by blast+

lemma settles_draws: "settles m P \<Longrightarrow> draws m P"
  by (rule drawsI) (rule settlesD(1), assumption+, rule settlesD(5), assumption+)

lemma settles_resume: "settles m P \<Longrightarrow> \<exists>ws x rest. m (rs @ ws) = Inr (x, rest)"
  by (metis settlesD(4) append_Nil2)

lemma settles_mono: "settles m P \<Longrightarrow> (\<And>x. P x \<Longrightarrow> Q x) \<Longrightarrow> settles m Q"
  unfolding settles_def by blast

lemma settles_conj: "settles m P \<Longrightarrow> settles m Q \<Longrightarrow> settles m (\<lambda>x. P x \<and> Q x)"
  unfolding settles_def by blast

lemma settles_return [intro]: "P x \<Longrightarrow> settles (rreturn x) P"
  by (rule settlesI) (auto simp: rreturn_def)

lemma settles_lift: "r = Inr x \<Longrightarrow> P x \<Longrightarrow> settles (rlift r) P"
  by (rule settlesI) (auto simp: rlift_def)

lemma settles_rand: "settles rand (\<lambda>_. True)"
proof (rule settlesI)
  show "rand rs = Inr (x, rest) \<Longrightarrow> \<exists>us. rs = us @ rest" for rs x rest by (cases rs) auto
  show "rand rs = Inr (x, rest) \<Longrightarrow> rand (rs @ ws) = Inr (x, rest @ ws)" for rs x rest ws by (cases rs) auto
  show "(\<exists>x rest. rand rs = Inr (x, rest)) \<or> (\<exists>ws x. rand (rs @ ws) = Inr (x, []))" for rs
    by (cases rs) (auto intro: exI [of _ "[0]"])
  show "rand rs = Inl e \<Longrightarrow> e = Out_Of_Fuel" for rs e by (cases rs) auto
qed simp

lemma rbind_eq_Inr: "rbind m k rs = Inr (y, rest) \<longleftrightarrow> (\<exists>x us. m rs = Inr (x, us) \<and> k x us = Inr (y, rest))"
  by (auto simp: rbind_def bind_res_eq_Inr split: prod.splits)

lemma settles_bind:
  assumes m: "settles m P" and k: "\<And>x. P x \<Longrightarrow> settles (k x) Q"
  shows "settles (rbind m k) Q"
proof (rule settlesI)
  fix rs y rest
  assume "rbind m k rs = Inr (y, rest)"
  then obtain x us where x: "m rs = Inr (x, us)" "k x us = Inr (y, rest)" by (auto simp: rbind_eq_Inr)
  note kx = k [OF settlesD(1) [OF m x(1)]]
  show "Q y" by (rule settlesD(1) [OF kx x(2)])
  show "\<exists>vs. rs = vs @ rest" using settlesD(2) [OF m x(1)] settlesD(2) [OF kx x(2)] by fastforce
  show "rbind m k (rs @ ws) = Inr (y, rest @ ws)" for ws
    using settlesD(3) [OF m x(1)] settlesD(3) [OF kx x(2)] by (auto simp: rbind_eq_Inr)
next
  fix rs
  show "(\<exists>y rest. rbind m k rs = Inr (y, rest)) \<or> (\<exists>ws y. rbind m k (rs @ ws) = Inr (y, []))"
  proof (cases "\<exists>x rest. m rs = Inr (x, rest)")
    case True
    then obtain x us where x: "m rs = Inr (x, us)" by blast
    note kx = k [OF settlesD(1) [OF m x]]
    show ?thesis using settlesD(4) [OF kx, of us] settlesD(3) [OF m x] x by (auto simp: rbind_eq_Inr)
  next
    case False
    then obtain ws x where x: "m (rs @ ws) = Inr (x, [])" using settlesD(4) [OF m] by blast
    note kx = k [OF settlesD(1) [OF m x]]
    obtain vs y where y: "k x vs = Inr (y, [])" using settlesD(4) [OF kx, of "[]"] settlesD(2) [OF kx, of "[]"] by force
    have "m (rs @ (ws @ vs)) = Inr (x, vs)" using settlesD(3) [OF m x, of vs] by simp
    with y have "rbind m k (rs @ (ws @ vs)) = Inr (y, [])" by (auto simp: rbind_eq_Inr)
    then show ?thesis by blast
  qed
next
  show "e = Out_Of_Fuel" if "rbind m k rs = Inl e" for rs e
    using drawsD(2) [OF draws_bind [OF settles_draws [OF m] settles_draws [OF k]] that] .
qed

lemma settles_rfold:
  assumes "\<And>i s. i < length is \<Longrightarrow> I i s \<Longrightarrow> settles (f (is ! i) s) (I (Suc i))" and "I 0 s"
  shows "settles (rfold f is s) (I (length is))"
  using assms
proof (induction "is" arbitrary: s I)
  case (Cons i "is")
  have 1: "settles (f i s) (I (Suc 0))" using Cons.prems(1) [of 0] Cons.prems(2) by simp
  have 2: "settles (rfold f is t) (\<lambda>x. I (Suc (length is)) x)" if "I (Suc 0) t" for t
    using Cons.IH [of "\<lambda>j. I (Suc j)", OF _ that] Cons.prems(1) by force
  show ?case using settles_bind [OF 1 2] by simp
qed auto

lemma settles_rfold_inv:
  assumes "\<And>i s. i \<in> set is \<Longrightarrow> I s \<Longrightarrow> settles (f i s) I" and "I s"
  shows "settles (rfold f is s) I"
  using settles_rfold [of "is" "\<lambda>_. I" f s] assms by simp

section \<open>Loops\<close>

lemma rloop_done: "body s rs = Inr (s', rest) \<Longrightarrow> finished s' \<Longrightarrow> rloop body finished s rs = Inr (s', rest)"
  by (simp add: rloop.simps)

lemma rloop_again:
  "body s rs = Inr (s', rest) \<Longrightarrow> \<not> finished s' \<Longrightarrow> length rest < length rs \<Longrightarrow>
     rloop body finished s rs = rloop body finished s' rest"
  by (simp add: rloop.simps)

text \<open>
  A round of a loop starts in a state with \<open>I\<close> and takes a number; it leads to a final state with \<open>Q\<close> or to one with \<open>I\<close>
  again. So the loop returns a state with \<open>Q\<close>.
\<close>

lemma rloop_post:
  assumes body: "\<And>s. I s \<Longrightarrow> settles (body s) (\<lambda>t. if finished t then Q t else I t)"
    and progress: "\<And>s rs t rest. I s \<Longrightarrow> body s rs = Inr (t, rest) \<Longrightarrow> length rest < length rs"
    and "rloop body finished s rs = Inr (x, rest)" and "I s"
  shows "Q x \<and> finished x \<and> (\<exists>us. rs = us @ rest) \<and> rloop body finished s (rs @ ws) = Inr (x, rest @ ws)"
  using assms(3,4)
proof (induction "length rs" arbitrary: s rs rule: less_induct)
  case less
  from less.prems(1) obtain t us where t: "body s rs = Inr (t, us)"
    by (subst (asm) rloop.simps) (auto split: sum.splits)
  note b = settlesD [OF body [OF less.prems(2)]]
  note I = b(1) [OF t]
  have u: "length us < length rs" by (rule progress [OF less.prems(2) t])
  note ext = b(3) [OF t, of ws]
  obtain vs where vs: "rs = vs @ us" using b(2) [OF t] by blast
  show ?case
  proof (cases "finished t")
    case True
    then have "x = t" "rest = us" using less.prems(1) rloop_done [of body s rs t us finished] t by auto
    then show ?thesis using I True vs rloop_done [of body s "rs @ ws" t "us @ ws" finished] ext by auto
  next
    case False
    have "rloop body finished t us = Inr (x, rest)" using less.prems(1) rloop_again [of body s rs t us finished] t False u by simp
    from less.hyps [OF u this] I False have ih: "Q x" "finished x" "\<exists>us'. us = us' @ rest"
      "rloop body finished t (us @ ws) = Inr (x, rest @ ws)" by auto
    have "rloop body finished s (rs @ ws) = Inr (x, rest @ ws)"
      using rloop_again [of body s "rs @ ws" t "us @ ws" finished] ext False u ih(4) by simp
    then show ?thesis using ih vs by auto
  qed
qed

text \<open>If there are numbers from every state with which the loop ends, then it is never stuck.\<close>

lemma rloop_resume:
  assumes body: "\<And>s. I s \<Longrightarrow> settles (body s) (\<lambda>t. if finished t then Q t else I t)"
    and progress: "\<And>s rs t rest. I s \<Longrightarrow> body s rs = Inr (t, rest) \<Longrightarrow> length rest < length rs"
    and finish: "\<And>s. I s \<Longrightarrow> can (rloop body finished s) (\<lambda>_. True)" and "I s"
  shows "(\<exists>x rest. rloop body finished s rs = Inr (x, rest)) \<or> (\<exists>ws x. rloop body finished s (rs @ ws) = Inr (x, []))"
  using assms(4)
proof (induction "length rs" arbitrary: s rs rule: less_induct)
  case less
  note b = settlesD [OF body [OF less.prems]]
  show ?case
  proof (cases "\<exists>t us. body s rs = Inr (t, us)")
    case True
    then obtain t us where t: "body s rs = Inr (t, us)" by blast
    have u: "length us < length rs" by (rule progress [OF less.prems t])
    note ih = less.hyps [OF u, of t]
    have "rloop body finished s (rs @ ws) = rloop body finished t (us @ ws)" if "\<not> finished t" for ws
      using rloop_again [of body s "rs @ ws" t "us @ ws" finished] b(3) [OF t, of ws] that u by simp
    then show ?thesis using ih b(1) [OF t] rloop_done [of body s rs t us finished] t
      by (cases "finished t") (simp, metis append_Nil2)+
  next
    case False
    then obtain ws t where t: "body s (rs @ ws) = Inr (t, [])" using b(4) [of rs] by blast
    have l: "length ([] :: nat list) < length (rs @ ws)" by (rule progress [OF less.prems t])
    show ?thesis
    proof (cases "finished t")
      case True
      then show ?thesis using rloop_done [of body s "rs @ ws" t "[]" finished] t by blast
    next
      case False
      then have "I t" using b(1) [OF t] by simp
      then obtain vs x where v: "rloop body finished t vs = Inr (x, [])" using finish [of t] by (auto simp: can_def)
      have "body s (rs @ (ws @ vs)) = Inr (t, vs)" using b(3) [OF t, of vs] by simp
      then have "rloop body finished s (rs @ (ws @ vs)) = Inr (x, [])"
        using rloop_again [of body s "rs @ (ws @ vs)" t vs finished] False v l by simp
      then show ?thesis by blast
    qed
  qed
qed

lemma settles_rloop:
  assumes "\<And>s. I s \<Longrightarrow> settles (body s) (\<lambda>t. if finished t then Q t else I t)"
    and "\<And>s rs t rest. I s \<Longrightarrow> body s rs = Inr (t, rest) \<Longrightarrow> length rest < length rs"
    and "\<And>s. I s \<Longrightarrow> can (rloop body finished s) (\<lambda>_. True)" and "I s"
  shows "settles (rloop body finished s) (\<lambda>s. Q s \<and> finished s)"
proof (rule settlesI)
  fix rs x rest ws
  assume "rloop body finished s rs = Inr (x, rest)"
  then have p: "Q x \<and> finished x \<and> (\<exists>us. rs = us @ rest) \<and> rloop body finished s (rs @ ws) = Inr (x, rest @ ws)" for ws
    by (rule rloop_post [where I = I, rotated 2]) (use assms in blast)+
  from p show "Q x \<and> finished x" "\<exists>us. rs = us @ rest" "rloop body finished s (rs @ ws) = Inr (x, rest @ ws)" by blast+
next
  show "(\<exists>x rest. rloop body finished s rs = Inr (x, rest)) \<or> (\<exists>ws x. rloop body finished s (rs @ ws) = Inr (x, []))" for rs
    by (rule rloop_resume [where I = I and Q = Q]) (use assms in blast)+
  show "e = Out_Of_Fuel" if "rloop body finished s rs = Inl e" for rs e
    using drawsD(2) [OF draws_rloop [where I = I and Q = Q, OF settles_draws [OF assms(1)] assms(4)] that] .
qed

text \<open>Programs that give no numbers back, and programs that take at least one.\<close>

definition shrinks :: "'a rnd \<Rightarrow> bool" where
  "shrinks m \<longleftrightarrow> (\<forall>rs x rest. m rs = Inr (x, rest) \<longrightarrow> length rest \<le> length rs)"

definition takes :: "'a rnd \<Rightarrow> bool" where
  "takes m \<longleftrightarrow> (\<forall>rs x rest. m rs = Inr (x, rest) \<longrightarrow> length rest < length rs)"

lemma takesD: "takes m \<Longrightarrow> m rs = Inr (x, rest) \<Longrightarrow> length rest < length rs"
  by (simp add: takes_def)

lemma shrinks_takes: "takes m \<Longrightarrow> shrinks m"
  by (fastforce simp: takes_def shrinks_def)

lemma shrinks_return: "shrinks (rreturn x)"
  by (simp add: shrinks_def rreturn_def)

lemma shrinks_lift: "shrinks (rlift r)"
  by (auto simp: shrinks_def rlift_def bind_res_eq_Inr)

lemma shrinks_bind: "shrinks m \<Longrightarrow> (\<And>x. shrinks (k x)) \<Longrightarrow> shrinks (rbind m k)"
  unfolding shrinks_def rbind_eq_Inr using le_trans by blast

lemma takes_rand: "takes rand"
  unfolding takes_def by (auto simp: rand_def split: list.splits)

lemma takes_bind: "takes m \<Longrightarrow> (\<And>x. shrinks (k x)) \<Longrightarrow> takes (rbind m k)"
  unfolding shrinks_def takes_def rbind_eq_Inr using le_less_trans by blast

lemma shrinks_rfold: "(\<And>i s. shrinks (f i s)) \<Longrightarrow> shrinks (rfold f is s)"
  by (induction "is" arbitrary: s) (simp_all add: shrinks_return shrinks_bind)

lemma takes_rfold: "(\<And>i s. takes (f i s)) \<Longrightarrow> is \<noteq> [] \<Longrightarrow> takes (rfold f is s)"
  by (cases "is") (simp_all add: takes_bind shrinks_rfold shrinks_takes)

lemma shrinks_rloop:
  assumes "\<And>s. shrinks (body s)"
  shows "shrinks (rloop body finished s)"
proof -
  have "length rest \<le> length rs" if "rloop body finished s rs = Inr (x, rest)" for s rs x rest
    using that
  proof (induction "length rs" arbitrary: s rs rule: less_induct)
    case less
    from less.prems obtain t us where t: "body s rs = Inr (t, us)"
      by (subst (asm) rloop.simps) (auto split: sum.splits)
    with assms [of s] have "length us \<le> length rs" by (auto simp: shrinks_def)
    with less t show ?case by (subst (asm) (2) rloop.simps) (fastforce split: if_splits)
  qed
  then show ?thesis by (simp add: shrinks_def)
qed

lemmas shrinks_rules = shrinks_return shrinks_lift shrinks_bind shrinks_rfold shrinks_rloop takes_rand [THEN shrinks_takes]

section \<open>Reachable results\<close>

lemma can_return: "P x \<Longrightarrow> can (rreturn x) P"
  by (auto simp: can_def rreturn_def intro!: exI [of _ "[]"])

lemma can_lift: "r = Inr x \<Longrightarrow> P x \<Longrightarrow> can (rlift r) P"
  by (auto simp: can_def rlift_def intro!: exI [of _ "[]"])

lemma can_rand: "can rand (\<lambda>r. r = c)"
  by (auto simp: can_def intro!: exI [of _ "[c]"])

lemma can_bind:
  assumes "can m P" and "settles m S" and "\<And>x. P x \<Longrightarrow> can (k x) Q"
  shows "can (rbind m k) Q"
proof -
  from assms(1) obtain ws x where 1: "m ws = Inr (x, [])" "P x" by (auto simp: can_def)
  from assms(3) [OF 1(2)] obtain vs y where 2: "k x vs = Inr (y, [])" "Q y" by (auto simp: can_def)
  have "m (ws @ vs) = Inr (x, vs)" using settlesD(3) [OF assms(2) 1(1), of vs] by simp
  with 2 have "rbind m k (ws @ vs) = Inr (y, [])" by (auto simp: rbind_eq_Inr)
  with 2(2) show ?thesis by (auto simp: can_def)
qed

lemma can_draw: "can (k c) Q \<Longrightarrow> can (rbind rand k) Q"
  by (rule can_bind [OF can_rand [where c = c] settles_rand]) simp

lemma can_rfold:
  assumes "\<And>i s. i < length is \<Longrightarrow> I i s \<Longrightarrow> can (f (is ! i) s) (I (Suc i)) \<and> (\<exists>S. settles (f (is ! i) s) S)" and "I 0 s"
  shows "can (rfold f is s) (I (length is))"
  using assms
proof (induction "is" arbitrary: s I)
  case (Cons i "is")
  have 1: "can (f i s) (I (Suc 0))" "\<exists>S. settles (f i s) S" using Cons.prems(1) [of 0] Cons.prems(2) by auto
  then obtain S where S: "settles (f i s) S" by blast
  have 2: "can (rfold f is t) (I (Suc (length is)))" if "I (Suc 0) t" for t
    using Cons.IH [of "\<lambda>j. I (Suc j)", OF _ that] Cons.prems(1) by force
  show ?case using can_bind [OF 1(1) S 2] by simp
qed (auto intro: can_return)

lemma can_rloop_done:
  "can (body s) (\<lambda>s'. finished s' \<and> Q s') \<Longrightarrow> can (rloop body finished s) Q"
  by (auto simp: can_def intro: rloop_done)

lemma can_rloop_step:
  assumes "can (body s) (\<lambda>t. \<not> finished t \<and> J t)" and "takes (body s)" and "settles (body s) S"
    and "\<And>t. J t \<Longrightarrow> can (rloop body finished t) Q"
  shows "can (rloop body finished s) Q"
proof -
  from assms(1) obtain ws t where t: "body s ws = Inr (t, [])" "\<not> finished t" "J t" by (auto simp: can_def)
  from assms(4) [OF t(3)] obtain vs x where x: "rloop body finished t vs = Inr (x, [])" "Q x" by (auto simp: can_def)
  have "body s (ws @ vs) = Inr (t, vs)" using settlesD(3) [OF assms(3) t(1), of vs] by simp
  moreover have "length vs < length (ws @ vs)" using takesD [OF assms(2) t(1)] by simp
  ultimately have "rloop body finished s (ws @ vs) = Inr (x, [])" using rloop_again t(2) x(1) by metis
  then show ?thesis using x(2) by (auto simp: can_def)
qed

end
