(* ===== verification/Gen_Contexts.thy ===== *)
theory Gen_Contexts
  imports Random_Programs Opt_Topologies Plan_Grammars "HOL-Library.Product_Lexorder"
begin

unbundle bit_operations_syntax

text \<open>
  The benchmark generator's contexts (\<open>src/generator/new_dmcsGen.cpp\<close>, \<open>ContextGeneratorBase.cpp\<close> and its two subclasses,
  \<open>NewLogicVisitor.cpp\<close>): the belief tables and interfaces, the local knowledge bases and bridge rules, and the interface
  of every edge of the topology. A file that is written is an entry of a map from names to texts. Atoms are below
  \<open>2^31\<close>, so that the product of an atom and a sign, computed in \<open>size_t\<close> and converted to \<open>int\<close>, is the signed atom.
\<close>

section \<open>Belief tables and interfaces\<close>

definition atom_text :: "nat \<Rightarrow> nat \<Rightarrow> string" where
  "atom_text i a = ''c'' @ nat_text i @ ''a'' @ nat_text a"

fun store_atoms :: "nat \<Rightarrow> nat list \<Rightarrow> BeliefTable \<Rightarrow> BeliefTable res" where
  "store_atoms i [] btab = Inr btab"
| "store_atoms i (j # js) btab =
     bind_res (bt_storeAndGetID btab (Belief_new (of_nat i) (atom_text i (j + 1)))) (\<lambda>(btab, _). store_atoms i js btab)"

definition gen_belief_table :: "nat \<Rightarrow> nat \<Rightarrow> BeliefTable res" where
  "gen_belief_table no_atoms i =
     bind_res (bt_storeAndGetID BeliefTable_new (Belief_new (of_nat i) ''epsilon'')) (\<lambda>(btab, _). store_atoms i [0..<no_atoms] btab)"

fun each :: "('i \<Rightarrow> 'a res) \<Rightarrow> 'i list \<Rightarrow> 'a list res" where
  "each f [] = Inr []"
| "each f (i # is) = bind_res (f i) (\<lambda>x. bind_res (each f is) (\<lambda>xs. Inr (x # xs)))"

definition genBeliefTables :: "nat \<Rightarrow> nat \<Rightarrow> BeliefTable list res" where
  "genBeliefTables no_contexts no_atoms = each (gen_belief_table no_atoms) [0..<no_contexts]"

text \<open>\<open>rand() % n\<close>.\<close>

definition rand_below :: "nat \<Rightarrow> nat rnd" where
  "rand_below n = (if n = 0 then rlift (Inl Undefined_Behaviour) else rbind rand (\<lambda>r. rreturn (r mod n)))"

text \<open>The loop that looks for an atom that is not in the interface yet; the flag is set by \<open>break\<close>.\<close>

definition pick_round :: "nat \<Rightarrow> nat list \<times> bool \<Rightarrow> (nat list \<times> bool) rnd" where
  "pick_round no_atoms = (\<lambda>(c_i_interface, _). rbind (rand_below no_atoms) (\<lambda>r.
     let k = r + 1 in rreturn (if k \<in> set c_i_interface then (c_i_interface, False) else (c_i_interface @ [k], True))))"

definition pick_atom :: "nat \<Rightarrow> nat list \<Rightarrow> nat list rnd" where
  "pick_atom no_atoms c_i_interface = rbind (rloop (pick_round no_atoms) snd (c_i_interface, False)) (\<lambda>(iface, _). rreturn iface)"

definition belief_ID :: "nat \<Rightarrow> nat \<Rightarrow> ID" where
  "belief_ID ctx_id local_id = \<lparr>kind = of_nat ctx_id OR MAINKIND_BELIEF, address = of_nat local_id\<rparr>"

fun interface_table :: "nat \<Rightarrow> BeliefTable \<Rightarrow> nat list \<Rightarrow> BeliefTable \<Rightarrow> BeliefTable res" where
  "interface_table i local_sig [] tab = Inr tab"
| "interface_table i local_sig (a # as) tab =
     bind_res (bt_getByID local_sig (belief_ID i a)) (\<lambda>b.
     bind_res (bt_storeWithID tab b (belief_ID i a)) (\<lambda>(tab, _). interface_table i local_sig as tab))"

definition gen_interface :: "nat \<Rightarrow> nat \<Rightarrow> BeliefTable list \<Rightarrow> nat \<Rightarrow> (nat list list \<times> BeliefTable list) \<Rightarrow> (nat list list \<times> BeliefTable list) rnd" where
  "gen_interface no_atoms no_interface_atoms sigma_vec i = (\<lambda>(context_interfaces, context_interface_table_vec).
     rbind (rfold (\<lambda>_. pick_atom no_atoms) [0..<no_interface_atoms] []) (\<lambda>c_i_interface.
     let c_i_interface = sort c_i_interface in
     rbind (rlift (bind_res (vec_at sigma_vec i) (\<lambda>local_sig. interface_table i local_sig c_i_interface BeliefTable_new))) (\<lambda>tab.
       rreturn (context_interfaces @ [c_i_interface], context_interface_table_vec @ [tab]))))"

definition genInterface :: "nat \<Rightarrow> nat \<Rightarrow> nat \<Rightarrow> BeliefTable list \<Rightarrow> (nat list list \<times> BeliefTable list) rnd" where
  "genInterface no_contexts no_atoms no_interface_atoms sigma_vec =
     rfold (gen_interface no_atoms no_interface_atoms sigma_vec) [0..<no_contexts] ([], [])"

section \<open>Bridge rules\<close>

record gen_rule =
  gr_head :: "nat list"
  gr_pos :: "nat list"
  gr_neg :: "nat list"

record gen_bridge_rule =
  gb_head :: "nat list"
  gb_pos :: "(nat \<times> nat) list"
  gb_neg :: "(nat \<times> nat) list"

definition sign :: "int rnd" where
  "sign = rbind rand (\<lambda>r. rreturn (if r mod 2 \<noteq> 0 then 1 else - 1))"

definition addUniqueBridgeAtom :: "gen_bridge_rule \<Rightarrow> nat \<Rightarrow> int \<Rightarrow> gen_bridge_rule \<times> nat" where
  "addUniqueBridgeAtom r nbor_id neighbor_atom =
     (let bap = (nbor_id, nat (max neighbor_atom (- neighbor_atom)))
      in if bap \<notin> set (gb_pos r) \<and> bap \<notin> set (gb_neg r)
         then (if neighbor_atom > 0 then r\<lparr>gb_pos := gb_pos r @ [bap]\<rparr> else r\<lparr>gb_neg := gb_neg r @ [bap]\<rparr>, 1)
         else (r, 0))"

definition bridge_atom_round :: "nat list list \<Rightarrow> nat list \<Rightarrow> gen_bridge_rule \<times> nat \<Rightarrow> (gen_bridge_rule \<times> nat) rnd" where
  "bridge_atom_round context_interfaces nbors = (\<lambda>(r, count).
     rbind (rand_below (length nbors)) (\<lambda>nbor_pos.
     let nbor_id = nbors ! nbor_pos in
     rbind (rlift (vec_at context_interfaces nbor_id)) (\<lambda>nbor_interface.
     rbind (rand_below (length nbor_interface)) (\<lambda>atom_pos.
     rbind sign (\<lambda>sg.
     let (r, n) = addUniqueBridgeAtom r nbor_id (sg * int (nbor_interface ! atom_pos))
     in rreturn (r, count + n))))))"

definition generate_bridge_rule :: "nat \<Rightarrow> nat list list \<Rightarrow> nat list \<Rightarrow> gen_bridge_rule rnd" where
  "generate_bridge_rule no_atoms context_interfaces nbors =
     rbind (rand_below no_atoms) (\<lambda>h.
     rbind rand (\<lambda>c. let no_bridge_atoms = c mod 2 + 1 in
     rbind (rloop (bridge_atom_round context_interfaces nbors) (\<lambda>(r, count). \<not> count < no_bridge_atoms)
       (\<lparr>gb_head = [h + 1], gb_pos = [], gb_neg = []\<rparr>, 0)) (\<lambda>(r, _). rreturn r)))"

definition cover_neighbors :: "nat list \<Rightarrow> gen_bridge_rule list \<Rightarrow> bool" where
  "cover_neighbors nbors bridge_rules \<longleftrightarrow>
     length (remdups (concat (map (\<lambda>r. map fst (gb_pos r) @ map fst (gb_neg r)) bridge_rules))) = length nbors"

definition bridge_rules_round :: "nat \<Rightarrow> nat \<Rightarrow> nat list list \<Rightarrow> nat list \<Rightarrow> gen_bridge_rule list \<Rightarrow> gen_bridge_rule list rnd" where
  "bridge_rules_round no_atoms no_bridge_rules context_interfaces nbors _ =
     rfold (\<lambda>_ bridge_rules. rbind rand (\<lambda>r. if r mod 2 \<noteq> 0
       then rbind (generate_bridge_rule no_atoms context_interfaces nbors) (\<lambda>r. rreturn (bridge_rules @ [r]))
       else rreturn bridge_rules)) [0..<no_bridge_rules] []"

definition generate_bridge_rule_list :: "nat \<Rightarrow> nat \<Rightarrow> nat list list \<Rightarrow> nat list \<Rightarrow> gen_bridge_rule list rnd" where
  "generate_bridge_rule_list no_atoms no_bridge_rules context_interfaces nbors =
     rloop (bridge_rules_round no_atoms no_bridge_rules context_interfaces nbors) (cover_neighbors nbors) []"

section \<open>Local knowledge bases\<close>

definition neg_rule :: "nat \<Rightarrow> nat \<Rightarrow> gen_rule" where
  "neg_rule i j = \<lparr>gr_head = [i], gr_pos = [], gr_neg = [j]\<rparr>"

definition deterministic_rule :: "nat \<Rightarrow> nat \<Rightarrow> gen_rule list \<Rightarrow> gen_rule list rnd" where
  "deterministic_rule no_atoms i local_kb =
     (if i mod 2 = 0
      then rbind rand (\<lambda>r. rreturn (if r mod 2 \<noteq> 0 \<and> i < no_atoms then local_kb @ [neg_rule i (i + 1)] else local_kb))
      else rreturn (if i < no_atoms then local_kb @ [neg_rule i (i + 1)] else local_kb))"

definition nondeterministic_rule :: "nat \<Rightarrow> nat \<Rightarrow> gen_rule list \<Rightarrow> gen_rule list rnd" where
  "nondeterministic_rule no_atoms i local_kb =
     (if i mod 2 = 0
      then rbind rand (\<lambda>r. rreturn (if r mod 2 \<noteq> 0 then local_kb @ [neg_rule i (i - 1)]
             else if i < no_atoms then local_kb @ [neg_rule i (i + 1)] else local_kb))
      else rreturn (if i < no_atoms then local_kb @ [neg_rule i (i + 1)] else local_kb))"

text \<open>\<open>local_kb_type\<close> 0 is the non-deterministic generator.\<close>

definition generate_local_kb :: "nat \<Rightarrow> nat \<Rightarrow> gen_rule list rnd" where
  "generate_local_kb local_kb_type no_atoms =
     rfold (if local_kb_type = 0 then nondeterministic_rule no_atoms else deterministic_rule no_atoms) [1..<no_atoms + 1] []"

section \<open>Texts\<close>

definition atom_name :: "nat \<Rightarrow> nat \<Rightarrow> BeliefTable \<Rightarrow> string res" where
  "atom_name contextId atomId sigma = bind_res (bt_getByID sigma (belief_ID contextId atomId)) (\<lambda>b. Inr (b_text b))"

fun separated :: "string \<Rightarrow> string list \<Rightarrow> string" where
  "separated sep [] = []"
| "separated sep [t] = t"
| "separated sep (t # ts) = t @ sep @ separated sep ts"

definition endl :: string where
  "endl = [CHR 0x0A]"

definition visitRule :: "gen_rule \<Rightarrow> nat \<Rightarrow> BeliefTable \<Rightarrow> string res" where
  "visitRule t contextId sigma =
     bind_res (each (\<lambda>a. atom_name contextId a sigma) (gr_head t)) (\<lambda>h.
     bind_res (each (\<lambda>a. atom_name contextId a sigma) (gr_pos t)) (\<lambda>pb.
     bind_res (each (\<lambda>a. bind_res (atom_name contextId a sigma) (\<lambda>n. Inr (''not '' @ n))) (gr_neg t)) (\<lambda>nb.
       Inr (separated ''v '' h @ '':- '' @ separated '', '' (pb @ nb) @ ''.'' @ endl))))"

definition printPositiveBridgeRule :: "BeliefTable list \<Rightarrow> nat \<times> nat \<Rightarrow> string res" where
  "printPositiveBridgeRule sigma_vec b = bind_res (vec_at sigma_vec (fst b)) (\<lambda>sigma.
     bind_res (atom_name (fst b) (snd b) sigma) (\<lambda>n. Inr (''('' @ nat_text (fst b) @ '':'' @ n @ '')'')))"

definition printNegativeBridgeRule :: "BeliefTable list \<Rightarrow> nat \<times> nat \<Rightarrow> string res" where
  "printNegativeBridgeRule sigma_vec b = bind_res (vec_at sigma_vec (fst b)) (\<lambda>sigma.
     bind_res (atom_name (fst b) (snd b) sigma) (\<lambda>n. Inr (''not ('' @ nat_text (fst b) @ '':'' @ n @ '')'')))"

definition visitBridgeRule :: "gen_bridge_rule \<Rightarrow> nat \<Rightarrow> BeliefTable list \<Rightarrow> string res" where
  "visitBridgeRule t contextId sigma_vec =
     bind_res (vec_at sigma_vec contextId) (\<lambda>sigma.
     bind_res (each (\<lambda>a. atom_name contextId a sigma) (gb_head t)) (\<lambda>h.
     bind_res (each (printPositiveBridgeRule sigma_vec) (gb_pos t)) (\<lambda>pb.
     bind_res (each (printNegativeBridgeRule sigma_vec) (gb_neg t)) (\<lambda>nb.
       Inr (separated ''v '' h @ '':- '' @ separated '', '' (pb @ nb) @ ''.'' @ endl)))))"

section \<open>Interfaces of the edges\<close>

text \<open>
  \<open>local_interface\<close> and \<open>update_min_V\<close> set the beliefs of a rule, first those of the positive and then those of the negative body.
  The pointer to the neighbor's belief table that \<open>local_interface\<close> copies is not used there, and left out.
\<close>

fun set_beliefs :: "nat list \<Rightarrow> (nat \<times> nat) list \<Rightarrow> NewBeliefState \<Rightarrow> NewBeliefState res" where
  "set_beliefs starting_offsets [] bs = Inr bs"
| "set_beliefs starting_offsets ((c, a) # as) bs =
     bind_res (bs_set_ctx bs c a starting_offsets DMCS_TRUE) (set_beliefs starting_offsets as)"

definition body_atoms :: "gen_bridge_rule \<Rightarrow> (nat \<times> nat) list" where
  "body_atoms r = gb_pos r @ gb_neg r"

definition local_interface :: "BeliefStateOffset option \<Rightarrow> gen_bridge_rule list \<Rightarrow> nat \<Rightarrow> NewBeliefState res" where
  "local_interface inst bridge_rules id2 = bind_res (bso_instance inst) (\<lambda>bso.
     bind_res (setEpsilon (bs_new_blocks (bso_no_blocks bso) (bso_size_belief_state bso) False) id2 (bso_starting_offsets bso)) (\<lambda>lc.
       set_beliefs (bso_starting_offsets bso) (filter (\<lambda>b. fst b = id2) (concat (map body_atoms bridge_rules))) lc))"

definition update_min_V :: "BeliefStateOffset option \<Rightarrow> gen_bridge_rule list \<Rightarrow> NewBeliefState \<Rightarrow> NewBeliefState res" where
  "update_min_V inst bridge_rules minV = (let atoms = concat (map body_atoms bridge_rules) in
     if atoms = [] then Inr minV
     else bind_res (bso_instance inst) (\<lambda>bso. set_beliefs (bso_starting_offsets bso) atoms minV))"

section \<open>The generator\<close>

record gen_config =
  gc_prefix :: string
  gc_atoms :: nat
  gc_bridge_rules :: nat
  gc_kb_type :: nat
  gc_topo :: topo
  gc_interfaces :: "nat list list"
  gc_sigma :: "BeliefTable list"
  gc_inst :: "BeliefStateOffset option"

text \<open>What the generator changes: the map of interfaces, in the order of its keys, \<open>minV\<close>, and the files.\<close>

record gen_state =
  g_lcim :: "(edge \<times> NewBeliefState) list"
  g_minV :: NewBeliefState
  g_files :: "string \<rightharpoonup> string"

definition write_local_kb :: "gen_config \<Rightarrow> nat \<Rightarrow> gen_rule list \<Rightarrow> gen_state \<Rightarrow> gen_state res" where
  "write_local_kb G i local_kb st = bind_res (vec_at (gc_sigma G) i) (\<lambda>sigma.
     bind_res (each (\<lambda>r. visitRule r i sigma) local_kb) (\<lambda>lines.
       Inr (st\<lparr>g_files := (g_files st)(gc_prefix G @ ''-'' @ nat_text i @ ''.lp'' \<mapsto> concat lines)\<rparr>)))"

definition write_bridge_rules :: "gen_config \<Rightarrow> nat \<Rightarrow> gen_bridge_rule list \<Rightarrow> gen_state \<Rightarrow> gen_state res" where
  "write_bridge_rules G i rules st = bind_res (each (\<lambda>r. visitBridgeRule r i (gc_sigma G)) rules) (\<lambda>lines.
     Inr (st\<lparr>g_files := (g_files st)(gc_prefix G @ ''-'' @ nat_text i @ ''.br'' \<mapsto> concat lines)\<rparr>))"

fun insert_interfaces :: "gen_config \<Rightarrow> nat \<Rightarrow> gen_bridge_rule list \<Rightarrow> nat list \<Rightarrow> gen_state \<Rightarrow> gen_state res" where
  "insert_interfaces G i rules [] st = Inr st"
| "insert_interfaces G i rules (j # js) st = bind_res (local_interface (gc_inst G) rules j) (\<lambda>V.
     insert_interfaces G i rules js (st\<lparr>g_lcim := map_insert (i, j) V (g_lcim st)\<rparr>))"

definition finish_context :: "gen_config \<Rightarrow> nat \<Rightarrow> nat list \<Rightarrow> gen_rule list \<Rightarrow> gen_bridge_rule list \<Rightarrow> gen_state \<Rightarrow> gen_state res" where
  "finish_context G i nbors local_kb rules st =
     bind_res (write_local_kb G i local_kb st) (\<lambda>st.
     bind_res (write_bridge_rules G i rules st) (\<lambda>st.
     bind_res (update_min_V (gc_inst G) rules (g_minV st)) (\<lambda>minV.
       insert_interfaces G i rules nbors (st\<lparr>g_minV := minV\<rparr>))))"

definition generate_context :: "gen_config \<Rightarrow> nat \<Rightarrow> gen_state \<Rightarrow> gen_state rnd" where
  "generate_context G i st =
     rbind (generate_local_kb (gc_kb_type G) (gc_atoms G)) (\<lambda>local_kb.
     rbind (rlift (vec_at (gc_topo G) i)) (\<lambda>nbors.
     rbind (if 0 < length nbors
       then generate_bridge_rule_list (gc_atoms G) (gc_bridge_rules G) (gc_interfaces G) nbors else rreturn []) (\<lambda>rules.
     rlift (finish_context G i nbors local_kb rules st))))"

definition generate_contexts :: "gen_config \<Rightarrow> gen_state \<Rightarrow> gen_state rnd" where
  "generate_contexts G = rfold (generate_context G) [0..<length (gc_interfaces G)]"

end
