(* ===== verification/Decimal_Text.thy ===== *)
theory Decimal_Text
  imports Plan_Grammars
begin

text \<open>Reading decimal numbers: the digits that \<open>nat_text\<close> writes determine the number.\<close>

definition is_digit :: "char \<Rightarrow> bool" where
  "is_digit c \<longleftrightarrow> 48 \<le> (of_char c :: nat) \<and> (of_char c :: nat) \<le> 57"

fun decimal :: "nat \<Rightarrow> string \<Rightarrow> nat" where
  "decimal n [] = n"
| "decimal n (c # cs) = decimal (10 * n + (of_char c - 48)) cs"

lemma decimal_append: "decimal n (cs @ ds) = decimal (decimal n cs) ds"
  by (induction cs arbitrary: n) auto

lemma digit_char: "d < 10 \<Longrightarrow> is_digit (char_of (48 + d)) \<and> (of_char (char_of (48 + d)) :: nat) = 48 + d" for d :: nat
  by (simp add: is_digit_def)

lemma nat_text_digits: "nat_text n \<noteq> [] \<and> list_all is_digit (nat_text n) \<and> decimal 0 (nat_text n) = n"
proof (induction n rule: nat_text.induct)
  case (1 n)
  show ?case
  proof (cases "n < 10")
    case True
    then show ?thesis using digit_char [of n] by (simp add: nat_text.simps [of n])
  next
    case False
    then show ?thesis using 1 digit_char [of "n mod 10"] by (simp add: nat_text.simps [of n] decimal_append)
  qed
qed

lemma nat_text_inj [simp]: "nat_text m = nat_text n \<longleftrightarrow> m = n"
  using nat_text_digits [of m] nat_text_digits [of n] by metis

lemma nat_text_not_Nil [simp]: "nat_text n \<noteq> []"
  using nat_text_digits [of n] by simp

lemma span_digits:
  assumes "rest = [] \<or> \<not> is_digit (hd rest)"
  shows "takeWhile is_digit (nat_text n @ rest) = nat_text n" and "dropWhile is_digit (nat_text n @ rest) = rest"
proof -
  have d: "\<forall>c\<in>set (nat_text n). is_digit c" using nat_text_digits [of n] by (simp add: list_all_iff)
  then show "takeWhile is_digit (nat_text n @ rest) = nat_text n" using assms by (cases rest) (simp_all add: takeWhile_append2)
  show "dropWhile is_digit (nat_text n @ rest) = rest" using d assms by (cases rest) (simp_all add: dropWhile_append2)
qed

text \<open>A number is followed by something that is not a digit, so a text that starts with a number can be read in one way only.\<close>

lemma nat_text_append_inj:
  assumes "nat_text m @ a = nat_text n @ b" and "a = [] \<or> \<not> is_digit (hd a)" and "b = [] \<or> \<not> is_digit (hd b)"
  shows "m = n \<and> a = b"
  using span_digits [OF assms(2), of m] span_digits [OF assms(3), of n] assms(1) by (metis nat_text_inj)

end
