(* ===== verification/Gen_Settles.thy ===== *)
theory Gen_Settles
  imports Gen_Contexts Decimal_Text
begin

unbundle bit_operations_syntax

text \<open>
  The benchmark generator never hangs on reasonable sizes, and what it generates fits together: tables, interfaces and bridge
  rules of contexts, and the interfaces of the edges.
\<close>

section \<open>Belief tables\<close>

lemma atom_text_inj: "atom_text i a = atom_text i b \<longleftrightarrow> a = b"
  by (simp add: atom_text_def)

definition gen_text :: "nat \<Rightarrow> nat \<Rightarrow> string" where
  "gen_text i a = (if a = 0 then ''epsilon'' else atom_text i a)"

lemma gen_text_inj: "gen_text i a = gen_text i b \<longleftrightarrow> a = b"
  by (auto simp: gen_text_def atom_text_inj) (auto simp: atom_text_def)

definition gen_table :: "nat \<Rightarrow> nat \<Rightarrow> BeliefTable" where
  "gen_table i k = \<lparr>bt_container = map (\<lambda>a. Belief_new_at (of_nat i) (of_nat a) (gen_text i a)) [0..<k], nextAddress = of_nat k\<rparr>"

lemma of_nat_32_inj: "a < 2 ^ 32 \<Longrightarrow> b < 2 ^ 32 \<Longrightarrow> (of_nat a :: 32 word) = of_nat b \<longleftrightarrow> a = b"
proof -
  have "unat (of_nat c :: 32 word) = c" if "c < 2 ^ 32" for c using that by (simp add: unat_of_nat)
  then show "a < 2 ^ 32 \<Longrightarrow> b < 2 ^ 32 \<Longrightarrow> ?thesis" by metis
qed

lemma store_next:
  assumes "k < 2 ^ 32"
  shows "\<exists>x. bt_storeAndGetID (gen_table i k) (Belief_new (of_nat i) (gen_text i k)) = Inr (gen_table i (Suc k), x)"
proof -
  have "isBelief \<lparr>kind = b_kind (Belief_new (of_nat i) (gen_text i k)), address = 0\<rparr>"
    using belief_kind [of "of_nat i"] by (simp add: isBelief_def Belief_new_def)
  moreover have "gen_text i k \<noteq> []" by (simp add: gen_text_def atom_text_def)
  moreover have "\<not> (\<exists>b\<in>set (bt_container (gen_table i k)). b_address b = of_nat k \<or> b_text b = gen_text i k)"
    using assms of_nat_32_inj gen_text_inj by (auto simp: gen_table_def Belief_new_at_def)
  ultimately show ?thesis
    by (simp add: bt_storeAndGetID_def bt_insert_def Let_def gen_table_def Belief_new_def Belief_new_at_def)
qed

lemma store_atoms_table:
  "1 \<le> k \<Longrightarrow> k + length js \<le> 2 ^ 32 \<Longrightarrow> js = [k - 1..<k - 1 + length js] \<Longrightarrow>
     store_atoms i js (gen_table i k) = Inr (gen_table i (k + length js))"
proof (induction js arbitrary: k)
  case (Cons j js)
  have "[k - 1..<k - 1 + length (j # js)] = (k - 1) # [k..<k + length js]"
    using Cons.prems(1) by (simp add: upt_conv_Cons)
  with Cons.prems(3) have j: "j = k - 1" "js = [k..<k + length js]" by simp_all
  have "atom_text i (j + 1) = gen_text i k" using j(1) Cons.prems(1) by (simp add: gen_text_def)
  moreover obtain x where "bt_storeAndGetID (gen_table i k) (Belief_new (of_nat i) (gen_text i k)) = Inr (gen_table i (Suc k), x)"
    using store_next [of k i] Cons.prems(2) by auto
  moreover have "store_atoms i js (gen_table i (Suc k)) = Inr (gen_table i (Suc k + length js))"
    by (rule Cons.IH) (use j Cons.prems in simp_all)
  ultimately show ?case by simp
qed simp

lemma gen_belief_table_ok: "s < 2 ^ 32 \<Longrightarrow> gen_belief_table s i = Inr (gen_table i (Suc s))"
proof -
  assume s: "s < 2 ^ 32"
  have "gen_table i 0 = BeliefTable_new" by (simp add: gen_table_def BeliefTable_new_def)
  moreover obtain x where "bt_storeAndGetID (gen_table i 0) (Belief_new (of_nat i) (gen_text i 0)) = Inr (gen_table i (Suc 0), x)"
    using store_next [of 0 i] by auto
  ultimately show ?thesis using store_atoms_table [of 1 "[0..<s]" i] s by (simp add: gen_belief_table_def gen_text_def)
qed

lemma each_ok: "(\<And>i. i \<in> set is \<Longrightarrow> f i = Inr (g i)) \<Longrightarrow> each f is = Inr (map g is)"
  by (induction "is") auto

lemma genBeliefTables_ok: "s < 2 ^ 32 \<Longrightarrow> genBeliefTables n s = Inr (map (\<lambda>i. gen_table i (Suc s)) [0..<n])"
  unfolding genBeliefTables_def by (intro each_ok) (simp add: gen_belief_table_ok)

lemma isBelief_ID: "i < 2 ^ 16 \<Longrightarrow> isBelief (belief_ID i a)"
proof -
  assume i: "i < 2 ^ 16"
  then have "(of_nat i :: 32 word) = ucast (of_nat i :: 16 word)" by (simp add: unsigned_of_nat take_bit_nat_eq_self)
  then show ?thesis using belief_kind [of "of_nat i"] by (simp add: isBelief_def belief_ID_def or.commute)
qed

lemma gen_table_get:
  assumes "i < 2 ^ 16" and "a < k" and "k \<le> 2 ^ 32"
  shows "bt_getByID (gen_table i k) (belief_ID i a) = Inr (Belief_new_at (of_nat i) (of_nat a) (gen_text i a))"
proof -
  have "distinct (map (of_nat :: nat \<Rightarrow> 32 word) [0..<k])"
    using assms(3) of_nat_32_inj by (auto simp: distinct_map inj_on_def)
  then have "find (\<lambda>b. b_address b = of_nat a) (map (\<lambda>a. Belief_new_at (of_nat i) (of_nat a) (gen_text i a)) [0..<k])
      = Some (Belief_new_at (of_nat i) (of_nat a) (gen_text i a))"
    using assms(2) by (intro find_map_distinct [where f = of_nat]) (simp_all add: Belief_new_at_def)
  then show ?thesis using isBelief_ID [OF assms(1)] by (simp add: bt_getByID_def gen_table_def belief_ID_def)
qed

lemma atom_name_table:
  "i < 2 ^ 16 \<Longrightarrow> 0 < a \<Longrightarrow> a \<le> s \<Longrightarrow> s < 2 ^ 32 \<Longrightarrow> atom_name i a (gen_table i (Suc s)) = Inr (atom_text i a)"
  using gen_table_get [of i a "Suc s"] by (simp add: atom_name_def Belief_new_at_def gen_text_def)

section \<open>Interfaces\<close>

lemma rand_below_settles: "0 < n \<Longrightarrow> settles (rand_below n) (\<lambda>x. x < n)"
  unfolding rand_below_def by (auto intro!: settles_bind [OF settles_rand] settles_return)

lemma rand_below_can: "c < n \<Longrightarrow> can (rand_below n) (\<lambda>x. x = c)"
  unfolding rand_below_def by (auto intro!: can_draw [of _ c] can_return)

lemma rand_below_takes: "takes (rand_below n)"
proof (cases "n = 0")
  case True
  then show ?thesis by (simp add: rand_below_def takes_def rlift_def)
next
  case False
  then show ?thesis by (simp add: rand_below_def takes_bind takes_rand shrinks_return)
qed

lemmas pick_shrinks = shrinks_rules rand_below_takes [THEN shrinks_takes]

lemma pick_round_takes: "takes (pick_round n x)"
  unfolding pick_round_def by (auto simp: Let_def split: prod.splits intro!: takes_bind rand_below_takes shrinks_rules)

definition interface_ok :: "nat \<Rightarrow> nat \<Rightarrow> nat list \<Rightarrow> bool" where
  "interface_ok n k iface \<longleftrightarrow> length iface = k \<and> distinct iface \<and> set iface \<subseteq> {1..n}"

lemma pick_atom_settles:
  assumes "interface_ok n k iface" and "k < n"
  shows "settles (pick_atom n iface) (interface_ok n (Suc k))"
proof -
  let ?I = "\<lambda>x. x = (iface, False)" and ?Q = "\<lambda>(f, b). interface_ok n (Suc k) f"
  have round: "settles (pick_round n x) (\<lambda>t. if snd t then ?Q t else ?I t)" if "?I x" for x
    unfolding that pick_round_def using assms
    by (auto simp: Let_def interface_ok_def subset_iff split: if_splits intro!: settles_bind [OF rand_below_settles] settles_return)
  obtain a where a: "a \<in> {1..n}" "a \<notin> set iface"
  proof -
    have "card (set iface) < card {1..n}" using assms by (simp add: interface_ok_def distinct_card)
    then have "\<not> {1..n} \<subseteq> set iface" by (metis List.finite_set card_mono not_le)
    then show ?thesis using that by blast
  qed
  have fin: "can (rloop (pick_round n) snd x) (\<lambda>_. True)" if "?I x" for x
  proof (rule can_rloop_done)
    have "can (rand_below n) (\<lambda>r. r = a - 1)" using a by (intro rand_below_can) auto
    then show "can (pick_round n x) (\<lambda>t. snd t \<and> True)" unfolding that pick_round_def prod.case
      by (rule can_bind [OF _ rand_below_settles]) (use a assms in \<open>auto simp: Let_def intro!: can_return\<close>)
  qed
  have "settles (rloop (pick_round n) snd (iface, False)) (\<lambda>t. ?Q t \<and> snd t)"
    by (rule settles_rloop [where I = ?I, OF round takesD [OF pick_round_takes] fin]) simp_all
  then show ?thesis unfolding pick_atom_def by (rule settles_bind) (auto intro!: settles_return)
qed

text \<open>The interface table of a context has the same entries as its belief table, at the atoms of the interface.\<close>

definition sub_table :: "nat \<Rightarrow> nat list \<Rightarrow> BeliefTable" where
  "sub_table i as = \<lparr>bt_container = map (\<lambda>a. Belief_new_at (of_nat i) (of_nat a) (atom_text i a)) as, nextAddress = 0\<rparr>"

lemma belief_ID_new: "i < 2 ^ 16 \<Longrightarrow> belief_ID i a = b_id (Belief_new_at (of_nat i) (of_nat a) t)"
  by (simp add: belief_ID_def b_id_def Belief_new_at_def unsigned_of_nat take_bit_nat_eq_self or.commute)

lemma sub_table_store:
  assumes "i < 2 ^ 16" and "a \<notin> set as" and "\<forall>x\<in>set (a # as). x < 2 ^ 32"
  shows "bt_storeWithID (sub_table i as) (Belief_new_at (of_nat i) (of_nat a) (atom_text i a)) (belief_ID i a) =
    Inr (sub_table i (as @ [a]), belief_ID i a)"
proof -
  have f: "\<not> (\<exists>b\<in>set (bt_container (sub_table i as)). b_address b = of_nat a \<or> b_text b = atom_text i a)"
    using assms(2,3) of_nat_32_inj atom_text_inj by (force simp: sub_table_def Belief_new_at_def)
  have k: "kind (belief_ID i a) = MAINKIND_BELIEF OR ucast (of_nat i :: 16 word)" "address (belief_ID i a) = of_nat a"
    using belief_ID_new [OF assms(1), of a "[]"] by (simp_all add: b_id_def Belief_new_at_def)
  have "nextAddress (sub_table i as) = 0" "atom_text i a \<noteq> []" by (simp_all add: sub_table_def atom_text_def)
  then show ?thesis using f isBelief_ID [OF assms(1)] k
    by (simp add: bt_storeWithID_def bt_insert_def Let_def Belief_new_at_def) (simp add: sub_table_def Belief_new_at_def)
qed

lemma interface_table_ok:
  assumes "i < 2 ^ 16" and "s < 2 ^ 31" and "distinct (as @ bs)" and "set (as @ bs) \<subseteq> {1..s}"
  shows "interface_table i (gen_table i (Suc s)) bs (sub_table i as) = Inr (sub_table i (as @ bs))"
  using assms(3,4)
proof (induction bs arbitrary: as)
  case (Cons b bs)
  have "bt_getByID (gen_table i (Suc s)) (belief_ID i b) = Inr (Belief_new_at (of_nat i) (of_nat b) (atom_text i b))"
    using gen_table_get [OF assms(1), of b "Suc s"] assms(2) Cons.prems(2) by (simp add: gen_text_def)
  moreover have "bt_storeWithID (sub_table i as) (Belief_new_at (of_nat i) (of_nat b) (atom_text i b)) (belief_ID i b) =
      Inr (sub_table i (as @ [b]), belief_ID i b)"
    by (rule sub_table_store [OF assms(1)]) (use Cons.prems assms(2) in auto)
  moreover have "interface_table i (gen_table i (Suc s)) bs (sub_table i (as @ [b])) = Inr (sub_table i (as @ b # bs))"
    using Cons.IH [of "as @ [b]"] Cons.prems by simp
  ultimately show ?case by simp
qed simp

lemma genInterface_settles:
  assumes "n \<le> 2 ^ 16" and "s < 2 ^ 31" and "k \<le> s"
  shows "settles (genInterface n s k (map (\<lambda>i. gen_table i (Suc s)) [0..<n]))
    (\<lambda>(ifs, tabs). length ifs = n \<and> (\<forall>f\<in>set ifs. interface_ok s k f) \<and> tabs = map (\<lambda>i. sub_table i (ifs ! i)) [0..<n])"
proof -
  let ?I = "\<lambda>i (ifs, tabs). length ifs = i \<and> (\<forall>f\<in>set ifs. interface_ok s k f) \<and> tabs = map (\<lambda>i. sub_table i (ifs ! i)) [0..<i]"
  have pick: "settles (rfold (\<lambda>_. pick_atom s) [0..<k] []) (interface_ok s k)"
    using settles_rfold [of "[0..<k]" "interface_ok s" "\<lambda>_. pick_atom s" "[]"] pick_atom_settles [of s] assms(3)
    by (simp add: interface_ok_def)
  have "settles (gen_interface s k (map (\<lambda>i. gen_table i (Suc s)) [0..<n]) i x) (?I (Suc i))" if i: "i < n" and I: "?I i x" for i x
  proof -
    obtain ifs tabs where x: "x = (ifs, tabs)" by fastforce
    have t: "interface_table i (gen_table i (Suc s)) (sort f) BeliefTable_new = Inr (sub_table i (sort f))" if "interface_ok s k f" for f
      using interface_table_ok [of i s "[]" "sort f"] that i assms by (simp add: interface_ok_def sub_table_def BeliefTable_new_def)
    have tabs: "map (\<lambda>j. sub_table j ((ifs @ [f]) ! j)) [0..<Suc i] = map (\<lambda>j. sub_table j (ifs ! j)) [0..<i] @ [sub_table i f]" for f
      using I x by (simp add: nth_append)
    show ?thesis unfolding gen_interface_def x prod.case Let_def
      using I x i t tabs by (intro settles_bind [OF pick] settles_bind [OF settles_lift [where P = "\<lambda>t. t = sub_table i (sort _)"]] settles_return)
        (auto simp: interface_ok_def)
  qed
  then have "settles (rfold (gen_interface s k (map (\<lambda>i. gen_table i (Suc s)) [0..<n])) [0..<n] ([], [])) (?I (length [0..<n]))"
    by (intro settles_rfold) auto
  then show ?thesis by (simp add: genInterface_def)
qed

section \<open>Bridge rules\<close>

text \<open>The beliefs that bridge rules of a context with the given neighbors may mention.\<close>

definition available :: "nat list list \<Rightarrow> nat list \<Rightarrow> (nat \<times> nat) set" where
  "available ifs nbors = {(c, a). c \<in> set nbors \<and> a \<in> set (ifs ! c)}"

definition partial_ok :: "nat list list \<Rightarrow> nat list \<Rightarrow> nat \<Rightarrow> gen_bridge_rule \<times> nat \<Rightarrow> bool" where
  "partial_ok ifs nbors h = (\<lambda>(r, count). gb_head r = [h] \<and> count = length (body_atoms r) \<and> distinct (body_atoms r)
     \<and> set (body_atoms r) \<subseteq> available ifs nbors)"

definition rule_ok :: "nat \<Rightarrow> nat list list \<Rightarrow> nat list \<Rightarrow> gen_bridge_rule \<Rightarrow> bool" where
  "rule_ok s ifs nbors r \<longleftrightarrow> (\<exists>h\<in>{1..s}. gb_head r = [h]) \<and> body_atoms r \<noteq> [] \<and> set (body_atoms r) \<subseteq> available ifs nbors"

text \<open>Neighbors with non-empty interfaces and at least two beliefs in them.\<close>

definition bridge_gen :: "nat list list \<Rightarrow> nat list \<Rightarrow> nat \<Rightarrow> bool" where
  "bridge_gen ifs nbors s \<longleftrightarrow> nbors \<noteq> [] \<and> (\<forall>c\<in>set nbors. c < length ifs) \<and> (\<forall>f\<in>set ifs. f \<noteq> [] \<and> set f \<subseteq> {1..s})
     \<and> (\<forall>x. \<exists>y\<in>available ifs nbors. y \<noteq> x) \<and> 0 < s"

lemma bg:
  assumes "bridge_gen ifs nbors s"
  shows "nbors \<noteq> []" and "\<forall>c\<in>set nbors. c < length ifs" and "\<forall>f\<in>set ifs. f \<noteq> [] \<and> set f \<subseteq> {1..s}"
    and "\<forall>x. \<exists>y\<in>available ifs nbors. y \<noteq> x" and "0 < s"
  using assms unfolding bridge_gen_def by blast+

lemma add_atom:
  assumes "partial_ok ifs nbors h (r, n)" and "(c, a) \<in> available ifs nbors" and "sg = 1 \<or> sg = - 1" and G: "bridge_gen ifs nbors s"
  shows "\<exists>r' d. addUniqueBridgeAtom r c (sg * int a) = (r', d) \<and> partial_ok ifs nbors h (r', n + d) \<and> d \<le> 1
    \<and> ((c, a) \<notin> set (body_atoms r) \<longrightarrow> d = 1 \<and> set (body_atoms r') = insert (c, a) (set (body_atoms r)))"
proof -
  have "c < length ifs" "a \<in> set (ifs ! c)" using assms(2) bg(2) [OF G] by (auto simp: available_def)
  then have "a \<in> {1..s}" using bg(3) [OF G] nth_mem by blast
  then have "0 < a" by simp
  then have "nat (max (sg * int a) (- (sg * int a))) = a" "sg * int a > 0 \<longleftrightarrow> sg = 1" using assms(3) by auto
  then show ?thesis using assms(1,2) by (auto simp: addUniqueBridgeAtom_def Let_def partial_ok_def body_atoms_def)
qed

lemma sign_settles: "settles sign (\<lambda>sg. sg = 1 \<or> sg = - 1)"
  unfolding sign_def by (auto split: if_splits intro!: settles_bind [OF settles_rand] settles_return)

lemma iface_of: "bridge_gen ifs nbors s \<Longrightarrow> c \<in> set nbors \<Longrightarrow> vec_at ifs c = Inr (ifs ! c) \<and> ifs ! c \<noteq> []"
  using bg(2,3) [of ifs nbors s] by (auto simp: vec_at_ok)

lemma round_settles:
  assumes "partial_ok ifs nbors h x" and G: "bridge_gen ifs nbors s"
  shows "settles (bridge_atom_round ifs nbors x) (\<lambda>t. partial_ok ifs nbors h t \<and> snd t \<le> Suc (snd x))"
proof -
  obtain r n where x: "x = (r, n)" by fastforce
  have "settles (rbind (rlift (vec_at ifs c)) (\<lambda>f. rbind (rand_below (length f)) (\<lambda>p. rbind sign (\<lambda>sg.
      let (r, d) = addUniqueBridgeAtom r c (sg * int (f ! p)) in rreturn (r, n + d)))))
      (\<lambda>t. partial_ok ifs nbors h t \<and> snd t \<le> Suc n)" if c: "c \<in> set nbors" for c
  proof (rule settles_bind [OF settles_lift [where P = "\<lambda>f. f = ifs ! c"]])
    show "vec_at ifs c = Inr (ifs ! c)" using iface_of [OF G c] by simp
  next
    fix f assume f: "f = ifs ! c"
    show "settles (rbind (rand_below (length f)) (\<lambda>p. rbind sign (\<lambda>sg.
      let (r, d) = addUniqueBridgeAtom r c (sg * int (f ! p)) in rreturn (r, n + d))))
      (\<lambda>t. partial_ok ifs nbors h t \<and> snd t \<le> Suc n)"
    proof (rule settles_bind [OF rand_below_settles])
      show "0 < length f" using iface_of [OF G c] f by simp
    next
      fix p assume "p < length f"
      then have a: "(c, f ! p) \<in> available ifs nbors" using c f by (simp add: available_def)
      show "settles (rbind sign (\<lambda>sg. let (r, d) = addUniqueBridgeAtom r c (sg * int (f ! p)) in rreturn (r, n + d)))
        (\<lambda>t. partial_ok ifs nbors h t \<and> snd t \<le> Suc n)"
        using add_atom [OF assms(1) [unfolded x] a _ G] by (intro settles_bind [OF sign_settles]) (fastforce intro!: settles_return)
    qed
  qed simp
  then show ?thesis unfolding bridge_atom_round_def x prod.case Let_def using bg(1) [OF G]
    by (intro settles_bind [OF rand_below_settles]) (auto simp: Let_def)
qed

lemma round_takes: "takes (bridge_atom_round ifs nbors x)"
  unfolding bridge_atom_round_def sign_def
  by (auto simp: Let_def split: prod.splits intro!: takes_bind rand_below_takes pick_shrinks)

lemma round_can:
  assumes "partial_ok ifs nbors h (r, n)" and "(c, a) \<in> available ifs nbors" and "(c, a) \<notin> set (body_atoms r)" and G: "bridge_gen ifs nbors s"
  shows "can (bridge_atom_round ifs nbors (r, n)) (\<lambda>t. partial_ok ifs nbors h t \<and> snd t = Suc n
    \<and> set (body_atoms (fst t)) = insert (c, a) (set (body_atoms r)))"
proof -
  obtain i where i: "i < length nbors" "nbors ! i = c" using assms(2) by (auto simp: available_def in_set_conv_nth)
  obtain j where j: "j < length (ifs ! c)" "ifs ! c ! j = a" using assms(2) by (auto simp: available_def in_set_conv_nth)
  have c: "vec_at ifs c = Inr (ifs ! c)" "ifs ! c \<noteq> []" using iface_of [OF G] i nth_mem by blast+
  have sg: "can sign (\<lambda>sg. sg = 1)" unfolding sign_def by (rule can_draw [of _ 1]) (simp add: can_return)
  from add_atom [OF assms(1,2) _ G, of 1] assms(3) obtain r' where
    r': "addUniqueBridgeAtom r c (1 * int a) = (r', 1)" "partial_ok ifs nbors h (r', Suc n)"
      "set (body_atoms r') = insert (c, a) (set (body_atoms r))" by auto
  show ?thesis unfolding bridge_atom_round_def prod.case Let_def
    by (rule can_bind [OF rand_below_can [OF i(1)] rand_below_settles], use bg(1) [OF G] in simp,
        rule can_bind [OF can_lift [where P = "\<lambda>f. f = ifs ! c"] settles_lift [where P = "\<lambda>f. True"]], use i c in simp, simp, use i c in simp, simp,
        rule can_bind [OF rand_below_can [of j] rand_below_settles], use j in simp, use c in simp,
        rule can_bind [OF sg sign_settles], use r' i j in \<open>simp add: can_return\<close>)
qed

text \<open>Both values of \<open>no_bridge_atoms\<close> can be reached, with any given atoms.\<close>

lemma atoms_can:
  assumes "partial_ok ifs nbors h (r, n)" and "as \<noteq> []" and "distinct as" and "set as \<subseteq> available ifs nbors - set (body_atoms r)" and G: "bridge_gen ifs nbors s"
  shows "can (rloop (bridge_atom_round ifs nbors) (\<lambda>(r, count). \<not> count < n + length as) (r, n))
    (\<lambda>t. set (body_atoms (fst t)) = set as \<union> set (body_atoms r))"
  using assms(1-4)
proof (induction as arbitrary: r n)
  case (Cons x as)
  obtain c a where x: "x = (c, a)" by fastforce
  have r: "can (bridge_atom_round ifs nbors (r, n)) (\<lambda>t. partial_ok ifs nbors h t \<and> snd t = Suc n
    \<and> set (body_atoms (fst t)) = insert (c, a) (set (body_atoms r)))" using round_can [OF Cons.prems(1) _ _ G, of c a] Cons.prems(4) x by auto
  show ?case
  proof (cases "as = []")
    case True
    have "can (bridge_atom_round ifs nbors (r, n)) (\<lambda>t. (case t of (r, count) \<Rightarrow> \<not> count < n + length (x # as)) \<and>
        set (body_atoms (fst t)) = set (x # as) \<union> set (body_atoms r))"
      using r by (auto simp: can_def True x)
    then show ?thesis by (rule can_rloop_done)
  next
    case False
    let ?J = "\<lambda>t. partial_ok ifs nbors h t \<and> snd t = Suc n \<and> set (body_atoms (fst t)) = insert (c, a) (set (body_atoms r))"
    have "can (bridge_atom_round ifs nbors (r, n)) (\<lambda>t. \<not> (case t of (r, count) \<Rightarrow> \<not> count < n + length (x # as)) \<and> ?J t)"
      using r False by (fastforce simp: can_def)
    then show ?thesis
    proof (rule can_rloop_step [where body = "bridge_atom_round ifs nbors" and J = ?J, OF _ round_takes round_settles [OF Cons.prems(1) G]])
      fix t assume t: "?J t"
      obtain r1 where r1: "t = (r1, Suc n)" using t by (cases t) auto
      have "can (rloop (bridge_atom_round ifs nbors) (\<lambda>(r, count). \<not> count < Suc n + length as) (r1, Suc n))
          (\<lambda>t. set (body_atoms (fst t)) = set as \<union> set (body_atoms r1))"
        by (rule Cons.IH) (use t r1 False Cons.prems x in auto)
      then show "can (rloop (bridge_atom_round ifs nbors) (\<lambda>(r, count). \<not> count < n + length (x # as)) t)
          (\<lambda>t. set (body_atoms (fst t)) = set (x # as) \<union> set (body_atoms r))"
        using t by (simp add: r1 x)
    qed
  qed
qed simp

lemma atoms_settle:
  assumes "m = 1 \<or> m = 2" and G: "bridge_gen ifs nbors s"
  shows "settles (rloop (bridge_atom_round ifs nbors) (\<lambda>(r, count). \<not> count < m) (\<lparr>gb_head = [h], gb_pos = [], gb_neg = []\<rparr>, 0))
    (\<lambda>t. partial_ok ifs nbors h t \<and> snd t = m)"
proof -
  let ?I = "\<lambda>t. partial_ok ifs nbors h t \<and> snd t < m" and ?f = "\<lambda>(r :: gen_bridge_rule, count). \<not> count < m"
  have body: "settles (bridge_atom_round ifs nbors t) (\<lambda>t. if ?f t then partial_ok ifs nbors h t \<and> snd t = m else ?I t)" if "?I t" for t
    using round_settles [OF _ G, of h t] that by (auto elim!: settles_mono split: prod.splits)
  have fin: "can (rloop (bridge_atom_round ifs nbors) ?f t) (\<lambda>_. True)" if I: "?I t" for t
  proof -
    obtain r n where t: "t = (r, n)" by fastforce
    have n: "n < m" "length (body_atoms r) = n" using I by (simp_all add: t partial_ok_def)
    have "length (body_atoms r) \<le> 1" using n assms by auto
    then obtain z where "set (body_atoms r) \<subseteq> {z}" by (cases "body_atoms r") auto
    then obtain x where x: "x \<in> available ifs nbors" "x \<notin> set (body_atoms r)" using bg(4) [OF G] by blast
    obtain y where y: "y \<in> available ifs nbors" "y \<noteq> x" using bg(4) [OF G] by blast
    obtain as where as: "as \<noteq> []" "distinct as" "set as \<subseteq> available ifs nbors - set (body_atoms r)" "n + length as = m"
    proof (cases "Suc n = m")
      case True
      then show ?thesis using that [of "[x]"] x by simp
    next
      case False
      then have "n = 0" "m = 2" using n assms by auto
      then show ?thesis using that [of "[x, y]"] x y n by simp
    qed
    show ?thesis using atoms_can [OF _ as(1-3) G, of h n] I as(4) by (auto simp: t can_def)
  qed
  have "settles (rloop (bridge_atom_round ifs nbors) ?f (\<lparr>gb_head = [h], gb_pos = [], gb_neg = []\<rparr>, 0))
      (\<lambda>t. (partial_ok ifs nbors h t \<and> snd t = m) \<and> ?f t)"
    by (rule settles_rloop [where I = ?I, OF body takesD [OF round_takes] fin])
      (use assms in \<open>auto simp: partial_ok_def body_atoms_def\<close>)
  then show ?thesis by (rule settles_mono) simp
qed

lemma rule_settles:
  assumes G: "bridge_gen ifs nbors s"
  shows "settles (generate_bridge_rule s ifs nbors) (rule_ok s ifs nbors)"
proof -
  have fin: "settles (rbind (rloop (bridge_atom_round ifs nbors) (\<lambda>(r, count). \<not> count < c mod 2 + 1)
       (\<lparr>gb_head = [h + 1], gb_pos = [], gb_neg = []\<rparr>, 0)) (\<lambda>(r, _). rreturn r)) (rule_ok s ifs nbors)" if h: "h < s" for h c
    by (rule settles_bind [OF atoms_settle [OF _ G]])
      (use h in \<open>auto simp: partial_ok_def rule_ok_def intro!: settles_return\<close>)
  then show ?thesis unfolding generate_bridge_rule_def Let_def
    by (intro settles_bind [OF rand_below_settles [OF bg(5) [OF G]]] settles_bind [OF settles_rand]) simp
qed

lemma rule_can:
  assumes "as \<noteq> []" and "length as \<le> 2" and "distinct as" and "set as \<subseteq> available ifs nbors" and G: "bridge_gen ifs nbors s"
  shows "can (generate_bridge_rule s ifs nbors) (\<lambda>r. set (body_atoms r) = set as)"
proof -
  have m: "(length as - 1) mod 2 + 1 = length as" using assms(1,2) by (cases as) auto
  have p: "partial_ok ifs nbors 1 (\<lparr>gb_head = [0 + 1], gb_pos = [], gb_neg = []\<rparr>, 0)" by (simp add: partial_ok_def body_atoms_def)
  have loop: "can (rloop (bridge_atom_round ifs nbors) (\<lambda>(r, count). \<not> count < length as) (\<lparr>gb_head = [0 + 1], gb_pos = [], gb_neg = []\<rparr>, 0))
      (\<lambda>t. set (body_atoms (fst t)) = set as)"
    using atoms_can [OF p assms(1,3) _ G] assms(4) by (simp add: body_atoms_def)
  have st: "settles (rloop (bridge_atom_round ifs nbors) (\<lambda>(r, count). \<not> count < length as) (\<lparr>gb_head = [0 + 1], gb_pos = [], gb_neg = []\<rparr>, 0))
      (\<lambda>t. partial_ok ifs nbors (0 + 1) t \<and> snd t = length as)"
    using assms(1,2) by (intro atoms_settle [OF _ G]) (cases as; auto simp: le_Suc_eq)
  have "can (rbind (rloop (bridge_atom_round ifs nbors) (\<lambda>(r, count). \<not> count < length as)
      (\<lparr>gb_head = [0 + 1], gb_pos = [], gb_neg = []\<rparr>, 0)) (\<lambda>(r, _). rreturn r)) (\<lambda>r. set (body_atoms r) = set as)"
    by (rule can_bind [OF loop st]) (simp add: can_return split_beta)
  then have "can (rbind rand (\<lambda>c. rbind (rloop (bridge_atom_round ifs nbors) (\<lambda>(r, count). \<not> count < c mod 2 + 1)
      (\<lparr>gb_head = [h + 1], gb_pos = [], gb_neg = []\<rparr>, 0)) (\<lambda>(r, _). rreturn r))) (\<lambda>r. set (body_atoms r) = set as)" if "h = 0" for h
    unfolding that by (intro can_draw [of _ "length as - 1"]) (simp only: m)
  then show ?thesis unfolding generate_bridge_rule_def Let_def
    by (rule can_bind [OF rand_below_can [OF bg(5) [OF G]] rand_below_settles [OF bg(5) [OF G]]])
qed

abbreviation maybe_rule :: "nat \<Rightarrow> nat list list \<Rightarrow> nat list \<Rightarrow> gen_bridge_rule list \<Rightarrow> gen_bridge_rule list rnd" where
  "maybe_rule s ifs nbors rules \<equiv> rbind rand (\<lambda>r. if r mod 2 \<noteq> 0
       then rbind (generate_bridge_rule s ifs nbors) (\<lambda>r. rreturn (rules @ [r])) else rreturn rules)"

lemma maybe_settles:
  assumes "\<forall>r\<in>set rules. rule_ok s ifs nbors r" and G: "bridge_gen ifs nbors s"
  shows "settles (maybe_rule s ifs nbors rules) (\<lambda>rules. \<forall>r\<in>set rules. rule_ok s ifs nbors r)"
proof (rule settles_bind [OF settles_rand])
  fix r :: nat
  have "settles (rbind (generate_bridge_rule s ifs nbors) (\<lambda>r. rreturn (rules @ [r]))) (\<lambda>rules. \<forall>r\<in>set rules. rule_ok s ifs nbors r)"
    by (rule settles_bind [OF rule_settles [OF G]]) (use assms in \<open>auto intro!: settles_return\<close>)
  then show "settles (if r mod 2 \<noteq> 0 then rbind (generate_bridge_rule s ifs nbors) (\<lambda>r. rreturn (rules @ [r])) else rreturn rules)
      (\<lambda>rules. \<forall>r\<in>set rules. rule_ok s ifs nbors r)" using assms by (auto intro!: settles_return)
qed

lemma rules_round_settles:
  assumes G: "bridge_gen ifs nbors s"
  shows "settles (bridge_rules_round s B ifs nbors x) (\<lambda>rules. \<forall>r\<in>set rules. rule_ok s ifs nbors r)"
  unfolding bridge_rules_round_def by (rule settles_rfold_inv) (use maybe_settles G in simp_all)

lemma rule_shrinks: "shrinks (generate_bridge_rule s ifs nbors)"
  unfolding generate_bridge_rule_def Let_def
  by (intro shrinks_rules pick_shrinks round_takes [THEN shrinks_takes]) (auto intro: shrinks_return split: prod.splits)

lemma rules_round_takes:
  assumes "0 < B"
  shows "takes (bridge_rules_round s B ifs nbors x)"
proof -
  have "takes (maybe_rule s ifs nbors rules)" for rules
  proof (rule takes_bind [OF takes_rand])
    fix r :: nat
    have "shrinks (rbind (generate_bridge_rule s ifs nbors) (\<lambda>r. rreturn (rules @ [r])))"
      by (intro shrinks_bind rule_shrinks shrinks_return)
    then show "shrinks (if r mod 2 \<noteq> 0 then rbind (generate_bridge_rule s ifs nbors) (\<lambda>r. rreturn (rules @ [r])) else rreturn rules)"
      by (simp add: shrinks_return)
  qed
  then show ?thesis using assms unfolding bridge_rules_round_def by (intro takes_rfold) auto
qed

text \<open>The neighbors that rules mention, and the rules that mention the first neighbors of the list, two at a time.\<close>

definition mentioned :: "gen_bridge_rule list \<Rightarrow> nat set" where
  "mentioned rules = (\<Union>r\<in>set rules. fst ` set (body_atoms r))"

lemma mentioned_simps [simp]: "mentioned [] = {}" "mentioned (rules @ [r]) = mentioned rules \<union> fst ` set (body_atoms r)"
  by (auto simp: mentioned_def)

lemma cover_neighbors_iff:
  assumes "distinct nbors" and "\<forall>r\<in>set rules. rule_ok s ifs nbors r"
  shows "cover_neighbors nbors rules \<longleftrightarrow> mentioned rules = set nbors"
proof -
  have c: "length (remdups (concat (map (\<lambda>r. map fst (gb_pos r) @ map fst (gb_neg r)) rules))) = card (mentioned rules)"
    by (auto simp: length_remdups_card_conv mentioned_def body_atoms_def intro!: arg_cong [where f = card])
  have sub: "mentioned rules \<subseteq> set nbors" using assms(2) by (fastforce simp: mentioned_def rule_ok_def available_def)
  have "card (mentioned rules) = card (set nbors) \<longleftrightarrow> mentioned rules = set nbors"
    using card_subset_eq [OF _ sub] by auto
  then show ?thesis using assms(1) unfolding cover_neighbors_def c by (simp add: distinct_card)
qed

lemma maybe_can:
  assumes "distinct nbors" and "mentioned rules = set (take (2 * i) nbors)" and G: "bridge_gen ifs nbors s"
  shows "can (maybe_rule s ifs nbors rules) (\<lambda>rules. mentioned rules = set (take (2 * Suc i) nbors))"
proof -
  define next2 where "next2 = take 2 (drop (2 * i) nbors)"
  have t: "take (2 * Suc i) nbors = take (2 * i) nbors @ next2" by (simp add: next2_def take_add [symmetric])
  show ?thesis
  proof (cases "next2 = []")
    case True
    then show ?thesis using assms(2) t by (intro can_draw [of _ 0]) (simp add: can_return)
  next
    case False
    let ?as = "map (\<lambda>c. (c, ifs ! c ! 0)) next2"
    have "set next2 \<subseteq> set nbors" unfolding next2_def by (meson in_set_dropD in_set_takeD subsetI)
    then have "set ?as \<subseteq> available ifs nbors" using iface_of [OF G] by (force simp: available_def)
    moreover have "distinct ?as" using assms(1) by (simp add: distinct_map inj_on_def next2_def)
    moreover have "?as \<noteq> []" "length ?as \<le> 2" using False by (simp_all add: next2_def)
    ultimately have "can (generate_bridge_rule s ifs nbors) (\<lambda>r. set (body_atoms r) = set ?as)" by (intro rule_can G)
    then have "can (rbind (generate_bridge_rule s ifs nbors) (\<lambda>r. rreturn (rules @ [r])))
        (\<lambda>rules. mentioned rules = set (take (2 * Suc i) nbors))"
      by (rule can_bind [OF _ rule_settles [OF G]]) (use assms(2) t in \<open>auto simp: image_image intro!: can_return\<close>)
    then show ?thesis by (intro can_draw [of _ 1]) simp
  qed
qed

lemma rules_settle:
  assumes "distinct nbors" and "length nbors \<le> 2 * B" and G: "bridge_gen ifs nbors s"
  shows "settles (generate_bridge_rule_list s B ifs nbors)
    (\<lambda>rules. (\<forall>r\<in>set rules. rule_ok s ifs nbors r) \<and> mentioned rules = set nbors)"
proof -
  let ?ok = "\<lambda>rules. \<forall>r\<in>set rules. rule_ok s ifs nbors r"
  have B: "0 < B" using assms(2) bg(1) [OF G] by (cases B) auto
  have cov: "can (bridge_rules_round s B ifs nbors x) (\<lambda>rules. mentioned rules = set (take (2 * length [0..<B]) nbors) \<and> ?ok rules)" for x
    unfolding bridge_rules_round_def
  proof (rule can_rfold [where I = "\<lambda>i rules. mentioned rules = set (take (2 * i) nbors) \<and> ?ok rules"])
    fix i rules assume I: "mentioned rules = set (take (2 * i) nbors) \<and> ?ok rules"
    have "can (maybe_rule s ifs nbors rules) (\<lambda>rules. mentioned rules = set (take (2 * Suc i) nbors))" using maybe_can [OF assms(1) _ G] I by blast
    then show "can (maybe_rule s ifs nbors rules) (\<lambda>rules. mentioned rules = set (take (2 * Suc i) nbors) \<and> ?ok rules) \<and> (\<exists>S. settles (maybe_rule s ifs nbors rules) S)"
      using maybe_settles [OF _ G] I settlesD(1) [OF maybe_settles [OF _ G]] unfolding can_def by blast
  qed simp
  have fin: "can (rloop (bridge_rules_round s B ifs nbors) (cover_neighbors nbors) x) (\<lambda>_. True)" for x
  proof (rule can_rloop_done)
    have "take (2 * length [0..<B]) nbors = nbors" using assms(2) by simp
    with cov [of x] show "can (bridge_rules_round s B ifs nbors x) (\<lambda>t. cover_neighbors nbors t \<and> True)"
      unfolding can_def using cover_neighbors_iff [OF assms(1)] by metis
  qed
  have "settles (rloop (bridge_rules_round s B ifs nbors) (cover_neighbors nbors) []) (\<lambda>rules. ?ok rules \<and> cover_neighbors nbors rules)"
    by (rule settles_rloop [where I = "\<lambda>_. True", OF settles_mono [OF rules_round_settles [OF G]] takesD [OF rules_round_takes [OF B]] fin])
      simp_all
  then show ?thesis unfolding generate_bridge_rule_list_def
    by (rule settles_mono) (use cover_neighbors_iff [OF assms(1)] in blast)
qed

end
