(* ===== verification/Gen_System.thy ===== *)
theory Gen_System
  imports Gen_Settles
begin

text \<open>
  The benchmark generator as a whole (\<open>src/generator/new_staticGen.cpp\<close>, \<open>init\<close> and the data that \<open>main\<close> generates): from the
  sizes that were asked for to the knowledge bases, the bridge rules, the interfaces of all edges and the optimal topology.
\<close>

section \<open>The generator\<close>

fun set_positions :: "nat list \<Rightarrow> NewBeliefState \<Rightarrow> NewBeliefState res" where
  "set_positions [] bs = Inr bs"
| "set_positions (p # ps) bs = bind_res (bs_set bs p DMCS_TRUE) (set_positions ps)"

definition init_minV :: "BeliefStateOffset \<Rightarrow> nat \<Rightarrow> nat \<Rightarrow> NewBeliefState res" where
  "init_minV bso no_contexts no_atoms =
     bind_res (setEpsilon_all (bs_new_blocks no_contexts no_atoms False) (bso_starting_offsets bso)) (\<lambda>minV.
     bind_res (if no_contexts > 1 then bind_res (vec_at (bso_starting_offsets bso) 1) (\<lambda>o1. Inr (sz_sub o1 1)) else Inr no_atoms) (\<lambda>last_index.
       set_positions [1..<last_index + 1] minV))"

definition init_generator :: "nat \<Rightarrow> nat \<Rightarrow> nat \<Rightarrow> (BeliefStateOffset \<times> BeliefTable list \<times> nat list list \<times> NewBeliefState) rnd" where
  "init_generator no_contexts no_atoms no_interface_atoms =
     rbind (rlift (bso_create None no_contexts no_atoms)) (\<lambda>bso.
     rbind (rlift (genBeliefTables no_contexts no_atoms)) (\<lambda>sigma_vec.
     rbind (genInterface no_contexts no_atoms no_interface_atoms sigma_vec) (\<lambda>(context_interfaces, _).
     rbind (rlift (init_minV bso no_contexts no_atoms)) (\<lambda>new_minV.
       rreturn (bso, sigma_vec, context_interfaces, new_minV)))))"

text \<open>The command line of the generator, as far as it determines what is generated.\<close>

record gen_input =
  i_prefix :: string
  i_topology_type :: nat
  i_local_kb_type :: nat
  i_contexts :: nat
  i_atoms :: nat
  i_interface_atoms :: nat
  i_bridge_rules :: nat

record gen_output =
  o_topo :: topo
  o_interfaces :: "nat list list"
  o_contexts :: gen_state
  o_opt :: "opt_world option"

text \<open>The checks of \<open>read_input\<close>; those of the number of contexts are with the topologies.\<close>

definition read_input_accepts :: "bool \<Rightarrow> string \<Rightarrow> gen_input \<Rightarrow> bool" where
  "read_input_accepts help dmcspath c \<longleftrightarrow> \<not> (help \<or> i_prefix c = [] \<or> dmcspath = [] \<or> i_contexts c = 0 \<or> i_atoms c = 0
     \<or> i_interface_atoms c = 0 \<or> i_bridge_rules c = 0 \<or> (i_local_kb_type c \<noteq> 0 \<and> i_local_kb_type c \<noteq> 1))
     \<and> accepted_input (i_topology_type c) (i_contexts c)"

definition RANDOM_TOPOLOGY :: nat where "RANDOM_TOPOLOGY = 0"

definition generate_data :: "gen_input \<Rightarrow> gen_output rnd" where
  "generate_data c =
     rbind (init_generator (i_contexts c) (i_atoms c) (i_interface_atoms c)) (\<lambda>(bso, sigma_vec, context_interfaces, new_minV).
     rbind (generate_orig_topology (i_topology_type c) (i_contexts c)) (\<lambda>orig_topo.
     rbind (generate_contexts \<lparr>gc_prefix = i_prefix c, gc_atoms = i_atoms c, gc_bridge_rules = i_bridge_rules c,
         gc_kb_type = i_local_kb_type c, gc_topo = orig_topo, gc_interfaces = context_interfaces, gc_sigma = sigma_vec,
         gc_inst = Some bso\<rparr> \<lparr>g_lcim = [], g_minV = new_minV, g_files = Map.empty\<rparr>) (\<lambda>st.
     rbind (if i_topology_type c \<noteq> RANDOM_TOPOLOGY \<and> i_topology_type c \<noteq> DIAMOND_ARBITRARY_TOPOLOGY
         \<and> i_topology_type c \<noteq> RING_EDGE_TOPOLOGY
       then rbind (rlift (generate_opt_topology (i_topology_type c) (i_contexts c) (g_lcim st))) (\<lambda>w. rreturn (Some w))
       else rreturn None) (\<lambda>w.
       rreturn \<lparr>o_topo = orig_topo, o_interfaces = context_interfaces, o_contexts = st, o_opt = w\<rparr>))))"

section \<open>Local knowledge bases\<close>

definition kb_ok :: "nat \<Rightarrow> gen_rule \<Rightarrow> bool" where
  "kb_ok s r \<longleftrightarrow> gr_head r \<noteq> [] \<and> set (gr_head r @ gr_pos r @ gr_neg r) \<subseteq> {1..s}"

lemma kb_ok_neg [simp]: "kb_ok s (neg_rule i j) \<longleftrightarrow> i \<in> {1..s} \<and> j \<in> {1..s}"
  by (auto simp: kb_ok_def neg_rule_def)

lemma local_kb_settles: "settles (generate_local_kb ty s) (\<lambda>kb. \<forall>r\<in>set kb. kb_ok s r)"
proof -
  have d: "settles (deterministic_rule s i kb) (\<lambda>kb. \<forall>r\<in>set kb. kb_ok s r)"
    if "i \<in> set [1..<s + 1]" "\<forall>r\<in>set kb. kb_ok s r" for i kb
    using that unfolding deterministic_rule_def
    by (auto intro!: settles_bind [OF settles_rand] settles_return split: if_splits)
  have n: "settles (nondeterministic_rule s i kb) (\<lambda>kb. \<forall>r\<in>set kb. kb_ok s r)"
    if "i \<in> set [1..<s + 1]" "\<forall>r\<in>set kb. kb_ok s r" for i kb
  proof -
    have "i - 1 \<in> {1..s}" if "i mod 2 = 0" using that \<open>i \<in> set [1..<s + 1]\<close> by simp presburger
    then show ?thesis using that unfolding nondeterministic_rule_def
      by (auto intro!: settles_bind [OF settles_rand] settles_return split: if_splits)
  qed
  show ?thesis unfolding generate_local_kb_def
  proof (rule settles_rfold_inv)
    fix i kb
    assume "i \<in> set [1..<s + 1]" "\<forall>r\<in>set kb. kb_ok s r"
    then show "settles ((if ty = 0 then nondeterministic_rule s else deterministic_rule s) i kb) (\<lambda>kb. \<forall>r\<in>set kb. kb_ok s r)"
      using d n by simp
  qed simp
qed

section \<open>Texts\<close>

definition kb_text :: "nat \<Rightarrow> gen_rule \<Rightarrow> string" where
  "kb_text i r = separated ''v '' (map (atom_text i) (gr_head r)) @ '':- ''
     @ separated '', '' (map (atom_text i) (gr_pos r) @ map (\<lambda>a. ''not '' @ atom_text i a) (gr_neg r)) @ ''.'' @ endl"

definition bridge_text :: "nat \<Rightarrow> gen_bridge_rule \<Rightarrow> string" where
  "bridge_text i r = separated ''v '' (map (atom_text i) (gb_head r)) @ '':- ''
     @ separated '', '' (map (\<lambda>(c, a). ''('' @ nat_text c @ '':'' @ atom_text c a @ '')'') (gb_pos r)
         @ map (\<lambda>(c, a). ''not ('' @ nat_text c @ '':'' @ atom_text c a @ '')'') (gb_neg r)) @ ''.'' @ endl"

lemma visitRule_text:
  assumes "i < 2 ^ 16" and "s < 2 ^ 31" and "kb_ok s r"
  shows "visitRule r i (gen_table i (Suc s)) = Inr (kb_text i r)"
proof -
  have n: "atom_name i a (gen_table i (Suc s)) = Inr (atom_text i a)" if "a \<in> {1..s}" for a
    using atom_name_table [OF assms(1), of a s] that assms(2) by simp
  have "each (\<lambda>a. atom_name i a (gen_table i (Suc s))) as = Inr (map (atom_text i) as)" if "set as \<subseteq> {1..s}" for as
    using that n by (intro each_ok) blast
  moreover have "each (\<lambda>a. bind_res (atom_name i a (gen_table i (Suc s))) (\<lambda>n. Inr (''not '' @ n))) as = Inr (map (\<lambda>a. ''not '' @ atom_text i a) as)"
    if "set as \<subseteq> {1..s}" for as
    by (rule each_ok) (use that n in fastforce)
  ultimately show ?thesis using assms(3) by (simp add: visitRule_def kb_text_def kb_ok_def)
qed

lemma visitBridgeRule_text:
  assumes "n \<le> 2 ^ 16" and "i < n" and "s < 2 ^ 31" and "rule_ok s ifs nbors r"
    and ifs: "length ifs = n" "\<forall>f\<in>set ifs. set f \<subseteq> {1..s}" "\<forall>c\<in>set nbors. c < n"
  shows "visitBridgeRule r i (map (\<lambda>i. gen_table i (Suc s)) [0..<n]) = Inr (bridge_text i r)"
proof -
  let ?tabs = "map (\<lambda>i. gen_table i (Suc s)) [0..<n]"
  have v: "vec_at (map (\<lambda>i. gen_table i (Suc s)) [0..<n]) c = Inr (gen_table c (Suc s))" if "c < n" for c
    using that by (simp add: vec_at_ok)
  have n: "atom_name c a (gen_table c (Suc s)) = Inr (atom_text c a)" if "c < n" "a \<in> {1..s}" for c a
    using atom_name_table [of c a s] that assms(1,3) by simp
  have av: "c < n \<and> a \<in> {1..s}" if "(c, a) \<in> set (body_atoms r)" for c a
  proof -
    have "c \<in> set nbors" "a \<in> set (ifs ! c)" using that assms(4) by (auto simp: rule_ok_def available_def)
    then show ?thesis using ifs nth_mem by blast
  qed
  have h: "each (\<lambda>a. atom_name i a (gen_table i (Suc s))) (gb_head r) = Inr (map (atom_text i) (gb_head r))"
    using assms(4) n [OF assms(2)] by (intro each_ok) (auto simp: rule_ok_def)
  have pr: "printPositiveBridgeRule ?tabs (c, a) = Inr (''('' @ nat_text c @ '':'' @ atom_text c a @ '')'') \<and>
      printNegativeBridgeRule ?tabs (c, a) = Inr (''not ('' @ nat_text c @ '':'' @ atom_text c a @ '')'')"
    if "(c, a) \<in> set (body_atoms r)" for c a
    using av [OF that] v [of c] n [of c a] by (simp add: printPositiveBridgeRule_def printNegativeBridgeRule_def)
  have p: "each (printPositiveBridgeRule ?tabs) (gb_pos r) =
      Inr (map (\<lambda>(c, a). ''('' @ nat_text c @ '':'' @ atom_text c a @ '')'') (gb_pos r))"
    by (rule each_ok) (use pr in \<open>auto simp: body_atoms_def\<close>)
  have g: "each (printNegativeBridgeRule ?tabs) (gb_neg r) =
      Inr (map (\<lambda>(c, a). ''not ('' @ nat_text c @ '':'' @ atom_text c a @ '')'') (gb_neg r))"
    by (rule each_ok) (use pr in \<open>auto simp: body_atoms_def\<close>)
  show ?thesis using h p g v [OF assms(2)] by (simp add: visitBridgeRule_def bridge_text_def)
qed

section \<open>Interfaces of the edges\<close>

text \<open>The beliefs in the bodies of rules, and the interface to a neighbor: its epsilon bit and its beliefs among them.\<close>

definition rule_beliefs :: "gen_bridge_rule list \<Rightarrow> (nat \<times> nat) set" where
  "rule_beliefs rules = (\<Union>r\<in>set rules. set (body_atoms r))"

definition edge_interface :: "nat \<Rightarrow> nat \<Rightarrow> gen_bridge_rule list \<Rightarrow> nat \<Rightarrow> NewBeliefState \<Rightarrow> bool" where
  "edge_interface n s rules j V \<longleftrightarrow> wf_bs (block_start s n) V \<and>
     (\<forall>p. bs_view V p = (if p = block_start s j \<or> (\<exists>a. (j, a) \<in> rule_beliefs rules \<and> p = block_start s j + a)
        then DMCS_TRUE else DMCS_UNDEF))"

lemma set_beliefs_view:
  assumes "wf_bs (block_start s n) bs" and "\<forall>(c, a)\<in>set as. c < n \<and> a \<le> s"
  shows "\<exists>bs'. set_beliefs (bso_starting_offsets (layout n s)) as bs = Inr bs' \<and> wf_bs (block_start s n) bs' \<and>
    (\<forall>p. bs_view bs' p = (if p \<in> (\<lambda>(c, a). block_start s c + a) ` set as then DMCS_TRUE else bs_view bs p))"
  using assms
proof (induction as arbitrary: bs)
  case (Cons x as)
  obtain c a where x: "x = (c, a)" "c < n" "a \<le> s" using Cons.prems(2) by (cases x) auto
  obtain b where b: "set_beliefs (bso_starting_offsets (layout n s)) [(c, a)] bs = Inr b" "wf_bs (block_start s n) b"
      "\<forall>p. bs_view b p = (if p = block_start s c + a then DMCS_TRUE else bs_view bs p)"
  proof -
    have "\<forall>i\<in>set [a]. i \<le> s" using x by simp
    from activate_loop_view [OF Cons.prems(1) x(2) this] that show ?thesis by (auto simp: bind_res_eq_Inr)
  qed
  from Cons.IH [OF b(2)] Cons.prems(2) obtain bs' where
    "set_beliefs (bso_starting_offsets (layout n s)) as b = Inr bs'" "wf_bs (block_start s n) bs'"
    "\<forall>p. bs_view bs' p = (if p \<in> (\<lambda>(c, a). block_start s c + a) ` set as then DMCS_TRUE else bs_view b p)" by auto
  then show ?case using b(1,3) by (auto simp: x bind_res_def split: sum.splits)
qed simp

lemma local_interface_edge:
  assumes "\<forall>(c, a)\<in>rule_beliefs rules. c < n \<and> a \<le> s" and "j < n"
  shows "\<exists>V. local_interface (Some (layout n s)) rules j = Inr V \<and> edge_interface n s rules j V"
proof -
  let ?as = "filter (\<lambda>b. fst b = j) (concat (map body_atoms rules))"
  have as: "set ?as = {(c, a). c = j \<and> (j, a) \<in> rule_beliefs rules}" by (auto simp: rule_beliefs_def)
  have "wf_bs (block_start s n) (bs_new_blocks n s False)" by (simp only: block_start_def wf_bs_new_blocks)
  from setEpsilon_upto_view [OF this, of "[j]"] assms(2) obtain e where
    e: "setEpsilon (bs_new_blocks n s False) j (bso_starting_offsets (layout n s)) = Inr e" "wf_bs (block_start s n) e"
      "\<forall>p. bs_view e p = (if p = block_start s j then DMCS_TRUE else DMCS_UNDEF)" by (auto simp: bind_res_def split: sum.splits)
  have "\<forall>(c, a)\<in>set ?as. c < n \<and> a \<le> s" using assms unfolding as by auto
  from set_beliefs_view [OF e(2) this] obtain V where
    V: "set_beliefs (bso_starting_offsets (layout n s)) ?as e = Inr V" "wf_bs (block_start s n) V"
      "\<forall>p. bs_view V p = (if p \<in> (\<lambda>(c, a). block_start s c + a) ` set ?as then DMCS_TRUE else bs_view e p)" by blast
  have "edge_interface n s rules j V" unfolding edge_interface_def using V(2,3) e(3) unfolding as by auto
  then show ?thesis using V(1) e(1) by (auto simp: local_interface_def bso_instance_def)
qed

lemma update_min_V_view:
  assumes "\<forall>(c, a)\<in>rule_beliefs rules. c < n \<and> a \<le> s" and "wf_bs (block_start s n) m"
  shows "\<exists>m'. update_min_V (Some (layout n s)) rules m = Inr m' \<and> wf_bs (block_start s n) m' \<and>
    (\<forall>p. bs_view m' p = (if p \<in> (\<lambda>(c, a). block_start s c + a) ` rule_beliefs rules then DMCS_TRUE else bs_view m p))"
proof -
  have as: "set (concat (map body_atoms rules)) = rule_beliefs rules" by (auto simp: rule_beliefs_def)
  show ?thesis
  proof (cases "concat (map body_atoms rules) = []")
    case True
    then have "rule_beliefs rules = {}" using as by (metis list.set(1))
    then show ?thesis using assms(2) True by (simp add: update_min_V_def Let_def)
  next
    case False
    then show ?thesis using set_beliefs_view [OF assms(2), of "concat (map body_atoms rules)"] assms(1)
      unfolding as update_min_V_def Let_def if_not_P [OF False] by (simp add: bso_instance_def)
  qed
qed

lemma insert_interfaces_ok:
  assumes "\<forall>(c, a)\<in>rule_beliefs rules. c < n \<and> a \<le> s" and "gc_inst G = Some (layout n s)"
    and "\<forall>j\<in>set js. j < n" and "distinct js" and "\<forall>j\<in>set js. (i, j) \<notin> fst ` set (g_lcim st)" and "sorted_wrt (<) (map fst (g_lcim st))"
  shows "\<exists>m. insert_interfaces G i rules js st = Inr (st\<lparr>g_lcim := m\<rparr>) \<and> sorted_wrt (<) (map fst m)
    \<and> fst ` set m = fst ` set (g_lcim st) \<union> Pair i ` set js
    \<and> (\<forall>e. e \<notin> Pair i ` set js \<longrightarrow> map_of m e = map_of (g_lcim st) e)
    \<and> (\<forall>j\<in>set js. \<exists>V. map_of m (i, j) = Some V \<and> edge_interface n s rules j V)"
  using assms(3-6)
proof (induction js arbitrary: st)
  case (Cons j js)
  obtain V where V: "local_interface (Some (layout n s)) rules j = Inr V" "edge_interface n s rules j V"
    using local_interface_edge [OF assms(1), of j] Cons.prems(1) by auto
  let ?m = "map_insert (i, j) V (g_lcim st)"
  have mo: "map_of ?m = (map_of (g_lcim st))((i, j) \<mapsto> V)"
    using map_of_map_insert [OF Cons.prems(4), of "(i, j)" V] Cons.prems(3) by (auto simp: map_of_eq_None_iff [symmetric] split: option.splits)
  have k: "fst ` set ?m = insert (i, j) (fst ` set (g_lcim st))" by (rule set_map_insert)
  have "\<forall>x\<in>set js. (i, x) \<notin> fst ` set ?m" using Cons.prems(2,3) unfolding k by auto
  moreover have "sorted_wrt (<) (map fst ?m)" by (rule sorted_map_insert [OF Cons.prems(4)])
  ultimately obtain m where
    m: "insert_interfaces G i rules js (st\<lparr>g_lcim := ?m\<rparr>) = Inr (st\<lparr>g_lcim := m\<rparr>)" "sorted_wrt (<) (map fst m)"
      "fst ` set m = fst ` set ?m \<union> Pair i ` set js" "\<forall>e. e \<notin> Pair i ` set js \<longrightarrow> map_of m e = map_of ?m e"
      "\<forall>j\<in>set js. \<exists>V. map_of m (i, j) = Some V \<and> edge_interface n s rules j V"
    using Cons.IH [of "st\<lparr>g_lcim := ?m\<rparr>"] Cons.prems(1,2) by auto
  have "(i, j) \<notin> Pair i ` set js" using Cons.prems(2) by auto
  then have "map_of m (i, j) = Some V" using m(4) mo by simp
  moreover have "map_of m e = map_of (g_lcim st) e" if "e \<notin> Pair i ` set (j # js)" for e
    using spec [OF m(4), of e] mo that by simp
  moreover have "fst ` set m = fst ` set (g_lcim st) \<union> Pair i ` set (j # js)" using m(3) k by auto
  ultimately show ?case using m(1,2,5) V assms(2) by (intro exI [of _ m]) (simp add: assms(2))
next
  case Nil
  then show ?case by (intro exI [of _ "g_lcim st"]) simp
qed

section \<open>Contexts\<close>

abbreviation context_file :: "string \<Rightarrow> nat \<Rightarrow> string \<Rightarrow> string" where
  "context_file prefix i ext \<equiv> prefix @ ''-'' @ nat_text i @ ext"

lemma context_file_eq [simp]:
  "context_file prefix i ''.lp'' = context_file prefix j ''.lp'' \<longleftrightarrow> i = j"
  "context_file prefix i ''.br'' = context_file prefix j ''.br'' \<longleftrightarrow> i = j"
  "context_file prefix i ''.lp'' \<noteq> context_file prefix j ''.br''" "context_file prefix i ''.br'' \<noteq> context_file prefix j ''.lp''"
proof -
  have "nat_text i @ ''.lp'' = nat_text j @ ''.br'' \<Longrightarrow> False" for i j
    using arg_cong [where f = last, of "nat_text i @ ''.lp''" "nat_text j @ ''.br''"] by simp
  then show "context_file prefix i ''.lp'' \<noteq> context_file prefix j ''.br''" "context_file prefix i ''.br'' \<noteq> context_file prefix j ''.lp''"
    by (auto dest: sym)
qed simp_all

text \<open>
  A context that was generated: its files hold the texts of a knowledge base over its atoms and of bridge rules that mention all
  its neighbors and no other context, and only beliefs in their interfaces; the interface of each of its edges has the
  beliefs of these bridge rules, and \<open>minV\<close> has all of them.
\<close>

definition context_ok :: "string \<Rightarrow> nat list list \<Rightarrow> topo \<Rightarrow> nat \<Rightarrow> nat \<Rightarrow> gen_state \<Rightarrow> nat \<Rightarrow> bool" where
  "context_ok prefix ifs topo n s st i \<longleftrightarrow> (\<exists>kb rules. (\<forall>r\<in>set kb. kb_ok s r)
     \<and> (\<forall>r\<in>set rules. rule_ok s ifs (topo ! i) r) \<and> mentioned rules = set (topo ! i)
     \<and> g_files st (context_file prefix i ''.lp'') = Some (concat (map (kb_text i) kb))
     \<and> g_files st (context_file prefix i ''.br'') = Some (concat (map (bridge_text i) rules))
     \<and> (\<forall>j\<in>set (topo ! i). \<exists>V. map_of (g_lcim st) (i, j) = Some V \<and> edge_interface n s rules j V)
     \<and> (\<forall>(c, a)\<in>rule_beliefs rules. bs_view (g_minV st) (block_start s c + a) = DMCS_TRUE))"

text \<open>\<open>minV\<close> has the epsilon bits of all contexts and all beliefs of the root context.\<close>

definition minV_ok :: "nat \<Rightarrow> nat \<Rightarrow> NewBeliefState \<Rightarrow> bool" where
  "minV_ok n s m \<longleftrightarrow> wf_bs (block_start s n) m \<and> (\<forall>c < n. bs_view m (block_start s c) = DMCS_TRUE) \<and> (\<forall>a\<in>{1..s}. bs_view m a = DMCS_TRUE)"

definition contexts_done :: "gen_config \<Rightarrow> nat \<Rightarrow> nat \<Rightarrow> nat \<Rightarrow> gen_state \<Rightarrow> bool" where
  "contexts_done G n s i st \<longleftrightarrow> sorted_wrt (<) (map fst (g_lcim st))
     \<and> fst ` set (g_lcim st) = {(k, j). k < i \<and> j \<in> set (gc_topo G ! k)}
     \<and> minV_ok n s (g_minV st)
     \<and> (\<forall>k < i. context_ok (gc_prefix G) (gc_interfaces G) (gc_topo G) n s st k)"

text \<open>The configurations that are meant.\<close>

definition config_ok :: "gen_config \<Rightarrow> nat \<Rightarrow> nat \<Rightarrow> bool" where
  "config_ok G n s \<longleftrightarrow> n \<le> 2 ^ 16 \<and> s < 2 ^ 31 \<and> gc_atoms G = s \<and> length (gc_topo G) = n \<and> length (gc_interfaces G) = n
     \<and> (\<forall>f\<in>set (gc_interfaces G). 2 \<le> length f \<and> distinct f \<and> set f \<subseteq> {1..s})
     \<and> (\<forall>ns\<in>set (gc_topo G). distinct ns \<and> set ns \<subseteq> {..<n})
     \<and> gc_sigma G = map (\<lambda>i. gen_table i (Suc s)) [0..<n] \<and> gc_inst G = Some (layout n s)"

lemma config_okD:
  assumes "config_ok G n s"
  shows "n \<le> 2 ^ 16" "s < 2 ^ 31" "gc_atoms G = s" "length (gc_topo G) = n" "length (gc_interfaces G) = n"
    "\<forall>f\<in>set (gc_interfaces G). 2 \<le> length f \<and> distinct f \<and> set f \<subseteq> {1..s}"
    "i < n \<Longrightarrow> distinct (gc_topo G ! i) \<and> set (gc_topo G ! i) \<subseteq> {..<n}"
    "gc_sigma G = map (\<lambda>i. gen_table i (Suc s)) [0..<n]" "gc_inst G = Some (layout n s)"
  using assms unfolding config_ok_def by auto

lemma config_bridge_gen:
  assumes "config_ok G n s" and "i < n" and "gc_topo G ! i \<noteq> []"
  shows "bridge_gen (gc_interfaces G) (gc_topo G ! i) s"
proof -
  note c = config_okD [OF assms(1)]
  let ?ifs = "gc_interfaces G" and ?nb = "gc_topo G ! i"
  have nb: "\<forall>c\<in>set ?nb. c < length ?ifs" using c(5,7) assms(2) by auto
  obtain j where j: "j \<in> set ?nb" using assms(3) by (meson last_in_set)
  then have f: "2 \<le> length (?ifs ! j)" "distinct (?ifs ! j)" "set (?ifs ! j) \<subseteq> {1..s}" using nb c(6) by auto
  obtain a b as where ab: "?ifs ! j = a # b # as" using f(1) by (cases "?ifs ! j" rule: remdups_adj.cases) auto
  then have "(j, a) \<in> available ?ifs ?nb" "(j, b) \<in> available ?ifs ?nb" "a \<noteq> b" "0 < s"
    using j f by (auto simp: available_def)
  moreover from this have "\<exists>y\<in>available ?ifs ?nb. y \<noteq> x" for x by (metis Pair_inject)
  moreover have "\<forall>f\<in>set ?ifs. f \<noteq> [] \<and> set f \<subseteq> {1..s}" using c(6) by force
  ultimately show ?thesis using nb assms(3) by (simp add: bridge_gen_def)
qed

lemma context_ok_later:
  assumes "context_ok prefix ifs topo n s st i" and "\<forall>e. fst e = i \<longrightarrow> map_of (g_lcim st') e = map_of (g_lcim st) e"
    and "\<forall>ext\<in>{''.lp'', ''.br''}. g_files st' (context_file prefix i ext) = g_files st (context_file prefix i ext)"
    and "\<forall>p. bs_view (g_minV st) p = DMCS_TRUE \<longrightarrow> bs_view (g_minV st') p = DMCS_TRUE"
  shows "context_ok prefix ifs topo n s st' i"
proof -
  from assms(1) obtain kb rules where r: "\<forall>r\<in>set kb. kb_ok s r"
     "\<forall>r\<in>set rules. rule_ok s ifs (topo ! i) r" "mentioned rules = set (topo ! i)"
     "g_files st (context_file prefix i ''.lp'') = Some (concat (map (kb_text i) kb))"
     "g_files st (context_file prefix i ''.br'') = Some (concat (map (bridge_text i) rules))"
     "\<forall>j\<in>set (topo ! i). \<exists>V. map_of (g_lcim st) (i, j) = Some V \<and> edge_interface n s rules j V"
     "\<forall>(c, a)\<in>rule_beliefs rules. bs_view (g_minV st) (block_start s c + a) = DMCS_TRUE"
    unfolding context_ok_def by blast
  have "\<forall>j\<in>set (topo ! i). \<exists>V. map_of (g_lcim st') (i, j) = Some V \<and> edge_interface n s rules j V" using r(6) assms(2) by simp
  moreover have "\<forall>(c, a)\<in>rule_beliefs rules. bs_view (g_minV st') (block_start s c + a) = DMCS_TRUE" using r(7) assms(4) by blast
  ultimately show ?thesis unfolding context_ok_def using r(1-5) assms(3) by (intro exI [of _ kb] exI [of _ rules]) simp
qed

lemma rule_beliefs_range:
  assumes "config_ok G n s" and "i < n" and "\<forall>r\<in>set rules. rule_ok s (gc_interfaces G) (gc_topo G ! i) r"
  shows "\<forall>(c, a)\<in>rule_beliefs rules. c < n \<and> a \<le> s"
proof clarify
  fix c a assume "(c, a) \<in> rule_beliefs rules"
  then have "(c, a) \<in> available (gc_interfaces G) (gc_topo G ! i)" using assms(3) by (auto simp: rule_beliefs_def rule_ok_def)
  then have "c < n" "a \<in> set (gc_interfaces G ! c)" using config_okD(7) [OF assms(1,2)] by (auto simp: available_def)
  moreover from this have "gc_interfaces G ! c \<in> set (gc_interfaces G)" using config_okD(5) [OF assms(1)] by simp
  ultimately show "c < n \<and> a \<le> s" using config_okD(6) [OF assms(1)] by fastforce
qed

lemma written_files:
  assumes c: "config_ok G n s" and i: "i < n" and kb: "\<forall>r\<in>set kb. kb_ok s r"
    and rules: "\<forall>r\<in>set rules. rule_ok s (gc_interfaces G) (gc_topo G ! i) r"
  shows "bind_res (write_local_kb G i kb st) (write_bridge_rules G i rules) =
    Inr (st\<lparr>g_files := (g_files st)(context_file (gc_prefix G) i ''.lp'' \<mapsto> concat (map (kb_text i) kb),
      context_file (gc_prefix G) i ''.br'' \<mapsto> concat (map (bridge_text i) rules))\<rparr>)"
proof -
  have "i < 2 ^ 16" using config_okD(1) [OF c] i by simp
  then have "each (\<lambda>r. visitRule r i (gen_table i (Suc s))) kb = Inr (map (kb_text i) kb)"
    using kb visitRule_text [OF _ config_okD(2) [OF c]] by (intro each_ok) simp
  moreover have "each (\<lambda>r. visitBridgeRule r i (gc_sigma G)) rules = Inr (map (bridge_text i) rules)"
    unfolding config_okD(8) [OF c]
  proof (rule each_ok)
    fix r assume "r \<in> set rules"
    then have r: "rule_ok s (gc_interfaces G) (gc_topo G ! i) r" using rules by blast
    show "visitBridgeRule r i (map (\<lambda>i. gen_table i (Suc s)) [0..<n]) = Inr (bridge_text i r)"
      by (rule visitBridgeRule_text [OF config_okD(1) [OF c] i config_okD(2) [OF c] r config_okD(5) [OF c]])
        (use config_okD(6,7) [OF c] i in blast)+
  qed
  moreover have "vec_at (gc_sigma G) i = Inr (gen_table i (Suc s))" using i by (simp add: config_okD(8) [OF c] vec_at_ok)
  ultimately show ?thesis by (simp add: write_local_kb_def write_bridge_rules_def)
qed

lemma finish_context_ok:
  assumes c: "config_ok G n s" and i: "i < n" and kb: "\<forall>r\<in>set kb. kb_ok s r"
    and rules: "\<forall>r\<in>set rules. rule_ok s (gc_interfaces G) (gc_topo G ! i) r" "mentioned rules = set (gc_topo G ! i)"
    and st: "contexts_done G n s i st"
  shows "\<exists>st'. finish_context G i (gc_topo G ! i) kb rules st = Inr st' \<and> contexts_done G n s (Suc i) st'"
proof -
  let ?files = "(g_files st)(context_file (gc_prefix G) i ''.lp'' \<mapsto> concat (map (kb_text i) kb),
      context_file (gc_prefix G) i ''.br'' \<mapsto> concat (map (bridge_text i) rules))"
  have sorted: "sorted_wrt (<) (map fst (g_lcim st))" and keys: "fst ` set (g_lcim st) = {(k, j). k < i \<and> j \<in> set (gc_topo G ! k)}"
    and mok: "minV_ok n s (g_minV st)" and wf: "wf_bs (block_start s n) (g_minV st)"
    and ok: "\<forall>k < i. context_ok (gc_prefix G) (gc_interfaces G) (gc_topo G) n s st k" using st by (auto simp: contexts_done_def minV_ok_def)
  note range = rule_beliefs_range [OF c i rules(1)]
  obtain m where m: "update_min_V (Some (layout n s)) rules (g_minV st) = Inr m" "wf_bs (block_start s n) m"
    "\<forall>p. bs_view m p = (if p \<in> (\<lambda>(c, a). block_start s c + a) ` rule_beliefs rules then DMCS_TRUE else bs_view (g_minV st) p)"
    using update_min_V_view [OF range wf] by blast
  let ?st = "st\<lparr>g_files := ?files, g_minV := m\<rparr>"
  have "\<exists>l. insert_interfaces G i rules (gc_topo G ! i) ?st = Inr (?st\<lparr>g_lcim := l\<rparr>) \<and> sorted_wrt (<) (map fst l)
    \<and> fst ` set l = fst ` set (g_lcim ?st) \<union> Pair i ` set (gc_topo G ! i)
    \<and> (\<forall>e. e \<notin> Pair i ` set (gc_topo G ! i) \<longrightarrow> map_of l e = map_of (g_lcim ?st) e)
    \<and> (\<forall>j\<in>set (gc_topo G ! i). \<exists>V. map_of l (i, j) = Some V \<and> edge_interface n s rules j V)"
    using config_okD(7) [OF c i] sorted keys by (intro insert_interfaces_ok [OF range config_okD(9) [OF c]]) auto
  then obtain l where l: "insert_interfaces G i rules (gc_topo G ! i) ?st = Inr (?st\<lparr>g_lcim := l\<rparr>)" "sorted_wrt (<) (map fst l)"
    "fst ` set l = fst ` set (g_lcim st) \<union> Pair i ` set (gc_topo G ! i)"
    "\<forall>e. e \<notin> Pair i ` set (gc_topo G ! i) \<longrightarrow> map_of l e = map_of (g_lcim st) e"
    "\<forall>j\<in>set (gc_topo G ! i). \<exists>V. map_of l (i, j) = Some V \<and> edge_interface n s rules j V" by auto
  let ?st' = "?st\<lparr>g_lcim := l\<rparr>"
  have "context_ok (gc_prefix G) (gc_interfaces G) (gc_topo G) n s ?st' i" unfolding context_ok_def
    using kb rules l(5) m(3) by (intro exI [of _ kb] exI [of _ rules]) (auto intro!: image_eqI)
  moreover have "context_ok (gc_prefix G) (gc_interfaces G) (gc_topo G) n s ?st' k" if "k < i" for k
  proof (rule context_ok_later [of _ _ _ n s st])
    show "context_ok (gc_prefix G) (gc_interfaces G) (gc_topo G) n s st k" using ok that by blast
    show "\<forall>e. fst e = k \<longrightarrow> map_of (g_lcim ?st') e = map_of (g_lcim st) e" using l(4) that by auto
  qed (use that m(3) in auto)
  moreover have "fst ` set l = {(k, j). k < Suc i \<and> j \<in> set (gc_topo G ! k)}" unfolding l(3) keys by (auto simp: less_Suc_eq)
  ultimately have "contexts_done G n s (Suc i) ?st'" using l(2) m(2,3) mok
    by (auto simp: contexts_done_def minV_ok_def less_Suc_eq)
  moreover have "finish_context G i (gc_topo G ! i) kb rules st = Inr ?st'"
    using written_files [OF c i kb rules(1), of st] m(1) l(1) config_okD(9) [OF c]
    by (auto simp: finish_context_def bind_res_eq_Inr)
  ultimately show ?thesis by blast
qed

lemma generate_context_settles:
  assumes c: "config_ok G n s" and i: "i < n" and st: "contexts_done G n s i st" and B: "length (gc_topo G ! i) \<le> 2 * gc_bridge_rules G"
  shows "settles (generate_context G i st) (contexts_done G n s (Suc i))"
proof -
  let ?nb = "gc_topo G ! i"
  let ?ok = "\<lambda>rules. (\<forall>r\<in>set rules. rule_ok s (gc_interfaces G) ?nb r) \<and> mentioned rules = set ?nb"
  have t: "vec_at (gc_topo G) i = Inr ?nb" using i by (simp add: vec_at_ok config_okD(4) [OF c])
  have rules: "settles (if 0 < length ?nb then generate_bridge_rule_list (gc_atoms G) (gc_bridge_rules G) (gc_interfaces G) ?nb
      else rreturn []) ?ok"
    using rules_settle [OF _ B config_bridge_gen [OF c i]] config_okD(7) [OF c i] by (auto simp: config_okD(3) [OF c] intro!: settles_return)
  show ?thesis unfolding generate_context_def
  proof (rule settles_bind [OF local_kb_settles], rule settles_bind [OF settles_lift [OF t, where P = "\<lambda>ns. ns = ?nb"]])
    fix kb nb
    assume kb: "\<forall>r\<in>set kb. kb_ok (gc_atoms G) r" and nb: "nb = ?nb"
    show "settles (rbind (if 0 < length nb then generate_bridge_rule_list (gc_atoms G) (gc_bridge_rules G) (gc_interfaces G) nb
        else rreturn []) (\<lambda>rules. rlift (finish_context G i nb kb rules st))) (contexts_done G n s (Suc i))"
      unfolding nb
    proof (rule settles_bind [OF rules])
      fix rules assume "?ok rules"
      then obtain st' where "finish_context G i ?nb kb rules st = Inr st'" "contexts_done G n s (Suc i) st'"
        using finish_context_ok [OF c i _ _ _ st, of kb rules] kb config_okD(3) [OF c] by auto
      then show "settles (rlift (finish_context G i ?nb kb rules st)) (contexts_done G n s (Suc i))" by (rule settles_lift)
    qed
  qed simp
qed

lemma generate_contexts_settles:
  assumes "config_ok G n s" and "contexts_done G n s 0 st" and "\<forall>ns\<in>set (gc_topo G). length ns \<le> 2 * gc_bridge_rules G"
  shows "settles (generate_contexts G st) (contexts_done G n s n)"
  using settles_rfold [of "[0..<n]" "contexts_done G n s" "generate_context G" st] generate_context_settles [OF assms(1)] assms(2,3)
  by (simp add: generate_contexts_def config_okD(4,5) [OF assms(1)])

section \<open>The whole system\<close>

lemma set_positions_view:
  assumes "wf_bs N bs" and "\<forall>p\<in>set ps. p < N"
  shows "\<exists>bs'. set_positions ps bs = Inr bs' \<and> wf_bs N bs' \<and>
    (\<forall>p. bs_view bs' p = (if p \<in> set ps then DMCS_TRUE else bs_view bs p))"
  using assms
proof (induction ps arbitrary: bs)
  case (Cons q ps)
  obtain b where b: "bs_set bs q DMCS_TRUE = Inr b" "wf_bs N b" "bs_view b = (bs_view bs)(q := DMCS_TRUE)"
    by (rule bs_set_wf [OF Cons.prems(1), of q]) (use Cons.prems(2) in auto)
  then show ?case using Cons.IH [OF b(2)] Cons.prems(2) by auto
qed simp

lemma init_minV_ok:
  assumes "0 < n" and "s < 2 ^ 31"
  shows "\<exists>m. init_minV (layout n s) n s = Inr m \<and> minV_ok n s m"
proof -
  have "wf_bs (block_start s n) (bs_new_blocks n s False)" by (simp only: block_start_def wf_bs_new_blocks)
  from setEpsilon_upto_view [OF this, of "[0..<n]"] obtain e where
    e: "setEpsilon_all (bs_new_blocks n s False) (bso_starting_offsets (layout n s)) = Inr e" "wf_bs (block_start s n) e"
      "\<forall>p. bs_view e p = (if p \<in> block_start s ` set [0..<n] then DMCS_TRUE else DMCS_UNDEF)"
    by (auto simp: setEpsilon_all_def)
  have last: "(if n > 1 then bind_res (vec_at (bso_starting_offsets (layout n s)) 1) (\<lambda>o1. Inr (sz_sub o1 1)) else Inr s) = Inr s"
    using assms(2) by (simp add: vec_at_ok block_start_Suc sz_sub_small SIZE_T_def)
  have "\<forall>p\<in>set [1..<s + 1]. p < block_start s n" using block_end [OF assms(1), of s] by auto
  from set_positions_view [OF e(2) this] obtain m where
    m: "set_positions [1..<s + 1] e = Inr m" "wf_bs (block_start s n) m"
      "\<forall>p. bs_view m p = (if p \<in> set [1..<s + 1] then DMCS_TRUE else bs_view e p)" by blast
  have "bs_view m (block_start s c) = DMCS_TRUE" if "c < n" for c using m(3) e(3) that by simp
  moreover have "\<forall>a\<in>{1..s}. bs_view m a = DMCS_TRUE" using m(3) by auto
  ultimately show ?thesis using m(1,2) e(1) last unfolding init_minV_def minV_ok_def by simp
qed

lemma rbind_lift: "rbind (rlift (Inr x)) k = k x"
  by (simp add: rbind_def rlift_def fun_eq_iff)

lemma init_generator_settles:
  assumes "0 < n" and "n \<le> 2 ^ 16" and "0 < s" and "s < 2 ^ 31" and "k \<le> s"
  shows "settles (init_generator n s k) (\<lambda>(bso, sigma, ifs, m). bso = layout n s \<and> sigma = map (\<lambda>i. gen_table i (Suc s)) [0..<n]
    \<and> length ifs = n \<and> (\<forall>f\<in>set ifs. interface_ok s k f)
    \<and> minV_ok n s m)"
proof -
  obtain m where m: "init_minV (layout n s) n s = Inr m" "minV_ok n s m"
    using init_minV_ok [OF assms(1,4)] by blast
  have 1: "bso_create None n s = Inr (layout n s)" using assms by (simp add: bso_create_def bso_new_layout)
  have 2: "genBeliefTables n s = Inr (map (\<lambda>i. gen_table i (Suc s)) [0..<n])" using assms(4) by (simp add: genBeliefTables_ok)
  show ?thesis unfolding init_generator_def 1 2 rbind_lift m(1)
    by (rule settles_bind [OF genInterface_settles [OF assms(2,4,5)]]) (use m(2) in \<open>auto intro!: settles_return\<close>)
qed

text \<open>Contexts of the fixed topologies have at most four neighbors, all different.\<close>

lemma few_neighbors: "a \<noteq> c \<Longrightarrow> a \<noteq> c + 1 \<Longrightarrow>
    distinct (a # (if P then [c, c + 1 :: nat] else [])) \<and> length (a # (if P then [c, c + 1] else [])) \<le> 4"
  by simp

lemma own_edges_few:
  assumes "proper_size ty n" and "0 < x"
  shows "distinct (own_edges (ty, n, x)) \<and> length (own_edges (ty, n, x)) \<le> 4"
  using assms(1)
proof (cases rule: proper_sizeE)
  case 7
  have "distinct (house_edges n x) \<and> length (house_edges n x) \<le> 4"
  proof (cases "x mod 4 = 0")
    case True
    then have h: "house_edges n x = (x + 1) # (if 2 * x - 2 < n then [2 * x - 2, 2 * x - 2 + 1] else [])"
      unfolding house_edges_def Let_def by fastforce
    have "x \<noteq> 2" "x \<noteq> 3" using True by auto
    then show ?thesis unfolding h using assms(2) by (intro few_neighbors) linarith+
  next
    case False
    then consider "house_edges n x = [2, 3]" | "house_edges n x = [x + 1]"
      | "house_edges n x = (x - 3) # (if 2 * x < n then [2 * x, 2 * x + 1] else [])"
      unfolding house_edges_def Let_def by metis
    then show ?thesis
    proof cases
      case 3
      show ?thesis unfolding 3 using assms(2) by (intro few_neighbors) linarith+
    qed simp_all
  qed
  then show ?thesis using 7 by simp
next
  case 8
  then have "3 \<le> n div 3 + 1" by linarith
  with 8 show ?thesis by (simp add: rings_edges_def Let_def)
qed (simp_all add: diamond_edges_def zigzag_edges_def ring_edges_def tree_edges_def)

lemma tedges_parent:
  assumes "proper_size ty n" and "\<not> random_type ty" and "0 < j" and "j < n"
  shows "\<exists>i. (i, j) \<in> tedges ty n"
proof -
  have "ty \<noteq> DIAMOND_ARBITRARY_TOPOLOGY" using assms(2) by (simp add: random_type_def)
  from own_edges_parent [OF assms(1) this, of "j + 1"] assms(3,4) obtain x where
    "0 < x" "x < j + 1" "j + 1 \<in> set (own_edges (ty, n, x))" by auto
  then have "(x - 1, j) \<in> tedges ty n" using assms(4) by (simp add: tedges_def del: own_edges.simps)
  then show ?thesis by blast
qed

lemma tree_increasing: "(i, j) \<in> tedges 6 n \<Longrightarrow> i < j"
  by (auto simp: tedges_def tree_edges_def split: if_splits)

lemma fixed_topology_settles:
  assumes p: "proper_size ty n" and r: "\<not> random_type ty" and n: "n < SIZE_T" and B: "2 \<le> B"
  shows "settles (generate_orig_topology ty n) (\<lambda>topo. length topo = n \<and> edge_set topo = tedges ty n
    \<and> (\<forall>ns\<in>set topo. distinct ns \<and> set ns \<subseteq> {..<n} \<and> length ns \<le> 2 * B))"
proof -
  let ?topo = "map (\<lambda>i. map (\<lambda>t. t - 1) (own_edges (ty, n, i + 1))) [0..<n]"
  have g: "generate_orig_topology ty n = rreturn ?topo" using fixed_topology_exact [OF p r n] by (simp add: fun_eq_iff rreturn_def)
  have "distinct (?topo ! i) \<and> set (?topo ! i) \<subseteq> {..<n} \<and> length (?topo ! i) \<le> 2 * B" if i: "i < n" for i
  proof -
    have e: "\<forall>t\<in>set (own_edges (ty, n, i + 1)). 0 < t \<and> t \<le> n" using own_edges_in_range [OF p, of "i + 1"] i by simp
    then have "inj_on (\<lambda>t. t - 1) (set (own_edges (ty, n, i + 1)))" by (intro inj_onI) (metis Suc_pred')
    then show ?thesis using own_edges_few [OF p, of "i + 1"] e i B by (fastforce simp: distinct_map simp del: own_edges.simps)
  qed
  then have "\<forall>ns\<in>set ?topo. distinct ns \<and> set ns \<subseteq> {..<n} \<and> length ns \<le> 2 * B"
    by (metis (no_types, lifting) in_set_conv_nth length_map length_upt diff_zero)
  moreover have "edge_set ?topo = tedges ty n" by (rule edge_set_fixed [OF p r n]) (simp add: g rreturn_def)
  moreover have "length ?topo = n" by simp
  ultimately show ?thesis unfolding g by (intro settles_return conjI)
qed

text \<open>
  What the generator promises of its output: the optimal topology is a part of the topology without cycles, and its interfaces
  keep what the original ones have.
\<close>

definition opt_ok :: "nat \<Rightarrow> edge set \<Rightarrow> (edge \<times> NewBeliefState) list \<Rightarrow> opt_world \<Rightarrow> bool" where
  "opt_ok N E xs w \<longleftrightarrow> dom (lcim w) \<subseteq> E \<and> (\<forall>(i, j)\<in>dom (lcim w). i < j) \<and> (\<forall>b\<in>ran (bs_heap w). wf_bs N b)
     \<and> (\<forall>e p V. lcim w e = Some p \<longrightarrow> map_of xs e = Some V \<longrightarrow> (\<exists>b. bs_heap w p = Some b \<and> marked V \<subseteq> marked b))"

definition system_ok :: "string \<Rightarrow> nat \<Rightarrow> nat \<Rightarrow> gen_output \<Rightarrow> bool" where
  "system_ok prefix n s out \<longleftrightarrow> length (o_topo out) = n \<and> length (o_interfaces out) = n \<and> (\<forall>f\<in>set (o_interfaces out). set f \<subseteq> {1..s})
     \<and> (\<forall>ns\<in>set (o_topo out). set ns \<subseteq> {..<n}) \<and> (\<forall>j < n. 0 < j \<longrightarrow> (\<exists>i. (i, j) \<in> edge_set (o_topo out)))
     \<and> distinct (map fst (g_lcim (o_contexts out))) \<and> fst ` set (g_lcim (o_contexts out)) = edge_set (o_topo out)
     \<and> minV_ok n s (g_minV (o_contexts out))
     \<and> (\<forall>i < n. context_ok prefix (o_interfaces out) (o_topo out) n s (o_contexts out) i)
     \<and> (\<exists>w. o_opt out = Some w \<and> opt_ok (block_start s n) (edge_set (o_topo out)) (g_lcim (o_contexts out)) w)"

definition heap_sized :: "nat \<Rightarrow> opt_world \<Rightarrow> bool" where
  "heap_sized N w \<longleftrightarrow> (\<forall>a b. bs_heap w a = Some b \<longrightarrow> wf_bs N b)"

definition sized_res :: "nat \<Rightarrow> opt_world res \<Rightarrow> bool" where
  "sized_res N r \<longleftrightarrow> (\<forall>w. r = Inr w \<longrightarrow> heap_sized N w)"

lemma sized_res_rules:
  "heap_sized N w \<Longrightarrow> sized_res N (Inr w)"
  "heap_sized N w \<Longrightarrow> heap_sized N (erase e w)"
  "heap_sized N w \<Longrightarrow> sized_res N (putInterface i j p w)"
  "heap_sized N w \<Longrightarrow> sized_res N (or_into p q w)"
  "(\<And>p :: nat. sized_res N (f p)) \<Longrightarrow> sized_res N (bind_res m f)"
  "sized_res N r \<Longrightarrow> (\<And>w. heap_sized N w \<Longrightarrow> sized_res N (k w)) \<Longrightarrow> sized_res N (bind_res r k)"
  "(P \<Longrightarrow> sized_res N r) \<Longrightarrow> (\<not> P \<Longrightarrow> sized_res N r') \<Longrightarrow> sized_res N (if P then r else r')"
  "(P \<Longrightarrow> heap_sized N v) \<Longrightarrow> (\<not> P \<Longrightarrow> heap_sized N v') \<Longrightarrow> heap_sized N (if P then v else v')"
  by (auto simp: sized_res_def heap_sized_def erase_def putInterface_def or_into_def assertion_eq_Inr bind_res_eq_Inr split: option.splits if_splits)

lemma heap_sized_step:
  assumes "heap_sized N w"
  shows "sized_res N (opt_interface_of ty n x w)"
proof -
  have child: "sized_res N (house_child n x c v)" if "heap_sized N v" for c v
    using that unfolding house_child_def by (intro sized_res_rules)
  have "sized_res N (HouseOpt n x w)"
    using assms unfolding HouseOpt_def Let_def by (intro sized_res_rules child; assumption?)+
  moreover have "sized_res N (DiamondOpt n x w)" using assms unfolding DiamondOpt_def by (intro sized_res_rules; assumption?)+
  moreover have "sized_res N (DiamondZigZagOpt n x w)" using assms unfolding DiamondZigZagOpt_def by (intro sized_res_rules; assumption?)+
  moreover have "sized_res N (RingOpt n x w)" using assms unfolding RingOpt_def by (intro sized_res_rules; assumption?)+
  moreover have "sized_res N (MultipleRingOpt n x w)"
    using assms unfolding MultipleRingOpt_def or_three_def Let_def by (intro sized_res_rules; assumption?)+
  ultimately show ?thesis by (simp add: sized_res_def)
qed

lemma heap_sized_opt:
  assumes "generate_opt_topology ty n xs = Inr w" and "\<forall>x\<in>set xs. wf_bs N (snd x)"
  shows "heap_sized N w"
proof -
  have c: "heap_sized N (copy_lcim xs)" using assms(2) by (auto simp: heap_sized_def copy_lcim_def split: if_splits)
  have "heap_sized N v'" if "heap_sized N v" "opt_interface_of ty n x v = Inr v'" for x v v'
    using heap_sized_step [OF that(1)] that(2) unfolding sized_res_def by blast
  then have "create_opt_interface ty n i v = Inr w \<Longrightarrow> heap_sized N v \<Longrightarrow> heap_sized N w" for i v
    by (induction i arbitrary: v) (auto simp: bind_res_eq_Inr simp del: opt_interface_of.simps)
  then show ?thesis using assms(1) c by (auto simp: generate_opt_topology_def split: if_splits)
qed

lemma opt_topology_settles:
  assumes p: "proper_size ty n" and r: "\<not> random_type ty" and "sorted_wrt (<) (map fst xs)" and keys: "fst ` set xs = tedges ty n"
    and wf: "\<forall>x\<in>set xs. wf_bs N (snd x)"
  shows "settles (rlift (generate_opt_topology ty n xs)) (opt_ok N (tedges ty n) xs)"
proof -
  let ?orig = "\<lambda>e. case map_of xs e of None \<Rightarrow> {} | Some b \<Rightarrow> marked b"
  have d: "distinct (map fst xs)" using assms(3) by (simp add: strict_sorted_iff)
  obtain w E where w: "generate_opt_topology ty n xs = Inr w" "covers ?orig E w" "E \<subseteq> tedges ty n" "\<forall>(i, j)\<in>E. i < j"
  proof (cases "opt_type ty")
    case True
    have "set (map fst xs) = tedges ty n" using keys by simp
    from opt_topology_covers [OF p True d this] obtain w where
      w: "generate_opt_topology ty n xs = Inr w" "covers ?orig (stage ty n 0) w" by blast
    have "\<forall>(i, j)\<in>stage ty n 0. i < j" using stage_increasing [OF p True] by blast
    moreover have "stage ty n 0 \<subseteq> tedges ty n" by (simp add: stage_def)
    ultimately show ?thesis using that [OF w] by blast
  next
    case False
    have ty: "ty = 6" by (rule proper_sizeE [OF p]) (use False r in \<open>simp_all add: opt_type_def random_type_def topology_numbers\<close>)
    have "generate_opt_topology ty n xs = Inr (copy_lcim xs)" by (simp add: ty generate_opt_topology_def topology_numbers)
    moreover have "\<forall>(i, j)\<in>set (map fst xs). i < j" using keys tree_increasing by (auto simp: ty)
    moreover have "set (map fst xs) \<subseteq> tedges ty n" using keys by simp
    ultimately show ?thesis using that copy_covers [OF d] by blast
  qed
  show ?thesis
  proof (rule settles_lift [OF w(1)], unfold opt_ok_def, intro conjI allI impI)
    show "dom (lcim w) \<subseteq> tedges ty n" "\<forall>(i, j)\<in>dom (lcim w). i < j" using w(2-4) by (simp_all add: covers_def)
    show "\<forall>b\<in>ran (bs_heap w). wf_bs N b" using heap_sized_opt [OF w(1) wf] by (auto simp: heap_sized_def ran_def)
    fix e q V assume "lcim w e = Some q" "map_of xs e = Some V"
    then show "\<exists>b. bs_heap w q = Some b \<and> marked V \<subseteq> marked b" using coversD [OF w(2)] by fastforce
  qed
qed

lemma contexts_opt_settles:
  assumes p: "proper_size ty n" and r: "\<not> random_type ty" and G: "config_ok G n s" and e: "edge_set (gc_topo G) = tedges ty n"
    and st: "contexts_done G n s 0 st" and B: "\<forall>ns\<in>set (gc_topo G). length ns \<le> 2 * gc_bridge_rules G"
  shows "settles (rbind (generate_contexts G st) (\<lambda>st.
      rbind (rbind (rlift (generate_opt_topology ty n (g_lcim st))) (\<lambda>w. rreturn (Some w))) (\<lambda>w.
        rreturn \<lparr>o_topo = gc_topo G, o_interfaces = gc_interfaces G, o_contexts = st, o_opt = w\<rparr>))) (system_ok (gc_prefix G) n s)"
proof (rule settles_bind [OF generate_contexts_settles [OF G st B]])
  fix st assume st: "contexts_done G n s n st"
  then have keys: "fst ` set (g_lcim st) = tedges ty n" "sorted_wrt (<) (map fst (g_lcim st))"
    unfolding e [symmetric] by (simp_all add: contexts_done_def edge_set_def config_okD(4) [OF G])
  have ok: "\<forall>i < n. context_ok (gc_prefix G) (gc_interfaces G) (gc_topo G) n s st i" and m: "minV_ok n s (g_minV st)"
    using st by (simp_all add: contexts_done_def)
  have d: "distinct (map fst (g_lcim st))" using keys(2) by (simp add: strict_sorted_iff)
  have wf: "\<forall>x\<in>set (g_lcim st). wf_bs (block_start s n) (snd x)"
  proof clarify
    fix k j V assume "((k, j), V) \<in> set (g_lcim st)"
    then have V: "map_of (g_lcim st) (k, j) = Some V" "(k, j) \<in> edge_set (gc_topo G)"
      using d keys(1) e by (simp, metis fst_conv image_eqI)
    then have "k < n" "j \<in> set (gc_topo G ! k)" by (auto simp: edge_set_def config_okD(4) [OF G])
    then show "wf_bs (block_start s n) (snd ((k, j), V))" using ok V(1) by (fastforce simp: context_ok_def edge_interface_def)
  qed
  have range: "\<forall>ns\<in>set (gc_topo G). set ns \<subseteq> {..<n}" using G by (simp add: config_ok_def)
  have parents: "\<forall>j < n. 0 < j \<longrightarrow> (\<exists>i. (i, j) \<in> edge_set (gc_topo G))" unfolding e using tedges_parent [OF p r] by blast
  show "settles (rbind (rbind (rlift (generate_opt_topology ty n (g_lcim st))) (\<lambda>w. rreturn (Some w))) (\<lambda>w.
      rreturn \<lparr>o_topo = gc_topo G, o_interfaces = gc_interfaces G, o_contexts = st, o_opt = w\<rparr>)) (system_ok (gc_prefix G) n s)"
    by (rule settles_bind [where P = "\<lambda>w. \<exists>v. w = Some v \<and> opt_ok (block_start s n) (tedges ty n) (g_lcim st) v",
          OF settles_bind [OF opt_topology_settles [OF p r keys(2,1) wf]]])
      (use ok keys e config_okD(4-6) [OF G] d m range parents in \<open>auto simp: system_ok_def intro!: settles_return\<close>)
qed

lemma generate_data_settles:
  assumes p: "proper_size (i_topology_type c) (i_contexts c)" and r: "\<not> random_type (i_topology_type c)"
    and n: "i_contexts c \<le> 2 ^ 16" and "i_atoms c < 2 ^ 31" and "2 \<le> i_interface_atoms c" and "i_interface_atoms c \<le> i_atoms c"
    and B: "2 \<le> i_bridge_rules c"
  shows "settles (generate_data c) (system_ok (i_prefix c) (i_contexts c) (i_atoms c))"
proof -
  let ?n = "i_contexts c" and ?s = "i_atoms c" and ?ty = "i_topology_type c" and ?k = "i_interface_atoms c"
  have n0: "0 < ?n" by (rule proper_sizeE [OF p]) simp_all
  have ty: "?ty \<noteq> RANDOM_TOPOLOGY \<and> ?ty \<noteq> DIAMOND_ARBITRARY_TOPOLOGY \<and> ?ty \<noteq> RING_EDGE_TOPOLOGY"
    by (rule proper_sizeE [OF p]) (use r in \<open>simp_all add: RANDOM_TOPOLOGY_def random_type_def topology_numbers\<close>)
  have nS: "?n < SIZE_T" using n by (simp add: SIZE_T_def)
  have init: "settles (init_generator ?n ?s ?k) (\<lambda>(bso, sigma, ifs, m). bso = layout ?n ?s
      \<and> sigma = map (\<lambda>i. gen_table i (Suc ?s)) [0..<?n] \<and> length ifs = ?n \<and> (\<forall>f\<in>set ifs. interface_ok ?s ?k f)
      \<and> minV_ok ?n ?s m)"
    using assms(4-6) by (intro init_generator_settles [OF n0 n]) simp_all
  show ?thesis unfolding generate_data_def if_P [OF ty]
  proof (rule settles_bind [OF init], clarify, rule settles_bind [OF fixed_topology_settles [OF p r nS B]])
    fix ifs m topo
    assume m: "minV_ok ?n ?s m"
      and ifs: "\<forall>f\<in>set ifs. interface_ok ?s ?k f" "length ifs = ?n"
      and t: "length topo = ?n \<and> edge_set topo = tedges ?ty ?n
        \<and> (\<forall>ns\<in>set topo. distinct ns \<and> set ns \<subseteq> {..<?n} \<and> length ns \<le> 2 * i_bridge_rules c)"
    let ?G = "\<lparr>gc_prefix = i_prefix c, gc_atoms = ?s, gc_bridge_rules = i_bridge_rules c, gc_kb_type = i_local_kb_type c,
      gc_topo = topo, gc_interfaces = ifs, gc_sigma = map (\<lambda>i. gen_table i (Suc ?s)) [0..<?n], gc_inst = Some (layout ?n ?s)\<rparr>"
    have "config_ok ?G ?n ?s" using n assms(4,5) ifs t by (simp add: config_ok_def interface_ok_def)
    from contexts_opt_settles [OF p r this, of "\<lparr>g_lcim = [], g_minV = m, g_files = Map.empty\<rparr>"] m t
    show "settles (rbind (generate_contexts ?G \<lparr>g_lcim = [], g_minV = m, g_files = Map.empty\<rparr>) (\<lambda>st.
        rbind (rbind (rlift (generate_opt_topology ?ty ?n (g_lcim st))) (\<lambda>w. rreturn (Some w))) (\<lambda>w.
          rreturn \<lparr>o_topo = topo, o_interfaces = ifs, o_contexts = st, o_opt = w\<rparr>))) (system_ok (i_prefix c) ?n ?s)"
      by (simp add: contexts_done_def)
  qed
qed



end
