(* ===== verification/Gen_Hangs.thy ===== *)
theory Gen_Hangs
  imports Gen_System
begin

text \<open>
  Inputs that \<open>read_input\<close> of the benchmark generator accepts and with which the generator never ends: more interface atoms than atoms,
  and contexts with more neighbors than their bridge rules can mention.
\<close>

section \<open>What a program returns, if it returns\<close>

definition yields :: "'a rnd \<Rightarrow> ('a \<Rightarrow> bool) \<Rightarrow> bool" where
  "yields m P \<longleftrightarrow> (\<forall>rs x rest. m rs = Inr (x, rest) \<longrightarrow> P x)"

lemma yieldsD: "yields m P \<Longrightarrow> m rs = Inr (x, rest) \<Longrightarrow> P x"
  unfolding yields_def by blast

lemma yields_mono: "yields m P \<Longrightarrow> (\<And>x. P x \<Longrightarrow> Q x) \<Longrightarrow> yields m Q"
  unfolding yields_def by blast

lemma yields_return [intro]: "P x \<Longrightarrow> yields (rreturn x) P"
  by (simp add: yields_def rreturn_def)

lemma yields_any: "yields m (\<lambda>_. True)"
  by (simp add: yields_def)

lemma yields_bind: "yields m P \<Longrightarrow> (\<And>x. P x \<Longrightarrow> yields (k x) Q) \<Longrightarrow> yields (rbind m k) Q"
  unfolding yields_def rbind_eq_Inr by blast

lemma yields_rfold:
  assumes "\<And>i s. i < length is \<Longrightarrow> I i s \<Longrightarrow> yields (f (is ! i) s) (I (Suc i))" and "I 0 s"
  shows "yields (rfold f is s) (I (length is))"
  using assms
proof (induction "is" arbitrary: s I)
  case (Cons i "is")
  have 1: "yields (f i s) (I (Suc 0))" using Cons.prems(1) [of 0] Cons.prems(2) by simp
  have 2: "yields (rfold f is t) (\<lambda>x. I (Suc (length is)) x)" if "I (Suc 0) t" for t
    using Cons.IH [of "\<lambda>j. I (Suc j)", OF _ that] Cons.prems(1) by force
  show ?case using yields_bind [OF 1 2] by simp
qed auto

lemma yields_rloop:
  assumes "\<And>s. I s \<Longrightarrow> yields (body s) (\<lambda>t. if finished t then Q t else I t)" and "I s"
  shows "yields (rloop body finished s) (\<lambda>t. finished t \<and> Q t)"
  unfolding yields_def
proof (intro allI impI)
  fix rs x rest
  assume "rloop body finished s rs = Inr (x, rest)"
  then show "finished x \<and> Q x" using assms(2)
  proof (induction "length rs" arbitrary: s rs rule: less_induct)
    case less
    obtain t us where t: "body s rs = Inr (t, us)" using less.prems(1) by (subst (asm) rloop.simps) (auto split: sum.splits)
    note q = yieldsD [OF assms(1) [OF less.prems(2)] t]
    show ?case
    proof (cases "finished t")
      case True
      then show ?thesis using q t less.prems(1) by (subst (asm) rloop.simps) simp
    next
      case False
      then have "length us < length rs \<and> rloop body finished t us = Inr (x, rest)"
        using t less.prems(1) by (subst (asm) rloop.simps) (simp split: if_splits)
      then show ?thesis using less.hyps [of us t] q False by simp
    qed
  qed
qed

lemma draws_yields: "draws m P \<Longrightarrow> yields m Q \<Longrightarrow> draws m (\<lambda>x. P x \<and> Q x)"
  unfolding draws_def yields_def by blast

section \<open>More interface atoms than atoms\<close>

lemma pick_atom_draws:
  assumes "interface_ok s k f" and "0 < s"
  shows "draws (pick_atom s f) (interface_ok s (Suc k))"
proof -
  have "draws (pick_round s x) (\<lambda>t. if snd t then interface_ok s (Suc k) (fst t) else t = (f, False))" if "x = (f, False)" for x
    unfolding that pick_round_def using assms
    by (auto simp: Let_def interface_ok_def subset_iff split: if_splits intro!: draws_bind [OF settles_draws [OF rand_below_settles]] draws_return)
  then have "draws (rloop (pick_round s) snd (f, False)) (\<lambda>t. interface_ok s (Suc k) (fst t) \<and> snd t)"
    by (intro draws_rloop [where I = "\<lambda>x. x = (f, False)"]) simp_all
  then show ?thesis unfolding pick_atom_def by (rule draws_bind) (auto intro!: draws_return)
qed

lemma genInterface_hangs:
  assumes "0 < n" and "0 < s" and "s < k"
  shows "draws (genInterface n s k sigma) (\<lambda>_. False)"
proof -
  have "draws (rfold (\<lambda>_. pick_atom s) [0..<k] []) (interface_ok s (length [0..<k]))"
    by (rule draws_rfold) (use pick_atom_draws [OF _ assms(2)] in simp, simp add: interface_ok_def)
  moreover have "\<not> interface_ok s k f" for f
  proof
    assume "interface_ok s k f"
    then have "k \<le> card {1..s}" by (metis card_mono distinct_card finite_atLeastAtMost interface_ok_def)
    then show False using assms(3) by simp
  qed
  ultimately have "draws (rfold (\<lambda>_. pick_atom s) [0..<k] []) (\<lambda>_. False)" by (auto elim: draws_mono)
  then have "draws (gen_interface s k sigma 0 ([], [])) (\<lambda>_. False)" unfolding gen_interface_def prod.case by (rule draws_bind) simp
  then have "draws (rfold (gen_interface s k sigma) (0 # [1..<n]) ([], [])) (\<lambda>_. False)" unfolding rfold.simps by (rule draws_bind) simp
  then show ?thesis using assms(1) by (simp add: genInterface_def upt_conv_Cons)
qed

section \<open>Too few bridge rules\<close>

lemma round_counts:
  assumes "count = length (body_atoms r)"
  shows "yields (bridge_atom_round ifs nbors (r, count)) (\<lambda>(r', c'). c' = length (body_atoms r') \<and> c' \<le> Suc count)"
proof -
  have a: "snd (addUniqueBridgeAtom r c x) \<le> 1 \<and> length (body_atoms (fst (addUniqueBridgeAtom r c x))) = count + snd (addUniqueBridgeAtom r c x)" for c x
    using assms by (simp add: addUniqueBridgeAtom_def Let_def body_atoms_def)
  show ?thesis unfolding bridge_atom_round_def prod.case Let_def
    by (intro yields_bind [OF yields_any]) (use a in \<open>auto simp: split_beta intro!: yields_return\<close>)
qed

lemma rule_counts: "yields (generate_bridge_rule s ifs nbors) (\<lambda>r. length (body_atoms r) \<le> 2)"
proof -
  have "yields (rloop (bridge_atom_round ifs nbors) (\<lambda>(r, count). \<not> count < c mod 2 + 1) (\<lparr>gb_head = [h + 1], gb_pos = [], gb_neg = []\<rparr>, 0))
      (\<lambda>t. (case t of (r, count) \<Rightarrow> \<not> count < c mod 2 + 1) \<and> length (body_atoms (fst t)) \<le> 2)" for h c
  proof (rule yields_rloop [where I = "\<lambda>(r, count). count = length (body_atoms r) \<and> count < c mod 2 + 1"])
    fix t :: "gen_bridge_rule \<times> nat"
    assume t: "case t of (r, count) \<Rightarrow> count = length (body_atoms r) \<and> count < c mod 2 + 1"
    obtain r n where rn: "t = (r, n)" by fastforce
    have "n = length (body_atoms r)" "Suc n \<le> 2" using t by (auto simp: rn)
    then show "yields (bridge_atom_round ifs nbors t) (\<lambda>t. if case t of (r, count) \<Rightarrow> \<not> count < c mod 2 + 1 then length (body_atoms (fst t)) \<le> 2
        else case t of (r, count) \<Rightarrow> count = length (body_atoms r) \<and> count < c mod 2 + 1)"
      unfolding rn by (intro yields_mono [OF round_counts]) auto
  qed (simp add: body_atoms_def)
  then have loop: "yields (rbind (rloop (bridge_atom_round ifs nbors) (\<lambda>(r, count). \<not> count < c mod 2 + 1) (\<lparr>gb_head = [h + 1], gb_pos = [], gb_neg = []\<rparr>, 0))
      (\<lambda>(r, _). rreturn r)) (\<lambda>r. length (body_atoms r) \<le> 2)" for h c
    by (rule yields_bind) (auto intro!: yields_return)
  show ?thesis unfolding generate_bridge_rule_def Let_def
    by (rule yields_bind [OF yields_any], rule yields_bind [OF yields_any], rule loop)
qed

lemma rules_round_counts:
  "yields (bridge_rules_round s B ifs nbors x) (\<lambda>rules. length rules \<le> B \<and> (\<forall>r\<in>set rules. length (body_atoms r) \<le> 2))"
proof -
  let ?I = "\<lambda>i rules. length rules \<le> i \<and> (\<forall>r\<in>set rules. length (body_atoms r) \<le> 2)"
  have "yields (maybe_rule s ifs nbors rules) (?I (Suc i))" if "?I i rules" for i rules
  proof (rule yields_bind [OF yields_any])
    fix r :: nat
    have "yields (rbind (generate_bridge_rule s ifs nbors) (\<lambda>r. rreturn (rules @ [r]))) (?I (Suc i))"
      by (rule yields_bind [OF rule_counts]) (use that in \<open>auto intro!: yields_return\<close>)
    then show "yields (if r mod 2 \<noteq> 0 then rbind (generate_bridge_rule s ifs nbors) (\<lambda>r. rreturn (rules @ [r])) else rreturn rules)
        (?I (Suc i))" using that by (auto intro!: yields_return)
  qed
  then have "yields (bridge_rules_round s B ifs nbors x) (?I (length [0..<B]))"
    unfolding bridge_rules_round_def by (intro yields_rfold) auto
  then show ?thesis by simp
qed

lemma few_rules_cover:
  assumes "length rules \<le> B" and "\<forall>r\<in>set rules. length (body_atoms r) \<le> 2" and "cover_neighbors nbors rules"
  shows "length nbors \<le> 2 * B"
proof -
  let ?f = "\<lambda>r. map fst (gb_pos r) @ map fst (gb_neg r)"
  have "length (concat (map ?f rules)) \<le> 2 * length rules" using assms(2) by (induction rules) (auto simp: body_atoms_def)
  then show ?thesis using assms(1,3) length_remdups_leq [of "concat (map ?f rules)"] by (simp add: cover_neighbors_def)
qed

lemma rules_hang:
  assumes "2 * B < length nbors"
  shows "yields (generate_bridge_rule_list s B ifs nbors) (\<lambda>_. False)"
proof -
  have "yields (bridge_rules_round s B ifs nbors x) (\<lambda>t. if cover_neighbors nbors t then False else True)" for x
    using few_rules_cover [of _ B nbors] assms by (intro yields_mono [OF rules_round_counts]) fastforce
  from yields_rloop [where I = "\<lambda>_. True", OF this] show ?thesis unfolding generate_bridge_rule_list_def by (rule yields_mono) simp_all
qed

lemma rules_draw:
  assumes G: "bridge_gen ifs nbors s" and "distinct nbors"
  shows "draws (generate_bridge_rule_list s B ifs nbors) (\<lambda>rules. (\<forall>r\<in>set rules. rule_ok s ifs nbors r) \<and> mentioned rules = set nbors)"
proof -
  let ?ok = "\<lambda>rules. \<forall>r\<in>set rules. rule_ok s ifs nbors r"
  have "draws (bridge_rules_round s B ifs nbors x) (\<lambda>t. if cover_neighbors nbors t then ?ok t else True)" for x
    by (rule draws_mono [OF settles_draws [OF rules_round_settles [OF G]]]) simp
  from draws_rloop [where I = "\<lambda>_. True", OF this] show ?thesis unfolding generate_bridge_rule_list_def
    by (rule draws_mono) (use cover_neighbors_iff [OF assms(2)] in auto)
qed

lemma generate_context_draws:
  assumes c: "config_ok G n s" and i: "i < n" and st: "contexts_done G n s i st"
  shows "draws (generate_context G i st) (\<lambda>st'. contexts_done G n s (Suc i) st' \<and> length (gc_topo G ! i) \<le> 2 * gc_bridge_rules G)"
proof -
  let ?nb = "gc_topo G ! i"
  let ?ok = "\<lambda>rules. (\<forall>r\<in>set rules. rule_ok s (gc_interfaces G) ?nb r) \<and> mentioned rules = set ?nb \<and> length ?nb \<le> 2 * gc_bridge_rules G"
  have t: "vec_at (gc_topo G) i = Inr ?nb" using i by (simp add: vec_at_ok config_okD(4) [OF c])
  have "yields (generate_bridge_rule_list s (gc_bridge_rules G) (gc_interfaces G) ?nb) (\<lambda>_. length ?nb \<le> 2 * gc_bridge_rules G)"
    by (cases "2 * gc_bridge_rules G < length ?nb") (use rules_hang in \<open>auto intro: yields_mono simp: yields_def\<close>)
  then have "draws (generate_bridge_rule_list s (gc_bridge_rules G) (gc_interfaces G) ?nb) ?ok" if "?nb \<noteq> []"
    using draws_yields [OF rules_draw [OF config_bridge_gen [OF c i that]]] config_okD(7) [OF c i] by simp
  then have rules: "draws (if 0 < length ?nb then generate_bridge_rule_list (gc_atoms G) (gc_bridge_rules G) (gc_interfaces G) ?nb
      else rreturn []) ?ok"
    by (cases "?nb = []") (auto simp: config_okD(3) [OF c] intro!: draws_return)
  show ?thesis unfolding generate_context_def
  proof (rule draws_bind [OF settles_draws [OF local_kb_settles]], rule draws_bind [OF draws_lift [OF t, where P = "\<lambda>ns. ns = ?nb"]])
    fix kb nb
    assume kb: "\<forall>r\<in>set kb. kb_ok (gc_atoms G) r" and nb: "nb = ?nb"
    show "draws (rbind (if 0 < length nb then generate_bridge_rule_list (gc_atoms G) (gc_bridge_rules G) (gc_interfaces G) nb
        else rreturn []) (\<lambda>rules. rlift (finish_context G i nb kb rules st)))
        (\<lambda>st'. contexts_done G n s (Suc i) st' \<and> length ?nb \<le> 2 * gc_bridge_rules G)"
      unfolding nb
    proof (rule draws_bind [OF rules])
      fix rules assume r: "?ok rules"
      then obtain st' where "finish_context G i ?nb kb rules st = Inr st'" "contexts_done G n s (Suc i) st'"
        using finish_context_ok [OF c i _ _ _ st, of kb rules] kb config_okD(3) [OF c] by auto
      then show "draws (rlift (finish_context G i ?nb kb rules st)) (\<lambda>st'. contexts_done G n s (Suc i) st' \<and> length ?nb \<le> 2 * gc_bridge_rules G)"
        using r by (intro draws_lift) simp_all
    qed
  qed simp
qed

lemma contexts_hang:
  assumes "config_ok G n s" and "contexts_done G n s 0 st" and "i < n" and "2 * gc_bridge_rules G < length (gc_topo G ! i)"
  shows "draws (generate_contexts G st) (\<lambda>_. False)"
proof -
  let ?I = "\<lambda>j st. j \<le> i \<and> contexts_done G n s j st"
  have "draws (generate_context G ([0..<n] ! j) st) (?I (Suc j))" if "j < length [0..<n]" "?I j st" for j st
    using that assms(4) by (cases "j = i") (auto intro: draws_mono [OF generate_context_draws [OF assms(1)]])
  then have "draws (rfold (generate_context G) [0..<n] st) (?I (length [0..<n]))" using assms(2) by (intro draws_rfold) auto
  then show ?thesis unfolding generate_contexts_def config_okD(5) [OF assms(1)] by (rule draws_mono) (use assms(3) in simp)
qed

text \<open>
  C15. Inputs that \<open>read_input\<close> accepts and for which the generation never ends: it neither returns nor stops with an error, but asks for one more
  random number, however many have come and whatever they are. With more interface atoms than atoms the search for another atom of an interface
  goes on for ever; and when a context has more than twice as many neighbors as there are bridge rules, no list of bridge rules mentions
  all of them, so that it is thrown away and generated again. (The second part is for the topologies without random edges, and at least
  two interface atoms.)
\<close>

theorem generator_hangs:
  assumes "read_input_accepts help dmcspath c" and "i_contexts c \<le> 2 ^ 16" and "i_atoms c < 2 ^ 31"
    and "i_atoms c < i_interface_atoms c \<or>
      i_topology_type c \<notin> {DIAMOND_ARBITRARY_TOPOLOGY, RING_EDGE_TOPOLOGY} \<and> (i_topology_type c = MULTIPLE_RING_TOPOLOGY \<longrightarrow> 6 \<le> i_contexts c) \<and>
      2 \<le> i_interface_atoms c \<and> i_interface_atoms c \<le> i_atoms c \<and>
      (\<exists>topo i. generate_orig_topology (i_topology_type c) (i_contexts c) [] = Inr (topo, []) \<and> i < i_contexts c \<and>
         2 * i_bridge_rules c < length (topo ! i))"
  shows "generate_data c rs = Inl Out_Of_Fuel"
proof -
  let ?n = "i_contexts c" and ?s = "i_atoms c" and ?ty = "i_topology_type c" and ?k = "i_interface_atoms c"
  have acc: "accepted_input ?ty ?n" "0 < ?n" "0 < ?s" using assms(1) by (auto simp: read_input_accepts_def)
  from assms(4) have "draws (generate_data c) (\<lambda>_. False)"
  proof (elim disjE conjE exE)
    assume k: "?s < ?k"
    have 1: "bso_create None ?n ?s = Inr (layout ?n ?s)" using acc by (simp add: bso_create_def bso_new_layout)
    have 2: "genBeliefTables ?n ?s = Inr (map (\<lambda>i. gen_table i (Suc ?s)) [0..<?n])" using assms(3) by (simp add: genBeliefTables_ok)
    have "draws (init_generator ?n ?s ?k) (\<lambda>_. False)" unfolding init_generator_def 1 2 rbind_lift
      by (rule draws_bind [OF genInterface_hangs [OF acc(2,3) k]]) simp
    then show ?thesis unfolding generate_data_def by (rule draws_bind) simp
  next
    fix topo i
    assume ty: "?ty \<notin> {DIAMOND_ARBITRARY_TOPOLOGY, RING_EDGE_TOPOLOGY}" and six: "?ty = MULTIPLE_RING_TOPOLOGY \<longrightarrow> 6 \<le> ?n"
      and k: "2 \<le> ?k" "?k \<le> ?s" and g: "generate_orig_topology ?ty ?n [] = Inr (topo, [])" "i < ?n" "2 * i_bridge_rules c < length (topo ! i)"
    have p: "proper_size ?ty ?n" "\<not> random_type ?ty" using acc(1) six ty by (simp_all add: proper_size_def random_type_def)
    have nS: "?n < SIZE_T" using assms(2) by (simp add: SIZE_T_def)
    have t: "generate_orig_topology ?ty ?n = rreturn topo" using fixed_topology_exact [OF p nS] g(1) by (simp add: fun_eq_iff rreturn_def)
    have shape: "length topo = ?n" "\<forall>ns\<in>set topo. distinct ns \<and> set ns \<subseteq> {..<?n}"
      using settlesD(1) [OF fixed_topology_settles [OF p nS order_refl] g(1)] by auto
    have "draws (rbind (generate_contexts \<lparr>gc_prefix = i_prefix c, gc_atoms = ?s, gc_bridge_rules = i_bridge_rules c,
         gc_kb_type = i_local_kb_type c, gc_topo = topo, gc_interfaces = ifs, gc_sigma = map (\<lambda>i. gen_table i (Suc ?s)) [0..<?n],
         gc_inst = Some (layout ?n ?s)\<rparr> \<lparr>g_lcim = [], g_minV = m, g_files = Map.empty\<rparr>) f) (\<lambda>_. False)"
      if "length ifs = ?n" "\<forall>f\<in>set ifs. interface_ok ?s ?k f" "minV_ok ?n ?s m" for ifs m and f :: "gen_state \<Rightarrow> gen_output rnd"
      by (rule draws_bind [OF contexts_hang [of _ ?n ?s _ i]])
        (use that g shape assms(2,3) k in \<open>simp_all add: config_ok_def interface_ok_def contexts_done_def\<close>)
    then show ?thesis unfolding generate_data_def t
      by (intro draws_bind [OF settles_draws [OF init_generator_settles]]) (use acc assms(2,3) k in \<open>auto intro!: draws_bind [OF draws_return [where P = "\<lambda>t. t = topo"]]\<close>)
  qed
  then show ?thesis by (rule draws_never)
qed

theorem generator_hangs_witness:
  "(let c = \<lparr>i_prefix = ''student'', i_topology_type = BINARY_TREE_TOPOLOGY, i_local_kb_type = 0, i_contexts = 2, i_atoms = 2,
      i_interface_atoms = 3, i_bridge_rules = 2\<rparr> in read_input_accepts False ''/usr/bin'' c \<and> generate_data c [0, 1, 2, 3] = Inl Out_Of_Fuel) \<and>
   (let c = \<lparr>i_prefix = ''student'', i_topology_type = HOUSE_TOPOLOGY, i_local_kb_type = 0, i_contexts = 9, i_atoms = 9,
      i_interface_atoms = 3, i_bridge_rules = 1\<rparr> in read_input_accepts False ''/usr/bin'' c \<and> generate_data c [0, 1, 2, 3] = Inl Out_Of_Fuel)"
proof -
  let ?c = "\<lparr>i_prefix = ''student'', i_topology_type = BINARY_TREE_TOPOLOGY, i_local_kb_type = 0, i_contexts = 2, i_atoms = 2,
      i_interface_atoms = 3, i_bridge_rules = 2\<rparr>"
  let ?d = "\<lparr>i_prefix = ''student'', i_topology_type = HOUSE_TOPOLOGY, i_local_kb_type = 0, i_contexts = 9, i_atoms = 9,
      i_interface_atoms = 3, i_bridge_rules = 1\<rparr>"
  let ?topo = "map (\<lambda>i. map (\<lambda>t. t - 1) (own_edges (HOUSE_TOPOLOGY, 9, i + 1))) [0..<9]"
  have a: "read_input_accepts False ''/usr/bin'' ?c" "read_input_accepts False ''/usr/bin'' ?d"
    by (simp_all add: read_input_accepts_def accepted_input_def topology_numbers)
  have p: "proper_size HOUSE_TOPOLOGY 9" "\<not> random_type HOUSE_TOPOLOGY"
    by (simp_all add: proper_size_def accepted_input_def random_type_def topology_numbers)
  have g: "generate_orig_topology HOUSE_TOPOLOGY 9 [] = Inr (?topo, [])" by (rule fixed_topology_exact [OF p]) (simp add: SIZE_T_def)
  have "own_edges (HOUSE_TOPOLOGY, 9, 3 + 1) = [5, 6, 7]" by (simp add: topology_numbers house_edges_def)
  then have l: "2 * 1 < length (?topo ! 3)" by (simp del: own_edges.simps)
  have "generate_data ?c [0, 1, 2, 3] = Inl Out_Of_Fuel" by (rule generator_hangs [OF a(1)]) simp_all
  moreover have "generate_data ?d [0, 1, 2, 3] = Inl Out_Of_Fuel"
  proof (rule generator_hangs [OF a(2)])
    have "\<exists>topo i. generate_orig_topology HOUSE_TOPOLOGY 9 [] = Inr (topo, []) \<and> i < 9 \<and> 2 * 1 < length (topo ! i)"
      using g l by (intro exI [of _ ?topo] exI [of _ 3] conjI) simp_all
    then show "i_atoms ?d < i_interface_atoms ?d \<or>
      i_topology_type ?d \<notin> {DIAMOND_ARBITRARY_TOPOLOGY, RING_EDGE_TOPOLOGY} \<and> (i_topology_type ?d = MULTIPLE_RING_TOPOLOGY \<longrightarrow> 6 \<le> i_contexts ?d) \<and>
      2 \<le> i_interface_atoms ?d \<and> i_interface_atoms ?d \<le> i_atoms ?d \<and>
      (\<exists>topo i. generate_orig_topology (i_topology_type ?d) (i_contexts ?d) [] = Inr (topo, []) \<and> i < i_contexts ?d \<and>
         2 * i_bridge_rules ?d < length (topo ! i))"
      by (simp add: topology_numbers)
  qed simp_all
  ultimately show ?thesis using a unfolding Let_def by (intro conjI)
qed

end
