(* ===== verification/Gen_Plans.thy ===== *)
theory Gen_Plans
  imports Gen_System
begin

text \<open>
  The plans that the benchmark generator writes (\<open>write_plans\<close> of \<open>src/generator/new_staticGen.cpp\<close> and \<open>BeliefTable::gen_print\<close>):
  query plans with the signatures of a context and of its interfaces, and return plans with the beliefs of \<open>minV\<close>. Boost's hashed index and
  tokenizer are parameters: \<open>ord\<close> is the order in which a table is walked through, \<open>tok\<close> cuts a text at commas and parentheses.
\<close>

section \<open>Walking through a block\<close>

definition last_bit :: "nat \<Rightarrow> nat list \<Rightarrow> NewBeliefState \<Rightarrow> nat \<Rightarrow> nat res" where
  "last_bit no_contexts starting_offset bs ctx_id = (if ctx_id = sz_sub no_contexts 1 then bs_size bs
     else bind_res (vec_at starting_offset (ctx_id + 1)) (\<lambda>off. Inr (sz_sub off 1)))"

text \<open>The loops over \<open>getNext\<close> that end at 0 or behind \<open>last_bit\<close>.\<close>

function following :: "NewBeliefState \<Rightarrow> nat \<Rightarrow> nat \<Rightarrow> nat list res" where
  "following bs lb check_bit = (case getNext bs check_bit of Inl e \<Rightarrow> Inl e
     | Inr b \<Rightarrow> if b > lb \<or> b = 0 then Inr [] else bind_res (following bs lb b) (\<lambda>bits. Inr (b # bits)))"
  by pat_completeness auto
termination
  by (relation "measure (\<lambda>(bs, lb, b). length (status_bit bs) - b)") (auto dest: getNext_increases)

declare following.simps [simp del]

definition block_ids :: "nat \<Rightarrow> nat list \<Rightarrow> NewBeliefState \<Rightarrow> nat \<Rightarrow> nat list res" where
  "block_ids no_contexts starting_offset bs ctx_id = bind_res (vec_at starting_offset ctx_id) (\<lambda>off.
     bind_res (last_bit no_contexts starting_offset bs ctx_id) (\<lambda>lb.
     bind_res (following bs lb off) (\<lambda>bits. Inr (map (\<lambda>b. b - off) bits))))"

section \<open>Query plans\<close>

definition BASE_PORT :: nat where "BASE_PORT = 5000"

definition print_belief :: "(string \<Rightarrow> string list) \<Rightarrow> Belief \<Rightarrow> string res" where
  "print_belief tok b = (if b_address b = 0 then Inr []
     else case tok (b_text b) of [] \<Rightarrow> Inl Undefined_Behaviour
       | t # ts \<Rightarrow> Inr (''        '' @ nat_text (unat (b_address b)) @ '': ['' @ t @ concat (map (\<lambda>t. '', '' @ t) ts) @ ''],'' @ endl))"

definition gen_print :: "(Belief list \<Rightarrow> Belief list) \<Rightarrow> (string \<Rightarrow> string list) \<Rightarrow> BeliefTable \<Rightarrow> string res" where
  "gen_print ord tok t = bind_res (each (print_belief tok) (ord (bt_container t))) (\<lambda>ts.
     Inr (''      {'' @ endl @ concat ts @ ''      },'' @ endl))"

definition write_belief_table :: "(Belief list \<Rightarrow> Belief list) \<Rightarrow> (string \<Rightarrow> string list) \<Rightarrow> BeliefTable \<Rightarrow> string \<Rightarrow> nat \<Rightarrow> string res" where
  "write_belief_table ord tok btab signature_kind ctx_id = bind_res (gen_print ord tok btab) (\<lambda>sig.
     Inr (''  {'' @ endl @ ''    ContextId: '' @ nat_text ctx_id @ '','' @ endl @ ''    HostName: '' @ [CHR 0x22] @ ''localhost'' @ [CHR 0x22] @ '','' @ endl
       @ ''    Port: '' @ nat_text (BASE_PORT + ctx_id) @ '','' @ endl @ ''    '' @ signature_kind @ '':'' @ endl @ sig @ ''  },'' @ endl))"

definition input_signature_from_belief_state :: "BeliefTable list \<Rightarrow> nat \<Rightarrow> nat list \<Rightarrow> nat \<Rightarrow> NewBeliefState \<Rightarrow> BeliefTable res" where
  "input_signature_from_belief_state sigma_vec no_contexts starting_offset ctx_id bs =
     bind_res (vec_at sigma_vec ctx_id) (\<lambda>local_sig.
     bind_res (block_ids no_contexts starting_offset bs ctx_id) (\<lambda>ids. interface_table ctx_id local_sig ids BeliefTable_new))"

definition write_query_plan :: "(Belief list \<Rightarrow> Belief list) \<Rightarrow> (string \<Rightarrow> string list) \<Rightarrow> BeliefTable list \<Rightarrow> nat \<Rightarrow> nat list \<Rightarrow> nat
    \<Rightarrow> (edge \<times> NewBeliefState) list \<Rightarrow> string res" where
  "write_query_plan ord tok sigma_vec no_contexts starting_offset ctx_id interface =
     bind_res (vec_at sigma_vec ctx_id) (\<lambda>sigma.
     bind_res (write_belief_table ord tok sigma ''LocalSignature'' ctx_id) (\<lambda>local.
     bind_res (each (\<lambda>((_, j), bs). bind_res (input_signature_from_belief_state sigma_vec no_contexts starting_offset j bs) (\<lambda>insig.
         write_belief_table ord tok insig ''InputSignature'' j)) (filter (\<lambda>(cp, _). fst cp = ctx_id) interface)) (\<lambda>inputs.
       Inr (''['' @ endl @ local @ concat inputs @ '']'' @ endl))))"

section \<open>Return plans\<close>

definition entry_text :: "nat \<times> nat list \<Rightarrow> string" where
  "entry_text = (\<lambda>(c, ids). ''      {'' @ endl @ ''        ContextId: '' @ nat_text c @ '','' @ endl
     @ ''        ReturnBeliefs: ['' @ separated '', '' (map nat_text ids) @ '']'' @ endl @ ''      },'' @ endl)"

definition return_plan_text :: "nat \<times> (nat \<times> nat list) list \<Rightarrow> string" where
  "return_plan_text = (\<lambda>(ctx_id, entries). ''  {'' @ endl @ ''    ContextId: '' @ nat_text ctx_id @ '','' @ endl @ ''    ReturnSignature:'' @ endl
     @ ''    ['' @ endl @ concat (map entry_text entries) @ ''   ]'' @ endl @ ''  },'' @ endl)"

fun return_entries :: "nat \<Rightarrow> nat list \<Rightarrow> NewBeliefState \<Rightarrow> nat list \<Rightarrow> (nat \<times> nat list) list res" where
  "return_entries no_contexts starting_offset bs [] = Inr []"
| "return_entries no_contexts starting_offset bs (count # counts) =
     bind_res (vec_at starting_offset count) (\<lambda>epsilon_id.
     bind_res (bs_test bs epsilon_id) (\<lambda>v.
     bind_res (if v = DMCS_TRUE then bind_res (block_ids no_contexts starting_offset bs count) (\<lambda>ids. Inr [(count, ids)]) else Inr []) (\<lambda>e.
     bind_res (return_entries no_contexts starting_offset bs counts) (\<lambda>es. Inr (e @ es)))))"

definition write_return_signature :: "nat \<Rightarrow> nat list \<Rightarrow> NewBeliefState \<Rightarrow> nat \<Rightarrow> string res" where
  "write_return_signature no_contexts starting_offset bs ctx_id =
     bind_res (return_entries no_contexts starting_offset bs [0..<length starting_offset]) (\<lambda>entries. Inr (return_plan_text (ctx_id, entries)))"

text \<open>\<open>1023\<close> stands for the client.\<close>

definition return_plan_file :: "nat \<Rightarrow> nat list \<Rightarrow> NewBeliefState \<Rightarrow> (edge \<times> NewBeliefState) list \<Rightarrow> nat \<Rightarrow> string res" where
  "return_plan_file no_contexts starting_offset minV ifm i =
     bind_res (each (write_return_signature no_contexts starting_offset minV)
       ((if i = 0 then [1023] else []) @ map (fst \<circ> fst) (filter (\<lambda>(cp, _). snd cp = i) ifm))) (\<lambda>ts.
       Inr (''['' @ endl @ concat ts @ '']'' @ endl))"

definition root_mask :: "BeliefStateOffset \<Rightarrow> nat \<Rightarrow> NewBeliefState res" where
  "root_mask bso j = bind_res (vec_at (bso_starting_offsets bso) j) (\<lambda>beg_mask.
     let mask = bs_new_blocks (bso_no_blocks bso) (bso_size_belief_state bso) False in
     bind_res (if j = length (bso_starting_offsets bso) - 1 then bs_size mask else vec_at (bso_starting_offsets bso) (j + 1)) (\<lambda>end_mask.
       set_positions [beg_mask..<end_mask] mask))"

text \<open>
  \<open>operator&\<close> changes the interface itself, but the root context is the last one for which plans are written, and this its last plan.
\<close>

fun add_neighbors :: "BeliefStateOffset \<Rightarrow> (edge \<times> NewBeliefState) list \<Rightarrow> NewBeliefState \<Rightarrow> NewBeliefState res" where
  "add_neighbors bso [] bs = Inr bs"
| "add_neighbors bso (((i, j), neighbor_bs) # ls) bs = (if i = 0
     then bind_res (root_mask bso j) (\<lambda>mask. add_neighbors bso ls (bs_or bs (bs_and neighbor_bs mask)))
     else add_neighbors bso ls bs)"

definition opt_return_plan_file :: "BeliefStateOffset \<Rightarrow> nat \<Rightarrow> nat \<Rightarrow> (edge \<times> NewBeliefState) list \<Rightarrow> (edge \<times> NewBeliefState) list \<Rightarrow> nat \<Rightarrow> string res" where
  "opt_return_plan_file bso no_contexts no_atoms ifm opt_ifm i =
     bind_res (if i = 0
       then bind_res (vec_at (bso_starting_offsets bso) 1) (\<lambda>o1.
            bind_res (set_positions [0..<o1] (bs_new_blocks no_contexts no_atoms False)) (\<lambda>bs.
            bind_res (add_neighbors bso ifm bs) (\<lambda>bs.
            bind_res (write_return_signature no_contexts (bso_starting_offsets bso) bs 1023) (\<lambda>t. Inr [t]))))
       else each (\<lambda>((p, _), bs). write_return_signature no_contexts (bso_starting_offsets bso) bs p) (filter (\<lambda>(cp, _). snd cp = i) opt_ifm)) (\<lambda>ts.
       Inr (''['' @ endl @ concat ts @ '']'' @ endl))"

section \<open>All plans\<close>

record plan_config =
  p_ord :: "Belief list \<Rightarrow> Belief list"
  p_tok :: "string \<Rightarrow> string list"
  p_prefix :: string
  p_contexts :: nat
  p_atoms :: nat
  p_sigma :: "BeliefTable list"
  p_bso :: BeliefStateOffset

definition write_context_plans :: "plan_config \<Rightarrow> NewBeliefState \<Rightarrow> (edge \<times> NewBeliefState) list \<Rightarrow> (edge \<times> NewBeliefState) list option \<Rightarrow> nat
    \<Rightarrow> (string \<rightharpoonup> string) \<Rightarrow> (string \<rightharpoonup> string) res" where
  "write_context_plans P minV ifm opt_ifm i files =
     (let offs = bso_starting_offsets (p_bso P); n = p_contexts P; file = (\<lambda>ext. p_prefix P @ ''-'' @ nat_text i @ ext) in
     bind_res (write_query_plan (p_ord P) (p_tok P) (p_sigma P) n offs i ifm) (\<lambda>qp.
     bind_res (case opt_ifm of None \<Rightarrow> Inr (files(file ''.qp'' \<mapsto> qp))
       | Some l \<Rightarrow> bind_res (write_query_plan (p_ord P) (p_tok P) (p_sigma P) n offs i l) (\<lambda>oqp.
           Inr (files(file ''.qp'' \<mapsto> qp, file ''.oqp'' \<mapsto> oqp)))) (\<lambda>files.
     bind_res (return_plan_file n offs minV ifm i) (\<lambda>rp.
     case opt_ifm of None \<Rightarrow> Inr (files(file ''.rp'' \<mapsto> rp))
       | Some l \<Rightarrow> bind_res (opt_return_plan_file (p_bso P) n (p_atoms P) ifm l i) (\<lambda>orp.
           Inr (files(file ''.rp'' \<mapsto> rp, file ''.orp'' \<mapsto> orp)))))))"

fun write_all_plans :: "plan_config \<Rightarrow> NewBeliefState \<Rightarrow> (edge \<times> NewBeliefState) list \<Rightarrow> (edge \<times> NewBeliefState) list option \<Rightarrow> nat list
    \<Rightarrow> (string \<rightharpoonup> string) \<Rightarrow> (string \<rightharpoonup> string) res" where
  "write_all_plans P minV ifm opt_ifm [] files = Inr files"
| "write_all_plans P minV ifm opt_ifm (i # is) files =
     bind_res (write_context_plans P minV ifm opt_ifm i files) (write_all_plans P minV ifm opt_ifm is)"

definition write_plans :: "plan_config \<Rightarrow> NewBeliefState \<Rightarrow> (edge \<times> NewBeliefState) list \<Rightarrow> (edge \<times> NewBeliefState) list option
    \<Rightarrow> (string \<rightharpoonup> string) \<Rightarrow> (string \<rightharpoonup> string) res" where
  "write_plans P minV ifm opt_ifm files =
     bind_res (each (\<lambda>i. bind_res (vec_at (p_sigma P) i) (\<lambda>sigma. write_belief_table (p_ord P) (p_tok P) sigma ''LocalSignature'' i))
       [0..<p_contexts P]) (\<lambda>ts.
     write_all_plans P minV ifm opt_ifm (rev [0..<p_contexts P]) (files(''client.qp'' \<mapsto> ''['' @ endl @ concat ts @ '']'' @ endl)))"

text \<open>The optimal interfaces, in the order of the pairs of contexts.\<close>

definition opt_entries :: "nat \<Rightarrow> opt_world \<Rightarrow> (edge \<times> NewBeliefState) list" where
  "opt_entries no_contexts w = concat (map (\<lambda>i. concat (map (\<lambda>j. case lcim w (i, j) of None \<Rightarrow> []
     | Some p \<Rightarrow> (case bs_heap w p of None \<Rightarrow> [] | Some b \<Rightarrow> [((i, j), b)])) [0..<no_contexts])) [0..<no_contexts])"

section \<open>The beliefs of a block\<close>

lemma following_bits:
  assumes "wf_bs N bs" and "b < N"
  shows "following bs lb b = Inr (filter (bs_on bs) [Suc b..<min (Suc lb) N])"
  using assms(2)
proof (induction "N - b" arbitrary: b rule: less_induct)
  case less
  have w: "eq_sized bs" "length (status_bit bs) = N" using assms(1) by (simp_all add: wf_bs_iff eq_sized_def)
  let ?x = "next_true bs b"
  have g: "getNext bs b = Inr ?x" by (rule getNext_wf [OF assms(1) less.prems])
  let ?M = "min (Suc lb) N"
  show ?case
  proof (cases "?x = 0 \<or> lb < ?x")
    case True
    have "\<not> bs_on bs j" if "j \<in> set [Suc b..<?M]" for j using bst.nxt_least [OF w(1), of b j] that True by auto
    then have "filter (bs_on bs) [Suc b..<?M] = []" by (simp only: filter_empty_conv) blast
    then show ?thesis using True g by (subst following.simps) auto
  next
    case False
    have x: "b < ?x" "?x < N" "bs_on bs ?x" using next_true_increases [of bs b] bst.nxt_on [OF w(1), of b] False w(2) by auto
    have "\<not> bs_on bs j" if "Suc b \<le> j" "j < ?x" for j using bst.nxt_least [OF w(1), of b j] that by auto
    then have "filter (bs_on bs) [Suc b..<?M] = ?x # filter (bs_on bs) [Suc ?x..<?M]"
      using filter_upt_split [of "Suc b" ?x ?M "bs_on bs"] x False by simp
    moreover have "following bs lb ?x = Inr (filter (bs_on bs) [Suc ?x..<?M])" by (rule less.hyps) (use x less.prems in simp_all)
    ultimately show ?thesis using False g by (subst following.simps) simp
  qed
qed

definition block_beliefs :: "nat \<Rightarrow> NewBeliefState \<Rightarrow> nat \<Rightarrow> nat list" where
  "block_beliefs s bs c = filter (\<lambda>a. bs_on bs (block_start s c + a)) [1..<s + 1]"

lemma set_block_beliefs: "set (block_beliefs s bs c) = {a. 1 \<le> a \<and> a \<le> s \<and> bs_on bs (block_start s c + a)}"
  by (auto simp: block_beliefs_def)

lemma block_start_size: "n \<le> 2 ^ 16 \<Longrightarrow> s < 2 ^ 31 \<Longrightarrow> c \<le> n \<Longrightarrow> block_start s c < SIZE_T"
proof -
  assume a: "n \<le> 2 ^ 16" "s < 2 ^ 31" "c \<le> n"
  have "c * (s + 1) \<le> 2 ^ 16 * 2 ^ 31" using a by (intro mult_mono) simp_all
  then show ?thesis unfolding block_start_def by (simp add: SIZE_T_def)
qed

lemma upt_shift: "[Suc k..<k + s + 1] = map (\<lambda>a. k + a) [1..<s + 1]"
  by (induction s) auto

lemma block_ids_ok:
  assumes wf: "wf_bs (block_start s n) bs" and c: "c < n" and "n \<le> 2 ^ 16" and "s < 2 ^ 31"
  shows "block_ids n (bso_starting_offsets (layout n s)) bs c = Inr (block_beliefs s bs c)"
proof -
  let ?o = "block_start s c" and ?N = "block_start s n"
  have lt: "?o < ?N" using c by simp
  obtain lb where lb: "last_bit n (bso_starting_offsets (layout n s)) bs c = Inr lb" "min (Suc lb) ?N = ?o + s + 1"
  proof (cases "c = n - 1")
    case True
    then have n: "n = Suc c" using c by simp
    then have "?N = ?o + s + 1" by (simp add: block_start_Suc)
    moreover have "sz_sub n 1 = n - 1" using c assms(3) by (simp add: sz_sub_small SIZE_T_def)
    ultimately show ?thesis using that [of ?N] wf True by (simp add: last_bit_def)
  next
    case False
    then have c1: "c + 1 < n" using c by simp
    have "block_start s (c + 1) < SIZE_T" using block_start_size [OF assms(3,4)] c by simp
    then have "sz_sub (block_start s (c + 1)) 1 = ?o + s" by (simp add: block_start_Suc sz_sub_small)
    moreover have "sz_sub n 1 = n - 1" using c assms(3) by (simp add: sz_sub_small SIZE_T_def)
    moreover have "?o + s + 1 \<le> ?N" using block_start_mono [of "c + 1" n s] c1 by (simp add: block_start_Suc)
    ultimately show ?thesis using that [of "?o + s"] False c1 by (simp add: last_bit_def vec_at_ok)
  qed
  have "[Suc ?o..<?o + s + 1] = map (\<lambda>a. ?o + a) [1..<s + 1]" by (rule upt_shift)
  then have "following bs lb ?o = Inr (map (\<lambda>a. ?o + a) (block_beliefs s bs c))"
    using following_bits [OF wf lt, of lb] lb(2) by (simp add: block_beliefs_def filter_map comp_def)
  then show ?thesis using lb(1) c by (simp add: block_ids_def vec_at_ok comp_def)
qed

section \<open>Return plans\<close>

definition plan_entries :: "nat \<Rightarrow> nat \<Rightarrow> NewBeliefState \<Rightarrow> (nat \<times> nat list) list" where
  "plan_entries n s bs = map (\<lambda>c. (c, block_beliefs s bs c)) (filter (\<lambda>c. bs_on bs (block_start s c)) [0..<n])"

lemma return_entries_ok:
  assumes "wf_bs (block_start s n) bs" and "n \<le> 2 ^ 16" and "s < 2 ^ 31"
  shows "write_return_signature n (bso_starting_offsets (layout n s)) bs ctx = Inr (return_plan_text (ctx, plan_entries n s bs))"
proof -
  have "return_entries n (bso_starting_offsets (layout n s)) bs cs =
      Inr (map (\<lambda>c. (c, block_beliefs s bs c)) (filter (\<lambda>c. bs_on bs (block_start s c)) cs))" if "\<forall>c\<in>set cs. c < n" for cs
    using that block_ids_ok [OF assms(1) _ assms(2,3)] bs_test_wf [OF assms(1)]
    by (induction cs) (simp_all add: vec_at_ok assertion_def bs_on_def)
  then show ?thesis by (simp add: write_return_signature_def plan_entries_def)
qed

definition plan_file :: "(nat \<times> (nat \<times> nat list) list) list \<Rightarrow> string" where
  "plan_file plans = ''['' @ endl @ concat (map return_plan_text plans) @ '']'' @ endl"

definition parents_of :: "(edge \<times> NewBeliefState) list \<Rightarrow> nat \<Rightarrow> nat list" where
  "parents_of ifm i = (if i = 0 then [1023] else []) @ map (fst \<circ> fst) (filter (\<lambda>(cp, _). snd cp = i) ifm)"

lemma return_plan_file_ok:
  assumes "wf_bs (block_start s n) bs" and "n \<le> 2 ^ 16" and "s < 2 ^ 31"
  shows "return_plan_file n (bso_starting_offsets (layout n s)) bs ifm i = Inr (plan_file (map (\<lambda>p. (p, plan_entries n s bs)) (parents_of ifm i)))"
  using each_ok [of "parents_of ifm i" "write_return_signature n (bso_starting_offsets (layout n s)) bs", OF return_entries_ok [OF assms]]
  by (simp add: return_plan_file_def parents_of_def plan_file_def comp_def)

lemma distinct_parents:
  assumes "distinct (map fst ifm)" and "\<forall>e\<in>fst ` set ifm. fst e < n" and "n \<le> 1023"
  shows "distinct (parents_of ifm i)" and "(p, i) \<in> fst ` set ifm \<Longrightarrow> p \<in> set (parents_of ifm i)" and "\<forall>p\<in>set (parents_of ifm i). p < 1024"
proof -
  let ?l = "filter (\<lambda>(cp, _). snd cp = i) ifm"
  have d: "distinct (map fst ?l)" using assms(1) by (induction ifm) (auto simp: image_iff)
  have "inj_on fst (set (map fst ?l))" by (auto simp: inj_on_def)
  then have "distinct (map fst (map fst ?l))" using d by (simp only: distinct_map)
  moreover have "1023 \<notin> set (map fst (map fst ?l))" using assms(2,3) by fastforce
  ultimately show "distinct (parents_of ifm i)" by (cases "i = 0") (simp_all add: parents_of_def)
  show "(p, i) \<in> fst ` set ifm \<Longrightarrow> p \<in> set (parents_of ifm i)" by (force simp: parents_of_def)
  show "\<forall>p\<in>set (parents_of ifm i). p < 1024" using assms(2,3) by (fastforce simp: parents_of_def split: if_splits)
qed

text \<open>Reading a list of plans for different contexts: each one gets its interface.\<close>

definition current_map :: "ReturnPlanGrammarSemantics \<Rightarrow> qid \<rightharpoonup> NewBeliefState" where
  "current_map mgr = (case rp_result mgr of None \<Rightarrow> Map.empty | Some m \<Rightarrow> m)"

lemma plans_read:
  assumes "\<forall>(p, bs)\<in>set rps. \<forall>(c, ids)\<in>set bs. c < n \<and> (\<forall>i\<in>set ids. i \<le> s)" and "distinct (map fst rps)"
    and "\<forall>p\<in>fst ` set rps. current_map mgr p = None"
  shows "\<exists>mgr'. parse_return_plans (Some (layout n s)) rps mgr = Inr mgr' \<and> (rps \<noteq> [] \<longrightarrow> rp_result mgr' \<noteq> None)
    \<and> (\<forall>p. p \<notin> fst ` set rps \<longrightarrow> current_map mgr' p = current_map mgr p)
    \<and> (\<forall>(p, bs)\<in>set rps. \<exists>iface. current_map mgr' p = Some iface \<and> wf_bs (block_start s n) iface
        \<and> (\<forall>q. bs_view iface q = (if q \<in> block_start s ` {..<n} \<or> q \<in> activated s bs then DMCS_TRUE else DMCS_UNDEF)))"
  using assms
proof (induction rps arbitrary: mgr)
  case (Cons x rps)
  obtain p bs where x: "x = (p, bs)" by fastforce
  obtain iface where i: "bind_res (getCurrentParentID (Some (layout n s)) p mgr) (activate_all (Some (layout n s)) bs) =
      Inr (mgr\<lparr>m_CurrentParentID := p, m_CurrentBeliefState := Some iface\<rparr>)" "wf_bs (block_start s n) iface"
    "\<forall>q. bs_view iface q = (if q \<in> block_start s ` {..<n} \<or> q \<in> activated s bs then DMCS_TRUE else DMCS_UNDEF)"
    using read_return_plan [of bs n s p mgr] Cons.prems(1) x by auto
  let ?mgr = "mgr\<lparr>m_CurrentParentID := p, m_CurrentBeliefState := Some iface, rp_result := Some ((current_map mgr)(p \<mapsto> iface))\<rparr>"
  have "rp_insertIntoMap (mgr\<lparr>m_CurrentParentID := p, m_CurrentBeliefState := Some iface\<rparr>) = Inr ?mgr"
    using Cons.prems(3) x by (simp add: rp_insertIntoMap_def current_map_def Let_def)
  then have step: "parse_return_plans (Some (layout n s)) (x # rps) mgr = parse_return_plans (Some (layout n s)) rps ?mgr"
    using i(1) by (auto simp: x bind_res_eq_Inr)
  have m: "current_map ?mgr = (current_map mgr)(p \<mapsto> iface)" by (simp add: current_map_def)
  obtain mgr' where mgr': "parse_return_plans (Some (layout n s)) rps ?mgr = Inr mgr'" "rps \<noteq> [] \<longrightarrow> rp_result mgr' \<noteq> None"
    "\<forall>q. q \<notin> fst ` set rps \<longrightarrow> current_map mgr' q = current_map ?mgr q"
    "\<forall>(p, bs)\<in>set rps. \<exists>iface. current_map mgr' p = Some iface \<and> wf_bs (block_start s n) iface
        \<and> (\<forall>q. bs_view iface q = (if q \<in> block_start s ` {..<n} \<or> q \<in> activated s bs then DMCS_TRUE else DMCS_UNDEF))"
  proof -
    have "\<forall>q\<in>fst ` set rps. current_map ?mgr q = None" using Cons.prems(2,3) x unfolding m by auto
    moreover have "distinct (map fst rps)" using Cons.prems(2) by simp
    moreover have "\<forall>(p, bs)\<in>set rps. \<forall>(c, ids)\<in>set bs. c < n \<and> (\<forall>i\<in>set ids. i \<le> s)" using Cons.prems(1) by simp
    ultimately show ?thesis using Cons.IH [of ?mgr] that by blast
  qed
  have "current_map mgr' p = Some iface" using mgr'(3) m Cons.prems(2) x by auto
  moreover have "rp_result mgr' \<noteq> None" using mgr'(1,2) by (cases "rps = []") auto
  ultimately show ?case unfolding step using mgr'(1,3,4) m i(2,3) x by (intro exI [of _ mgr']) auto
qed simp

section \<open>Query plans\<close>

text \<open>Boost's tokenizer leaves a text without separators whole.\<close>

definition tokenizer :: "(string \<Rightarrow> string list) \<Rightarrow> bool" where
  "tokenizer tok \<longleftrightarrow> (\<forall>t. t \<noteq> [] \<and> (\<forall>c\<in>set t. c \<notin> set '',()'') \<longrightarrow> tok t = [t])"

lemma tok_atom: "tokenizer tok \<Longrightarrow> tok (atom_text i a) = [atom_text i a]"
proof -
  assume t: "tokenizer tok"
  have "\<not> is_digit c" if "c \<in> set '',()''" for c using that by (auto simp: is_digit_def)
  moreover have "is_digit c" if "c \<in> set (nat_text k)" for c k using nat_text_digits [of k] that by (simp add: list_all_iff)
  ultimately have "c \<notin> set '',()''" if "c \<in> set (atom_text i a)" for c using that by (auto simp: atom_text_def)
  moreover have "atom_text i a \<noteq> []" by (simp add: atom_text_def)
  ultimately show ?thesis using t unfolding tokenizer_def by blast
qed

text \<open>A tokenizer.\<close>

fun cut :: "string \<Rightarrow> string list" where
  "cut [] = [[]]"
| "cut (c # cs) = (if c \<in> set '',()'' then [] # cut cs else (c # hd (cut cs)) # tl (cut cs))"

lemma tokenizer_cut: "tokenizer (\<lambda>t. filter (\<lambda>u. u \<noteq> []) (cut t))"
proof -
  have "cut t = [t]" if "\<forall>c\<in>set t. c \<notin> set '',()''" for t using that by (induction t) simp_all
  then show ?thesis by (simp add: tokenizer_def)
qed

definition plain_table :: "BeliefTable \<Rightarrow> bool" where
  "plain_table t \<longleftrightarrow> (\<forall>b\<in>set (bt_container t). b_address b = 0 \<or> (\<exists>i a. b_text b = atom_text i a))"

lemma plain_tables: "plain_table (gen_table i k)" "plain_table (sub_table i as)"
  by (auto simp: plain_table_def gen_table_def sub_table_def Belief_new_at_def gen_text_def)

lemma each_total: "\<forall>x\<in>set xs. \<exists>y. f x = Inr y \<Longrightarrow> \<exists>ys. each f xs = Inr ys"
  by (induction xs) (auto simp: bind_res_def)

lemma write_belief_table_total:
  assumes "plain_table t" and "tokenizer tok" and "\<forall>xs. set (ord xs) = set xs"
  shows "\<exists>u. write_belief_table ord tok t k i = Inr u"
proof -
  have "\<exists>y. print_belief tok b = Inr y" if "b \<in> set (ord (bt_container t))" for b
    using that assms tok_atom [OF assms(2)] by (force simp: print_belief_def plain_table_def)
  then obtain ts where "each (print_belief tok) (ord (bt_container t)) = Inr ts"
    using each_total [of "ord (bt_container t)" "print_belief tok"] by blast
  then show ?thesis by (simp add: write_belief_table_def gen_print_def)
qed

definition sized_interfaces :: "nat \<Rightarrow> nat \<Rightarrow> (edge \<times> NewBeliefState) list \<Rightarrow> bool" where
  "sized_interfaces n s ifm \<longleftrightarrow> (\<forall>((i, j), V)\<in>set ifm. i < n \<and> j < n \<and> wf_bs (block_start s n) V)"

lemma input_signature_ok:
  assumes "wf_bs (block_start s n) V" and "j < n" and "n \<le> 2 ^ 16" and "s < 2 ^ 31"
  shows "input_signature_from_belief_state (map (\<lambda>i. gen_table i (Suc s)) [0..<n]) n (bso_starting_offsets (layout n s)) j V =
    Inr (sub_table j (block_beliefs s V j))"
proof -
  have "sub_table j [] = BeliefTable_new" by (simp add: sub_table_def BeliefTable_new_def)
  moreover have "set (block_beliefs s V j) \<subseteq> {1..s}" "distinct (block_beliefs s V j)" by (auto simp: block_beliefs_def)
  ultimately have "interface_table j (gen_table j (Suc s)) (block_beliefs s V j) BeliefTable_new = Inr (sub_table j (block_beliefs s V j))"
    using interface_table_ok [of j s "[]" "block_beliefs s V j"] assms(2-4) by simp
  then show ?thesis using block_ids_ok [OF assms] assms(2) by (simp add: input_signature_from_belief_state_def vec_at_ok)
qed

lemma write_query_plan_total:
  assumes "sized_interfaces n s ifm" and "i < n" and "n \<le> 2 ^ 16" and "s < 2 ^ 31" and "tokenizer tok" and "\<forall>xs. set (ord xs) = set xs"
  shows "\<exists>t. write_query_plan ord tok (map (\<lambda>i. gen_table i (Suc s)) [0..<n]) n (bso_starting_offsets (layout n s)) i ifm = Inr t"
proof -
  note w = write_belief_table_total [OF _ assms(5,6)]
  let ?f = "\<lambda>((_, j), bs). bind_res (input_signature_from_belief_state (map (\<lambda>i. gen_table i (Suc s)) [0..<n]) n (bso_starting_offsets (layout n s)) j bs)
      (\<lambda>insig. write_belief_table ord tok insig ''InputSignature'' j)"
  have "\<exists>y. ?f x = Inr y" if "x \<in> set (filter (\<lambda>(cp, _). fst cp = i) ifm)" for x
    using that assms(1) input_signature_ok [OF _ _ assms(3,4)] w [OF plain_tables(2)] by (fastforce simp: sized_interfaces_def)
  then obtain ts where ts: "each ?f (filter (\<lambda>(cp, _). fst cp = i) ifm) = Inr ts" using each_total [of _ ?f] by blast
  obtain u where "write_belief_table ord tok (gen_table i (Suc s)) ''LocalSignature'' i = Inr u" using w [OF plain_tables(1)] by blast
  then show ?thesis using ts assms(2) by (simp add: write_query_plan_def vec_at_ok)
qed

lemma opt_return_plan_total:
  assumes "sized_interfaces n s ifm" and "sized_interfaces n s opt" and "1 < n" and "n \<le> 2 ^ 16" and "s < 2 ^ 31"
  shows "\<exists>t. opt_return_plan_file (layout n s) n s ifm opt i = Inr t"
proof -
  have new: "wf_bs (block_start s n) (bs_new_blocks n s False)" by (simp only: block_start_def wf_bs_new_blocks)
  have mask: "\<exists>m. root_mask (layout n s) j = Inr m \<and> wf_bs (block_start s n) m" if "j < n" for j
  proof -
    obtain e where e: "(if j = n - 1 then bs_size (bs_new_blocks n s False) else vec_at (bso_starting_offsets (layout n s)) (j + 1)) = Inr e"
      "e \<le> block_start s n"
    proof (cases "j = n - 1")
      case False
      then have "j + 1 < n" using \<open>j < n\<close> by simp
      then show ?thesis using False that [of "block_start s (j + 1)"] block_start_mono [of "j + 1" n s] by (simp add: vec_at_ok)
    qed (use new that in simp)
    have "\<forall>p\<in>set [block_start s j..<e]. p < block_start s n" using e(2) by simp
    from set_positions_view [OF new this] e(1) that show ?thesis by (auto simp: root_mask_def Let_def vec_at_ok)
  qed
  have add: "\<exists>b'. add_neighbors (layout n s) l b = Inr b' \<and> wf_bs (block_start s n) b'"
    if "sized_interfaces n s l" "wf_bs (block_start s n) b" for l b
    using that
  proof (induction l arbitrary: b)
    case (Cons x l)
    obtain i j V where x: "x = ((i, j), V)" by (metis prod.collapse)
    obtain m where m: "root_mask (layout n s) j = Inr m" "wf_bs (block_start s n) m" using mask [of j] Cons.prems(1) x by (auto simp: sized_interfaces_def)
    have "wf_bs (block_start s n) (bs_or b (bs_and V m))"
      using Cons.prems m(2) x by (auto simp: sized_interfaces_def intro!: wf_bs_or wf_bs_and)
    moreover have "sized_interfaces n s l" using Cons.prems(1) by (simp add: sized_interfaces_def)
    ultimately show ?case using Cons.IH Cons.prems(2) m(1) by (simp add: x)
  qed simp
  note sig = return_entries_ok [OF _ assms(4,5)]
  have "block_start s 1 \<le> block_start s n" using assms(3) by (intro block_start_mono) simp
  then have "\<forall>p\<in>set [0..<block_start s 1]. p < block_start s n" by simp
  from set_positions_view [OF new this] obtain r where r: "set_positions [0..<block_start s 1] (bs_new_blocks n s False) = Inr r" "wf_bs (block_start s n) r" by blast
  obtain b where b: "add_neighbors (layout n s) ifm r = Inr b" "wf_bs (block_start s n) b" using add [OF assms(1) r(2)] by blast
  have "\<exists>ts. each (\<lambda>((p, _), bs). write_return_signature n (bso_starting_offsets (layout n s)) bs p) (filter (\<lambda>(cp, _). snd cp = i) opt) = Inr ts"
    by (rule each_total) (use assms(2) sig in \<open>auto simp: sized_interfaces_def\<close>)
  then show ?thesis using r(1) b sig [OF b(2)] assms(3) by (auto simp: opt_return_plan_file_def vec_at_ok)
qed

section \<open>All plans\<close>

lemma plan_file_names:
  "nat_text i @ ''.rp'' \<noteq> nat_text j @ ''.qp''" "nat_text i @ ''.rp'' \<noteq> nat_text j @ ''.oqp''" "nat_text i @ ''.rp'' \<noteq> nat_text j @ ''.orp''"
proof -
  have "nat_text i @ CHR ''.'' # a = nat_text j @ CHR ''.'' # b \<Longrightarrow> a = b" for a b
    using nat_text_append_inj [of i "CHR ''.'' # a" j "CHR ''.'' # b"] by (simp add: is_digit_def)
  then show "nat_text i @ ''.rp'' \<noteq> nat_text j @ ''.qp''" "nat_text i @ ''.rp'' \<noteq> nat_text j @ ''.oqp''" "nat_text i @ ''.rp'' \<noteq> nat_text j @ ''.orp''"
    by blast+
qed

definition plan_setup :: "plan_config \<Rightarrow> nat \<Rightarrow> nat \<Rightarrow> bool" where
  "plan_setup P n s \<longleftrightarrow> p_contexts P = n \<and> p_atoms P = s \<and> p_sigma P = map (\<lambda>i. gen_table i (Suc s)) [0..<n] \<and> p_bso P = layout n s
     \<and> tokenizer (p_tok P) \<and> (\<forall>xs. set (p_ord P xs) = set xs)"

lemma write_context_plans_ok:
  assumes P: "plan_setup P n s" and m: "wf_bs (block_start s n) m" and ifm: "sized_interfaces n s ifm" "sized_interfaces n s opt"
    and n: "1 < n" "n \<le> 2 ^ 16" "s < 2 ^ 31" and i: "i < n"
  shows "\<exists>files'. write_context_plans P m ifm (Some opt) i files = Inr files'
    \<and> files' (context_file (p_prefix P) i ''.rp'') = Some (plan_file (map (\<lambda>p. (p, plan_entries n s m)) (parents_of ifm i)))
    \<and> (\<forall>j. j \<noteq> i \<longrightarrow> files' (context_file (p_prefix P) j ''.rp'') = files (context_file (p_prefix P) j ''.rp''))"
proof -
  have P': "p_contexts P = n" "p_atoms P = s" "p_sigma P = map (\<lambda>i. gen_table i (Suc s)) [0..<n]" "p_bso P = layout n s"
    "tokenizer (p_tok P)" "\<forall>xs. set (p_ord P xs) = set xs" using P by (simp_all add: plan_setup_def)
  note q = write_query_plan_total [OF _ i n(2,3) P'(5,6)]
  obtain qp oqp where q: "write_query_plan (p_ord P) (p_tok P) (map (\<lambda>i. gen_table i (Suc s)) [0..<n]) n (bso_starting_offsets (layout n s)) i ifm = Inr qp"
    "write_query_plan (p_ord P) (p_tok P) (map (\<lambda>i. gen_table i (Suc s)) [0..<n]) n (bso_starting_offsets (layout n s)) i opt = Inr oqp"
    using q [OF ifm(1)] q [OF ifm(2)] by blast
  obtain orp where o: "opt_return_plan_file (layout n s) n s ifm opt i = Inr orp" using opt_return_plan_total [OF ifm n] by blast
  let ?f = "context_file (p_prefix P)" and ?rp = "plan_file (map (\<lambda>p. (p, plan_entries n s m)) (parents_of ifm i))"
  have w: "write_context_plans P m ifm (Some opt) i files =
      Inr (files(?f i ''.qp'' \<mapsto> qp, ?f i ''.oqp'' \<mapsto> oqp, ?f i ''.rp'' \<mapsto> ?rp, ?f i ''.orp'' \<mapsto> orp))"
    using q o return_plan_file_ok [OF m n(2,3), of ifm i] by (simp add: write_context_plans_def P' Let_def)
  then show ?thesis by (intro exI [of _ "files(?f i ''.qp'' \<mapsto> qp, ?f i ''.oqp'' \<mapsto> oqp, ?f i ''.rp'' \<mapsto> ?rp, ?f i ''.orp'' \<mapsto> orp)"])
      (simp add: plan_file_names)
qed

lemma write_all_plans_ok:
  assumes P: "plan_setup P n s" and m: "wf_bs (block_start s n) m" and ifm: "sized_interfaces n s ifm" "sized_interfaces n s opt"
    and n: "1 < n" "n \<le> 2 ^ 16" "s < 2 ^ 31" and "\<forall>i\<in>set is. i < n" and "distinct is"
  shows "\<exists>files'. write_all_plans P m ifm (Some opt) is files = Inr files'
    \<and> (\<forall>i\<in>set is. files' (context_file (p_prefix P) i ''.rp'') = Some (plan_file (map (\<lambda>p. (p, plan_entries n s m)) (parents_of ifm i))))
    \<and> (\<forall>j. j \<notin> set is \<longrightarrow> files' (context_file (p_prefix P) j ''.rp'') = files (context_file (p_prefix P) j ''.rp''))"
  using assms(8,9)
proof (induction "is" arbitrary: files)
  case (Cons i "is")
  let ?f = "context_file (p_prefix P)" and ?t = "\<lambda>i. plan_file (map (\<lambda>p. (p, plan_entries n s m)) (parents_of ifm i))"
  obtain f1 where f1: "write_context_plans P m ifm (Some opt) i files = Inr f1" "f1 (?f i ''.rp'') = Some (?t i)"
    "\<forall>j. j \<noteq> i \<longrightarrow> f1 (?f j ''.rp'') = files (?f j ''.rp'')" using write_context_plans_ok [OF P m ifm n] Cons.prems(1) by (metis list.set_intros(1))
  obtain f2 where f2: "write_all_plans P m ifm (Some opt) is f1 = Inr f2" "\<forall>i\<in>set is. f2 (?f i ''.rp'') = Some (?t i)"
    "\<forall>j. j \<notin> set is \<longrightarrow> f2 (?f j ''.rp'') = f1 (?f j ''.rp'')" using Cons.IH [of f1] Cons.prems by auto
  have "f2 (?f k ''.rp'') = Some (?t k)" if "k \<in> set (i # is)" for k
    using that f1(2) f2(2,3) Cons.prems(2) by (cases "k = i") (simp_all del: context_file_eq)
  moreover have "f2 (?f j ''.rp'') = files (?f j ''.rp'')" if "j \<notin> set (i # is)" for j
    using that f1(3) f2(3) by (simp del: context_file_eq)
  ultimately show ?case using f1(1) f2(1) by (intro exI [of _ f2]) (simp del: context_file_eq)
qed simp

lemma write_plans_ok:
  assumes P: "plan_setup P n s" and m: "wf_bs (block_start s n) m" and ifm: "sized_interfaces n s ifm" "sized_interfaces n s opt"
    and n: "1 < n" "n \<le> 2 ^ 16" "s < 2 ^ 31"
  shows "\<exists>files'. write_plans P m ifm (Some opt) files = Inr files'
    \<and> (\<forall>i < n. files' (context_file (p_prefix P) i ''.rp'') = Some (plan_file (map (\<lambda>p. (p, plan_entries n s m)) (parents_of ifm i))))"
proof -
  have P': "p_contexts P = n" "p_sigma P = map (\<lambda>i. gen_table i (Suc s)) [0..<n]" "tokenizer (p_tok P)" "\<forall>xs. set (p_ord P xs) = set xs"
    using P by (simp_all add: plan_setup_def)
  let ?c = "\<lambda>i. bind_res (vec_at (p_sigma P) i) (\<lambda>sigma. write_belief_table (p_ord P) (p_tok P) sigma ''LocalSignature'' i)"
  have "\<exists>y. ?c i = Inr y" if "i \<in> set [0..<n]" for i
    using that write_belief_table_total [OF plain_tables(1) P'(3,4)] by (simp add: P'(2) vec_at_ok)
  then obtain ts where ts: "each ?c [0..<n] = Inr ts" using each_total [of "[0..<n]" ?c] by blast
  have "\<forall>i\<in>set (rev [0..<n]). i < n" "distinct (rev [0..<n])" by simp_all
  from write_all_plans_ok [OF P m ifm n this, of "files(''client.qp'' \<mapsto> ''['' @ endl @ concat ts @ '']'' @ endl)"] obtain f where
    f: "write_all_plans P m ifm (Some opt) (rev [0..<n]) (files(''client.qp'' \<mapsto> ''['' @ endl @ concat ts @ '']'' @ endl)) = Inr f"
      "\<forall>i\<in>set (rev [0..<n]). f (context_file (p_prefix P) i ''.rp'') = Some (plan_file (map (\<lambda>p. (p, plan_entries n s m)) (parents_of ifm i)))"
    by blast
  have "write_plans P m ifm (Some opt) files = Inr f" by (simp only: write_plans_def P'(1) ts bind_res_simps f(1))
  then show ?thesis using f(2) by (intro exI [of _ f]) simp
qed

section \<open>What the server reads\<close>

lemma marked_view: "marked b = {q. bs_view b q = DMCS_TRUE}"
  by (auto simp: marked_def bs_view_def)

lemma system_okD:
  assumes "system_ok prefix n s out"
  shows "length (o_topo out) = n" "length (o_interfaces out) = n" "\<forall>f\<in>set (o_interfaces out). set f \<subseteq> {1..s}"
    "\<forall>ns\<in>set (o_topo out). set ns \<subseteq> {..<n}" "\<forall>j < n. 0 < j \<longrightarrow> (\<exists>i. (i, j) \<in> edge_set (o_topo out))"
    "distinct (map fst (g_lcim (o_contexts out)))" "fst ` set (g_lcim (o_contexts out)) = edge_set (o_topo out)"
    "minV_ok n s (g_minV (o_contexts out))" "i < n \<Longrightarrow> context_ok prefix (o_interfaces out) (o_topo out) n s (o_contexts out) i"
    "\<exists>w. o_opt out = Some w \<and> opt_ok (block_start s n) (edge_set (o_topo out)) (g_lcim (o_contexts out)) w"
  using assms unfolding system_ok_def by blast+

lemma system_interface:
  assumes ok: "system_ok prefix n s out" and V: "map_of (g_lcim (o_contexts out)) (i, j) = Some V"
  obtains rules where "i < n" "j < n" "edge_interface n s rules j V" "mentioned rules = set (o_topo out ! i)"
    "\<forall>(c, a)\<in>rule_beliefs rules. 1 \<le> a \<and> a \<le> s \<and> bs_view (g_minV (o_contexts out)) (block_start s c + a) = DMCS_TRUE"
proof -
  note ok = system_okD [OF ok]
  have "(i, j) \<in> edge_set (o_topo out)" unfolding ok(7) [symmetric] using map_of_SomeD [OF V] by (metis fst_conv image_eqI)
  then have ij: "i < n" "j \<in> set (o_topo out ! i)" using ok(1) by (auto simp: edge_set_def)
  then have nb: "\<forall>c\<in>set (o_topo out ! i). c < n" using ok(1,4) nth_mem by blast
  obtain rules where r: "\<forall>r\<in>set rules. rule_ok s (o_interfaces out) (o_topo out ! i) r" "mentioned rules = set (o_topo out ! i)"
     "\<forall>j\<in>set (o_topo out ! i). \<exists>V. map_of (g_lcim (o_contexts out)) (i, j) = Some V \<and> edge_interface n s rules j V"
     "\<forall>(c, a)\<in>rule_beliefs rules. bs_view (g_minV (o_contexts out)) (block_start s c + a) = DMCS_TRUE"
    using ok(9) [OF ij(1)] unfolding context_ok_def by blast
  have "1 \<le> a \<and> a \<le> s" if "(c, a) \<in> rule_beliefs rules" for c a
  proof -
    have ca: "c \<in> set (o_topo out ! i)" "a \<in> set (o_interfaces out ! c)" using that r(1) by (auto simp: rule_beliefs_def rule_ok_def available_def)
    then have "o_interfaces out ! c \<in> set (o_interfaces out)" using nb ok(2) by simp
    then have "a \<in> {1..s}" using ca(2) ok(3) by blast
    then show ?thesis by simp
  qed
  moreover have "edge_interface n s rules j V" using r(3) ij(2) V by auto
  ultimately show ?thesis using that [of rules] ij nb r(2,4) by blast
qed

lemma system_sized:
  assumes "system_ok prefix n s out"
  shows "sized_interfaces n s (g_lcim (o_contexts out))"
  unfolding sized_interfaces_def
proof clarify
  fix i j V assume "((i, j), V) \<in> set (g_lcim (o_contexts out))"
  then have "map_of (g_lcim (o_contexts out)) (i, j) = Some V" using system_okD(6) [OF assms] by simp
  then show "i < n \<and> j < n \<and> wf_bs (block_start s n) V" by (rule system_interface [OF assms]) (simp add: edge_interface_def)
qed

lemma opt_entries_sized: "opt_ok (block_start s n) E xs w \<Longrightarrow> sized_interfaces n s (opt_entries n w)"
  by (auto simp: sized_interfaces_def opt_entries_def opt_ok_def ran_def split: option.splits) metis

lemma minV_beliefs:
  assumes ok: "system_ok prefix n s out" and c: "c < n" and s: "1 \<le> s"
  shows "bs_on (g_minV (o_contexts out)) (block_start s c)" and "block_beliefs s (g_minV (o_contexts out)) c \<noteq> []"
proof -
  let ?m = "g_minV (o_contexts out)"
  have m: "minV_ok n s ?m" by (rule system_okD(8) [OF ok])
  then show "bs_on ?m (block_start s c)" using c by (simp add: minV_ok_def bs_on_def)
  have "\<exists>a. 1 \<le> a \<and> a \<le> s \<and> bs_view ?m (block_start s c + a) = DMCS_TRUE"
  proof (cases "c = 0")
    case True
    then show ?thesis using m s by (intro exI [of _ 1]) (simp add: minV_ok_def)
  next
    case False
    then obtain i where "(i, c) \<in> fst ` set (g_lcim (o_contexts out))" using system_okD(5,7) [OF ok] c by auto
    then obtain V where "((i, c), V) \<in> set (g_lcim (o_contexts out))" by force
    then have V: "map_of (g_lcim (o_contexts out)) (i, c) = Some V" using system_okD(6) [OF ok] by simp
    obtain rules where r: "i < n" "c < n" "edge_interface n s rules c V" "mentioned rules = set (o_topo out ! i)"
      "\<forall>(c, a)\<in>rule_beliefs rules. 1 \<le> a \<and> a \<le> s \<and> bs_view ?m (block_start s c + a) = DMCS_TRUE" by (rule system_interface [OF ok V])
    have "(i, c) \<in> edge_set (o_topo out)" unfolding system_okD(7) [OF ok, symmetric] using map_of_SomeD [OF V] by (metis fst_conv image_eqI)
    then have "c \<in> mentioned rules" using r(4) by (simp add: edge_set_def)
    then obtain r a where "r \<in> set rules" "(c, a) \<in> set (body_atoms r)" by (auto simp: mentioned_def)
    then have "(c, a) \<in> rule_beliefs rules" by (auto simp: rule_beliefs_def)
    then show ?thesis using r(5) by blast
  qed
  then have "set (block_beliefs s ?m c) \<noteq> {}" unfolding set_block_beliefs bs_on_def by blast
  then show "block_beliefs s ?m c \<noteq> []" by auto
qed

lemma plan_covers_interface:
  assumes ok: "system_ok prefix n s out" and V: "map_of (g_lcim (o_contexts out)) (p, i) = Some V" and "1 \<le> s"
  shows "marked V \<subseteq> block_start s ` {..<n} \<union> activated s (plan_entries n s (g_minV (o_contexts out)))"
proof
  fix q assume q: "q \<in> marked V"
  obtain rules where r0: "p < n" and r: "i < n" "edge_interface n s rules i V" and r1: "mentioned rules = set (o_topo out ! p)" and
    r2: "\<forall>(c, a)\<in>rule_beliefs rules. 1 \<le> a \<and> a \<le> s \<and> bs_view (g_minV (o_contexts out)) (block_start s c + a) = DMCS_TRUE"
    by (rule system_interface [OF ok V])
  have "bs_view V q = DMCS_TRUE" using q by (simp add: marked_view)
  then consider "q = block_start s i" | a where "(i, a) \<in> rule_beliefs rules" "q = block_start s i + a"
    using r(2) unfolding edge_interface_def by (fastforce split: if_splits)
  then show "q \<in> block_start s ` {..<n} \<union> activated s (plan_entries n s (g_minV (o_contexts out)))"
  proof cases
    case 2
    then have "a \<in> set (block_beliefs s (g_minV (o_contexts out)) i)" using r2 by (auto simp: set_block_beliefs bs_on_def)
    then show ?thesis using 2(2) r(1) minV_beliefs(1) [OF ok r(1) assms(3)] by (auto simp: activated_def plan_entries_def)
  qed (use r(1) in simp)
qed

lemma plan_shape:
  assumes ok: "system_ok prefix n s out" and s: "1 \<le> s" and i: "i < n"
  shows "\<forall>(c, ids)\<in>set (plan_entries n s (g_minV (o_contexts out))). c < n \<and> ids \<noteq> [] \<and> (\<forall>a\<in>set ids. a \<le> s)"
    and "plan_entries n s (g_minV (o_contexts out)) \<noteq> []" and "parents_of (g_lcim (o_contexts out)) i \<noteq> []"
proof -
  let ?l = "g_lcim (o_contexts out)" and ?es = "plan_entries n s (g_minV (o_contexts out))"
  show "\<forall>(c, ids)\<in>set ?es. c < n \<and> ids \<noteq> [] \<and> (\<forall>a\<in>set ids. a \<le> s)"
    using minV_beliefs(2) [OF ok _ s] by (auto simp: plan_entries_def set_block_beliefs)
  have "(0, block_beliefs s (g_minV (o_contexts out)) 0) \<in> set ?es" using i minV_beliefs(1) [OF ok, of 0] s by (auto simp: plan_entries_def)
  then show "?es \<noteq> []" by auto
  show "parents_of ?l i \<noteq> []"
  proof (cases "i = 0")
    case False
    then obtain p where "(p, i) \<in> fst ` set ?l" using system_okD(5,7) [OF ok] i by auto
    then obtain x where "x \<in> set ?l" "snd (fst x) = i" by force
    then have "filter (\<lambda>(cp, _). snd cp = i) ?l \<noteq> []" by (force simp: filter_empty_conv split_beta)
    then show ?thesis by (simp add: parents_of_def)
  qed (simp add: parents_of_def)
qed

definition read_as :: "nat \<Rightarrow> nat \<Rightarrow> (nat \<times> (nat \<times> nat list) list) list \<Rightarrow> (qid \<rightharpoonup> NewBeliefState) \<Rightarrow> bool" where
  "read_as n s plans m \<longleftrightarrow> (\<exists>mgr. parse_return_plans (Some (layout n s)) (map (\<lambda>(p, es). (of_nat p, es)) plans) ReturnPlanGrammarSemantics_new = Inr mgr
     \<and> rp_result mgr = Some m)"

lemma return_plans_read:
  assumes ok: "system_ok prefix n s out" and s: "1 \<le> s" and n: "n \<le> 1023" and i: "i < n"
  shows "\<exists>m. read_as n s (map (\<lambda>p. (p, plan_entries n s (g_minV (o_contexts out)))) (parents_of (g_lcim (o_contexts out)) i)) m
      \<and> (\<forall>p V. map_of (g_lcim (o_contexts out)) (p, i) = Some V \<longrightarrow> (\<exists>iface. m (of_nat p) = Some iface \<and> marked V \<subseteq> marked iface))"
proof -
  let ?l = "g_lcim (o_contexts out)" and ?es = "plan_entries n s (g_minV (o_contexts out))"
  have keys: "\<forall>e\<in>fst ` set ?l. fst e < n" using system_okD(1,7) [OF ok] by (auto simp: edge_set_def)
  note par = distinct_parents [OF system_okD(6) [OF ok] keys n]
  note shape = plan_shape [OF ok s i]
  let ?rps = "map (\<lambda>p. (of_nat p :: qid, ?es)) (parents_of ?l i)"
  have "inj_on (of_nat :: nat \<Rightarrow> qid) (set (parents_of ?l i))"
  proof (rule inj_onI)
    fix p q assume "p \<in> set (parents_of ?l i)" "q \<in> set (parents_of ?l i)" "(of_nat p :: qid) = of_nat q"
    moreover have "unat (of_nat p :: qid) = p" if "p < 1024" for p using that by (simp add: unat_of_nat)
    ultimately show "p = q" using par(3) by metis
  qed
  then have "distinct (map fst ?rps)" using par(1) by (simp add: distinct_map comp_def)
  moreover have "\<forall>(p, bs)\<in>set ?rps. \<forall>(c, ids)\<in>set bs. c < n \<and> (\<forall>i\<in>set ids. i \<le> s)" using shape(1) by auto
  moreover have "\<forall>p\<in>fst ` set ?rps. current_map ReturnPlanGrammarSemantics_new p = None"
    by (simp add: current_map_def ReturnPlanGrammarSemantics_new_def)
  moreover have "?rps \<noteq> []" using shape(3) by simp
  ultimately obtain mgr where mgr: "parse_return_plans (Some (layout n s)) ?rps ReturnPlanGrammarSemantics_new = Inr mgr" "rp_result mgr \<noteq> None"
    "\<forall>(p, bs)\<in>set ?rps. \<exists>iface. current_map mgr p = Some iface \<and> wf_bs (block_start s n) iface
        \<and> (\<forall>q. bs_view iface q = (if q \<in> block_start s ` {..<n} \<or> q \<in> activated s bs then DMCS_TRUE else DMCS_UNDEF))"
    using plans_read [of ?rps n s ReturnPlanGrammarSemantics_new] by blast
  obtain m where m: "rp_result mgr = Some m" "current_map mgr = m" using mgr(2) by (auto simp: current_map_def)
  have "\<exists>iface. m (of_nat p) = Some iface \<and> marked V \<subseteq> marked iface" if V: "map_of ?l (p, i) = Some V" for p V
  proof -
    have "p \<in> set (parents_of ?l i)" using par(2) map_of_SomeD [OF V] by (metis fst_conv image_eqI)
    then obtain iface where iface: "m (of_nat p) = Some iface"
      "\<forall>q. bs_view iface q = (if q \<in> block_start s ` {..<n} \<or> q \<in> activated s ?es then DMCS_TRUE else DMCS_UNDEF)" using mgr(3) m(2) by auto
    then show ?thesis using plan_covers_interface [OF ok V s] by (auto simp: marked_view)
  qed
  moreover have "map (\<lambda>(p, es). (of_nat p, es)) (map (\<lambda>p. (p, ?es)) (parents_of ?l i)) = ?rps" by simp
  then have "read_as n s (map (\<lambda>p. (p, ?es)) (parents_of ?l i)) m" unfolding read_as_def using mgr(1) m(1) by metis
  ultimately show ?thesis by blast
qed



end
