(* ===== verification/Spec2Isabelle.thy ===== *)
theory Spec2Isabelle
  imports Belief_Combine Query_ID Term_ID Output_Order Context_Network Plan_Grammars
    Dispatchers Server_Startup Opt_Topologies Daemon_Neighbors Gen_Hangs Gen_Plans
begin

text \<open>
  A verification development of DMCS, a solver for distributed multi-context systems. A context is a knowledge base
  with bridge rules, whose bodies mention beliefs of other contexts, its neighbors. Each context is a server process:
  it receives requests for belief states, forwards them to the servers of its neighbors, joins their answers, evaluates
  its bridge rules on every join, gives the heads that hold to the answer set solver DLV together with its knowledge base, and
  streams the resulting belief states back in packages. A client sends the first request, a manager
  starts the servers in two phases, and a generator writes benchmark systems.

  \<^bold>\<open>Data.\<close> \<open>Dmcs_Prelude\<close> holds the result type \<open>res\<close> (\<open>Inl\<close> is a failed assertion, undefined behaviour, a thrown exception, or
  a loop that has used up its fuel), the arithmetic of \<open>size_t\<close>, and the facts about ranges of models that the components
  share. \<open>Bit_Vector\<close> is the interface of the bit vectors of \<open>bm3.7.0/src/bm.h\<close>. \<open>Belief_State\<close> and \<open>Belief_Combine\<close> are
  \<open>mcs/NewBeliefState\<close> and \<open>mcs/BeliefStateOffset\<close>; \<open>combine\<close> refines the join of two partial assignments. \<open>Query_ID\<close> and
  \<open>Term_ID\<close> are the bit fields of \<open>mcs/QueryID\<close> and \<open>mcs/ID\<close>, kept at their width, with the round trips of packing and reading.
  \<open>Belief_Tables\<close> are \<open>mcs/BeliefTable.h\<close> and \<open>mcs/BridgeRuleTable.h\<close> behind one locale, \<open>Messages\<close> the requests and answers.

  \<^bold>\<open>Solving in one context.\<close> \<open>Bridge_Rules\<close> (\<open>mcs/BridgeRuleEvaluator.cpp\<close>), \<open>DLV_Result\<close> (\<open>DLVResultParser_t\<close> of \<open>parser/Parser.hpp\<close>, on an
  explicit store of belief states), \<open>Local_Evaluator\<close> (\<open>dmcs/DLVEvaluator.cpp\<close>; DLV is a parameter), \<open>Guessing\<close> (\<open>next_guess\<close> and
  \<open>jump_guess\<close> of \<open>mcs/NewContext.cpp\<close>), \<open>Cache_Position\<close> (\<open>mcs/CachePosition.cpp\<close>), \<open>Context_Solving\<close> and \<open>Normal_Context\<close> (\<open>NewContext\<close>,
  \<open>NormalContext\<close> and \<open>CycleBreaker\<close>, with their threads). The lemmas of \<open>Context_Answers\<close> are proved once for a
  reasoner in a locale; \<open>Context_Properties\<close> interprets it on the evaluator and states what a request is answered with. The
  evaluator has one parser per call, and the parser one object, which all answer sets of the call are written into. So the properties
  of whole contexts have the condition that this object is used for one model (at most one answer set for
  an input, or a request for one model), and \<open>solve_with_several_answer_sets\<close> says what happens otherwise: the same pointer is sent for
  all models, or the object is used after it was deleted. \<open>parsed_model_is_unmarked\<close> shows that a parsed model does not mark its
  context as known, so that no input is inconsistent with it and no join takes its beliefs over.

  \<^bold>\<open>Neighbors.\<close> \<open>Join_Odometer\<close> is the enumeration of all choices of one belief state per neighbor, \<open>Streaming_Joiner\<close> the rest of
  \<open>mcs/StreamingJoiner.cpp\<close>, \<open>Joiner_Contract\<close> and \<open>Joiner_Paging\<close> its contract over any network that delivers the requested packages in
  some order, \<open>Neighbor_Wire\<close> such a network made of the model's own output threads, and \<open>Context_Network\<close> the
  property that a whole context thread answers every request.

  \<^bold>\<open>Communication.\<close> \<open>Output_Order\<close> (\<open>network/NewOutputThread.cpp\<close> on a heap), \<open>Base_Dispatcher\<close>, \<open>Message_Queue\<close> (\<open>network/ConcurrentMessageQueue.h\<close>
  as a step relation with any interleaving, time-outs and spurious wake-ups), \<open>Message_Dispatcher\<close>, \<open>Dispatchers\<close> (the threads that move
  requests and packages between queues), \<open>Connections\<close> (\<open>network/connection.hpp\<close>, handler, server, thread factory, client, manager)
  and \<open>Server_Startup\<close> (the two phases of the start as a transition system).

  \<^bold>\<open>Plans and the start of a server.\<close> \<open>Query_Plan\<close> and \<open>Plan_Grammars\<close> are the actions of the grammars of query plans, bridge rules and
  return plans; \<open>Daemon_Neighbors\<close> is the part of \<open>new_dmcsd.cpp\<close> between the command line and the construction of the context.

  \<^bold>\<open>Generator.\<close> \<open>Topologies\<close> and \<open>Opt_Topologies\<close> are the topology generators of \<open>include/generator\<close>; \<open>Random_Programs\<close> has
  the combinators for programs that call \<open>rand\<close> and the rules that show that at any time there are further numbers with which they end. \<open>Gen_Contexts\<close> is
  \<open>new_dmcsGen.cpp\<close>, the context generators and \<open>NewLogicVisitor.cpp\<close>, on the texts of numbers of \<open>Decimal_Text\<close>; \<open>Gen_Settles\<close> shows
  that interfaces and bridge rules are found, \<open>Gen_System\<close> composes \<open>init\<close> and \<open>main\<close> of \<open>new_staticGen.cpp\<close> and shows that everything
  generated fits together, \<open>Gen_Hangs\<close> on which accepted inputs the generator never ends, and \<open>Gen_Plans\<close> is \<open>write_plans\<close> (the order of
  Boost's hashed index and its tokenizer are parameters) and shows that the server reads the return plans with no belief lost.

  \<^bold>\<open>Conventions.\<close> A record is a class, a definition with the class name and \<open>_new\<close> its constructor, and a function has the name of its
  method. Loops are recursive functions; a loop that waits for messages, random numbers or lines takes them from a list, and
  \<open>Out_Of_Fuel\<close> means that the list is used up. Where a loop is bounded by fuel, the theorems about it state how
  much is enough and that it then returns: the loop over guesses needs one unit per guess, the threads one
  per request and one for the shutdown, the client one per model of its package and one more. Pointers are addresses of
  an explicit heap wherever objects are shared or deleted. The sizes of belief states, products of the numbers of contexts and beliefs,
  and the positions in them are natural numbers; the counters of models, requests and queries wrap around at the width of \<open>size_t\<close>.

  \<^bold>\<open>Not modelled.\<close> The compressed blocks of the bit vectors (\<open>bm3.7.0\<close> is vendored); Boost (serialization, asio, Spirit, program options)
  and DLV, which are parameters or the frames, lists and recognized inputs they deliver; process pipes (\<open>src/process\<close>), logging
  and printing for debugging; \<open>src/solver\<close>, a copy of
  \<open>src/dmcs\<close>, and the older parsers of \<open>src/parser\<close> (\<open>NewDLVResultParser\<close> among them), which no program uses; the dynamic configuration of \<open>src/dyndmcs\<close>; the
  command lines that the generator writes, and the older generators \<open>dmcsGen\<close>, \<open>staticGen\<close> and \<open>dynGen\<close>; the query planner scripts and the test suite.
\<close>

end
